(* ===== verification/Zt_Prelude.thy ===== *)
theory Zt_Prelude
  imports Main "HOL-Library.Word"
begin

text \<open>
  Shared vocabulary of the development: the machine integers of the C++ sources as words,
  the error values the sources throw, a small result monad, bounds-checked views of C
  arrays, the big-endian encodings that the wire formats use, and the lemma collections
  that the component theories add to.

  Platform: the model fixes the ABI the code is built for on Linux and Android (LP64, little
  endian, GCC or clang): \<open>unsigned int\<close> has 32 bits, \<open>unsigned long\<close> and \<open>size_t\<close> have 64.
\<close>

unbundle bit_operations_syntax

section \<open>Machine integers and errors\<close>

type_synonym u8 = "8 word"
type_synonym u16 = "16 word"
type_synonym u32 = "32 word"
type_synonym u64 = "64 word"
type_synonym bytes = "u8 list"

text \<open>
  The exception codes of \<^verbatim>\<open>node/Constants.hpp\<close> (thrown as plain ints), and one more value for
  what the C++ standard leaves undefined: reading or writing outside an array, shifting by the
  width of the type.
\<close>

datatype zt_error =
    OutOfBounds
  | OutOfMemory
  | PrivateKeyRequired
  | InvalidArgument
  | InvalidType
  | SerializedOverflow
  | InvalidCryptographicToken
  | BadEncoding
  | UndefinedBehaviour

fun zt_exception_code :: "zt_error \<Rightarrow> int option" where
  "zt_exception_code OutOfBounds = Some 100"
| "zt_exception_code OutOfMemory = Some 101"
| "zt_exception_code PrivateKeyRequired = Some 102"
| "zt_exception_code InvalidArgument = Some 103"
| "zt_exception_code InvalidType = Some 200"
| "zt_exception_code SerializedOverflow = Some 201"
| "zt_exception_code InvalidCryptographicToken = Some 202"
| "zt_exception_code BadEncoding = Some 203"
| "zt_exception_code UndefinedBehaviour = None"

type_synonym 'a res = "zt_error + 'a"

definition res_bind :: "'a res \<Rightarrow> ('a \<Rightarrow> 'b res) \<Rightarrow> 'b res" where
  "res_bind m f = (case m of Inl e \<Rightarrow> Inl e | Inr x \<Rightarrow> f x)"

definition res_guard :: "bool \<Rightarrow> zt_error \<Rightarrow> unit res" where
  "res_guard b e = (if b then Inr () else Inl e)"

fun is_ub :: "'a res \<Rightarrow> bool" where
  "is_ub (Inl e) = (e = UndefinedBehaviour)"
| "is_ub (Inr _) = False"

lemma res_bind_simps [simp]:
  "res_bind (Inl e) f = Inl e"
  "res_bind (Inr x) f = f x"
  by (simp_all add: res_bind_def)

lemma res_bind_split:
  "P (res_bind m f) = ((\<forall>e. m = Inl e \<longrightarrow> P (Inl e)) \<and> (\<forall>x. m = Inr x \<longrightarrow> P (f x)))"
  by (cases m) simp_all

lemma res_bind_split_asm:
  "P (res_bind m f) = (\<not> ((\<exists>e. m = Inl e \<and> \<not> P (Inl e)) \<or> (\<exists>x. m = Inr x \<and> \<not> P (f x))))"
  by (cases m) simp_all

lemmas res_bind_splits = res_bind_split res_bind_split_asm

lemma res_bind_Inr_iff: "res_bind m f = Inr y \<longleftrightarrow> (\<exists>x. m = Inr x \<and> f x = Inr y)"
  by (cases m) simp_all

lemma res_bind_assoc: "res_bind (res_bind m f) g = res_bind m (\<lambda>x. res_bind (f x) g)"
  by (cases m) simp_all

lemma res_guard_simps [simp]:
  "res_guard True e = Inr ()"
  "res_guard False e = Inl e"
  by (simp_all add: res_guard_def)

lemma res_guard_Inr_iff [simp]: "res_guard b e = Inr u \<longleftrightarrow> b"
  by (simp add: res_guard_def)

lemma not_is_ub_bindI:
  "\<not> is_ub m \<Longrightarrow> (\<And>x. m = Inr x \<Longrightarrow> \<not> is_ub (f x)) \<Longrightarrow> \<not> is_ub (res_bind m f)"
  by (cases m) auto

section \<open>C arrays\<close>

text \<open>
  A C array is a list; \<open>mem_get\<close> and \<open>mem_put\<close> are the reads and writes of \<open>memcpy\<close>, defined
  only inside the array.
\<close>

definition mem_get :: "'a list \<Rightarrow> nat \<Rightarrow> nat \<Rightarrow> 'a list option" where
  "mem_get a off n = (if off + n \<le> length a then Some (take n (drop off a)) else None)"

definition mem_put :: "'a list \<Rightarrow> nat \<Rightarrow> 'a list \<Rightarrow> 'a list option" where
  "mem_put a off xs =
     (if off + length xs \<le> length a then Some (take off a @ xs @ drop (off + length xs) a)
      else None)"

definition rd :: "'a list \<Rightarrow> nat \<Rightarrow> 'a res" where
  "rd a i = (if i < length a then Inr (a ! i) else Inl UndefinedBehaviour)"

lemma rd_simps [simp]:
  "i < length a \<Longrightarrow> rd a i = Inr (a ! i)"
  "\<not> i < length a \<Longrightarrow> rd a i = Inl UndefinedBehaviour"
  by (simp_all add: rd_def)

definition wr :: "'a list \<Rightarrow> nat \<Rightarrow> 'a \<Rightarrow> 'a list res" where
  "wr a i v = (if i < length a then Inr (a[i := v]) else Inl UndefinedBehaviour)"

lemma wr_simps [simp]:
  "i < length a \<Longrightarrow> wr a i v = Inr (a[i := v])"
  "\<not> i < length a \<Longrightarrow> wr a i v = Inl UndefinedBehaviour"
  by (simp_all add: wr_def)

lemma length_mem_put: "mem_put a off xs = Some b \<Longrightarrow> length b = length a"
  by (auto simp: mem_put_def split: if_splits)

lemma length_mem_get: "mem_get a off n = Some b \<Longrightarrow> length b = n"
  by (auto simp: mem_get_def split: if_splits)

lemma nth_mem_put:
  assumes "mem_put a off xs = Some b" "i < length a"
  shows "b ! i = (if off \<le> i \<and> i < off + length xs then xs ! (i - off) else a ! i)"
proof -
  from assms have le: "off + length xs \<le> length a" and
    b: "b = take off a @ xs @ drop (off + length xs) a"
    by (auto simp: mem_put_def split: if_splits)
  consider "i < off" | "off \<le> i" "i < off + length xs" | "off + length xs \<le> i" by linarith
  then show ?thesis
    by cases (use assms(2) le in \<open>simp_all add: b nth_append min_absorb2 less_diff_conv2 not_less\<close>)
qed

text \<open>\<open>memcpy(dst + off, src + soff, n)\<close>, undefined when either range leaves its array.\<close>

definition memcpy :: "'a list \<Rightarrow> nat \<Rightarrow> 'a list \<Rightarrow> nat \<Rightarrow> nat \<Rightarrow> 'a list res" where
  "memcpy dst off src soff n =
     (case mem_get src soff n of
        None \<Rightarrow> Inl UndefinedBehaviour
      | Some xs \<Rightarrow> (case mem_put dst off xs of
                     None \<Rightarrow> Inl UndefinedBehaviour
                   | Some dst' \<Rightarrow> Inr dst'))"

lemma memcpy_ok:
  "off + n \<le> length dst \<Longrightarrow> soff + n \<le> length src \<Longrightarrow>
   memcpy dst off src soff n = Inr (take off dst @ take n (drop soff src) @ drop (off + n) dst)"
  by (simp add: memcpy_def mem_get_def mem_put_def min_absorb2)

lemma memcpy_Inr_iff:
  "memcpy dst off src soff n = Inr d \<longleftrightarrow>
     off + n \<le> length dst \<and> soff + n \<le> length src \<and>
     d = take off dst @ take n (drop soff src) @ drop (off + n) dst"
  by (auto simp: memcpy_def mem_get_def mem_put_def min_absorb2)

lemma length_memcpy: "memcpy dst off src soff n = Inr d \<Longrightarrow> length d = length dst"
  by (auto simp: memcpy_Inr_iff)

lemma nth_memcpy:
  assumes "memcpy dst off src soff n = Inr d" "i < length dst"
  shows "d ! i = (if off \<le> i \<and> i < off + n then src ! (soff + (i - off)) else dst ! i)"
proof -
  from assms(1) have le: "off + n \<le> length dst" "soff + n \<le> length src"
    and put: "mem_put dst off (take n (drop soff src)) = Some d"
    by (auto simp: memcpy_Inr_iff mem_put_def min_absorb2)
  from nth_mem_put [OF put assms(2)] le show ?thesis by (auto simp: min_absorb2)
qed

section \<open>Word arithmetic\<close>

named_theorems word_nat \<open>moving word arithmetic to the naturals when nothing wraps\<close>

lemma unat_add_nowrap [word_nat]:
  "unat (a::'a::len word) + unat b < 2 ^ LENGTH('a) \<Longrightarrow> unat (a + b) = unat a + unat b"
  by (simp add: unat_add_lem [THEN iffD1])

lemma unat_sub_nowrap [word_nat]: "b \<le> a \<Longrightarrow> unat (a - b :: 'a::len word) = unat a - unat b"
  by (rule unat_sub)

lemma unat_of_nat_nowrap [word_nat]:
  "n < 2 ^ LENGTH('a) \<Longrightarrow> unat (of_nat n :: 'a::len word) = n"
  by (simp add: unat_of_nat)

lemma unat_lt2p': "unat (a::'a::len word) < 2 ^ LENGTH('a)"
  by (rule unsigned_less)

lemmas unat_bounds =
  unat_lt2p' [where 'a = 8, simplified]
  unat_lt2p' [where 'a = 16, simplified]
  unat_lt2p' [where 'a = 32, simplified]
  unat_lt2p' [where 'a = 64, simplified]

lemma unat_ucast_up:
  assumes "LENGTH('a) \<le> LENGTH('b)"
  shows "unat (ucast (v::'a::len word) :: 'b::len word) = unat v"
proof -
  have "unat v < 2 ^ LENGTH('a)" by (rule unat_lt2p')
  also have "(2::nat) ^ LENGTH('a) \<le> 2 ^ LENGTH('b)" using assms by (intro power_increasing) simp_all
  finally show ?thesis by (simp only: unsigned_ucast_eq take_bit_eq_mod mod_less)
qed

text \<open>\<open>int64_t\<close> is a 64-bit word read by \<open>sint\<close>; a difference outside its range is undefined.\<close>

definition i64_sub :: "u64 \<Rightarrow> u64 \<Rightarrow> u64 res" where
  "i64_sub a b =
     (let d = sint a - sint b in
      if - (2 ^ 63) \<le> d \<and> d < 2 ^ 63 then Inr (a - b) else Inl UndefinedBehaviour)"

section \<open>Big-endian integers\<close>

text \<open>
  \<open>word_bytes_be\<close> is the byte loop of \<open>Buffer::setAt\<close>/\<open>append\<close>, \<open>be_word\<close> the one of
  \<open>Buffer::at\<close> (the \<open>ZT_NO_TYPE_PUNNING\<close> branches; on a little-endian host \<open>hton\<close> gives the same
  bytes, see theory \<open>Zt_Utils\<close>).
\<close>

definition word_bytes_be :: "'a::len word \<Rightarrow> bytes" where
  "word_bytes_be v = map (\<lambda>i. ucast (drop_bit (8 * i) v)) (rev [0..<LENGTH('a) div 8])"

definition be_word :: "bytes \<Rightarrow> 'a::len word" where
  "be_word bs = foldl (\<lambda>v b. push_bit 8 v OR ucast b) 0 bs"

lemma length_word_bytes_be [simp]: "length (word_bytes_be (v::'a::len word)) = LENGTH('a) div 8"
  by (simp add: word_bytes_be_def)

lemma be_word_snoc: "be_word (bs @ [b]) = push_bit 8 (be_word bs) OR ucast b"
  by (simp add: be_word_def)

lemma be_word_Nil [simp]: "be_word [] = 0"
  by (simp add: be_word_def)

lemma bit_be_word:
  "bit (be_word bs :: 'a::len word) n \<longleftrightarrow>
     n < LENGTH('a) \<and> n div 8 < length bs \<and> bit (rev bs ! (n div 8)) (n mod 8)"
proof (induction bs arbitrary: n rule: rev_induct)
  case Nil
  show ?case by simp
next
  case (snoc b bs)
  show ?case
  proof (cases "n < 8")
    case True
    then show ?thesis by (auto simp: be_word_snoc bit_simps)
  next
    case False
    then obtain m where m: "n = m + 8" by (metis add.commute le_Suc_ex linorder_not_less)
    have high: "\<not> bit b (m + 8)" using bit_imp_le_length [of b "m + 8"] by auto
    have "bit (be_word (bs @ [b]) :: 'a word) n \<longleftrightarrow> n < LENGTH('a) \<and> bit (be_word bs :: 'a word) m"
      using high by (simp add: be_word_snoc m bit_simps)
    also have "\<dots> \<longleftrightarrow> n < LENGTH('a) \<and> m div 8 < length bs \<and> bit (rev bs ! (m div 8)) (m mod 8)"
      using snoc.IH [of m] m by auto
    finally show ?thesis by (simp add: m div_add_self2)
  qed
qed

lemma nth_rev_word_bytes_be:
  "i < LENGTH('a) div 8 \<Longrightarrow> rev (word_bytes_be (v::'a::len word)) ! i = ucast (drop_bit (8 * i) v)"
  by (simp add: word_bytes_be_def rev_map)

lemma be_word_word_bytes_be:
  assumes "LENGTH('a) mod 8 = 0"
  shows "be_word (word_bytes_be (v::'a::len word)) = v"
proof (rule bit_word_eqI)
  fix n assume n: "n < LENGTH('a)"
  from assms obtain k where k: "LENGTH('a) = 8 * k" by (metis mod_0_imp_dvd dvd_def)
  with n have "n div 8 < LENGTH('a) div 8" by auto
  with n show "bit (be_word (word_bytes_be v) :: 'a word) n = bit v n"
    by (simp add: bit_be_word nth_rev_word_bytes_be bit_simps)
qed

lemma ucast_and_ff: "(ucast (x AND 0xff :: 'a::len word) :: u8) = ucast x"
proof -
  have "(0xff :: 'a word) = mask 8" by (simp add: mask_eq_exp_minus_1)
  then have "x AND 0xff = take_bit 8 x" by (simp add: take_bit_eq_mask)
  then show ?thesis by (intro bit_word_eqI) (auto simp: bit_simps)
qed

lemma be_word_low_bytes:
  assumes "8 * n \<le> LENGTH('a)"
  shows "be_word (map (\<lambda>k. ucast (drop_bit (8 * k) (v::'a::len word))) (rev [0..<n])) = take_bit (8 * n) v"
proof (rule bit_word_eqI)
  fix i assume i: "i < LENGTH('a)"
  have "i div 8 < n \<longleftrightarrow> i < 8 * n" by (simp add: div_less_iff_less_mult mult.commute)
  then show "bit (be_word (map (\<lambda>k. ucast (drop_bit (8 * k) v)) (rev [0..<n])) :: 'a word) i =
      bit (take_bit (8 * n) v) i"
    using i by (auto simp: bit_be_word rev_map bit_simps)
qed

lemma word_bytes_be_be_word:
  assumes "length bs = LENGTH('a) div 8" "LENGTH('a) mod 8 = 0"
  shows "word_bytes_be (be_word bs :: 'a::len word) = bs"
proof -
  have "rev (word_bytes_be (be_word bs :: 'a word)) = rev bs"
  proof (rule nth_equalityI)
    show "length (rev (word_bytes_be (be_word bs :: 'a word))) = length (rev bs)"
      using assms(1) by simp
    fix i assume "i < length (rev (word_bytes_be (be_word bs :: 'a word)))"
    then have i: "i < LENGTH('a) div 8" by simp
    have L: "LENGTH('a) = 8 * (LENGTH('a) div 8)" using assms(2) by auto
    show "rev (word_bytes_be (be_word bs :: 'a word)) ! i = rev bs ! i"
    proof (rule bit_word_eqI)
      fix n assume n: "n < LENGTH(8)"
      then have lt: "8 * i + n < LENGTH('a)" using i L by simp
      have "(8 * i + n) div 8 = i" "(8 * i + n) mod 8 = n" using n by simp_all
      then show "bit (rev (word_bytes_be (be_word bs :: 'a word)) ! i) n = bit (rev bs ! i) n"
        using n i lt assms(1) by (simp add: nth_rev_word_bytes_be bit_simps bit_be_word add.commute)
    qed
  qed
  then show ?thesis by simp
qed

text \<open>The in-memory (little-endian) form of an integer, and the byte swap between the two orders.\<close>

definition le_word :: "bytes \<Rightarrow> 'a::len word" where
  "le_word bs = be_word (rev bs)"

definition le_bytes :: "'a::len word \<Rightarrow> bytes" where
  "le_bytes v = rev (word_bytes_be v)"

definition bswap :: "'a::len word \<Rightarrow> 'a word" where
  "bswap v = be_word (rev (word_bytes_be v))"

lemma length_le_bytes [simp]: "length (le_bytes (v::'a::len word)) = LENGTH('a) div 8"
  by (simp add: le_bytes_def)

lemma le_word_le_bytes: "LENGTH('a) mod 8 = 0 \<Longrightarrow> le_word (le_bytes (v::'a::len word)) = v"
  by (simp add: le_word_def le_bytes_def be_word_word_bytes_be)

lemma le_bytes_le_word:
  "length bs = LENGTH('a) div 8 \<Longrightarrow> LENGTH('a) mod 8 = 0 \<Longrightarrow> le_bytes (le_word bs :: 'a::len word) = bs"
  by (simp add: le_word_def le_bytes_def word_bytes_be_be_word)

lemma bswap_le_word:
  "length bs = LENGTH('a) div 8 \<Longrightarrow> LENGTH('a) mod 8 = 0 \<Longrightarrow> bswap (le_word bs :: 'a::len word) = be_word bs"
  by (simp add: bswap_def le_word_def word_bytes_be_be_word)

lemma bswap_bswap: "LENGTH('a) mod 8 = 0 \<Longrightarrow> bswap (bswap (v::'a::len word)) = v"
  by (simp add: bswap_def word_bytes_be_be_word be_word_word_bytes_be)

lemma le_bytes_bswap: "LENGTH('a) mod 8 = 0 \<Longrightarrow> le_bytes (bswap (v::'a::len word)) = word_bytes_be v"
  by (simp add: bswap_def le_bytes_def word_bytes_be_be_word)

lemma bswap_le_bytes: "LENGTH('a) mod 8 = 0 \<Longrightarrow> word_bytes_be (bswap (v::'a::len word)) = le_bytes v"
  by (simp add: bswap_def le_bytes_def word_bytes_be_be_word)

end
