(* ===== verification/Ring_Buffer.thy ===== *)
theory Ring_Buffer
  imports Zt_Prelude
begin

text \<open>
  \<^verbatim>\<open>libzt/src/RingBuffer.cpp\<close> and \<^verbatim>\<open>libzt/include/RingBuffer.h\<close>: the byte ring buffer of
  the stack drivers. All index arithmetic stays on \<open>size_t\<close> (64-bit words), and the two
  \<open>memcpy\<close> calls of \<open>write\<close> and \<open>read\<close> are the partial \<open>memcpy\<close> of the prelude, so that
  \<open>UndefinedBehaviour\<close> is a possible value of the model. The contract is the locale
  \<open>bounded_fifo\<close>: a bounded first-in first-out queue of bytes.
\<close>

section \<open>The code\<close>

record ring_buffer =
  rb_buf :: bytes
  rb_size :: u64
  rb_begin :: u64
  rb_end :: u64
  rb_wrap :: bool

text \<open>The constructor; \<open>mem\<close> is the uninitialised array that \<open>new\<close> returns.\<close>

definition rb_new :: "u64 \<Rightarrow> bytes \<Rightarrow> ring_buffer" where
  "rb_new sz mem =
     \<lparr>rb_buf = mem, rb_size = sz, rb_begin = 0, rb_end = 0, rb_wrap = False\<rparr>"

definition rb_count :: "ring_buffer \<Rightarrow> u64" where
  "rb_count rb =
     (if rb_end rb = rb_begin rb then (if rb_wrap rb then rb_size rb else 0)
      else if rb_end rb > rb_begin rb then rb_end rb - rb_begin rb
      else rb_size rb + rb_end rb - rb_begin rb)"

definition rb_getFree :: "ring_buffer \<Rightarrow> u64" where
  "rb_getFree rb = rb_size rb - rb_count rb"

definition rb_get_buf :: "ring_buffer \<Rightarrow> bytes" where
  "rb_get_buf rb = drop (unat (rb_begin rb)) (rb_buf rb)"

definition rb_produce :: "ring_buffer \<Rightarrow> u64 \<Rightarrow> u64 \<times> ring_buffer" where
  "rb_produce rb n0 =
     (let n = min n0 (rb_getFree rb) in
      if n = 0 then (n, rb)
      else
        let first_chunk = min n (rb_size rb - rb_end rb);
            end1 = (rb_end rb + first_chunk) mod rb_size rb;
            end2 = (if first_chunk < n then (end1 + (n - first_chunk)) mod rb_size rb else end1);
            rb1 = rb\<lparr>rb_end := end2\<rparr>
        in (n, if rb_begin rb1 = rb_end rb1 then rb1\<lparr>rb_wrap := True\<rparr> else rb1))"

definition rb_consume :: "ring_buffer \<Rightarrow> u64 \<Rightarrow> u64 \<times> ring_buffer" where
  "rb_consume rb n0 =
     (let n = min n0 (rb_count rb) in
      if n = 0 then (n, rb)
      else
        let rb0 = (if rb_wrap rb then rb\<lparr>rb_wrap := False\<rparr> else rb);
            first_chunk = min n (rb_size rb0 - rb_begin rb0);
            begin1 = (rb_begin rb0 + first_chunk) mod rb_size rb0;
            begin2 = (if first_chunk < n then (begin1 + (n - first_chunk)) mod rb_size rb0
                      else begin1)
        in (n, rb0\<lparr>rb_begin := begin2\<rparr>))"

definition rb_reset :: "ring_buffer \<Rightarrow> ring_buffer" where
  "rb_reset rb = snd (rb_consume rb (rb_count rb))"

definition rb_write :: "ring_buffer \<Rightarrow> bytes \<Rightarrow> u64 \<Rightarrow> (u64 \<times> ring_buffer) res" where
  "rb_write rb data n0 =
     (let n = min n0 (rb_getFree rb) in
      if n = 0 then Inr (n, rb)
      else
        let first_chunk = min n (rb_size rb - rb_end rb) in
        res_bind (memcpy (rb_buf rb) (unat (rb_end rb)) data 0 (unat first_chunk)) (\<lambda>buf1.
        let end1 = (rb_end rb + first_chunk) mod rb_size rb in
        res_bind
          (if first_chunk < n then
             let second_chunk = n - first_chunk in
             res_bind (memcpy buf1 (unat end1) data (unat first_chunk) (unat second_chunk)) (\<lambda>buf2.
             Inr (buf2, (end1 + second_chunk) mod rb_size rb))
           else Inr (buf1, end1))
          (\<lambda>(buf', end').
             let rb1 = rb\<lparr>rb_buf := buf', rb_end := end'\<rparr> in
             Inr (n, if rb_begin rb1 = rb_end rb1 then rb1\<lparr>rb_wrap := True\<rparr> else rb1))))"

definition rb_read :: "ring_buffer \<Rightarrow> bytes \<Rightarrow> u64 \<Rightarrow> (u64 \<times> bytes \<times> ring_buffer) res" where
  "rb_read rb dest n0 =
     (let n = min n0 (rb_count rb) in
      if n = 0 then Inr (n, dest, rb)
      else
        let rb0 = (if rb_wrap rb then rb\<lparr>rb_wrap := False\<rparr> else rb);
            first_chunk = min n (rb_size rb0 - rb_begin rb0)
        in
        res_bind (memcpy dest 0 (rb_buf rb0) (unat (rb_begin rb0)) (unat first_chunk)) (\<lambda>dest1.
        let begin1 = (rb_begin rb0 + first_chunk) mod rb_size rb0 in
        if first_chunk < n then
          let second_chunk = n - first_chunk in
          res_bind (memcpy dest1 (unat first_chunk) (rb_buf rb0) (unat begin1) (unat second_chunk))
            (\<lambda>dest2. Inr (n, dest2, rb0\<lparr>rb_begin := (begin1 + second_chunk) mod rb_size rb0\<rparr>))
        else Inr (n, dest1, rb0\<lparr>rb_begin := begin1\<rparr>)))"

section \<open>The contract: a bounded queue of bytes\<close>

text \<open>
  \<open>put s xs\<close> offers the elements of \<open>xs\<close> and returns how many were taken; \<open>get s n\<close> returns up to
  \<open>n\<close> elements. \<open>None\<close> is undefined behaviour. \<open>fits\<close> bounds the request sizes that the
  implementation's integers can express.
\<close>

datatype 'a fifo_op = Put "'a list" | Get nat

fun fifo_run ::
  "('s \<Rightarrow> 'a list \<Rightarrow> (nat \<times> 's) option) \<Rightarrow> ('s \<Rightarrow> nat \<Rightarrow> ('a list \<times> 's) option) \<Rightarrow>
   's \<Rightarrow> 'a fifo_op list \<Rightarrow> ('a list \<times> 'a list \<times> 's) option" where
  "fifo_run put get s [] = Some ([], [], s)"
| "fifo_run put get s (Put xs # ops) =
     (case put s xs of
        None \<Rightarrow> None
      | Some (k, s') \<Rightarrow> (case fifo_run put get s' ops of
                         None \<Rightarrow> None
                       | Some (acc, del, t) \<Rightarrow> Some (take k xs @ acc, del, t)))"
| "fifo_run put get s (Get n # ops) =
     (case get s n of
        None \<Rightarrow> None
      | Some (ys, s') \<Rightarrow> (case fifo_run put get s' ops of
                          None \<Rightarrow> None
                        | Some (acc, del, t) \<Rightarrow> Some (acc, ys @ del, t)))"

fun fifo_op_size :: "'a fifo_op \<Rightarrow> nat" where
  "fifo_op_size (Put xs) = length xs"
| "fifo_op_size (Get n) = n"

locale bounded_fifo =
  fixes content :: "'s \<Rightarrow> 'a list"
    and capacity :: "'s \<Rightarrow> nat"
    and invar :: "'s \<Rightarrow> bool"
    and fits :: "nat \<Rightarrow> bool"
    and put :: "'s \<Rightarrow> 'a list \<Rightarrow> (nat \<times> 's) option"
    and get :: "'s \<Rightarrow> nat \<Rightarrow> ('a list \<times> 's) option"
  assumes content_le: "invar s \<Longrightarrow> length (content s) \<le> capacity s"
    and put_law: "invar s \<Longrightarrow> fits (length xs) \<Longrightarrow>
      \<exists>s'. put s xs = Some (min (length xs) (capacity s - length (content s)), s') \<and> invar s' \<and>
           capacity s' = capacity s \<and>
           content s' = content s @ take (capacity s - length (content s)) xs"
    and get_law: "invar s \<Longrightarrow> fits n \<Longrightarrow>
      \<exists>s'. get s n = Some (take n (content s), s') \<and> invar s' \<and>
           capacity s' = capacity s \<and> content s' = drop n (content s)"
begin

lemma run_fifo:
  assumes "invar s" "\<And>op. op \<in> set ops \<Longrightarrow> fits (fifo_op_size op)"
  shows "\<exists>acc del s'. fifo_run put get s ops = Some (acc, del, s') \<and> invar s' \<and>
           capacity s' = capacity s \<and> content s @ acc = del @ content s'"
  using assms
proof (induction ops arbitrary: s)
  case Nil
  then show ?case by simp
next
  case (Cons op ops)
  show ?case
  proof (cases op)
    case (Put xs)
    with Cons.prems(2) [of op] have "fits (length xs)" by simp
    from put_law [OF Cons.prems(1) this] obtain s1 where
      s1: "put s xs = Some (min (length xs) (capacity s - length (content s)), s1)" "invar s1"
        "capacity s1 = capacity s"
        "content s1 = content s @ take (capacity s - length (content s)) xs"
      by blast
    from Cons.IH [OF s1(2)] Cons.prems(2) obtain acc del s' where
      run: "fifo_run put get s1 ops = Some (acc, del, s')" "invar s'" "capacity s' = capacity s1"
        "content s1 @ acc = del @ content s'"
      by auto
    moreover have "take (min (length xs) k) xs = take k xs" for k by (simp add: min_def)
    ultimately show ?thesis using s1 Put by simp
  next
    case (Get n)
    with Cons.prems(2) [of op] have "fits n" by simp
    from get_law [OF Cons.prems(1) this] obtain s1 where
      s1: "get s n = Some (take n (content s), s1)" "invar s1" "capacity s1 = capacity s"
        "content s1 = drop n (content s)"
      by blast
    from Cons.IH [OF s1(2)] Cons.prems(2) obtain acc del s' where
      run: "fifo_run put get s1 ops = Some (acc, del, s')" "invar s'" "capacity s' = capacity s1"
        "content s1 @ acc = del @ content s'"
      by auto
    then have "content s @ acc = take n (content s) @ del @ content s'"
      using s1(4) by (metis append_assoc append_take_drop_id)
    with s1 run Get show ?thesis by simp
  qed
qed

lemma put_then_get:
  assumes "invar s" "content s = []" "fits (length xs)" "length xs \<le> capacity s"
  shows "\<exists>s1 s2. put s xs = Some (length xs, s1) \<and> get s1 (length xs) = Some (xs, s2) \<and>
           content s2 = []"
proof -
  from put_law [OF assms(1,3)] assms obtain s1 where
    s1: "put s xs = Some (length xs, s1)" "invar s1" "content s1 = xs"
    by (auto simp: min_def)
  from get_law [OF s1(2) assms(3)] s1(3) show ?thesis using s1 by auto
qed

end

section \<open>The ring buffer meets the contract\<close>

definition rb_ok :: "ring_buffer \<Rightarrow> bool" where
  "rb_ok rb \<longleftrightarrow> length (rb_buf rb) = unat (rb_size rb) \<and>
     (if rb_size rb = 0 then rb_begin rb = 0 \<and> rb_end rb = 0
      else rb_begin rb < rb_size rb \<and> rb_end rb < rb_size rb) \<and>
     (rb_wrap rb \<longrightarrow> rb_begin rb = rb_end rb)"

definition rb_content :: "ring_buffer \<Rightarrow> bytes" where
  "rb_content rb =
     map (\<lambda>i. rb_buf rb ! ((unat (rb_begin rb) + i) mod unat (rb_size rb)))
         [0..<unat (rb_count rb)]"

lemma rb_count_nat:
  assumes "rb_ok rb"
  shows "unat (rb_count rb) =
    (if rb_end rb = rb_begin rb then (if rb_wrap rb then unat (rb_size rb) else 0)
     else if rb_begin rb < rb_end rb then unat (rb_end rb) - unat (rb_begin rb)
     else unat (rb_size rb) + unat (rb_end rb) - unat (rb_begin rb))"
proof -
  have "unat (rb_size rb + rb_end rb - rb_begin rb) =
      unat (rb_size rb) + unat (rb_end rb) - unat (rb_begin rb)"
    if "rb_end rb < rb_begin rb" "rb_begin rb < rb_size rb"
  proof -
    have "rb_size rb + rb_end rb - rb_begin rb = rb_size rb - (rb_begin rb - rb_end rb)"
      by simp
    moreover have "rb_begin rb - rb_end rb \<le> rb_size rb"
      using that by (simp add: word_le_nat_alt word_less_nat_alt word_nat less_imp_le)
    ultimately have "unat (rb_size rb + rb_end rb - rb_begin rb) =
        unat (rb_size rb) - (unat (rb_begin rb) - unat (rb_end rb))"
      using that by (metis unat_sub_nowrap less_imp_le)
    with that show ?thesis by (simp add: word_less_nat_alt)
  qed
  with assms show ?thesis
    by (cases "rb_size rb = 0") (simp_all add: rb_count_def rb_ok_def unat_sub_nowrap not_less)
qed

lemma rb_okD:
  assumes "rb_ok rb" "rb_size rb \<noteq> 0"
  shows "unat (rb_begin rb) < unat (rb_size rb)" "unat (rb_end rb) < unat (rb_size rb)"
    "length (rb_buf rb) = unat (rb_size rb)" "0 < unat (rb_size rb)"
  using assms by (simp_all add: rb_ok_def word_less_nat_alt unat_gt_0)

lemma rb_count_le:
  assumes "rb_ok rb"
  shows "unat (rb_count rb) \<le> unat (rb_size rb)"
proof (cases "rb_size rb = 0")
  case True
  with assms show ?thesis by (simp add: rb_count_nat) (simp add: rb_ok_def)
next
  case False
  from rb_okD [OF assms False] show ?thesis
    by (auto simp: rb_count_nat assms word_less_nat_alt)
qed

lemma rb_getFree_nat: "rb_ok rb \<Longrightarrow> unat (rb_getFree rb) = unat (rb_size rb) - unat (rb_count rb)"
  by (simp add: rb_getFree_def rb_count_le word_le_nat_alt word_nat)

lemma rb_end_mod:
  assumes "rb_ok rb" "rb_size rb \<noteq> 0"
  shows "(unat (rb_begin rb) + unat (rb_count rb)) mod unat (rb_size rb) = unat (rb_end rb)"
  using rb_okD [OF assms]
  by (simp add: rb_count_nat assms word_less_nat_alt not_less)

text \<open>The index update of all four operations: advance by \<open>n\<close> in two chunks.\<close>

definition rb_adv :: "u64 \<Rightarrow> u64 \<Rightarrow> u64 \<Rightarrow> u64" where
  "rb_adv sz x n =
     (let c = min n (sz - x); x1 = (x + c) mod sz in
      if c < n then (x1 + (n - c)) mod sz else x1)"

lemma rb_adv_step:
  assumes "x < sz" "unat k \<le> unat sz - unat x"
  shows "unat ((x + k) mod sz) = (unat x + unat k) mod unat (sz::u64)"
proof -
  have "unat x + unat k < 2 ^ LENGTH(64)"
    using assms unat_lt2p' [of sz] by (simp add: word_less_nat_alt)
  then show ?thesis by (simp add: unat_mod_distrib unat_add_nowrap)
qed

lemma unat_min: "unat (min a b :: 'a::len word) = min (unat a) (unat b)"
  by (simp add: min_def word_le_nat_alt)

lemma rb_adv_nat:
  assumes "x < sz" "n \<le> sz"
  shows "unat (rb_adv sz x n) = (unat x + unat n) mod unat sz"
proof -
  define c where "c = min n (sz - x)"
  have xs: "unat x < unat sz" "unat n \<le> unat sz" using assms by (simp_all add: word_less_nat_alt word_le_nat_alt)
  have c: "unat c = min (unat n) (unat sz - unat x)"
    using assms by (simp add: c_def unat_min unat_sub_nowrap less_imp_le)
  have x1: "unat ((x + c) mod sz) = (unat x + unat c) mod unat sz"
    using assms(1) c by (intro rb_adv_step) simp_all
  show ?thesis
  proof (cases "c < n")
    case True
    then have c': "unat c = unat sz - unat x" using c by (simp add: word_less_nat_alt)
    then have z: "(x + c) mod sz = 0" using x1 xs by (simp add: unat_eq_0 [symmetric])
    have "unat (n - c) = unat n - unat c" using True by (simp add: unat_sub_nowrap less_imp_le)
    moreover have "unat x + unat n = unat sz + (unat n - unat c)" using xs c' True
      by (simp add: word_less_nat_alt)
    ultimately show ?thesis using True z
      by (simp add: rb_adv_def c_def [symmetric] Let_def unat_mod_distrib)
  next
    case False
    then have "c = n" using c by (simp add: c_def min_def split: if_splits)
    then show ?thesis using x1 by (simp add: rb_adv_def c_def [symmetric] Let_def)
  qed
qed

lemma rb_adv_less: "x < sz \<Longrightarrow> n \<le> sz \<Longrightarrow> rb_adv sz x n < sz"
  by (simp add: word_less_nat_alt rb_adv_nat)

lemma rb_produce_adv:
  "rb_produce rb n0 =
     (let n = min n0 (rb_getFree rb); rb1 = rb\<lparr>rb_end := rb_adv (rb_size rb) (rb_end rb) n\<rparr> in
      if n = 0 then (n, rb)
      else (n, if rb_begin rb1 = rb_end rb1 then rb1\<lparr>rb_wrap := True\<rparr> else rb1))"
  by (simp add: rb_produce_def rb_adv_def Let_def)

lemma rb_consume_adv:
  "rb_consume rb n0 =
     (let n = min n0 (rb_count rb) in
      if n = 0 then (n, rb)
      else (n, rb\<lparr>rb_begin := rb_adv (rb_size rb) (rb_begin rb) n, rb_wrap := False\<rparr>))"
  by (cases rb) (simp add: rb_consume_def rb_adv_def Let_def)

text \<open>The state after an accepted write and after a non-empty read.\<close>

definition rb_pushed :: "ring_buffer \<Rightarrow> bytes \<Rightarrow> u64 \<Rightarrow> ring_buffer" where
  "rb_pushed rb buf' n =
     (let rb1 = rb\<lparr>rb_buf := buf', rb_end := rb_adv (rb_size rb) (rb_end rb) n\<rparr> in
      if rb_begin rb1 = rb_end rb1 then rb1\<lparr>rb_wrap := True\<rparr> else rb1)"

definition rb_popped :: "ring_buffer \<Rightarrow> u64 \<Rightarrow> ring_buffer" where
  "rb_popped rb n = rb\<lparr>rb_begin := rb_adv (rb_size rb) (rb_begin rb) n, rb_wrap := False\<rparr>"

lemma rb_pushed:
  assumes ok: "rb_ok rb" and n: "n \<noteq> 0" "n \<le> rb_getFree rb"
    and len: "length buf' = length (rb_buf rb)"
  shows "rb_ok (rb_pushed rb buf' n)"
    and "unat (rb_count (rb_pushed rb buf' n)) = unat (rb_count rb) + unat n"
proof -
  let ?s = "unat (rb_size rb)" and ?b = "unat (rb_begin rb)" and ?c = "unat (rb_count rb)"
  let ?rb' = "rb_pushed rb buf' n"
  have nn: "0 < unat n" "?c + unat n \<le> ?s"
    using n rb_getFree_nat [OF ok] rb_count_le [OF ok]
    by (simp_all add: unat_gt_0 word_le_nat_alt)
  then have sz: "rb_size rb \<noteq> 0" by auto
  note D = rb_okD [OF ok sz]
  have lt: "rb_end rb < rb_size rb" "n \<le> rb_size rb"
    using D nn by (simp_all add: word_less_nat_alt word_le_nat_alt)
  have nowrap: "\<not> rb_wrap rb"
    using nn ok rb_count_nat [OF ok] by (auto simp: rb_ok_def)
  have e': "unat (rb_end ?rb') = (?b + (?c + unat n)) mod ?s"
  proof -
    have "unat (rb_end ?rb') = (unat (rb_end rb) + unat n) mod ?s"
      by (simp add: rb_pushed_def Let_def rb_adv_nat [OF lt])
    also have "\<dots> = ((?b + ?c) mod ?s + unat n) mod ?s"
      by (simp only: rb_end_mod [OF ok sz])
    finally show ?thesis by (simp only: mod_add_left_eq add.assoc)
  qed
  have fields: "rb_size ?rb' = rb_size rb" "rb_begin ?rb' = rb_begin rb" "rb_buf ?rb' = buf'"
    "rb_wrap ?rb' \<longleftrightarrow> rb_begin rb = rb_end ?rb'"
    using nowrap by (simp_all add: rb_pushed_def Let_def)
  show ok': "rb_ok ?rb'"
    using D e' len sz fields by (simp add: rb_ok_def word_less_nat_alt)
  have "unat (rb_count ?rb') =
      (if unat (rb_end ?rb') = ?b then ?s
       else if ?b < unat (rb_end ?rb') then unat (rb_end ?rb') - ?b
       else ?s + unat (rb_end ?rb') - ?b)"
    using rb_count_nat [OF ok'] fields by (auto simp: word_less_nat_alt word_unat_eq_iff)
  also have "\<dots> = ?c + unat n"
  proof (cases "?b + (?c + unat n) < ?s")
    case True
    then show ?thesis using e' nn by simp
  next
    case False
    then have "unat (rb_end ?rb') = ?b + (?c + unat n) - ?s" using e' nn D
      by (simp add: le_mod_geq)
    then show ?thesis using False nn D by auto
  qed
  finally show "unat (rb_count ?rb') = ?c + unat n" .
qed

lemma rb_popped:
  assumes ok: "rb_ok rb" and n: "n \<noteq> 0" "n \<le> rb_count rb"
  shows "rb_ok (rb_popped rb n)"
    and "unat (rb_count (rb_popped rb n)) = unat (rb_count rb) - unat n"
proof -
  let ?s = "unat (rb_size rb)" and ?b = "unat (rb_begin rb)" and ?c = "unat (rb_count rb)"
  let ?rb' = "rb_popped rb n"
  have nn: "0 < unat n" "unat n \<le> ?c" "?c \<le> ?s"
    using n rb_count_le [OF ok] by (simp_all add: unat_gt_0 word_le_nat_alt)
  then have sz: "rb_size rb \<noteq> 0" by auto
  note D = rb_okD [OF ok sz]
  have lt: "rb_begin rb < rb_size rb" "n \<le> rb_size rb"
    using D nn by (simp_all add: word_less_nat_alt word_le_nat_alt)
  have b': "unat (rb_begin ?rb') = (?b + unat n) mod ?s"
    by (simp add: rb_popped_def rb_adv_nat [OF lt])
  have e: "unat (rb_end rb) = (?b + ?c) mod ?s" by (simp add: rb_end_mod [OF ok sz])
  have fields: "rb_size ?rb' = rb_size rb" "rb_end ?rb' = rb_end rb" "rb_buf ?rb' = rb_buf rb"
    "\<not> rb_wrap ?rb'"
    by (simp_all add: rb_popped_def)
  show ok': "rb_ok ?rb'"
    using D b' sz fields by (simp add: rb_ok_def word_less_nat_alt)
  have "unat (rb_count ?rb') =
      (if unat (rb_end rb) = unat (rb_begin ?rb') then 0
       else if unat (rb_begin ?rb') < unat (rb_end rb) then unat (rb_end rb) - unat (rb_begin ?rb')
       else ?s + unat (rb_end rb) - unat (rb_begin ?rb'))"
    using rb_count_nat [OF ok'] fields by (auto simp: word_less_nat_alt word_unat_eq_iff)
  also have "\<dots> = ?c - unat n"
  proof (cases "?b + unat n < ?s"; cases "?b + ?c < ?s")
    assume "?b + unat n < ?s" "?b + ?c < ?s"
    then show ?thesis using b' e nn by auto
  next
    assume "?b + unat n < ?s" "\<not> ?b + ?c < ?s"
    then show ?thesis using b' e nn D by (auto simp: le_mod_geq)
  next
    assume "\<not> ?b + unat n < ?s" "?b + ?c < ?s"
    then show ?thesis using nn by auto
  next
    assume "\<not> ?b + unat n < ?s" "\<not> ?b + ?c < ?s"
    then show ?thesis using b' e nn D by (auto simp: le_mod_geq)
  qed
  finally show "unat (rb_count ?rb') = ?c - unat n" .
qed

text \<open>The two \<open>memcpy\<close> calls together are one circular copy.\<close>

lemma rb_copy_in:
  assumes e: "e < s" and len: "length buf = s" and n: "n \<le> s" "n \<le> length data"
    and c: "c = min n (s - e)"
  shows "\<exists>buf1. memcpy buf e data 0 c = Inr buf1 \<and> length buf1 = s \<and>
    (c = n \<longrightarrow> (\<forall>i < s. buf1 ! ((e + i) mod s) = (if i < n then data ! i else buf ! ((e + i) mod s)))) \<and>
    (c < n \<longrightarrow> (\<exists>buf2. memcpy buf1 0 data c (n - c) = Inr buf2 \<and> length buf2 = s \<and>
       (\<forall>i < s. buf2 ! ((e + i) mod s) = (if i < n then data ! i else buf ! ((e + i) mod s)))))"
proof -
  have ix: "(e + i) mod s = (if i < s - e then e + i else i - (s - e))" if "i < s" for i
    using that e by (auto simp: le_mod_geq)
  have "e + c \<le> length buf" "0 + c \<le> length data" using assms by auto
  then obtain buf1 where b1: "memcpy buf e data 0 c = Inr buf1"
    using memcpy_ok by blast
  have l1: "length buf1 = s" using length_memcpy [OF b1] len by simp
  have n1: "buf1 ! j = (if e \<le> j \<and> j < e + c then data ! (j - e) else buf ! j)" if "j < s" for j
    using nth_memcpy [OF b1] that len by simp
  have one: "buf1 ! ((e + i) mod s) = (if i < n then data ! i else buf ! ((e + i) mod s))"
    if "c = n" "i < s" for i
    using that c e n by (auto simp: ix n1)
  have two: "\<exists>buf2. memcpy buf1 0 data c (n - c) = Inr buf2 \<and> length buf2 = s \<and>
       (\<forall>i < s. buf2 ! ((e + i) mod s) = (if i < n then data ! i else buf ! ((e + i) mod s)))"
    if cn: "c < n"
  proof -
    from cn c have c': "c = s - e" by simp
    obtain buf2 where b2: "memcpy buf1 0 data c (n - c) = Inr buf2"
      using cn n l1 by (auto simp: memcpy_Inr_iff)
    have l2: "length buf2 = s" using length_memcpy [OF b2] l1 by simp
    have n2: "buf2 ! j = (if j < n - c then data ! (c + j) else buf1 ! j)" if "j < s" for j
      using nth_memcpy [OF b2] that l1 by simp
    have "buf2 ! ((e + i) mod s) = (if i < n then data ! i else buf ! ((e + i) mod s))"
      if "i < s" for i
      using that c' cn e n by (auto simp: ix n1 n2)
    with b2 l2 show ?thesis by blast
  qed
  show ?thesis using b1 l1 one two by blast
qed

lemma rb_copy_out:
  assumes b: "b < s" and len: "length buf = s" and n: "n \<le> s" "n \<le> length dest"
    and c: "c = min n (s - b)"
  shows "\<exists>d1. memcpy dest 0 buf b c = Inr d1 \<and> length d1 = length dest \<and>
    (c = n \<longrightarrow> d1 = map (\<lambda>i. buf ! ((b + i) mod s)) [0..<n] @ drop n dest) \<and>
    (c < n \<longrightarrow> memcpy d1 c buf 0 (n - c) =
       Inr (map (\<lambda>i. buf ! ((b + i) mod s)) [0..<n] @ drop n dest))"
proof -
  have ix: "(b + i) mod s = (if i < s - b then b + i else i - (s - b))" if "i < s" for i
    using that b by (auto simp: le_mod_geq)
  let ?r = "map (\<lambda>i. buf ! ((b + i) mod s)) [0..<n] @ drop n dest"
  have nr: "?r ! j = (if j < n then buf ! ((b + j) mod s) else dest ! j)" if "j < length dest" for j
    using that n by (simp add: nth_append)
  have "0 + c \<le> length dest" "b + c \<le> length buf" using assms by auto
  then obtain d1 where d1: "memcpy dest 0 buf b c = Inr d1"
    using memcpy_ok by blast
  have l1: "length d1 = length dest" using length_memcpy [OF d1] by simp
  have n1: "d1 ! j = (if j < c then buf ! (b + j) else dest ! j)" if "j < length dest" for j
    using nth_memcpy [OF d1] that by simp
  have one: "d1 = ?r" if cn: "c = n"
  proof (rule nth_equalityI)
    show "length d1 = length ?r" using l1 n by simp
    show "d1 ! j = ?r ! j" if "j < length d1" for j
      using that cn c n l1 by (auto simp: nr n1 ix)
  qed
  have two: "memcpy d1 c buf 0 (n - c) = Inr ?r" if cn: "c < n"
  proof -
    from cn c have c': "c = s - b" by simp
    obtain d2 where d2: "memcpy d1 c buf 0 (n - c) = Inr d2"
      using cn n l1 len by (auto simp: memcpy_Inr_iff)
    have l2: "length d2 = length dest" using length_memcpy [OF d2] l1 by simp
    have n2: "d2 ! j = (if c \<le> j \<and> j < n then buf ! (j - c) else d1 ! j)" if "j < length dest" for j
      using nth_memcpy [OF d2] that l1 cn by simp
    have "d2 = ?r"
    proof (rule nth_equalityI)
      show "length d2 = length ?r" using l2 n by simp
      show "d2 ! j = ?r ! j" if "j < length d2" for j
        using that c' cn n l2 by (auto simp: nr n1 n2 ix)
    qed
    with d2 show ?thesis by simp
  qed
  show ?thesis using d1 l1 one two by blast
qed

lemma rb_chunk_nat:
  assumes "x < sz"
  shows "unat (min n (sz - x)) = min (unat n) (unat (sz::u64) - unat x)"
  using assms by (simp add: unat_min unat_sub_nowrap less_imp_le)

lemma rb_first_end:
  assumes "x < sz" "c = min n (sz - x)" "c < n"
  shows "(x + c) mod sz = (0::u64)"
  using assms by (auto simp: min_def split: if_splits)

lemma rb_write_pushed:
  assumes ok: "rb_ok rb" and n: "n = min n0 (rb_getFree rb)" "n \<noteq> 0" "unat n \<le> length data"
  shows "\<exists>buf'. rb_write rb data n0 = Inr (n, rb_pushed rb buf' n) \<and>
    length buf' = length (rb_buf rb) \<and>
    (\<forall>i < unat (rb_size rb). buf' ! ((unat (rb_end rb) + i) mod unat (rb_size rb)) =
      (if i < unat n then data ! i
       else rb_buf rb ! ((unat (rb_end rb) + i) mod unat (rb_size rb))))"
proof -
  let ?s = "unat (rb_size rb)" and ?e = "unat (rb_end rb)"
  define c where "c = min n (rb_size rb - rb_end rb)"
  have fr: "unat n \<le> ?s"
    using n(1) rb_getFree_nat [OF ok] by (simp add: unat_min)
  with n(2) have sz: "rb_size rb \<noteq> 0" by (auto simp: unat_eq_0)
  note D = rb_okD [OF ok sz]
  have lt: "rb_end rb < rb_size rb" using D by (simp add: word_less_nat_alt)
  have cn: "unat c = min (unat n) (?s - ?e)" by (simp add: c_def rb_chunk_nat [OF lt])
  have cle: "c \<le> n" by (simp add: c_def)
  from rb_copy_in [OF D(2,3) fr n(3) cn] obtain buf1 where
    b1: "memcpy (rb_buf rb) ?e data 0 (unat c) = Inr buf1" "length buf1 = ?s" and
    one: "unat c = unat n \<longrightarrow> (\<forall>i < ?s. buf1 ! ((?e + i) mod ?s) =
        (if i < unat n then data ! i else rb_buf rb ! ((?e + i) mod ?s)))" and
    two: "unat c < unat n \<longrightarrow> (\<exists>buf2. memcpy buf1 0 data (unat c) (unat n - unat c) = Inr buf2 \<and>
       length buf2 = ?s \<and> (\<forall>i < ?s. buf2 ! ((?e + i) mod ?s) =
        (if i < unat n then data ! i else rb_buf rb ! ((?e + i) mod ?s))))"
    by blast
  show ?thesis
  proof (cases "c < n")
    case True
    then have "unat c < unat n" by (simp add: word_less_nat_alt)
    with two obtain buf2 where b2: "memcpy buf1 0 data (unat c) (unat n - unat c) = Inr buf2"
      "length buf2 = ?s" "\<forall>i < ?s. buf2 ! ((?e + i) mod ?s) =
        (if i < unat n then data ! i else rb_buf rb ! ((?e + i) mod ?s))"
      by blast
    have z: "(rb_end rb + c) mod rb_size rb = 0" by (rule rb_first_end [OF lt c_def True])
    have "rb_write rb data n0 = Inr (n, rb_pushed rb buf2 n)"
      unfolding rb_write_def n(1) [symmetric] c_def [symmetric] Let_def
      using True n(2) b1 b2(1) z
      by (simp add: rb_pushed_def rb_adv_def c_def [symmetric] Let_def unat_sub_nowrap cle)
    with b2 D show ?thesis by auto
  next
    case False
    with cle have eq: "c = n" by simp
    have "rb_write rb data n0 = Inr (n, rb_pushed rb buf1 n)"
      unfolding rb_write_def n(1) [symmetric] c_def [symmetric] Let_def
      using False n(2) b1 by (simp add: rb_pushed_def rb_adv_def c_def [symmetric] Let_def)
    with b1 one eq D show ?thesis by auto
  qed
qed

lemma rb_read_popped:
  assumes ok: "rb_ok rb" and n: "n = min n0 (rb_count rb)" "n \<noteq> 0" "unat n \<le> length dest"
  shows "rb_read rb dest n0 =
    Inr (n, take (unat n) (rb_content rb) @ drop (unat n) dest, rb_popped rb n)"
proof -
  let ?s = "unat (rb_size rb)" and ?b = "unat (rb_begin rb)"
  define c where "c = min n (rb_size rb - rb_begin rb)"
  have nc: "unat n \<le> unat (rb_count rb)" by (simp add: n(1) unat_min)
  with rb_count_le [OF ok] have fr: "unat n \<le> ?s" by simp
  with n(2) have sz: "rb_size rb \<noteq> 0" by (auto simp: unat_eq_0)
  note D = rb_okD [OF ok sz]
  have lt: "rb_begin rb < rb_size rb" using D by (simp add: word_less_nat_alt)
  have cn: "unat c = min (unat n) (?s - ?b)" by (simp add: c_def rb_chunk_nat [OF lt])
  have cle: "c \<le> n" by (simp add: c_def)
  have tc: "take (unat n) (rb_content rb) = map (\<lambda>i. rb_buf rb ! ((?b + i) mod ?s)) [0..<unat n]"
    using nc by (simp add: rb_content_def take_map)
  let ?r = "take (unat n) (rb_content rb) @ drop (unat n) dest"
  from rb_copy_out [OF D(1,3) fr n(3) cn] obtain d1 where
    d1: "memcpy dest 0 (rb_buf rb) ?b (unat c) = Inr d1" and
    one: "unat c = unat n \<longrightarrow> d1 = ?r" and
    two: "unat c < unat n \<longrightarrow> memcpy d1 (unat c) (rb_buf rb) 0 (unat n - unat c) = Inr ?r"
    unfolding tc by blast
  have w: "(if rb_wrap rb then rb\<lparr>rb_wrap := False\<rparr> else rb) = rb\<lparr>rb_wrap := False\<rparr>" by simp
  show ?thesis
  proof (cases "c < n")
    case True
    have z: "(rb_begin rb + c) mod rb_size rb = 0" by (rule rb_first_end [OF lt c_def True])
    show ?thesis
      unfolding rb_read_def n(1) [symmetric] w Let_def
      using True n(2) d1 two z
      by (simp add: rb_popped_def rb_adv_def c_def [symmetric] Let_def unat_sub_nowrap cle
          word_less_nat_alt)
  next
    case False
    with cle have eq: "c = n" by simp
    show ?thesis
      unfolding rb_read_def n(1) [symmetric] w Let_def
      using False n(2) d1 one eq
      by (simp add: rb_popped_def rb_adv_def c_def [symmetric] Let_def)
  qed
qed

lemma length_rb_content [simp]: "length (rb_content rb) = unat (rb_count rb)"
  by (simp add: rb_content_def)

lemma rb_write_content:
  assumes ok: "rb_ok rb" and data: "unat n0 \<le> length data"
  shows "\<exists>rb'. rb_write rb data n0 = Inr (min n0 (rb_getFree rb), rb') \<and> rb_ok rb' \<and>
    rb_size rb' = rb_size rb \<and>
    rb_content rb' = rb_content rb @ take (unat (min n0 (rb_getFree rb))) data"
proof (cases "min n0 (rb_getFree rb) = 0")
  case True
  then show ?thesis using ok by (simp add: rb_write_def Let_def)
next
  case False
  define n where "n = min n0 (rb_getFree rb)"
  let ?s = "unat (rb_size rb)" and ?b = "unat (rb_begin rb)" and ?e = "unat (rb_end rb)"
  let ?c = "unat (rb_count rb)"
  have n0: "n \<noteq> 0" using False by (simp add: n_def)
  have le: "n \<le> rb_getFree rb" "unat n \<le> length data"
    using data by (simp_all add: n_def unat_min)
  from rb_write_pushed [OF ok n_def n0 le(2)] obtain buf' where
    w: "rb_write rb data n0 = Inr (n, rb_pushed rb buf' n)" "length buf' = length (rb_buf rb)" and
    nth: "\<And>i. i < ?s \<Longrightarrow> buf' ! ((?e + i) mod ?s) =
      (if i < unat n then data ! i else rb_buf rb ! ((?e + i) mod ?s))"
    by blast
  note P = rb_pushed [OF ok n0 le(1) w(2)]
  have cs: "?c + unat n \<le> ?s"
    using le(1) rb_getFree_nat [OF ok] rb_count_le [OF ok] by (simp add: word_le_nat_alt)
  then have sz: "rb_size rb \<noteq> 0" using n0 by (auto simp: unat_eq_0)
  have f: "rb_begin (rb_pushed rb buf' n) = rb_begin rb" "rb_size (rb_pushed rb buf' n) = rb_size rb"
    "rb_buf (rb_pushed rb buf' n) = buf'"
    by (simp_all add: rb_pushed_def Let_def)
  have new: "buf' ! ((?b + (?c + i)) mod ?s) = data ! i" if "i < unat n" for i
  proof -
    have "(?b + (?c + i)) mod ?s = (?e + i) mod ?s"
      using rb_end_mod [OF ok sz] by (metis add.assoc mod_add_left_eq)
    with nth [of i] that cs show ?thesis by simp
  qed
  have old: "buf' ! ((?b + i) mod ?s) = rb_buf rb ! ((?b + i) mod ?s)" if "i < ?c" for i
  proof -
    have "(?b + i) mod ?s = (?b + i + ?s) mod ?s" by simp
    also have "?b + i + ?s = ?b + ?c + (?s - ?c + i)" using cs by simp
    also have "(\<dots>) mod ?s = (?e + (?s - ?c + i)) mod ?s"
      using rb_end_mod [OF ok sz] by (metis mod_add_left_eq)
    finally have eq: "(?b + i) mod ?s = (?e + (?s - ?c + i)) mod ?s" .
    have "?s - ?c + i < ?s" "\<not> ?s - ?c + i < unat n" using that cs by simp_all
    with nth [of "?s - ?c + i"] show ?thesis unfolding eq by simp
  qed
  have "rb_content (rb_pushed rb buf' n) = rb_content rb @ take (unat n) data"
  proof (rule nth_equalityI)
    show "length (rb_content (rb_pushed rb buf' n)) = length (rb_content rb @ take (unat n) data)"
      using P(2) le(2) by simp
    fix i assume "i < length (rb_content (rb_pushed rb buf' n))"
    then have i: "i < ?c + unat n" using P(2) by simp
    then have "rb_content (rb_pushed rb buf' n) ! i = buf' ! ((?b + i) mod ?s)"
      using P(2) by (simp add: rb_content_def f)
    also have "\<dots> = (rb_content rb @ take (unat n) data) ! i"
      using i old [of i] new [of "i - ?c"] by (auto simp: nth_append rb_content_def)
    finally show "rb_content (rb_pushed rb buf' n) ! i = (rb_content rb @ take (unat n) data) ! i" .
  qed
  with w P f show ?thesis by (simp add: n_def)
qed

lemma rb_popped_content:
  assumes ok: "rb_ok rb" and n: "n \<noteq> 0" "n \<le> rb_count rb"
  shows "rb_content (rb_popped rb n) = drop (unat n) (rb_content rb)"
proof -
  let ?s = "unat (rb_size rb)" and ?b = "unat (rb_begin rb)"
  have nn: "0 < unat n" "unat n \<le> unat (rb_count rb)" "unat (rb_count rb) \<le> ?s"
    using n rb_count_le [OF ok] by (simp_all add: unat_gt_0 word_le_nat_alt)
  then have sz: "rb_size rb \<noteq> 0" by auto
  have lt: "rb_begin rb < rb_size rb" "n \<le> rb_size rb"
    using rb_okD [OF ok sz] nn by (simp_all add: word_less_nat_alt word_le_nat_alt)
  have f: "rb_size (rb_popped rb n) = rb_size rb" "rb_buf (rb_popped rb n) = rb_buf rb"
    "unat (rb_begin (rb_popped rb n)) = (?b + unat n) mod ?s"
    by (simp_all add: rb_popped_def rb_adv_nat [OF lt])
  show ?thesis
  proof (rule nth_equalityI)
    show "length (rb_content (rb_popped rb n)) = length (drop (unat n) (rb_content rb))"
      using rb_popped(2) [OF ok n] by simp
    fix i assume "i < length (rb_content (rb_popped rb n))"
    then have i: "i < unat (rb_count rb) - unat n" using rb_popped(2) [OF ok n] by simp
    then have "[0..<unat (rb_count rb)] ! (unat n + i) = unat n + i" by simp
    with i show "rb_content (rb_popped rb n) ! i = drop (unat n) (rb_content rb) ! i"
      using rb_popped(2) [OF ok n] by (simp add: rb_content_def f mod_add_left_eq add.assoc)
  qed
qed

lemma rb_read_content:
  assumes ok: "rb_ok rb" and dest: "unat n0 \<le> length dest"
  shows "\<exists>rb'. rb_read rb dest n0 =
      Inr (min n0 (rb_count rb),
           take (unat n0) (rb_content rb) @ drop (unat (min n0 (rb_count rb))) dest, rb') \<and>
    rb_ok rb' \<and> rb_size rb' = rb_size rb \<and> rb_content rb' = drop (unat n0) (rb_content rb)"
proof (cases "min n0 (rb_count rb) = 0")
  case True
  then have "unat n0 = 0 \<or> unat (rb_count rb) = 0"
    by (auto simp: min_def split: if_splits)
  then have "take (unat n0) (rb_content rb) = []" "drop (unat n0) (rb_content rb) = rb_content rb"
    by (auto simp: rb_content_def)
  with True ok show ?thesis by (simp add: rb_read_def Let_def)
next
  case False
  define n where "n = min n0 (rb_count rb)"
  have n0: "n \<noteq> 0" using False by (simp add: n_def)
  have le: "n \<le> rb_count rb" "unat n \<le> length dest" "unat n = min (unat n0) (unat (rb_count rb))"
    using dest by (simp_all add: n_def unat_min)
  have td: "take (unat n) (rb_content rb) = take (unat n0) (rb_content rb)"
    "drop (unat n) (rb_content rb) = drop (unat n0) (rb_content rb)"
    using le(3) by (simp_all add: min_def)
  have "rb_size (rb_popped rb n) = rb_size rb" by (simp add: rb_popped_def)
  then show ?thesis
    using rb_read_popped [OF ok n_def n0 le(2)] rb_popped(1) [OF ok n0 le(1)]
      rb_popped_content [OF ok n0 le(1)] td
    by (simp add: n_def [symmetric])
qed

text \<open>The calls the contract sees: \<open>write(xs, len)\<close>, and \<open>read\<close> into an array of \<open>n\<close> bytes.\<close>

definition rbq_put :: "ring_buffer \<Rightarrow> bytes \<Rightarrow> (nat \<times> ring_buffer) option" where
  "rbq_put rb xs =
     (case rb_write rb xs (of_nat (length xs)) of
        Inl _ \<Rightarrow> None
      | Inr (k, rb') \<Rightarrow> Some (unat k, rb'))"

definition rbq_get :: "ring_buffer \<Rightarrow> nat \<Rightarrow> (bytes \<times> ring_buffer) option" where
  "rbq_get rb n =
     (case rb_read rb (replicate n 0) (of_nat n) of
        Inl _ \<Rightarrow> None
      | Inr (k, dest, rb') \<Rightarrow> Some (take (unat k) dest, rb'))"

lemma rbq_put_law:
  assumes "rb_ok rb" "length xs < 2 ^ 64"
  shows "\<exists>rb'. rbq_put rb xs =
      Some (min (length xs) (unat (rb_size rb) - length (rb_content rb)), rb') \<and> rb_ok rb' \<and>
      unat (rb_size rb') = unat (rb_size rb) \<and>
      rb_content rb' = rb_content rb @ take (unat (rb_size rb) - length (rb_content rb)) xs"
proof -
  have u: "unat (of_nat (length xs) :: u64) = length xs" using assms by (simp add: word_nat)
  have m: "unat (min (of_nat (length xs)) (rb_getFree rb)) =
      min (length xs) (unat (rb_size rb) - length (rb_content rb))"
    using u by (simp add: unat_min rb_getFree_nat assms)
  have t: "take (min (length xs) k) xs = take k xs" for k by (simp add: min_def)
  from rb_write_content [OF assms(1), of "of_nat (length xs)" xs] u m t show ?thesis
    by (auto simp: rbq_put_def)
qed

lemma rbq_get_law:
  assumes "rb_ok rb" "n < 2 ^ 64"
  shows "\<exists>rb'. rbq_get rb n = Some (take n (rb_content rb), rb') \<and> rb_ok rb' \<and>
      unat (rb_size rb') = unat (rb_size rb) \<and> rb_content rb' = drop n (rb_content rb)"
proof -
  have u: "unat (of_nat n :: u64) = n" using assms by (simp add: word_nat)
  have m: "unat (min (of_nat n) (rb_count rb)) = length (take n (rb_content rb))"
    using u by (simp add: unat_min min.commute)
  have "take (unat (min (of_nat n) (rb_count rb)))
      (take n (rb_content rb) @ drop (unat (min (of_nat n) (rb_count rb))) (replicate n 0)) =
      take n (rb_content rb)"
    unfolding m by (cases "n \<le> unat (rb_count rb)") simp_all
  with rb_read_content [OF assms(1), of "of_nat n" "replicate n 0"] u show ?thesis
    by (auto simp: rbq_get_def)
qed

interpretation rbq: bounded_fifo rb_content "\<lambda>rb. unat (rb_size rb)" rb_ok "\<lambda>n. n < 2 ^ 64"
    rbq_put rbq_get
proof unfold_locales
  show "length (rb_content s) \<le> unat (rb_size s)" if "rb_ok s" for s
    using rb_count_le [OF that] by simp
qed (rule rbq_put_law rbq_get_law; assumption)+

lemma rb_new_ok: "length mem = unat sz \<Longrightarrow> rb_ok (rb_new sz mem) \<and> rb_content (rb_new sz mem) = []"
  by (simp add: rb_new_def rb_ok_def rb_content_def rb_count_def word_less_nat_alt unat_gt_0)

lemma rb_write_produce:
  assumes "rb_write rb data n = Inr (k, rb')"
  shows "rb_produce rb n = (k, rb'\<lparr>rb_buf := rb_buf rb\<rparr>)"
proof (cases "min n (rb_getFree rb) = 0")
  case True
  with assms show ?thesis by (simp add: rb_write_def rb_produce_def)
next
  case False
  define m c where "m = min n (rb_getFree rb)" and "c = min m (rb_size rb - rb_end rb)"
  show ?thesis
    using assms False
    unfolding rb_write_def rb_produce_def Let_def m_def [symmetric] c_def [symmetric]
    by (cases "c < m") (clarsimp simp: res_bind_Inr_iff)+
qed

lemma rb_read_consume:
  assumes "rb_read rb dest n = Inr (k, dest', rb')"
  shows "rb_consume rb n = (k, rb')"
proof (cases "min n (rb_count rb) = 0")
  case True
  with assms show ?thesis by (simp add: rb_read_def rb_consume_def)
next
  case False
  define m c where "m = min n (rb_count rb)" and "c = min m (rb_size rb - rb_begin rb)"
  have w: "(if rb_wrap rb then rb\<lparr>rb_wrap := False\<rparr> else rb) = rb\<lparr>rb_wrap := False\<rparr>" by simp
  have f: "rb_size (rb\<lparr>rb_wrap := False\<rparr>) = rb_size rb" "rb_begin (rb\<lparr>rb_wrap := False\<rparr>) = rb_begin rb"
    by simp_all
  show ?thesis
    using assms False
    unfolding rb_read_def rb_consume_def Let_def w f m_def [symmetric] c_def [symmetric]
    by (cases "c < m") (clarsimp simp: res_bind_Inr_iff)+
qed

section \<open>Properties\<close>

text \<open>
  C1. The ring buffer is a bounded FIFO of bytes with no undefined behaviour: starting from the
  constructor, any sequence of writes and reads runs to the end (no \<open>memcpy\<close> leaves its array),
  the bytes the writes accepted are exactly those the reads delivered followed by those still
  held, in order, and never more than \<open>size\<close> bytes are held.
\<close>

theorem ring_buffer_fifo:
  assumes "length mem = unat sz"
    and "\<And>op. op \<in> set ops \<Longrightarrow> fifo_op_size op < 2 ^ 64"
  shows "\<exists>accepted delivered rb'.
    fifo_run rbq_put rbq_get (rb_new sz mem) ops = Some (accepted, delivered, rb') \<and>
    accepted = delivered @ rb_content rb' \<and> length (rb_content rb') \<le> unat sz"
proof -
  note new = rb_new_ok [OF assms(1)]
  from rbq.run_fifo [of "rb_new sz mem" ops] new assms(2) obtain acc del rb' where
    run: "fifo_run rbq_put rbq_get (rb_new sz mem) ops = Some (acc, del, rb')" "rb_ok rb'"
      "unat (rb_size rb') = unat (rb_size (rb_new sz mem))"
      "rb_content (rb_new sz mem) @ acc = del @ rb_content rb'"
    by blast
  with rbq.content_le [OF run(2)] new show ?thesis by (auto simp: rb_new_def)
qed

theorem ring_buffer_fifo_witness:
  "\<exists>accepted delivered rb'.
    fifo_run rbq_put rbq_get (rb_new 3 [9, 9, 9]) [Put [1, 2], Get 1, Put [4, 5, 6], Get 5] =
      Some (accepted, delivered, rb') \<and>
    accepted = delivered @ rb_content rb' \<and> length (rb_content rb') \<le> unat (3 :: u64)"
  by (rule ring_buffer_fifo) auto

text \<open>
  \<open>produce\<close> and \<open>consume\<close> move the indices and the wrap flag exactly as \<open>write\<close> and \<open>read\<close>
  do: a driver that fills the array behind \<open>get_buf\<close> itself keeps the same state.
\<close>

theorem produce_consume_agree:
  "(rb_write rb data n = Inr (k, rb') \<longrightarrow> rb_produce rb n = (k, rb'\<lparr>rb_buf := rb_buf rb\<rparr>)) \<and>
   (rb_read rb dest n = Inr (k, dest', rb') \<longrightarrow> rb_consume rb n = (k, rb'))"
  using rb_write_produce rb_read_consume by blast

theorem produce_consume_agree_witness:
  "(\<exists>k rb'. rb_write (rb_new 2 [0, 0]) [7] 1 = Inr (k, rb') \<and>
     rb_produce (rb_new 2 [0, 0]) 1 = (k, rb'\<lparr>rb_buf := rb_buf (rb_new 2 [0, 0])\<rparr>))"
proof -
  have "rb_write (rb_new 2 [0, 0]) [7] 1 =
      Inr (1, \<lparr>rb_buf = [7, 0], rb_size = 2, rb_begin = 0, rb_end = 1, rb_wrap = False\<rparr>)"
    by code_simp
  with produce_consume_agree [of "rb_new 2 [0, 0]" "[7]" 1] show ?thesis by blast
qed

end
