(* ===== verification/Zt_Utils.thy ===== *)
theory Zt_Utils
  imports Zt_Prelude
begin

text \<open>
  \<^verbatim>\<open>node/Utils.hpp\<close> and \<^verbatim>\<open>node/Utils.cpp\<close>: comparison and clearing of memory, the decimal and
  hexadecimal printers and parsers, the bounded string copy, the population counts and the
  byte-order conversions.

  Conventions: a C string argument or result is the list of its characters before the
  terminating NUL; a destination array is a list of its full length.
\<close>

section \<open>Memory\<close>

definition secureEq :: "bytes \<Rightarrow> bytes \<Rightarrow> nat \<Rightarrow> bool res" where
  "secureEq a b len =
     (if len \<le> length a \<and> len \<le> length b
      then Inr (foldl (\<lambda>diff i. diff OR (a ! i XOR b ! i)) 0 [0..<len] = (0::u8))
      else Inl UndefinedBehaviour)"

definition burn :: "bytes \<Rightarrow> nat \<Rightarrow> bytes res" where
  "burn ptr len = memcpy ptr 0 (replicate len 0) 0 len"

definition isZero :: "bytes \<Rightarrow> nat \<Rightarrow> bool res" where
  "isZero p len =
     (if len \<le> length p then Inr (list_all (\<lambda>i. p ! i = 0) [0..<len])
      else Inl UndefinedBehaviour)"

section \<open>Printing numbers\<close>

definition HEXCHARS :: bytes where
  "HEXCHARS = [48, 49, 50, 51, 52, 53, 54, 55, 56, 57, 97, 98, 99, 100, 101, 102]"

definition hexchar :: "'a::len word \<Rightarrow> u8" where
  "hexchar x = HEXCHARS ! unat (x AND 0xf)"

definition hex64 :: "u64 \<Rightarrow> bytes" where
  "hex64 i = map (\<lambda>sh. hexchar (drop_bit sh i))
     [60, 56, 52, 48, 44, 40, 36, 32, 28, 24, 20, 16, 12, 8, 4, 0]"

definition hex10 :: "u64 \<Rightarrow> bytes" where
  "hex10 i = map (\<lambda>sh. hexchar (drop_bit sh i)) [36, 32, 28, 24, 20, 16, 12, 8, 4, 0]"

definition hex32 :: "u32 \<Rightarrow> bytes" where
  "hex32 i = map (\<lambda>sh. hexchar (drop_bit sh i)) [28, 24, 20, 16, 12, 8, 4, 0]"

definition hex16 :: "u16 \<Rightarrow> bytes" where
  "hex16 i = map (\<lambda>sh. hexchar (drop_bit sh i)) [12, 8, 4, 0]"

definition hex8 :: "u8 \<Rightarrow> bytes" where
  "hex8 i = map (\<lambda>sh. hexchar (drop_bit sh i)) [4, 0]"

definition hexbytes :: "bytes \<Rightarrow> bytes" where
  "hexbytes d = concat (map (\<lambda>b. [hexchar (drop_bit 4 b), hexchar b]) d)"

function utils_itoa :: "u64 \<Rightarrow> bytes \<Rightarrow> (u64 \<times> bytes) res" where
  "utils_itoa n s =
     (if n = 0 then Inr (0, s)
      else res_bind (utils_itoa (n div 10) s) (\<lambda>(pos0, s1).
        let pos = (if pos0 \<ge> 22 then 22 else pos0) in
        res_bind (wr s1 (unat pos) (48 + ucast (n mod 10))) (\<lambda>s2. Inr (pos + 1, s2))))"
  by auto

termination utils_itoa
proof (relation "measure (\<lambda>(n, s). unat n)")
  fix n :: u64
  assume "n \<noteq> 0"
  then have "0 < unat n" by (simp add: unat_gt_0)
  then show "((n div 10, s), n, s) \<in> measure (\<lambda>(n, s). unat n)" for s :: bytes
    by (simp add: unat_div)
qed simp

declare utils_itoa.simps [simp del]

definition utils_decimal :: "u64 \<Rightarrow> bytes \<Rightarrow> bytes res" where
  "utils_decimal n s =
     (if n = 0 then res_bind (wr s 0 48) (\<lambda>s1. wr s1 1 0)
      else res_bind (utils_itoa n s) (\<lambda>(pos, s1). wr s1 (unat pos) 0))"

section \<open>Parsing numbers\<close>

text \<open>The C library's \<open>strtoull\<close> and \<open>strtoll\<close> with a null end pointer (\<open>unsigned long\<close> has 64 bits).\<close>

definition c_isspace :: "u8 \<Rightarrow> bool" where
  "c_isspace c \<longleftrightarrow> c = 32 \<or> (9 \<le> c \<and> c \<le> 13)"

definition c_digit :: "u8 \<Rightarrow> nat" where
  "c_digit c =
     (if 48 \<le> c \<and> c \<le> 57 then unat (c - 48)
      else if 97 \<le> c \<and> c \<le> 122 then unat (c - 87)
      else if 65 \<le> c \<and> c \<le> 90 then unat (c - 55)
      else 36)"

definition c_magnitude :: "nat \<Rightarrow> bytes \<Rightarrow> nat" where
  "c_magnitude base s =
     foldl (\<lambda>v c. v * base + c_digit c) 0 (takeWhile (\<lambda>c. c_digit c < base) s)"

definition c_strip_prefix :: "nat \<Rightarrow> bytes \<Rightarrow> bytes" where
  "c_strip_prefix base s =
     (if base = 16 \<and> 3 \<le> length s \<and> s ! 0 = 48 \<and> (s ! 1 = 120 \<or> s ! 1 = 88) \<and> c_digit (s ! 2) < 16
      then drop 2 s else s)"

definition c_sign :: "bytes \<Rightarrow> bool \<times> bytes" where
  "c_sign s =
     (case s of
        [] \<Rightarrow> (False, s)
      | c # r \<Rightarrow> if c = 45 then (True, r) else if c = 43 then (False, r) else (False, s))"

definition c_strtoull :: "nat \<Rightarrow> bytes \<Rightarrow> u64" where
  "c_strtoull base s =
     (let (neg, r) = c_sign (dropWhile c_isspace s);
          v = c_magnitude base (c_strip_prefix base r)
      in if v \<ge> 2 ^ 64 then - 1 else if neg then - of_nat v else of_nat v)"

definition c_strtoll :: "nat \<Rightarrow> bytes \<Rightarrow> int" where
  "c_strtoll base s =
     (let (neg, r) = c_sign (dropWhile c_isspace s);
          v = int (c_magnitude base (c_strip_prefix base r))
      in if neg then max (- (2 ^ 63)) (- v) else min (2 ^ 63 - 1) v)"

definition strToUInt :: "bytes \<Rightarrow> u32" where
  "strToUInt s = ucast (c_strtoull 10 s)"

definition strToU64 :: "bytes \<Rightarrow> u64" where
  "strToU64 s = c_strtoull 10 s"

definition strToLong :: "bytes \<Rightarrow> int" where
  "strToLong s = c_strtoll 10 s"

definition hexStrToUInt :: "bytes \<Rightarrow> u32" where
  "hexStrToUInt s = ucast (c_strtoull 16 s)"

definition hexStrToU64 :: "bytes \<Rightarrow> u64" where
  "hexStrToU64 s = c_strtoull 16 s"

definition unhex_digit :: "u8 \<Rightarrow> u8" where
  "unhex_digit hc =
     (if 48 \<le> hc \<and> hc \<le> 57 then hc - 48
      else if 97 \<le> hc \<and> hc \<le> 102 then hc - 87
      else if 65 \<le> hc \<and> hc \<le> 70 then hc - 55
      else 0)"

text \<open>
  The loop of both \<open>unhex\<close> functions. The end of the list is the NUL of the first and \<open>hend\<close> of
  the second; a NUL inside the second's range ends the loop as well.
\<close>

fun unhex_loop :: "bytes \<Rightarrow> bytes \<Rightarrow> nat \<Rightarrow> nat \<Rightarrow> (nat \<times> bytes) res" where
  "unhex_loop (hc # hc' # h) buf l buflen =
     (if l < buflen \<and> hc \<noteq> 0 \<and> hc' \<noteq> 0
      then res_bind (wr buf l (push_bit 4 (unhex_digit hc) OR unhex_digit hc'))
             (\<lambda>buf'. unhex_loop h buf' (l + 1) buflen)
      else Inr (l, buf))"
| "unhex_loop [_] buf l buflen = Inr (l, buf)"
| "unhex_loop [] buf l buflen = Inr (l, buf)"

definition unhex :: "bytes \<Rightarrow> bytes \<Rightarrow> nat \<Rightarrow> (nat \<times> bytes) res" where
  "unhex h buf buflen = unhex_loop h buf 0 buflen"

definition unhex_n :: "bytes \<Rightarrow> nat \<Rightarrow> bytes \<Rightarrow> nat \<Rightarrow> (nat \<times> bytes) res" where
  "unhex_n h hlen buf buflen = unhex_loop (take hlen h) buf 0 buflen"

section \<open>Strings, bits, byte order\<close>

text \<open>
  \<open>scopy\<close> copies the characters of \<open>src\<close> and its NUL; \<open>None\<close> is the null pointer. The loop
  carries the position of \<open>dest\<close>.
\<close>

fun scopy_loop :: "bytes \<Rightarrow> nat \<Rightarrow> nat \<Rightarrow> bytes \<Rightarrow> (bool \<times> bytes) res" where
  "scopy_loop dest i len [] = res_bind (wr dest i 0) (\<lambda>d. Inr (True, d))"
| "scopy_loop dest i len (c # src) =
     res_bind (wr dest i c) (\<lambda>d.
       if i + 1 = len then res_bind (wr d i 0) (\<lambda>d'. Inr (False, d'))
       else scopy_loop d (i + 1) len src)"

definition scopy :: "bytes \<Rightarrow> nat \<Rightarrow> bytes option \<Rightarrow> (bool \<times> bytes) res" where
  "scopy dest len src =
     (if len = 0 then Inr (False, dest)
      else case src of
        None \<Rightarrow> res_bind (wr dest 0 0) (\<lambda>d. Inr (True, d))
      | Some s \<Rightarrow> scopy_loop dest 0 len s)"

definition countBits32 :: "u32 \<Rightarrow> u32" where
  "countBits32 v0 =
     (let v1 = v0 - (drop_bit 1 v0 AND 0x55555555);
          v2 = (v1 AND 0x33333333) + (drop_bit 2 v1 AND 0x33333333)
      in drop_bit 24 (((v2 + drop_bit 4 v2) AND 0xF0F0F0F) * 0x1010101))"

definition countBits64 :: "u64 \<Rightarrow> u64" where
  "countBits64 v0 =
     (let v1 = v0 - (drop_bit 1 v0 AND (NOT 0 div 3));
          v2 = (v1 AND (NOT 0 div 15 * 3)) + (drop_bit 2 v1 AND (NOT 0 div 15 * 3));
          v3 = (v2 + drop_bit 4 v2) AND (NOT 0 div 255 * 15)
      in drop_bit 56 (v3 * (NOT 0 div 255)))"

text \<open>
  \<open>hton\<close> and \<open>ntoh\<close> on a little-endian host: the byte swap of \<open>htons\<close>, \<open>htonl\<close> and
  \<open>__builtin_bswap64\<close>. \<open>bswap64_shifts\<close> is the expression of the branch for other compilers.
\<close>

definition hton :: "'a::len word \<Rightarrow> 'a word" where
  "hton n = bswap n"

definition ntoh :: "'a::len word \<Rightarrow> 'a word" where
  "ntoh n = bswap n"

definition bswap64_shifts :: "u64 \<Rightarrow> u64" where
  "bswap64_shifts n =
     push_bit 56 (n AND 0x00000000000000FF) OR push_bit 40 (n AND 0x000000000000FF00) OR
     push_bit 24 (n AND 0x0000000000FF0000) OR push_bit 8 (n AND 0x00000000FF000000) OR
     drop_bit 8 (n AND 0x000000FF00000000) OR drop_bit 24 (n AND 0x0000FF0000000000) OR
     drop_bit 40 (n AND 0x00FF000000000000) OR drop_bit 56 (n AND 0xFF00000000000000)"

section \<open>Lemmas\<close>

lemma foldl_or_eq_0_iff:
  "foldl (\<lambda>d i. d OR f i) (a::u8) xs = 0 \<longleftrightarrow> a = 0 \<and> (\<forall>i\<in>set xs. f i = 0)"
proof (induction xs arbitrary: a)
  case Nil
  show ?case by simp
next
  case (Cons x xs)
  have "a OR f x = 0 \<longleftrightarrow> a = 0 \<and> f x = 0" by (simp add: or_eq_0_iff)
  with Cons show ?case by auto
qed

lemma xor_eq_0_iff_word: "(a::'a::len word) XOR b = 0 \<longleftrightarrow> a = b"
proof
  assume "a XOR b = 0"
  then have "(a XOR b) XOR b = b" by simp
  then show "a = b" by (simp add: xor.assoc)
qed simp

lemma secureEq_eq:
  assumes "len \<le> length a" "len \<le> length b"
  shows "secureEq a b len = Inr (take len a = take len b)"
proof -
  have "(take len a = take len b) \<longleftrightarrow> (\<forall>i<len. a ! i = b ! i)"
    using assms by (auto simp: list_eq_iff_nth_eq)
  then show ?thesis
    using assms by (auto simp: secureEq_def foldl_or_eq_0_iff xor_eq_0_iff_word)
qed

lemma unat_and_15: "unat (x AND 0xf :: 'a::len word) = unat x mod 16"
proof -
  have "(0xf :: 'a word) = mask 4" by (simp add: mask_eq_exp_minus_1)
  then have "x AND 0xf = take_bit 4 x" by (simp add: take_bit_eq_mask)
  then have "unat (x AND 0xf) = take_bit 4 (unat x)" by (simp only: unsigned_take_bit_eq)
  then show ?thesis by (simp add: take_bit_eq_mod)
qed

lemma unat_drop_bit: "unat (drop_bit n w :: 'a::len word) = unat w div 2 ^ n"
  by (subst unat_drop_bit_eq) (rule drop_bit_eq_div)

lemma HEXCHARS_list:
  "list_all (\<lambda>n. c_digit (HEXCHARS ! n) = n \<and> unat (unhex_digit (HEXCHARS ! n)) = n \<and>
     HEXCHARS ! n \<notin> {0, 43, 45, 88, 120} \<and> \<not> c_isspace (HEXCHARS ! n)) [0..<16]"
  by code_simp

lemma HEXCHARS_nth:
  assumes "n < 16"
  shows "c_digit (HEXCHARS ! n) = n" "unat (unhex_digit (HEXCHARS ! n)) = n"
    "HEXCHARS ! n \<notin> {0, 43, 45, 88, 120}" "\<not> c_isspace (HEXCHARS ! n)"
  using HEXCHARS_list assms by (auto simp: list_all_iff)

lemma hexchar_facts [simp]:
  "c_digit (hexchar x) = unat x mod 16"
  "unat (unhex_digit (hexchar x)) = unat x mod 16"
  "hexchar x \<noteq> 0" "hexchar x \<noteq> 43" "hexchar x \<noteq> 45" "hexchar x \<noteq> 88" "hexchar x \<noteq> 120"
  "\<not> c_isspace (hexchar x)"
  using HEXCHARS_nth [of "unat x mod 16"] by (simp_all add: hexchar_def unat_and_15)

definition hexdigits :: "nat \<Rightarrow> 'a::len word \<Rightarrow> bytes" where
  "hexdigits n i = map (\<lambda>k. hexchar (drop_bit (4 * k) i)) (rev [0..<n])"

lemma hex_hexdigits:
  "hex64 i = hexdigits 16 i" "hex10 i = hexdigits 10 i" "hex32 j = hexdigits 8 j"
  "hex16 k = hexdigits 4 k" "hex8 l = hexdigits 2 l"
  by (simp_all add: hex64_def hex10_def hex32_def hex16_def hex8_def hexdigits_def upt_rec)

lemma hexdigits_fold:
  "foldl (\<lambda>v c. v * 16 + c_digit c) a (hexdigits n i) = a * 16 ^ n + unat i mod 16 ^ n"
proof (induction n arbitrary: a)
  case 0
  show ?case by (simp add: hexdigits_def)
next
  case (Suc n)
  have d: "unat (drop_bit (4 * n) i) = unat i div 16 ^ n"
    by (simp add: unat_drop_bit power_mult)
  have "foldl (\<lambda>v c. v * 16 + c_digit c) a (hexdigits (Suc n) i) =
      foldl (\<lambda>v c. v * 16 + c_digit c) (a * 16 + unat i div 16 ^ n mod 16) (hexdigits n i)"
    by (simp add: hexdigits_def d)
  also have "\<dots> = (a * 16 + unat i div 16 ^ n mod 16) * 16 ^ n + unat i mod 16 ^ n"
    by (rule Suc.IH)
  also have "\<dots> = a * 16 ^ Suc n + unat i mod 16 ^ Suc n"
    using mod_mult2_eq [of "unat i" "16 ^ n" 16] by (simp add: algebra_simps)
  finally show ?case .
qed

lemma takeWhile_hexdigits: "takeWhile (\<lambda>c. c_digit c < 16) (hexdigits n i) = hexdigits n i"
  by (simp add: takeWhile_eq_all_conv hexdigits_def)

lemma c_strtoull_hexdigits:
  assumes "0 < n" "n \<le> 16"
  shows "c_strtoull 16 (hexdigits n i) = of_nat (unat i mod 16 ^ n)"
proof -
  obtain m where m: "n = Suc m" using assms by (cases n) auto
  have ne: "hexdigits n i = hexchar (drop_bit (4 * m) i) # hexdigits m i"
    by (simp add: hexdigits_def m)
  have sp: "dropWhile c_isspace (hexdigits n i) = hexdigits n i"
    and sg: "c_sign (hexdigits n i) = (False, hexdigits n i)"
    unfolding ne by (simp_all add: c_sign_def)
  have pf: "c_strip_prefix 16 (hexdigits n i) = hexdigits n i"
    by (auto simp: c_strip_prefix_def hexdigits_def)
  have "unat i mod 16 ^ n < 16 ^ n" by simp
  also have "(16::nat) ^ n \<le> 16 ^ 16" using assms by (intro power_increasing) auto
  finally have "unat i mod 16 ^ n < 2 ^ 64" by simp
  then show ?thesis
    by (simp add: c_strtoull_def sp sg pf c_magnitude_def takeWhile_hexdigits hexdigits_fold)
qed

lemma hexStrToU64_hex64: "hexStrToU64 (hex64 i) = i"
proof -
  have "unat i mod 16 ^ 16 = unat i" using unat_bounds(4) [of i] by simp
  then show ?thesis by (simp add: hexStrToU64_def hex_hexdigits c_strtoull_hexdigits)
qed

lemma hexStrToU64_hex10: "hexStrToU64 (hex10 i) = take_bit 40 i"
proof -
  have "(of_nat (unat i mod 16 ^ 10) :: u64) = of_nat (take_bit 40 (unat i))"
    by (simp add: take_bit_eq_mod)
  also have "\<dots> = take_bit 40 i" by (simp add: unsigned_take_bit_eq [symmetric])
  finally show ?thesis by (simp add: hexStrToU64_def hex_hexdigits c_strtoull_hexdigits)
qed

text \<open>\<open>unhex\<close> inverts \<open>hex\<close> and writes nothing else.\<close>

lemma unhex_digit_pair:
  "push_bit 4 (unhex_digit (hexchar (drop_bit 4 b))) OR unhex_digit (hexchar b) = (b::u8)"
proof -
  let ?h = "unhex_digit (hexchar (drop_bit 4 b))" and ?l = "unhex_digit (hexchar b)"
  have d: "unat (drop_bit 4 b) = unat b div 16" by (simp add: unat_drop_bit)
  have h: "?h = drop_bit 4 b"
  proof -
    have "unat ?h = unat (drop_bit 4 b)"
      using unat_bounds(1) [of b] by (simp add: d)
    then show ?thesis by (simp add: word_unat_eq_iff)
  qed
  have l: "?l = take_bit 4 b"
  proof -
    have "unat ?l = take_bit 4 (unat b)" by (simp add: take_bit_eq_mod)
    then have "unat ?l = unat (take_bit 4 b)" by (simp only: unsigned_take_bit_eq)
    then show ?thesis by (simp only: word_unat_eq_iff)
  qed
  show ?thesis unfolding h l by (rule bit_word_eqI) (auto simp: bit_simps)
qed

lemma hexbytes_Cons: "hexbytes (b # d) = hexchar (drop_bit 4 b) # hexchar b # hexbytes d"
  by (simp add: hexbytes_def)

lemma unhex_loop_hexbytes:
  assumes "l + length d \<le> length buf" "l + length d \<le> buflen"
  shows "unhex_loop (hexbytes d) buf l buflen =
    Inr (l + length d, take l buf @ d @ drop (l + length d) buf)"
  using assms
proof (induction d arbitrary: l buf)
  case Nil
  then show ?case by (simp add: hexbytes_def)
next
  case (Cons b d)
  have "take (Suc l) (buf[l := b]) = take l buf @ [b]"
    using Cons.prems by (simp add: take_Suc_conv_app_nth)
  with Cons show ?case by (simp add: hexbytes_Cons unhex_digit_pair)
qed

text \<open>Decimal printing.\<close>

fun dec_digits :: "nat \<Rightarrow> bytes" where
  "dec_digits n = (if n = 0 then [] else dec_digits (n div 10) @ [48 + of_nat (n mod 10)])"

declare dec_digits.simps [simp del]

lemma dec_digits_0 [simp]: "dec_digits 0 = []"
  by (simp add: dec_digits.simps)

lemma length_dec_digits: "n < 10 ^ k \<Longrightarrow> length (dec_digits n) \<le> k"
proof (induction k arbitrary: n)
  case 0
  then show ?case by (simp add: dec_digits.simps)
next
  case (Suc k)
  then have "n div 10 < 10 ^ k" by (simp add: div_less_iff_less_mult mult.commute)
  from Suc.IH [OF this] show ?case by (subst dec_digits.simps) simp
qed

lemma c_digit_dec:
  "k < 10 \<Longrightarrow> c_digit (48 + of_nat k) = k \<and> 48 + of_nat k \<notin> {0::u8, 43, 45} \<and>
     \<not> c_isspace (48 + of_nat k)"
proof -
  have "list_all (\<lambda>k. c_digit (48 + of_nat k) = k \<and> 48 + of_nat k \<notin> {0::u8, 43, 45} \<and>
     \<not> c_isspace (48 + of_nat k)) [0..<10]"
    by code_simp
  then show "k < 10 \<Longrightarrow> ?thesis" by (simp add: list_all_iff)
qed

lemma dec_digits_chars:
  "c \<in> set (dec_digits n) \<Longrightarrow> c_digit c < 10 \<and> c \<notin> {0, 43, 45} \<and> \<not> c_isspace c"
proof (induction n rule: dec_digits.induct)
  case (1 n)
  then show ?case using c_digit_dec [of "n mod 10"]
    by (subst (asm) (2) dec_digits.simps) (auto split: if_splits)
qed

lemma dec_digits_fold: "foldl (\<lambda>v c. v * 10 + c_digit c) 0 (dec_digits n) = n"
proof (induction n rule: dec_digits.induct)
  case (1 n)
  then show ?case using c_digit_dec [of "n mod 10"]
    by (cases "n = 0") (simp_all add: dec_digits.simps [of n])
qed

lemma strtoull_dec_digits:
  assumes "n < 2 ^ 64" "n \<noteq> 0"
  shows "c_strtoull 10 (dec_digits n) = of_nat n"
proof -
  have ne: "dec_digits n \<noteq> []" using assms by (simp add: dec_digits.simps [of n])
  then have hd: "hd (dec_digits n) \<in> set (dec_digits n)" by simp
  note H = dec_digits_chars [OF hd]
  have sp: "dropWhile c_isspace (dec_digits n) = dec_digits n"
    and sg: "c_sign (dec_digits n) = (False, dec_digits n)"
    using H ne by (cases "dec_digits n"; simp add: c_sign_def)+
  have tw: "takeWhile (\<lambda>c. c_digit c < 10) (dec_digits n) = dec_digits n"
    using dec_digits_chars by (simp add: takeWhile_eq_all_conv)
  show ?thesis
    using assms by (simp add: c_strtoull_def sp sg c_strip_prefix_def c_magnitude_def tw dec_digits_fold)
qed

lemma list_update_append_drop:
  "length xs = k \<Longrightarrow> k < length ys \<Longrightarrow> (xs @ drop k ys)[k := v] = xs @ [v] @ drop (Suc k) ys"
  by (simp add: list_update_append Cons_nth_drop_Suc [symmetric])

lemma utils_itoa_ok:
  assumes "unat n < 10 ^ k" "k \<le> 22" "k \<le> length s"
  shows "utils_itoa n s =
    Inr (of_nat (length (dec_digits (unat n))),
         dec_digits (unat n) @ drop (length (dec_digits (unat n))) s)"
  using assms
proof (induction k arbitrary: n)
  case 0
  then show ?case by (simp add: unat_eq_0 utils_itoa.simps [of 0])
next
  case (Suc k)
  show ?case
  proof (cases "n = 0")
    case True
    then show ?thesis by (simp add: utils_itoa.simps [of 0])
  next
    case False
    then have n0: "unat n \<noteq> 0" by (simp add: unat_eq_0)
    have dv: "unat (n div 10) = unat n div 10" by (simp add: unat_div)
    with Suc.prems(1) have lt: "unat (n div 10) < 10 ^ k"
      by (simp add: div_less_iff_less_mult mult.commute)
    let ?d = "dec_digits (unat n div 10)"
    have len: "length ?d \<le> k" using length_dec_digits lt dv by simp
    have IH: "utils_itoa (n div 10) s = Inr (of_nat (length ?d), ?d @ drop (length ?d) s)"
      using Suc.IH [OF lt] Suc.prems dv by simp
    have u: "unat (of_nat (length ?d) :: u64) = length ?d"
      using len Suc.prems(2) by (intro unat_of_nat_nowrap) simp
    have nle: "\<not> (22::u64) \<le> of_nat (length ?d)"
      using len Suc.prems(2) u by (simp add: word_le_nat_alt)
    have dg: "(48 + ucast (n mod 10) :: u8) = 48 + of_nat (unat n mod 10)"
    proof -
      have "unat n mod 10 = unat (n mod 10)" by (simp add: unat_mod_distrib)
      then show ?thesis by (simp only: of_nat_unat)
    qed
    have "(?d @ drop (length ?d) s)[length ?d := 48 + of_nat (unat n mod 10)] =
        ?d @ [48 + of_nat (unat n mod 10)] @ drop (Suc (length ?d)) s"
      using len Suc.prems(3) by (intro list_update_append_drop) simp_all
    then show ?thesis
      using False n0 IH nle u len Suc.prems(3)
      by (subst utils_itoa.simps) (simp add: dec_digits.simps [of "unat n"] dg Let_def)
  qed
qed

lemma utils_decimal_ok:
  assumes "length s = 24"
  shows "utils_decimal n s =
    Inr (if n = 0 then 48 # 0 # drop 2 s
         else dec_digits (unat n) @ [0] @ drop (Suc (length (dec_digits (unat n)))) s)"
proof (cases "n = 0")
  case True
  obtain a b r where "s = a # b # r" using assms by (cases s; cases "tl s") auto
  with True show ?thesis by (simp add: utils_decimal_def)
next
  case False
  let ?d = "dec_digits (unat n)"
  have lt: "unat n < 10 ^ 20" using unat_bounds(4) [of n] by simp
  have len: "length ?d \<le> 20" by (rule length_dec_digits [OF lt])
  have u: "unat (of_nat (length ?d) :: u64) = length ?d"
    using len by (intro unat_of_nat_nowrap) simp
  have "(?d @ drop (length ?d) s)[length ?d := 0] = ?d @ [0] @ drop (Suc (length ?d)) s"
    using len assms by (intro list_update_append_drop) simp_all
  then show ?thesis
    using False utils_itoa_ok [OF lt] assms len u by (simp add: utils_decimal_def)
qed

text \<open>The C string an array holds.\<close>

definition cstr :: "bytes \<Rightarrow> bytes" where
  "cstr a = takeWhile (\<lambda>c. c \<noteq> 0) a"

lemma cstr_append: "0 \<notin> set s \<Longrightarrow> cstr (s @ [0] @ r) = s"
  by (induction s) (auto simp: cstr_def)

lemma strToU64_decimal:
  assumes "length s = 24"
  shows "\<exists>s'. utils_decimal n s = Inr s' \<and> length s' = 24 \<and> 0 \<in> set s' \<and> strToU64 (cstr s') = n"
proof (cases "n = 0")
  case True
  have "c_strtoull 10 [48] = 0"
    by (simp add: c_strtoull_def c_isspace_def c_sign_def c_strip_prefix_def c_magnitude_def
        c_digit_def)
  with True assms show ?thesis
    by (simp add: utils_decimal_ok cstr_def strToU64_def)
next
  case False
  let ?d = "dec_digits (unat n)"
  have "unat n < 10 ^ 20" using unat_bounds(4) [of n] by simp
  then have len: "length ?d \<le> 20" by (rule length_dec_digits)
  have "0 \<notin> set ?d" using dec_digits_chars by blast
  then have "cstr (?d @ [0] @ drop (Suc (length ?d)) s) = ?d" by (rule cstr_append)
  moreover have "c_strtoull 10 ?d = n"
    using strtoull_dec_digits [of "unat n"] False unat_bounds(4) [of n] by (simp add: unat_eq_0)
  ultimately show ?thesis
    using False assms len by (simp add: utils_decimal_ok strToU64_def)
qed

lemma take_drop_update:
  assumes "i < length xs"
  shows "xs[i := v] = take i xs @ [v] @ drop (Suc i) xs"
  using assms by (simp add: upd_conv_take_nth_drop)

lemma scopy_loop_ok:
  assumes "i < len" "len \<le> length dest"
  shows "scopy_loop dest i len src =
    Inr (i + length src < len,
         take i dest @ take (len - 1 - i) src @ [0] @
           drop (i + min (len - 1 - i) (length src) + 1) dest)"
  using assms
proof (induction src arbitrary: i dest)
  case Nil
  then show ?case by (simp add: take_drop_update)
next
  case (Cons c src)
  show ?case
  proof (cases "i + 1 = len")
    case True
    then have "len = Suc i" by simp
    with Cons.prems show ?thesis by (simp add: take_drop_update)
  next
    case False
    then have le: "i + 1 < len" using Cons.prems by simp
    have t: "take (Suc i) (dest[i := c]) = take i dest @ [c]"
      using Cons.prems by (simp add: take_Suc_conv_app_nth)
    have m: "Suc (min (len - Suc (Suc i)) (length src)) = min (len - Suc i) (Suc (length src))"
      using le by (simp add: min_def) auto
    obtain k where k: "len - Suc i = Suc k" using le by (cases "len - Suc i") auto
    then have k': "len - Suc (Suc i) = k" by simp
    from Cons.IH [of "i + 1" "dest[i := c]"] le Cons.prems t False k k' show ?thesis by simp
  qed
qed

lemma ntoh_hton: "LENGTH('a) mod 8 = 0 \<Longrightarrow> ntoh (hton (v::'a::len word)) = v"
  by (simp add: ntoh_def hton_def bswap_bswap)

text \<open>The two branches of \<open>hton(uint64_t)\<close> agree.\<close>

lemma and_byte_mask: "(n::u64) AND push_bit k 0xff = push_bit k (take_bit 8 (drop_bit k n))"
proof -
  have m: "(0xff :: u64) = mask 8" by (simp add: mask_eq_exp_minus_1)
  show ?thesis unfolding m by (rule bit_word_eqI) (auto simp: bit_simps)
qed

lemma bswap64_shifts_eq: "bswap64_shifts n = hton n"
proof -
  have masks: "(0x000000000000FF00 :: u64) = push_bit 8 0xff" "(0x0000000000FF0000 :: u64) = push_bit 16 0xff"
    "(0x00000000FF000000 :: u64) = push_bit 24 0xff" "(0x000000FF00000000 :: u64) = push_bit 32 0xff"
    "(0x0000FF0000000000 :: u64) = push_bit 40 0xff" "(0x00FF000000000000 :: u64) = push_bit 48 0xff"
    "(0xFF00000000000000 :: u64) = push_bit 56 0xff"
    by (simp_all add: push_bit_eq_mult)
  have dp: "drop_bit j (push_bit k (take_bit 8 x)) = push_bit (k - j) (take_bit 8 x)"
    if "j \<le> k" "k + 8 \<le> 64" for j k and x :: u64
    using that by (intro bit_word_eqI) (auto simp: bit_simps add.commute [of j])
  have uc: "(ucast (ucast x :: u8) :: u64) = take_bit 8 x" for x :: u64
    by (rule bit_word_eqI) (auto simp: bit_simps)
  have r: "rev (word_bytes_be n) = map (\<lambda>i. ucast (drop_bit (8 * i) n)) [0, 1, 2, 3, 4, 5, 6, 7]"
    by (simp add: word_bytes_be_def rev_map upt_rec)
  have and0: "n AND 0x00000000000000FF = take_bit 8 n"
    by (simp add: take_bit_eq_mask mask_eq_exp_minus_1)
  show ?thesis
    unfolding bswap64_shifts_def masks and_byte_mask and0 hton_def bswap_def r be_word_def
    by (simp add: dp push_bit_or push_bit_push_bit or.assoc uc)
qed

section \<open>Properties\<close>

text \<open>
  Hexadecimal round trip: \<open>unhex\<close> of the text \<open>hex\<close> prints for any byte string gives back its
  bytes and length, writes nothing after them and stays inside the destination.
\<close>

theorem unhex_hex_roundtrip:
  assumes "length d \<le> length buf" "length d \<le> buflen"
  shows "unhex (hexbytes d) buf buflen = Inr (length d, d @ drop (length d) buf)"
  using unhex_loop_hexbytes [of 0 d buf buflen] assms by (simp add: unhex_def)

theorem unhex_hex_roundtrip_witness:
  "unhex (hexbytes [0xde, 0xad, 0x07]) [9, 9, 9, 9, 9] 4 = Inr (3, [0xde, 0xad, 0x07, 9, 9])"
  using unhex_hex_roundtrip [of "[0xde, 0xad, 0x07]" "[9, 9, 9, 9, 9]" 4] by simp

text \<open>
  Integer text round trips: the library's \<open>strtoull\<close> reads back what \<open>hex(uint64_t)\<close> and
  \<open>decimal\<close> print, for every 64-bit value; \<open>decimal\<close> never leaves its 24-byte array.
\<close>

theorem number_text_roundtrip:
  "hexStrToU64 (hex64 i) = i \<and>
   (length s = 24 \<longrightarrow>
     (\<exists>s'. utils_decimal i s = Inr s' \<and> length s' = 24 \<and> 0 \<in> set s' \<and> strToU64 (cstr s') = i))"
  using hexStrToU64_hex64 strToU64_decimal by blast

theorem number_text_roundtrip_witness:
  "hexStrToU64 (hex64 42) = 42 \<and> length (replicate 24 (0::u8)) = 24 \<and>
   (\<exists>s'. utils_decimal 42 (replicate 24 0) = Inr s' \<and> length s' = 24 \<and> 0 \<in> set s' \<and>
      strToU64 (cstr s') = 42)"
proof -
  have l: "length (replicate 24 (0::u8)) = 24" by simp
  with number_text_roundtrip [of 42 "replicate 24 0"] show ?thesis by blast
qed

text \<open>
  \<open>scopy\<close> always leaves a terminated string in \<open>dest\<close> and never writes past \<open>len\<close>: the result
  is the source cut to \<open>len - 1\<close> characters, the return value says whether it was cut, and the
  rest of the array is untouched.
\<close>

theorem scopy_terminates_string:
  assumes "0 < len" "len \<le> length dest"
  shows "scopy dest len (Some src) =
    Inr (length src < len,
         take (len - 1) src @ [0] @ drop (min (len - 1) (length src) + 1) dest)"
  using scopy_loop_ok [of 0 len dest src] assms by (simp add: scopy_def)

theorem scopy_terminates_string_witness:
  "scopy [1, 2, 3, 4, 5] 3 (Some [7, 8, 9, 10]) = Inr (False, [7, 8, 0, 4, 5])"
  using scopy_terminates_string [of 3 "[1, 2, 3, 4, 5]" "[7, 8, 9, 10]"] by simp

text \<open>
  The constant-time comparison \<open>secureEq\<close> decides equality of the first \<open>len\<close> bytes.
\<close>

theorem secureEq_correct:
  assumes "len \<le> length a" "len \<le> length b"
  shows "secureEq a b len = Inr (take len a = take len b)"
  by (rule secureEq_eq [OF assms])

theorem secureEq_correct_witness:
  "secureEq [1, 2, 3] [1, 2, 4] 2 = Inr True \<and> secureEq [1, 2, 3] [1, 2, 4] 3 = Inr False"
  using secureEq_correct [of 2 "[1, 2, 3]" "[1, 2, 4]"] secureEq_correct [of 3 "[1, 2, 3]" "[1, 2, 4]"]
  by simp

end
