(* ===== verification/Zt_Buffer.thy ===== *)
theory Zt_Buffer
  imports Zt_Utils
begin

text \<open>
  \<^verbatim>\<open>node/Buffer.hpp\<close>: the fixed-capacity byte buffer that every wire format is written to and
  read from. The array \<open>_b\<close> has its full capacity in the model, so a read or write behind it is
  \<open>UndefinedBehaviour\<close>; \<open>_l\<close> is a 32-bit word. A comparison \<open>(i + sizeof(T)) > _l\<close> is done in
  64 bits (\<open>sizeof\<close> is a \<open>size_t\<close>) and cannot wrap; \<open>(i + l) > _l\<close> on two \<open>unsigned int\<close> can.

  The second half gives the vocabulary in which the wire formats are proved: \<open>appends f bs\<close> (the
  writer \<open>f\<close> appends exactly the bytes \<open>bs\<close>, or throws when they do not fit) and \<open>has b p bs\<close>
  (the bytes \<open>bs\<close> stand at position \<open>p\<close>).
\<close>

section \<open>The code\<close>

record buf =
  b_data :: bytes
  b_len :: u32

definition b_cap :: "buf \<Rightarrow> nat" where
  "b_cap b = length (b_data b)"

text \<open>The constructors; \<open>mem\<close> is the uninitialised array.\<close>

definition buf_new :: "bytes \<Rightarrow> buf" where
  "buf_new mem = \<lparr>b_data = mem, b_len = 0\<rparr>"

definition buf_new_len :: "bytes \<Rightarrow> u32 \<Rightarrow> buf res" where
  "buf_new_len mem l =
     (if unat l > length mem then Inl OutOfBounds else Inr \<lparr>b_data = mem, b_len = l\<rparr>)"

definition buf_copyFrom :: "buf \<Rightarrow> bytes \<Rightarrow> u32 \<Rightarrow> buf res" where
  "buf_copyFrom b src l =
     (if unat l > b_cap b then Inl OutOfBounds
      else res_bind (memcpy (b_data b) 0 src 0 (unat l)) (\<lambda>d.
        Inr (b\<lparr>b_data := d, b_len := l\<rparr>)))"

definition buf_assign :: "buf \<Rightarrow> buf \<Rightarrow> buf res" where
  "buf_assign b b2 =
     (if unat (b_len b2) > b_cap b then Inl OutOfBounds
      else if b_cap b2 = b_cap b then Inr b2
      else res_bind (memcpy (b_data b) 0 (b_data b2) 0 (unat (b_len b2))) (\<lambda>d.
        Inr (b\<lparr>b_data := d, b_len := b_len b2\<rparr>)))"

definition buf_get :: "buf \<Rightarrow> u32 \<Rightarrow> u8 res" where
  "buf_get b i = (if i \<ge> b_len b then Inl OutOfBounds else rd (b_data b) (unat i))"

definition buf_set :: "buf \<Rightarrow> u32 \<Rightarrow> u8 \<Rightarrow> buf res" where
  "buf_set b i v =
     (if i \<ge> b_len b then Inl OutOfBounds
      else res_bind (wr (b_data b) (unat i) v) (\<lambda>d. Inr (b\<lparr>b_data := d\<rparr>)))"

text \<open>
  \<open>field(i, l)\<close> returns a pointer; the model returns the \<open>l\<close> bytes its callers read behind it.
\<close>

definition buf_field :: "buf \<Rightarrow> u32 \<Rightarrow> u32 \<Rightarrow> bytes res" where
  "buf_field b i l =
     (if i + l > b_len b then Inl OutOfBounds
      else case mem_get (b_data b) (unat i) (unat l) of
        None \<Rightarrow> Inl UndefinedBehaviour
      | Some xs \<Rightarrow> Inr xs)"

definition buf_setAt :: "buf \<Rightarrow> u32 \<Rightarrow> 'a::len word \<Rightarrow> buf res" where
  "buf_setAt b i v =
     (if unat i + LENGTH('a) div 8 > unat (b_len b) then Inl OutOfBounds
      else res_bind (memcpy (b_data b) (unat i) (word_bytes_be v) 0 (LENGTH('a) div 8)) (\<lambda>d.
        Inr (b\<lparr>b_data := d\<rparr>)))"

definition buf_at :: "buf \<Rightarrow> u32 \<Rightarrow> 'a::len word res" where
  "buf_at b i =
     (if unat i + LENGTH('a) div 8 > unat (b_len b) then Inl OutOfBounds
      else case mem_get (b_data b) (unat i) (LENGTH('a) div 8) of
        None \<Rightarrow> Inl UndefinedBehaviour
      | Some xs \<Rightarrow> Inr (be_word xs))"

definition buf_append :: "'a::len word \<Rightarrow> buf \<Rightarrow> buf res" where
  "buf_append v b =
     (if unat (b_len b) + LENGTH('a) div 8 > b_cap b then Inl OutOfBounds
      else res_bind (memcpy (b_data b) (unat (b_len b)) (word_bytes_be v) 0 (LENGTH('a) div 8)) (\<lambda>d.
        Inr (b\<lparr>b_data := d, b_len := b_len b + of_nat (LENGTH('a) div 8)\<rparr>)))"

definition buf_append_run :: "u8 \<Rightarrow> u32 \<Rightarrow> buf \<Rightarrow> buf res" where
  "buf_append_run c n b =
     (if unat (b_len b + n) > b_cap b then Inl OutOfBounds
      else res_bind (memcpy (b_data b) (unat (b_len b)) (replicate (unat n) c) 0 (unat n)) (\<lambda>d.
        Inr (b\<lparr>b_data := d, b_len := b_len b + n\<rparr>)))"

definition buf_append_bytes :: "bytes \<Rightarrow> u32 \<Rightarrow> buf \<Rightarrow> buf res" where
  "buf_append_bytes src l b =
     (if unat (b_len b + l) > b_cap b then Inl OutOfBounds
      else res_bind (memcpy (b_data b) (unat (b_len b)) src 0 (unat l)) (\<lambda>d.
        Inr (b\<lparr>b_data := d, b_len := b_len b + l\<rparr>)))"

text \<open>\<open>appendRandom\<close>: \<open>rand\<close> is what \<open>getSecureRandom\<close> delivers.\<close>

definition buf_appendRandom :: "(nat \<Rightarrow> bytes) \<Rightarrow> u32 \<Rightarrow> buf \<Rightarrow> buf res" where
  "buf_appendRandom rand n b =
     (if unat (b_len b + n) > b_cap b then Inl OutOfBounds
      else res_bind (memcpy (b_data b) (unat (b_len b)) (rand (unat n)) 0 (unat n)) (\<lambda>d.
        Inr (b\<lparr>b_data := d, b_len := b_len b + n\<rparr>)))"

text \<open>The loop of \<open>appendCString\<close>, over the characters with the NUL at the end.\<close>

fun buf_appendCString_loop :: "bytes \<Rightarrow> buf \<Rightarrow> buf res" where
  "buf_appendCString_loop [] b = Inl UndefinedBehaviour"
| "buf_appendCString_loop (c # s) b =
     (if unat (b_len b) \<ge> b_cap b then Inl OutOfBounds
      else res_bind (wr (b_data b) (unat (b_len b)) c) (\<lambda>d.
        let b' = b\<lparr>b_data := d, b_len := b_len b + 1\<rparr> in
        if c = 0 then Inr b' else buf_appendCString_loop s b'))"

definition buf_appendCString :: "bytes \<Rightarrow> buf \<Rightarrow> buf res" where
  "buf_appendCString s b = buf_appendCString_loop (s @ [0]) b"

definition buf_append_buf :: "buf \<Rightarrow> buf \<Rightarrow> buf res" where
  "buf_append_buf b2 b = buf_append_bytes (b_data b2) (b_len b2) b"

text \<open>\<open>appendField\<close> returns the offset of the new field.\<close>

definition buf_appendField :: "u32 \<Rightarrow> buf \<Rightarrow> (u32 \<times> buf) res" where
  "buf_appendField l b =
     (if unat (b_len b + l) > b_cap b then Inl OutOfBounds
      else Inr (b_len b, b\<lparr>b_len := b_len b + l\<rparr>))"

definition buf_addSize :: "u32 \<Rightarrow> buf \<Rightarrow> buf res" where
  "buf_addSize i b =
     (if unat (i + b_len b) > b_cap b then Inl OutOfBounds else Inr (b\<lparr>b_len := b_len b + i\<rparr>))"

definition buf_setSize :: "u32 \<Rightarrow> buf \<Rightarrow> buf res" where
  "buf_setSize i b = (if unat i > b_cap b then Inl OutOfBounds else Inr (b\<lparr>b_len := i\<rparr>))"

definition buf_behead :: "u32 \<Rightarrow> buf \<Rightarrow> buf res" where
  "buf_behead at b =
     (if at = 0 then Inr b
      else if at > b_len b then Inl OutOfBounds
      else let l = b_len b - at in
        res_bind (memcpy (b_data b) 0 (b_data b) (unat at) (unat l)) (\<lambda>d.
          Inr (b\<lparr>b_data := d, b_len := l\<rparr>)))"

definition buf_erase :: "u32 \<Rightarrow> u32 \<Rightarrow> buf \<Rightarrow> buf res" where
  "buf_erase at len b =
     (let endr = at + len in
      if endr > b_len b then Inl OutOfBounds
      else res_bind (memcpy (b_data b) (unat at) (b_data b) (unat endr) (unat (b_len b - endr))) (\<lambda>d.
        Inr (b\<lparr>b_data := d, b_len := b_len b - len\<rparr>)))"

definition buf_clear :: "buf \<Rightarrow> buf" where
  "buf_clear b = b\<lparr>b_len := 0\<rparr>"

definition buf_zero :: "buf \<Rightarrow> buf res" where
  "buf_zero b =
     res_bind (memcpy (b_data b) 0 (replicate (unat (b_len b)) 0) 0 (unat (b_len b))) (\<lambda>d.
       Inr (b\<lparr>b_data := d\<rparr>))"

definition buf_zeroUnused :: "buf \<Rightarrow> buf res" where
  "buf_zeroUnused b =
     (let n = unat (of_nat (b_cap b) - b_len b :: u32) in
      res_bind (memcpy (b_data b) (unat (b_len b)) (replicate n 0) 0 n) (\<lambda>d.
        Inr (b\<lparr>b_data := d\<rparr>)))"

definition buf_burn :: "buf \<Rightarrow> buf res" where
  "buf_burn b = res_bind (burn (b_data b) (b_cap b)) (\<lambda>d. Inr (b\<lparr>b_data := d\<rparr>))"

text \<open>The C library's \<open>memcmp\<close> on two ranges of equal length.\<close>

fun memcmp :: "bytes \<Rightarrow> bytes \<Rightarrow> int" where
  "memcmp (x # xs) (y # ys) = (if x < y then - 1 else if y < x then 1 else memcmp xs ys)"
| "memcmp _ _ = 0"

definition buf_eq :: "buf \<Rightarrow> buf \<Rightarrow> bool" where
  "buf_eq b b2 \<longleftrightarrow>
     b_len b = b_len b2 \<and>
     memcmp (take (unat (b_len b)) (b_data b)) (take (unat (b_len b)) (b_data b2)) = 0"

definition buf_less :: "buf \<Rightarrow> buf \<Rightarrow> bool" where
  "buf_less b b2 \<longleftrightarrow>
     (let n = min (unat (b_len b)) (unat (b_len b2)) in
      memcmp (take n (b_data b)) (take n (b_data b2)) < 0)"

section \<open>Content and invariant\<close>

text \<open>
  Capacities are template arguments of a few kilobytes; the invariant only asks that they fit
  in 31 bits.
\<close>

definition buf_ok :: "buf \<Rightarrow> bool" where
  "buf_ok b \<longleftrightarrow> unat (b_len b) \<le> b_cap b \<and> b_cap b < 2 ^ 31"

definition b_content :: "buf \<Rightarrow> bytes" where
  "b_content b = take (unat (b_len b)) (b_data b)"

lemma length_b_content [simp]: "buf_ok b \<Longrightarrow> length (b_content b) = unat (b_len b)"
  by (simp add: b_content_def buf_ok_def b_cap_def)

lemma memcmp_eq_0_iff: "length xs = length ys \<Longrightarrow> memcmp xs ys = 0 \<longleftrightarrow> xs = ys"
  by (induction xs ys rule: memcmp.induct) auto

text \<open>Writing \<open>bs\<close> behind the content.\<close>

lemma buf_extend:
  assumes ok: "buf_ok b" and fit: "unat (b_len b) + n \<le> b_cap b" and n: "n = length bs"
    and src: "take n src = bs" "n \<le> length src"
  shows "\<exists>d. memcpy (b_data b) (unat (b_len b)) src 0 n = Inr d \<and>
     (let b' = b\<lparr>b_data := d, b_len := b_len b + of_nat n\<rparr> in
      buf_ok b' \<and> b_cap b' = b_cap b \<and> b_content b' = b_content b @ bs)"
proof -
  let ?l = "unat (b_len b)"
  have m: "memcpy (b_data b) ?l src 0 n = Inr (take ?l (b_data b) @ bs @ drop (?l + n) (b_data b))"
    using fit src by (simp add: memcpy_ok b_cap_def)
  have lt: "?l + n < 2 ^ 32" using ok fit by (simp add: buf_ok_def)
  have u: "unat (b_len b + of_nat n) = ?l + n"
    using lt by (subst unat_add_nowrap) (simp_all add: word_nat)
  show ?thesis
    using m ok fit n u [unfolded n]
    by (simp add: Let_def buf_ok_def b_cap_def b_content_def min_absorb2)
qed

definition appends :: "(buf \<Rightarrow> buf res) \<Rightarrow> bytes \<Rightarrow> bool" where
  "appends f bs \<longleftrightarrow>
     (\<forall>b. buf_ok b \<longrightarrow>
        (if unat (b_len b) + length bs \<le> b_cap b
         then \<exists>b'. f b = Inr b' \<and> buf_ok b' \<and> b_cap b' = b_cap b \<and> b_content b' = b_content b @ bs
         else f b = Inl OutOfBounds))"

lemma appendsD:
  assumes "appends f bs" "buf_ok b" "unat (b_len b) + length bs \<le> b_cap b"
  shows "\<exists>b'. f b = Inr b' \<and> buf_ok b' \<and> b_cap b' = b_cap b \<and> b_content b' = b_content b @ bs"
  using assms by (simp add: appends_def)

lemma appends_fail:
  assumes "appends f bs" "buf_ok b" "\<not> unat (b_len b) + length bs \<le> b_cap b"
  shows "f b = Inl OutOfBounds"
  using assms by (simp add: appends_def)

lemma appends_total:
  assumes "appends f bs" "buf_ok b"
  shows "f b = Inl OutOfBounds \<or> (\<exists>b'. f b = Inr b' \<and> buf_ok b' \<and> b_cap b' = b_cap b)"
  using appendsD [OF assms] appends_fail [OF assms] by blast

lemma appendsI:
  assumes "\<And>b. buf_ok b \<Longrightarrow> unat (b_len b) + length bs \<le> b_cap b \<Longrightarrow>
      \<exists>b'. f b = Inr b' \<and> buf_ok b' \<and> b_cap b' = b_cap b \<and> b_content b' = b_content b @ bs"
    and "\<And>b. buf_ok b \<Longrightarrow> \<not> unat (b_len b) + length bs \<le> b_cap b \<Longrightarrow> f b = Inl OutOfBounds"
  shows "appends f bs"
  using assms by (simp add: appends_def)

named_theorems wire_write \<open>what each writer appends\<close>

lemma appends_Inr [wire_write]: "appends Inr []"
  by (simp add: appends_def buf_ok_def)

lemma appends_bind [wire_write]:
  assumes f: "appends f xs" and g: "appends g ys"
  shows "appends (\<lambda>b. res_bind (f b) g) (xs @ ys)"
  unfolding appends_def
proof (intro allI impI)
  fix b assume ok: "buf_ok b"
  let ?G = "\<lambda>b'. res_bind (f b) g = Inr b' \<and> buf_ok b' \<and> b_cap b' = b_cap b \<and>
         b_content b' = b_content b @ xs @ ys"
  show "if unat (b_len b) + length (xs @ ys) \<le> b_cap b then \<exists>b'. ?G b'
        else res_bind (f b) g = Inl OutOfBounds"
  proof (cases "unat (b_len b) + length xs \<le> b_cap b")
    case True
    from appendsD [OF f ok True] obtain b1 where b1: "f b = Inr b1" "buf_ok b1"
      "b_cap b1 = b_cap b" "b_content b1 = b_content b @ xs"
      by blast
    have l: "unat (b_len b1) = unat (b_len b) + length xs"
      using length_b_content [OF b1(2)] length_b_content [OF ok] b1(4) by simp
    show ?thesis
    proof (cases "unat (b_len b1) + length ys \<le> b_cap b1")
      case True
      from appendsD [OF g b1(2) True] b1 l True show ?thesis by simp
    next
      case False
      from appends_fail [OF g b1(2) False] b1 l False show ?thesis by simp
    qed
  next
    case False
    from appends_fail [OF f ok False] False show ?thesis by simp
  qed
qed

lemma appends_buf_append [wire_write]: "appends (buf_append (v::'a::len word)) (word_bytes_be v)"
proof (rule appendsI)
  fix b assume ok: "buf_ok b" and fit: "unat (b_len b) + length (word_bytes_be v) \<le> b_cap b"
  let ?n = "LENGTH('a) div 8"
  from fit have fit': "unat (b_len b) + ?n \<le> b_cap b" by simp
  from buf_extend [OF ok fit', of "word_bytes_be v" "word_bytes_be v"] obtain d where
    "memcpy (b_data b) (unat (b_len b)) (word_bytes_be v) 0 ?n = Inr d"
    "let b' = b\<lparr>b_data := d, b_len := b_len b + of_nat ?n\<rparr> in
      buf_ok b' \<and> b_cap b' = b_cap b \<and> b_content b' = b_content b @ word_bytes_be v"
    by auto
  with fit' show "\<exists>b'. buf_append v b = Inr b' \<and> buf_ok b' \<and> b_cap b' = b_cap b \<and>
      b_content b' = b_content b @ word_bytes_be v"
    by (simp add: buf_append_def Let_def)
qed (simp add: buf_append_def)

lemma appends_buf_append_bytes:
  assumes l: "unat l < 2 ^ 31" "unat l \<le> length src"
  shows "appends (buf_append_bytes src l) (take (unat l) src)"
proof (rule appendsI)
  fix b assume ok: "buf_ok b"
  then have u: "unat (b_len b + l) = unat (b_len b) + unat l"
    using l by (intro unat_add_nowrap) (simp add: buf_ok_def)
  {
    assume "\<not> unat (b_len b) + length (take (unat l) src) \<le> b_cap b"
    with l u show "buf_append_bytes src l b = Inl OutOfBounds" by (simp add: buf_append_bytes_def)
  }
  assume "unat (b_len b) + length (take (unat l) src) \<le> b_cap b"
  with l have fit: "unat (b_len b) + unat l \<le> b_cap b" by simp
  from buf_extend [OF ok fit, of "take (unat l) src" src] l obtain d where
    "memcpy (b_data b) (unat (b_len b)) src 0 (unat l) = Inr d"
    "let b' = b\<lparr>b_data := d, b_len := b_len b + of_nat (unat l)\<rparr> in
      buf_ok b' \<and> b_cap b' = b_cap b \<and> b_content b' = b_content b @ take (unat l) src"
    by auto
  with fit u show "\<exists>b'. buf_append_bytes src l b = Inr b' \<and> buf_ok b' \<and> b_cap b' = b_cap b \<and>
      b_content b' = b_content b @ take (unat l) src"
    by (simp add: buf_append_bytes_def Let_def)
qed

lemma appends_bytes [wire_write]:
  assumes "length bs < 2 ^ 31" "l = of_nat (length bs)"
  shows "appends (buf_append_bytes bs l) bs"
proof -
  have "unat l = length bs" using assms by (simp add: word_nat)
  with appends_buf_append_bytes [of l bs] assms show ?thesis by simp
qed

lemma appends_run [wire_write]:
  assumes "unat n < 2 ^ 31"
  shows "appends (buf_append_run c n) (replicate (unat n) c)"
proof -
  have "buf_append_run c n = buf_append_bytes (replicate (unat n) c) n"
    by (rule ext) (simp add: buf_append_run_def buf_append_bytes_def)
  with appends_buf_append_bytes [of n "replicate (unat n) c"] assms show ?thesis by simp
qed

lemma appends_CString [wire_write]:
  assumes "0 \<notin> set s"
  shows "appends (buf_appendCString s) (s @ [0])"
proof -
  have "if unat (b_len b) + length (s @ [0]) \<le> b_cap b
      then \<exists>b'. buf_appendCString_loop (s @ [0]) b = Inr b' \<and> buf_ok b' \<and> b_cap b' = b_cap b \<and>
        b_content b' = b_content b @ s @ [0]
      else buf_appendCString_loop (s @ [0]) b = Inl OutOfBounds" if "buf_ok b" for b
    using assms that
  proof (induction s arbitrary: b)
    case Nil
    then have ok: "buf_ok b" by simp
    show ?case
      using buf_extend [OF ok, of 1 "[0]" "[0]"] ok
      by (auto simp: Let_def memcpy_Inr_iff b_cap_def take_drop_update)
  next
    case (Cons c s)
    then have ok: "buf_ok b" by simp
    show ?case
    proof (cases "unat (b_len b) < b_cap b")
      case False
      then show ?thesis by simp
    next
      case True
      define b1 where "b1 = b\<lparr>b_data := (b_data b)[unat (b_len b) := c], b_len := b_len b + 1\<rparr>"
      have b1: "buf_ok b1" "b_cap b1 = b_cap b" "b_content b1 = b_content b @ [c]"
        using buf_extend [OF ok, of 1 "[c]" "[c]"] True
        by (auto simp: b1_def Let_def memcpy_Inr_iff b_cap_def take_drop_update)
      have l: "unat (b_len b1) = unat (b_len b) + 1"
        using length_b_content [OF b1(1)] length_b_content [OF ok] b1(3) by simp
      have st: "buf_appendCString_loop ((c # s) @ [0]) b = buf_appendCString_loop (s @ [0]) b1"
        using True Cons.prems by (simp add: b1_def b_cap_def Let_def)
      have "0 \<notin> set s" using Cons.prems by simp
      from Cons.IH [OF this b1(1)] show ?thesis
        unfolding st l b1(2,3) by (auto split: if_splits)
    qed
  qed
  then show ?thesis unfolding appends_def buf_appendCString_def by simp
qed

section \<open>Reading\<close>

definition has :: "buf \<Rightarrow> u32 \<Rightarrow> bytes \<Rightarrow> bool" where
  "has b p bs \<longleftrightarrow>
     unat p + length bs \<le> unat (b_len b) \<and> take (length bs) (drop (unat p) (b_content b)) = bs"

lemma has_data:
  assumes "buf_ok b" "has b p bs"
  shows "mem_get (b_data b) (unat p) (length bs) = Some bs"
proof -
  have "min (length bs) (unat (b_len b) - unat p) = length bs"
    using assms(2) unfolding has_def by linarith
  then have "take (length bs) (drop (unat p) (b_content b)) = take (length bs) (drop (unat p) (b_data b))"
    by (simp add: b_content_def drop_take)
  with assms show ?thesis by (simp add: has_def mem_get_def buf_ok_def b_cap_def)
qed

lemma has_append:
  assumes ok: "buf_ok b" and h: "has b p (xs @ ys)"
  shows "has b p xs" "has b (p + of_nat (length xs)) ys"
proof -
  let ?t = "drop (unat p) (b_content b)"
  have le: "unat p + (length xs + length ys) \<le> unat (b_len b)" using h by (simp add: has_def)
  then have lt: "unat p + length xs < 2 ^ 32" using unat_bounds(3) [of "b_len b"] by simp
  then have u: "unat (p + of_nat (length xs)) = unat p + length xs"
    by (subst unat_add_nowrap) (simp_all add: word_nat)
  have eq: "take (length xs + length ys) ?t = xs @ ys" using h by (simp add: has_def)
  have "take (length xs) ?t = take (length xs) (take (length xs + length ys) ?t)" by simp
  then have 1: "take (length xs) ?t = xs" unfolding eq by simp
  have "take (length ys) (drop (length xs) ?t) = drop (length xs) (take (length xs + length ys) ?t)"
    by (simp add: drop_take)
  then have 2: "take (length ys) (drop (length xs) ?t) = ys" unfolding eq by simp
  from 1 2 show "has b p xs" "has b (p + of_nat (length xs)) ys"
    using le u by (simp_all add: has_def add.commute)
qed

lemma has_at:
  assumes "buf_ok b" "has b p (word_bytes_be (v::'a::len word))" "LENGTH('a) mod 8 = 0"
  shows "buf_at b p = Inr v"
  using has_data [OF assms(1,2)] assms(2,3)
  by (simp add: buf_at_def has_def be_word_word_bytes_be)

lemma has_field:
  assumes "buf_ok b" "has b p bs" "l = of_nat (length bs)"
  shows "buf_field b p l = Inr bs"
proof -
  have le: "unat p + length bs \<le> unat (b_len b)" using assms(2) by (simp add: has_def)
  then have l: "unat l = length bs"
    using assms(3) unat_bounds(3) [of "b_len b"] by (simp add: word_nat)
  have "unat (p + l) = unat p + length bs"
    using le l unat_bounds(3) [of "b_len b"] by (subst unat_add_nowrap) simp_all
  with le have "p + l \<le> b_len b" by (simp add: word_le_nat_alt)
  with has_data [OF assms(1,2)] l show ?thesis by (simp add: buf_field_def)
qed

lemma has_get:
  assumes "buf_ok b" "has b p [v]"
  shows "buf_get b p = Inr v"
  using has_data [OF assms] assms(2)
  by (auto simp: buf_get_def has_def mem_get_def word_le_nat_alt take_Suc hd_drop_conv_nth
      split: if_splits)

lemma has_appended:
  assumes "buf_ok b" "buf_ok b'" "b_content b' = b_content b @ bs"
  shows "has b' (b_len b) bs" "b_len b' = b_len b + of_nat (length bs)"
proof -
  have l: "unat (b_len b') = unat (b_len b) + length bs"
    using length_b_content [OF assms(1)] length_b_content [OF assms(2)] assms(3) by simp
  with assms show "has b' (b_len b) bs" by (simp add: has_def)
  have "length bs < 2 ^ 32" using l unat_bounds(3) [of "b_len b'"] by simp
  then have "unat (b_len b + of_nat (length bs)) = unat (b_len b) + length bs"
    using l unat_bounds(3) [of "b_len b'"] by (subst unat_add_nowrap) (simp_all add: word_nat)
  with l show "b_len b' = b_len b + of_nat (length bs)" by (simp add: word_unat_eq_iff)
qed

text \<open>One field read: the value, and where the rest stands.\<close>

lemma has_step8:
  assumes "buf_ok b" "has b p ([v] @ r)"
  shows "buf_get b p = Inr v" "has b (p + 1) r"
  using has_get [OF assms(1) has_append(1) [OF assms]] has_append(2) [OF assms] by simp_all

lemma has_step8_at:
  assumes "buf_ok b" "has b p (word_bytes_be (v::u8) @ r)"
  shows "buf_at b p = Inr v" "has b (p + 1) r"
  using has_at [OF assms(1) has_append(1) [OF assms]] has_append(2) [OF assms] by simp_all

lemma has_step16:
  assumes "buf_ok b" "has b p (word_bytes_be (v::u16) @ r)"
  shows "buf_at b p = Inr v" "has b (p + 2) r"
  using has_at [OF assms(1) has_append(1) [OF assms]] has_append(2) [OF assms] by simp_all

lemma has_step32:
  assumes "buf_ok b" "has b p (word_bytes_be (v::u32) @ r)"
  shows "buf_at b p = Inr v" "has b (p + 4) r"
  using has_at [OF assms(1) has_append(1) [OF assms]] has_append(2) [OF assms] by simp_all

lemma has_step64:
  assumes "buf_ok b" "has b p (word_bytes_be (v::u64) @ r)"
  shows "buf_at b p = Inr v" "has b (p + 8) r"
  using has_at [OF assms(1) has_append(1) [OF assms]] has_append(2) [OF assms] by simp_all

lemma has_step_field:
  assumes "buf_ok b" "has b p (bs @ r)" "l = of_nat (length bs)"
  shows "buf_field b p l = Inr bs" "has b (p + l) r"
  using has_field [OF assms(1) has_append(1) [OF assms(1,2)] assms(3)]
    has_append(2) [OF assms(1,2)] assms(3) by simp_all

section \<open>Wire formats\<close>

text \<open>
  The contract of a serializable object: \<open>serialize\<close> appends the encoding \<open>enc x\<close>, and
  \<open>deserialize\<close> started where the encoding stands returns the object and the number of bytes it
  consumed. The clients' lemmas are the round trip and the parse loop of a packet that carries a
  counted sequence of objects.
\<close>

fun serialize_all :: "('a \<Rightarrow> buf \<Rightarrow> buf res) \<Rightarrow> 'a list \<Rightarrow> buf \<Rightarrow> buf res" where
  "serialize_all ser [] b = Inr b"
| "serialize_all ser (x # xs) b = res_bind (ser x b) (serialize_all ser xs)"

fun deserialize_n :: "(buf \<Rightarrow> u32 \<Rightarrow> ('a \<times> u32) res) \<Rightarrow> nat \<Rightarrow> buf \<Rightarrow> u32 \<Rightarrow> ('a list \<times> u32) res" where
  "deserialize_n des 0 b p = Inr ([], p)"
| "deserialize_n des (Suc n) b p =
     res_bind (des b p) (\<lambda>(x, k).
     res_bind (deserialize_n des n b (p + k)) (\<lambda>(xs, q). Inr (x # xs, q)))"

lemma appends_serialize_all:
  assumes "\<And>x. x \<in> set xs \<Longrightarrow> appends (ser x) (enc x)"
  shows "appends (serialize_all ser xs) (concat (map enc xs))"
  using assms
proof (induction xs)
  case Nil
  have "serialize_all ser [] = Inr" by (rule ext) simp
  then show ?case by (simp add: appends_Inr)
next
  case (Cons x xs)
  have "serialize_all ser (x # xs) = (\<lambda>b. res_bind (ser x b) (serialize_all ser xs))" by (rule ext) simp
  with appends_bind [of "ser x" "enc x" "serialize_all ser xs"] Cons show ?case by simp
qed

locale wire_format =
  fixes wf :: "'a \<Rightarrow> bool"
    and enc :: "'a \<Rightarrow> bytes"
    and serialize :: "'a \<Rightarrow> buf \<Rightarrow> buf res"
    and deserialize :: "buf \<Rightarrow> u32 \<Rightarrow> ('a \<times> u32) res"
  assumes serialize_law: "wf x \<Longrightarrow> appends (serialize x) (enc x)"
    and deserialize_law: "wf x \<Longrightarrow> buf_ok b \<Longrightarrow> has b p (enc x) \<Longrightarrow>
      deserialize b p = Inr (x, of_nat (length (enc x)))"
begin

lemma roundtrip:
  assumes "wf x" "buf_ok b" "unat (b_len b) + length (enc x) \<le> b_cap b"
  shows "\<exists>b'. serialize x b = Inr b' \<and> buf_ok b' \<and> b_content b' = b_content b @ enc x \<and>
    deserialize b' (b_len b) = Inr (x, b_len b' - b_len b)"
proof -
  from appendsD [OF serialize_law [OF assms(1)] assms(2,3)] obtain b' where
    b': "serialize x b = Inr b'" "buf_ok b'" "b_content b' = b_content b @ enc x"
    by blast
  note A = has_appended [OF assms(2) b'(2,3)]
  from deserialize_law [OF assms(1) b'(2) A(1)] A(2) b' show ?thesis by auto
qed

lemma no_room:
  assumes "wf x" "buf_ok b" "b_cap b < unat (b_len b) + length (enc x)"
  shows "serialize x b = Inl OutOfBounds"
  using appends_fail [OF serialize_law [OF assms(1)] assms(2)] assms(3) by simp

lemma enc_inj:
  assumes "wf x" "wf y" "enc x = enc y" "length (enc x) < 2 ^ 31"
  shows "x = y"
proof -
  define b where "b = buf_new (replicate (length (enc x)) 0)"
  have ok: "buf_ok b" "unat (b_len b) + length (enc x) \<le> b_cap b"
    using assms(4) by (simp_all add: b_def buf_new_def buf_ok_def b_cap_def)
  from appendsD [OF serialize_law [OF assms(1)] ok] obtain b' where
    b': "buf_ok b'" "b_content b' = b_content b @ enc x" by blast
  from has_appended(1) [OF ok(1) b'] have "has b' (b_len b) (enc x)" "has b' (b_len b) (enc y)"
    using assms(3) by simp_all
  with deserialize_law [OF assms(1) b'(1)] deserialize_law [OF assms(2) b'(1)] show ?thesis
    by fastforce
qed

lemma serialize_all_appends:
  assumes "\<And>x. x \<in> set xs \<Longrightarrow> wf x"
  shows "appends (serialize_all serialize xs) (concat (map enc xs))"
  using assms by (intro appends_serialize_all serialize_law)

lemma deserialize_n_concat:
  assumes "\<And>x. x \<in> set xs \<Longrightarrow> wf x" "buf_ok b" "has b p (concat (map enc xs) @ r)"
  shows "deserialize_n deserialize (length xs) b p =
    Inr (xs, p + of_nat (length (concat (map enc xs))))"
  using assms
proof (induction xs arbitrary: p)
  case Nil
  then show ?case by simp
next
  case (Cons x xs)
  then have h: "has b p (enc x @ (concat (map enc xs) @ r))" by simp
  note H = has_append [OF Cons.prems(2) h]
  have "deserialize b p = Inr (x, of_nat (length (enc x)))"
    using Cons.prems H(1) by (intro deserialize_law) simp_all
  with Cons.IH [OF _ Cons.prems(2) H(2)] Cons.prems show ?case by (simp add: add.assoc)
qed

end

section \<open>Safety of operation sequences\<close>

datatype buf_op =
    OpCopyFrom bytes
  | OpAppend8 u8 | OpAppend16 u16 | OpAppend32 u32 | OpAppend64 u64
  | OpAppendRun u8 u32 | OpAppendBytes bytes | OpAppendCString bytes
  | OpAppendField u32 | OpAddSize u32 | OpSetSize u32
  | OpSet u32 u8 | OpSetAt32 u32 u32
  | OpGet u32 | OpAt64 u32 | OpField u32 u32
  | OpBehead u32 | OpErase u32 u32 | OpClear | OpZero | OpZeroUnused | OpBurn

fun buf_step :: "buf_op \<Rightarrow> buf \<Rightarrow> buf res" where
  "buf_step (OpCopyFrom bs) b = buf_copyFrom b bs (of_nat (length bs))"
| "buf_step (OpAppend8 v) b = buf_append v b"
| "buf_step (OpAppend16 v) b = buf_append v b"
| "buf_step (OpAppend32 v) b = buf_append v b"
| "buf_step (OpAppend64 v) b = buf_append v b"
| "buf_step (OpAppendRun c n) b = buf_append_run c n b"
| "buf_step (OpAppendBytes bs) b = buf_append_bytes bs (of_nat (length bs)) b"
| "buf_step (OpAppendCString s) b = buf_appendCString s b"
| "buf_step (OpAppendField l) b = res_bind (buf_appendField l b) (\<lambda>(off, b'). Inr b')"
| "buf_step (OpAddSize i) b = buf_addSize i b"
| "buf_step (OpSetSize i) b = buf_setSize i b"
| "buf_step (OpSet i v) b = buf_set b i v"
| "buf_step (OpSetAt32 i v) b = buf_setAt b i v"
| "buf_step (OpGet i) b = res_bind (buf_get b i) (\<lambda>_. Inr b)"
| "buf_step (OpAt64 i) b = res_bind (buf_at b i :: u64 res) (\<lambda>_. Inr b)"
| "buf_step (OpField i l) b = res_bind (buf_field b i l) (\<lambda>_. Inr b)"
| "buf_step (OpBehead at) b = buf_behead at b"
| "buf_step (OpErase at len) b = buf_erase at len b"
| "buf_step OpClear b = Inr (buf_clear b)"
| "buf_step OpZero b = buf_zero b"
| "buf_step OpZeroUnused b = buf_zeroUnused b"
| "buf_step OpBurn b = buf_burn b"

fun buf_run :: "buf_op list \<Rightarrow> buf \<Rightarrow> buf res" where
  "buf_run [] b = Inr b"
| "buf_run (op # ops) b = res_bind (buf_step op b) (buf_run ops)"

text \<open>Arguments below \<open>2 ^ 31\<close>; C strings have no inner NUL.\<close>

fun buf_op_small :: "buf_op \<Rightarrow> bool" where
  "buf_op_small (OpCopyFrom bs) = (length bs < 2 ^ 31)"
| "buf_op_small (OpAppendRun c n) = (n < 2 ^ 31)"
| "buf_op_small (OpAppendBytes bs) = (length bs < 2 ^ 31)"
| "buf_op_small (OpAppendCString s) = (0 \<notin> set s)"
| "buf_op_small (OpAppendField l) = (l < 2 ^ 31)"
| "buf_op_small (OpAddSize i) = (i < 2 ^ 31)"
| "buf_op_small (OpField i l) = (i < 2 ^ 31 \<and> l < 2 ^ 31)"
| "buf_op_small (OpErase at len) = (at < 2 ^ 31 \<and> len < 2 ^ 31)"
| "buf_op_small _ = True"

definition safe_to :: "buf \<Rightarrow> buf res \<Rightarrow> bool" where
  "safe_to b r \<longleftrightarrow> r = Inl OutOfBounds \<or> (\<exists>b'. r = Inr b' \<and> buf_ok b' \<and> b_cap b' = b_cap b)"

lemma safe_appends: "appends f bs \<Longrightarrow> buf_ok b \<Longrightarrow> safe_to b (f b)"
  using appends_total unfolding safe_to_def by blast

lemma safe_read:
  assumes "buf_ok b" "r = Inl OutOfBounds \<or> (\<exists>x. r = Inr x)"
  shows "safe_to b (res_bind r (\<lambda>_. Inr b))"
  using assms by (auto simp: safe_to_def)

lemma unat_lt31: "n < (2 ^ 31 :: u32) \<Longrightarrow> unat n < 2 ^ 31"
  by (simp add: word_less_nat_alt)

lemma safe_memcpy:
  assumes "off + n \<le> b_cap b" "soff + n \<le> length src" "unat l \<le> b_cap b" "buf_ok b"
  shows "safe_to b (res_bind (memcpy (b_data b) off src soff n) (\<lambda>d.
    Inr (b\<lparr>b_data := d, b_len := l\<rparr>)))"
  using assms by (simp add: memcpy_ok safe_to_def buf_ok_def b_cap_def)

lemma safe_memcpy':
  assumes "off + n \<le> b_cap b" "soff + n \<le> length src" "buf_ok b"
  shows "safe_to b (res_bind (memcpy (b_data b) off src soff n) (\<lambda>d. Inr (b\<lparr>b_data := d\<rparr>)))"
  using assms by (simp add: memcpy_ok safe_to_def buf_ok_def b_cap_def)

lemma safe_behead: "buf_ok b \<Longrightarrow> safe_to b (buf_behead at b)"
proof (cases "at = 0 \<or> at > b_len b")
  case True
  then show "buf_ok b \<Longrightarrow> ?thesis" by (auto simp: buf_behead_def safe_to_def)
next
  case False
  then have le: "at \<le> b_len b" by (simp add: not_less)
  then have u: "unat (b_len b - at) = unat (b_len b) - unat at" "unat at \<le> unat (b_len b)"
    by (simp_all add: word_nat word_le_nat_alt)
  assume ok: "buf_ok b"
  have "safe_to b (res_bind (memcpy (b_data b) 0 (b_data b) (unat at) (unat (b_len b - at)))
      (\<lambda>d. Inr (b\<lparr>b_data := d, b_len := b_len b - at\<rparr>)))"
    using ok u by (intro safe_memcpy) (auto simp: buf_ok_def b_cap_def)
  with False show ?thesis by (simp add: buf_behead_def Let_def)
qed

lemma safe_erase:
  assumes ok: "buf_ok b" and small: "at < 2 ^ 31" "len < 2 ^ 31"
  shows "safe_to b (buf_erase at len b)"
proof (cases "at + len > b_len b")
  case True
  then show ?thesis by (simp add: buf_erase_def safe_to_def)
next
  case False
  have s: "unat (at + len) = unat at + unat len"
    using small [THEN unat_lt31] by (intro unat_add_nowrap) simp
  then have le: "unat at + unat len \<le> unat (b_len b)" using False by (simp add: word_le_nat_alt not_less)
  have u: "unat (b_len b - (at + len)) = unat (b_len b) - (unat at + unat len)"
    "unat (b_len b - len) = unat (b_len b) - unat len"
    using False le s by (simp_all add: word_nat word_le_nat_alt)
  have "safe_to b (res_bind
      (memcpy (b_data b) (unat at) (b_data b) (unat (at + len)) (unat (b_len b - (at + len))))
      (\<lambda>d. Inr (b\<lparr>b_data := d, b_len := b_len b - len\<rparr>)))"
    using ok u s le by (intro safe_memcpy) (auto simp: buf_ok_def b_cap_def)
  with False show ?thesis by (simp add: buf_erase_def Let_def)
qed

lemma safe_add:
  assumes "buf_ok b" "l < 2 ^ 31" "unat (b_len b + l) \<le> b_cap b"
  shows "buf_ok (b\<lparr>b_len := b_len b + l\<rparr>)"
  using assms by (simp add: buf_ok_def b_cap_def)

lemma field_total:
  assumes ok: "buf_ok b" and small: "i < 2 ^ 31" "l < 2 ^ 31"
  shows "buf_field b i l = Inl OutOfBounds \<or> (\<exists>xs. buf_field b i l = Inr xs)"
proof -
  have s: "unat (i + l) = unat i + unat l"
    using small [THEN unat_lt31] by (intro unat_add_nowrap) simp
  show ?thesis
  proof (cases "i + l > b_len b")
    case False
    then have "unat i + unat l \<le> b_cap b"
      using s ok by (simp add: word_le_nat_alt not_less buf_ok_def)
    then show ?thesis using False by (simp add: buf_field_def mem_get_def b_cap_def)
  qed (simp add: buf_field_def)
qed

lemma at_total:
  assumes ok: "buf_ok b"
  shows "(buf_at b i :: 'a::len word res) = Inl OutOfBounds \<or> (\<exists>x. (buf_at b i :: 'a word res) = Inr x)"
proof (cases "unat i + LENGTH('a) div 8 > unat (b_len b)")
  case False
  then show ?thesis using ok by (simp add: buf_at_def mem_get_def buf_ok_def b_cap_def)
qed (simp add: buf_at_def)

lemma get_total:
  assumes ok: "buf_ok b"
  shows "buf_get b i = Inl OutOfBounds \<or> (\<exists>x. buf_get b i = Inr x)"
proof (cases "i \<ge> b_len b")
  case False
  then have "unat i < length (b_data b)"
    using ok by (simp add: word_le_nat_alt buf_ok_def b_cap_def)
  with False show ?thesis by (simp add: buf_get_def)
qed (simp add: buf_get_def)

lemma buf_step_safe:
  assumes ok: "buf_ok b" and small: "buf_op_small op"
  shows "safe_to b (buf_step op b)"
proof (cases op)
  case (OpCopyFrom bs)
  with small have u: "unat (of_nat (length bs) :: u32) = length bs" by (simp add: word_nat)
  show ?thesis
  proof (cases "length bs \<le> b_cap b")
    case True
    have "safe_to b (res_bind (memcpy (b_data b) 0 bs 0 (length bs))
        (\<lambda>d. Inr (b\<lparr>b_data := d, b_len := of_nat (length bs)\<rparr>)))"
      using ok u True by (intro safe_memcpy) simp_all
    with True u OpCopyFrom show ?thesis by (simp add: buf_copyFrom_def)
  next
    case False
    with u OpCopyFrom show ?thesis by (simp add: buf_copyFrom_def safe_to_def)
  qed
next
  case (OpAppendRun c n)
  with small have "unat n < 2 ^ 31" using unat_lt31 by simp
  from safe_appends [OF appends_run [OF this] ok] OpAppendRun show ?thesis by simp
next
  case (OpAppendBytes bs)
  with small safe_appends [OF appends_bytes ok, of bs] show ?thesis by simp
next
  case (OpAppendCString s)
  with small safe_appends [OF appends_CString ok, of s] show ?thesis by simp
next
  case (OpAppendField l)
  with small safe_add [OF ok, of l] show ?thesis
    by (auto simp: buf_appendField_def safe_to_def b_cap_def)
next
  case (OpAddSize l)
  with small safe_add [OF ok, of l] show ?thesis
    by (auto simp: buf_addSize_def safe_to_def b_cap_def add.commute)
next
  case (OpSetSize i)
  with ok show ?thesis by (auto simp: buf_setSize_def safe_to_def buf_ok_def b_cap_def)
next
  case (OpSet i v)
  show ?thesis
  proof (cases "i \<ge> b_len b")
    case False
    then have "unat i < length (b_data b)" using ok by (simp add: word_le_nat_alt buf_ok_def b_cap_def)
    with False ok OpSet show ?thesis by (simp add: buf_set_def safe_to_def buf_ok_def b_cap_def)
  qed (simp add: OpSet buf_set_def safe_to_def)
next
  case (OpSetAt32 i v)
  show ?thesis
  proof (cases "unat i + 4 > unat (b_len b)")
    case False
    then have "safe_to b (res_bind (memcpy (b_data b) (unat i) (word_bytes_be v) 0 4)
        (\<lambda>d. Inr (b\<lparr>b_data := d\<rparr>)))"
      using ok by (intro safe_memcpy') (simp_all add: buf_ok_def)
    with False OpSetAt32 show ?thesis by (simp add: buf_setAt_def)
  qed (simp add: OpSetAt32 buf_setAt_def safe_to_def)
next
  case OpZero
  have "safe_to b (buf_zero b)"
    unfolding buf_zero_def using ok by (intro safe_memcpy') (simp_all add: buf_ok_def)
  with OpZero show ?thesis by simp
next
  case OpZeroUnused
  have le: "b_len b \<le> of_nat (b_cap b)" and u: "unat (of_nat (b_cap b) :: u32) = b_cap b"
    using ok by (simp_all add: buf_ok_def word_le_nat_alt word_nat)
  have "unat (of_nat (b_cap b) - b_len b) = b_cap b - unat (b_len b)"
    using le u by (simp add: unat_sub_nowrap)
  then have "safe_to b (buf_zeroUnused b)"
    unfolding buf_zeroUnused_def Let_def using ok by (intro safe_memcpy') (simp_all add: buf_ok_def)
  with OpZeroUnused show ?thesis by simp
next
  case OpBurn
  have "safe_to b (buf_burn b)"
    unfolding buf_burn_def burn_def using ok by (intro safe_memcpy') (simp_all add: buf_ok_def)
  with OpBurn show ?thesis by simp
qed (use ok small in \<open>simp_all add: safe_appends [OF appends_buf_append] safe_behead safe_erase
      safe_read get_total at_total field_total buf_clear_def, simp add: safe_to_def buf_ok_def b_cap_def\<close>)

lemma buf_run_safe:
  assumes "buf_ok b" "\<And>op. op \<in> set ops \<Longrightarrow> buf_op_small op"
  shows "safe_to b (buf_run ops b)"
  using assms
proof (induction ops arbitrary: b)
  case Nil
  then show ?case by (simp add: safe_to_def)
next
  case (Cons op ops)
  have "safe_to b (buf_step op b)" using Cons.prems by (intro buf_step_safe) simp_all
  then consider "buf_step op b = Inl OutOfBounds"
    | b' where "buf_step op b = Inr b'" "buf_ok b'" "b_cap b' = b_cap b"
    unfolding safe_to_def by blast
  then show ?case
  proof cases
    case 1
    then show ?thesis by (simp add: safe_to_def)
  next
    case 2
    with Cons.IH [OF 2(2)] Cons.prems show ?thesis by (simp add: safe_to_def)
  qed
qed

section \<open>Properties\<close>

text \<open>
  C14. Memory safety of the buffer: any sequence of operations on a new buffer, with arguments
  below \<open>2 ^ 31\<close>, either throws \<open>ZT_EXCEPTION_OUT_OF_BOUNDS\<close> or ends in a buffer whose length is
  within its unchanged capacity. No access leaves the array.
\<close>

theorem buffer_operations_safe:
  assumes "length mem < 2 ^ 31" "\<And>op. op \<in> set ops \<Longrightarrow> buf_op_small op"
  shows "buf_run ops (buf_new mem) = Inl OutOfBounds \<or>
    (\<exists>b'. buf_run ops (buf_new mem) = Inr b' \<and> unat (b_len b') \<le> length (b_data b') \<and>
       length (b_data b') = length mem)"
proof -
  have "buf_ok (buf_new mem)" using assms(1) by (simp add: buf_new_def buf_ok_def b_cap_def)
  from buf_run_safe [OF this assms(2)] show ?thesis
    by (auto simp: safe_to_def buf_ok_def b_cap_def buf_new_def)
qed

theorem buffer_operations_safe_witness:
  "buf_run [OpAppend32 7, OpAppendBytes [1, 2], OpErase 1 2, OpField 0 4] (buf_new (replicate 8 0)) =
       Inl OutOfBounds \<or>
    (\<exists>b'. buf_run [OpAppend32 7, OpAppendBytes [1, 2], OpErase 1 2, OpField 0 4]
        (buf_new (replicate 8 0)) = Inr b' \<and>
       unat (b_len b') \<le> length (b_data b') \<and> length (b_data b') = length (replicate 8 (0::u8)))"
  by (rule buffer_operations_safe) auto

text \<open>
  The bounds check of \<open>field\<close> adds two 32-bit numbers: for every non-empty buffer there are
  arguments whose sum wraps, pass the check, and give a pointer behind the array.
\<close>

theorem field_check_wraps:
  assumes "buf_ok b"
  shows "buf_field b 0xFFFFFFFF 1 = Inl UndefinedBehaviour"
proof -
  have w: "(0xFFFFFFFF :: u32) + 1 = 0" by code_simp
  have "\<not> 0xFFFFFFFF + 1 > b_len b" unfolding w not_less by (rule word_zero_le)
  moreover have "\<not> unat (0xFFFFFFFF :: u32) + unat (1 :: u32) \<le> length (b_data b)"
    using assms by (auto simp: buf_ok_def b_cap_def)
  ultimately show ?thesis by (simp only: buf_field_def mem_get_def if_False option.case)
qed

theorem field_check_wraps_witness:
  "buf_field (buf_new [0, 0]) 0xFFFFFFFF 1 = Inl UndefinedBehaviour"
  by (rule field_check_wraps) (simp add: buf_new_def buf_ok_def b_cap_def)

end
