(* ===== verification/Zt_Address.thy ===== *)
theory Zt_Address
  imports Zt_Buffer
begin

text \<open>
  \<^verbatim>\<open>node/Address.hpp\<close> and \<^verbatim>\<open>node/MAC.hpp\<close>: the 40-bit node address, the 48-bit Ethernet address and
  the mapping between the two that a virtual network uses. The integer inside each object keeps
  its 64 bits; \<open>addr_ok\<close> and \<open>mac_ok\<close> say that only 40 and 48 of them are used.
\<close>

section \<open>Address\<close>

datatype address = Address (addr_toInt: u64)

definition addr_new :: "u64 \<Rightarrow> address" where
  "addr_new a = Address (a AND 0xffffffffff)"

definition addr_setTo :: "bytes \<Rightarrow> u32 \<Rightarrow> address res" where
  "addr_setTo bits len =
     (if len < 5 then Inr (Address 0)
      else case mem_get bits 0 5 of
        None \<Rightarrow> Inl UndefinedBehaviour
      | Some b \<Rightarrow> Inr (Address
          (push_bit 32 (ucast (b ! 0)) OR push_bit 24 (ucast (b ! 1)) OR push_bit 16 (ucast (b ! 2)) OR
           push_bit 8 (ucast (b ! 3)) OR ucast (b ! 4))))"

definition addr_bytes :: "address \<Rightarrow> bytes" where
  "addr_bytes a = map (\<lambda>sh. ucast (drop_bit sh (addr_toInt a) AND 0xff)) [32, 24, 16, 8, 0]"

definition addr_copyTo :: "address \<Rightarrow> bytes \<Rightarrow> u32 \<Rightarrow> bytes res" where
  "addr_copyTo a bits len = (if len < 5 then Inr bits else memcpy bits 0 (addr_bytes a) 0 5)"

text \<open>Fill the field that \<open>appendField\<close> returned; used by \<open>Address\<close> and \<open>MAC\<close>.\<close>

definition buf_fill_field :: "bytes \<Rightarrow> buf \<Rightarrow> buf res" where
  "buf_fill_field bs b =
     res_bind (buf_appendField (of_nat (length bs)) b) (\<lambda>(p, b1).
     res_bind (memcpy (b_data b1) (unat p) bs 0 (length bs)) (\<lambda>d. Inr (b1\<lparr>b_data := d\<rparr>)))"

definition addr_appendTo :: "address \<Rightarrow> buf \<Rightarrow> buf res" where
  "addr_appendTo a b = buf_fill_field (addr_bytes a) b"

definition addr_hashCode :: "address \<Rightarrow> u64" where
  "addr_hashCode a = addr_toInt a"

definition addr_toString :: "address \<Rightarrow> bytes" where
  "addr_toString a = hex10 (addr_toInt a)"

definition addr_isReserved :: "address \<Rightarrow> bool" where
  "addr_isReserved a \<longleftrightarrow> addr_toInt a = 0 \<or> drop_bit 32 (addr_toInt a) = 0xff"

text \<open>\<open>operator[]\<close>; the shift count \<open>32 - i * 8\<close> is unsigned, so an index above 4 is undefined.\<close>

definition addr_nth :: "address \<Rightarrow> u32 \<Rightarrow> u8 res" where
  "addr_nth a i =
     (let sh = 32 - i * 8 in
      if unat sh < 64 then Inr (ucast (drop_bit (unat sh) (addr_toInt a) AND 0xff))
      else Inl UndefinedBehaviour)"

instantiation address :: linorder
begin

definition less_eq_address :: "address \<Rightarrow> address \<Rightarrow> bool" where
  "less_eq_address a b \<longleftrightarrow> addr_toInt a \<le> addr_toInt b"

definition less_address :: "address \<Rightarrow> address \<Rightarrow> bool" where
  "less_address a b \<longleftrightarrow> addr_toInt a < addr_toInt b"

instance
  by standard (auto simp: less_eq_address_def less_address_def address.expand)

end

definition addr_ok :: "address \<Rightarrow> bool" where
  "addr_ok a \<longleftrightarrow> addr_toInt a < 2 ^ 40"

section \<open>MAC\<close>

datatype mac = MAC (mac_toInt: u64)

definition mac_new :: "u64 \<Rightarrow> mac" where
  "mac_new m = MAC (m AND 0xffffffffffff)"

definition mac_of_octets :: "u8 \<Rightarrow> u8 \<Rightarrow> u8 \<Rightarrow> u8 \<Rightarrow> u8 \<Rightarrow> u8 \<Rightarrow> mac" where
  "mac_of_octets a b c d e f =
     MAC (push_bit 40 (ucast a AND 0xff) OR push_bit 32 (ucast b AND 0xff) OR
          push_bit 24 (ucast c AND 0xff) OR push_bit 16 (ucast d AND 0xff) OR
          push_bit 8 (ucast e AND 0xff) OR (ucast f AND 0xff))"

definition mac_setTo :: "bytes \<Rightarrow> u32 \<Rightarrow> mac res" where
  "mac_setTo bits len =
     (if len < 6 then Inr (MAC 0)
      else case mem_get bits 0 6 of
        None \<Rightarrow> Inl UndefinedBehaviour
      | Some b \<Rightarrow> Inr (mac_of_octets (b ! 0) (b ! 1) (b ! 2) (b ! 3) (b ! 4) (b ! 5)))"

definition mac_bytes :: "mac \<Rightarrow> bytes" where
  "mac_bytes m = map (\<lambda>sh. ucast (drop_bit sh (mac_toInt m) AND 0xff)) [40, 32, 24, 16, 8, 0]"

definition mac_copyTo :: "mac \<Rightarrow> bytes \<Rightarrow> u32 \<Rightarrow> bytes res" where
  "mac_copyTo m bits len = (if len < 6 then Inr bits else memcpy bits 0 (mac_bytes m) 0 6)"

definition mac_appendTo :: "mac \<Rightarrow> buf \<Rightarrow> buf res" where
  "mac_appendTo m b = buf_fill_field (mac_bytes m) b"

definition mac_isBroadcast :: "mac \<Rightarrow> bool" where
  "mac_isBroadcast m \<longleftrightarrow> mac_toInt m = 0xffffffffffff"

definition mac_isMulticast :: "mac \<Rightarrow> bool" where
  "mac_isMulticast m \<longleftrightarrow> mac_toInt m AND 0x010000000000 \<noteq> 0"

definition mac_isLocallyAdministered :: "mac \<Rightarrow> bool" where
  "mac_isLocallyAdministered m \<longleftrightarrow> mac_toInt m AND 0x020000000000 \<noteq> 0"

definition firstOctetForNetwork :: "u64 \<Rightarrow> u8" where
  "firstOctetForNetwork nwid =
     (let a = ucast (nwid AND 0xfe) OR 0x02 in if a = 0x52 then 0x32 else a)"

definition mac_fromAddress :: "address \<Rightarrow> u64 \<Rightarrow> mac" where
  "mac_fromAddress ztaddr nwid =
     (let m0 = push_bit 40 (ucast (firstOctetForNetwork nwid));
          m1 = m0 OR addr_toInt ztaddr;
          m2 = m1 XOR push_bit 32 (drop_bit 8 nwid AND 0xff);
          m3 = m2 XOR push_bit 24 (drop_bit 16 nwid AND 0xff);
          m4 = m3 XOR push_bit 16 (drop_bit 24 nwid AND 0xff);
          m5 = m4 XOR push_bit 8 (drop_bit 32 nwid AND 0xff);
          m6 = m5 XOR (drop_bit 40 nwid AND 0xff)
      in MAC m6)"

definition mac_toAddress :: "mac \<Rightarrow> u64 \<Rightarrow> address" where
  "mac_toAddress m nwid =
     (let a0 = mac_toInt m AND 0xffffffffff;
          a1 = a0 XOR push_bit 32 (drop_bit 8 nwid AND 0xff);
          a2 = a1 XOR push_bit 24 (drop_bit 16 nwid AND 0xff);
          a3 = a2 XOR push_bit 16 (drop_bit 24 nwid AND 0xff);
          a4 = a3 XOR push_bit 8 (drop_bit 32 nwid AND 0xff);
          a5 = a4 XOR (drop_bit 40 nwid AND 0xff)
      in addr_new a5)"

definition mac_nth :: "mac \<Rightarrow> u32 \<Rightarrow> u8 res" where
  "mac_nth m i =
     (let sh = 40 - i * 8 in
      if unat sh < 64 then Inr (ucast (drop_bit (unat sh) (mac_toInt m) AND 0xff))
      else Inl UndefinedBehaviour)"

definition mac_toString :: "mac \<Rightarrow> bytes" where
  "mac_toString m =
     (let h = (\<lambda>sh. hexchar (drop_bit sh (mac_toInt m))) in
      [h 44, h 40, 58, h 36, h 32, 58, h 28, h 24, 58, h 20, h 16, 58, h 12, h 8, 58, h 4, h 0])"

instantiation mac :: linorder
begin

definition less_eq_mac :: "mac \<Rightarrow> mac \<Rightarrow> bool" where
  "less_eq_mac a b \<longleftrightarrow> mac_toInt a \<le> mac_toInt b"

definition less_mac :: "mac \<Rightarrow> mac \<Rightarrow> bool" where
  "less_mac a b \<longleftrightarrow> mac_toInt a < mac_toInt b"

instance
  by standard (auto simp: less_eq_mac_def less_mac_def mac.expand)

end

definition mac_ok :: "mac \<Rightarrow> bool" where
  "mac_ok m \<longleftrightarrow> mac_toInt m < 2 ^ 48"

section \<open>Lemmas\<close>

lemma and_mask40: "(a::u64) AND 0xffffffffff = take_bit 40 a"
  by (simp add: take_bit_eq_mask mask_eq_exp_minus_1)

lemma and_mask48: "(a::u64) AND 0xffffffffffff = take_bit 48 a"
  by (simp add: take_bit_eq_mask mask_eq_exp_minus_1)

lemma take_bit_id_iff: "n < 64 \<Longrightarrow> take_bit n (a::u64) = a \<longleftrightarrow> a < 2 ^ n"
proof -
  assume n: "n < 64"
  have "unat (take_bit n a) = unat a mod 2 ^ n"
    by (simp only: unsigned_take_bit_eq) (rule take_bit_eq_mod)
  moreover have "unat (2 ^ n :: u64) = 2 ^ n"
  proof -
    have "(2::nat) ^ n < 2 ^ 64" using n by (intro power_strict_increasing) simp_all
    then show ?thesis using unat_of_nat_nowrap [where 'a = 64, of "2 ^ n"] by simp
  qed
  moreover have "(k mod 2 ^ n = k) = (k < 2 ^ n)" for k :: nat
    by (simp add: mod_eq_self_iff_div_eq_0 div_eq_0_iff)
  ultimately show ?thesis
    by (simp only: word_unat_eq_iff [of "take_bit n a"] word_less_nat_alt)
qed

lemma addr_ok_take: "addr_ok a \<longleftrightarrow> take_bit 40 (addr_toInt a) = addr_toInt a"
  by (simp add: addr_ok_def take_bit_id_iff)

lemma mac_ok_take: "mac_ok m \<longleftrightarrow> take_bit 48 (mac_toInt m) = mac_toInt m"
  by (simp add: mac_ok_def take_bit_id_iff)

lemma addr_new_ok [simp]: "addr_ok (addr_new a)"
  by (simp add: addr_ok_take addr_new_def and_mask40)

lemma mac_new_ok [simp]: "mac_ok (mac_new a)"
  by (simp add: mac_ok_take mac_new_def and_mask48)

lemma and_ff_ucast: "(ucast (b::u8) :: u64) AND 0xff = ucast b"
proof -
  have "(0xff :: u64) = mask 8" by (simp add: mask_eq_exp_minus_1)
  then have "(ucast b :: u64) AND 0xff = take_bit 8 (ucast b)" by (simp add: take_bit_eq_mask)
  then show ?thesis by (intro bit_word_eqI) (auto simp: bit_simps dest: bit_imp_le_length)
qed

lemma addr_bytes_be:
  "addr_bytes a = map (\<lambda>k. ucast (drop_bit (8 * k) (addr_toInt a))) (rev [0..<5])"
  by (simp add: addr_bytes_def ucast_and_ff upt_rec)

lemma mac_bytes_be:
  "mac_bytes m = map (\<lambda>k. ucast (drop_bit (8 * k) (mac_toInt m))) (rev [0..<6])"
  by (simp add: mac_bytes_def ucast_and_ff upt_rec)

lemma length_addr_bytes [simp]: "length (addr_bytes a) = 5"
  by (simp add: addr_bytes_def)

lemma length_mac_bytes [simp]: "length (mac_bytes m) = 6"
  by (simp add: mac_bytes_def)

lemma list5:
  assumes "length b = 5"
  shows "b = [b ! 0, b ! 1, b ! 2, b ! 3, b ! 4]"
  using assms by (intro nth_equalityI) (auto simp: less_Suc_eq numeral_eq_Suc)

lemma list6:
  assumes "length b = 6"
  shows "b = [b ! 0, b ! 1, b ! 2, b ! 3, b ! 4, b ! 5]"
  using assms by (intro nth_equalityI) (auto simp: less_Suc_eq numeral_eq_Suc)

lemma be_word_5:
  "(be_word [a, b, c, d, e] :: u64) =
     push_bit 32 (ucast a) OR push_bit 24 (ucast b) OR push_bit 16 (ucast c) OR
     push_bit 8 (ucast d) OR ucast e"
  by (simp add: be_word_def push_bit_or or.assoc push_bit_push_bit)

lemma be_word_6:
  "(be_word [a, b, c, d, e, f] :: u64) = mac_toInt (mac_of_octets a b c d e f)"
  by (simp add: be_word_def mac_of_octets_def and_ff_ucast push_bit_or or.assoc push_bit_push_bit)

lemma addr_setTo_bytes:
  assumes "5 \<le> len" "5 \<le> length bits"
  shows "addr_setTo bits len = Inr (Address (be_word (take 5 bits)))"
proof -
  have t: "take 5 bits = [take 5 bits ! 0, take 5 bits ! 1, take 5 bits ! 2, take 5 bits ! 3, take 5 bits ! 4]"
    using assms(2) by (intro list5) simp
  have "\<not> len < 5" using assms(1) by (simp add: not_less)
  then show ?thesis
    using assms(2) by (subst t) (simp only: addr_setTo_def mem_get_def be_word_5 if_False
        drop_0 if_True option.case add_0)
qed

lemma mac_setTo_bytes:
  assumes "6 \<le> len" "6 \<le> length bits"
  shows "mac_setTo bits len = Inr (MAC (be_word (take 6 bits)))"
proof -
  have t: "take 6 bits = [take 6 bits ! 0, take 6 bits ! 1, take 6 bits ! 2, take 6 bits ! 3,
      take 6 bits ! 4, take 6 bits ! 5]"
    using assms(2) by (intro list6) simp
  have "\<not> len < 6" using assms(1) by (simp add: not_less)
  then show ?thesis
    using assms(2) by (subst t) (simp only: mac_setTo_def mem_get_def be_word_6 if_False
        drop_0 if_True option.case add_0 mac.collapse)
qed

lemma addr_roundtrip:
  "addr_ok a \<Longrightarrow> addr_setTo (addr_bytes a @ r) 5 = Inr a"
  by (simp add: addr_setTo_bytes addr_ok_take) (simp add: addr_bytes_be be_word_low_bytes address.expand)

lemma mac_roundtrip:
  "mac_ok m \<Longrightarrow> mac_setTo (mac_bytes m @ r) 6 = Inr m"
  by (simp add: mac_setTo_bytes mac_ok_take) (simp add: mac_bytes_be be_word_low_bytes mac.expand)

lemma buf_fill_field_eq: "buf_fill_field bs b = buf_append_bytes bs (of_nat (length bs)) b"
  if "length bs < 2 ^ 31"
proof -
  have "unat (of_nat (length bs) :: u32) = length bs" using that by (simp add: word_nat)
  then show ?thesis
    by (cases b) (simp add: buf_fill_field_def buf_appendField_def buf_append_bytes_def)
qed

lemma appends_fill_field [wire_write]:
  assumes "length bs < 2 ^ 31"
  shows "appends (buf_fill_field bs) bs"
proof -
  have "buf_fill_field bs = buf_append_bytes bs (of_nat (length bs))"
    using assms by (intro ext) (rule buf_fill_field_eq)
  with appends_bytes [OF assms refl] show ?thesis by simp
qed

lemma appends_addr [wire_write]: "appends (addr_appendTo a) (addr_bytes a)"
proof -
  have "addr_appendTo a = buf_fill_field (addr_bytes a)" by (rule ext) (simp add: addr_appendTo_def)
  then show ?thesis by (simp add: appends_fill_field)
qed

lemma appends_mac [wire_write]: "appends (mac_appendTo m) (mac_bytes m)"
proof -
  have "mac_appendTo m = buf_fill_field (mac_bytes m)" by (rule ext) (simp add: mac_appendTo_def)
  then show ?thesis by (simp add: appends_fill_field)
qed

text \<open>The mask that \<open>fromAddress\<close> and \<open>toAddress\<close> apply.\<close>

definition nwid_mask :: "u64 \<Rightarrow> u64" where
  "nwid_mask nwid =
     push_bit 32 (drop_bit 8 nwid AND 0xff) XOR push_bit 24 (drop_bit 16 nwid AND 0xff) XOR
     push_bit 16 (drop_bit 24 nwid AND 0xff) XOR push_bit 8 (drop_bit 32 nwid AND 0xff) XOR
     (drop_bit 40 nwid AND 0xff)"

lemma and_ff_take: "(x::u64) AND 0xff = take_bit 8 x"
  by (simp add: take_bit_eq_mask mask_eq_exp_minus_1)

lemma nwid_mask_40: "take_bit 40 (nwid_mask nwid) = nwid_mask nwid"
proof -
  have t: "take_bit 40 (push_bit k (take_bit 8 x)) = push_bit k (take_bit 8 x)" if "k \<le> 32"
    for k and x :: u64
    using that by (simp add: take_bit_push_bit take_bit_take_bit)
  from t [of 0] t show ?thesis by (simp add: nwid_mask_def and_ff_take take_bit_xor)
qed

lemma mac_fromAddress_mask:
  "mac_toInt (mac_fromAddress a nwid) =
     (push_bit 40 (ucast (firstOctetForNetwork nwid)) OR addr_toInt a) XOR nwid_mask nwid"
  by (simp add: mac_fromAddress_def nwid_mask_def Let_def xor.assoc)

lemma mac_toAddress_mask:
  "mac_toAddress m nwid = addr_new (take_bit 40 (mac_toInt m) XOR nwid_mask nwid)"
  by (simp add: mac_toAddress_def nwid_mask_def Let_def xor.assoc and_mask40)

lemma toAddress_fromAddress:
  assumes "addr_ok a"
  shows "mac_toAddress (mac_fromAddress a nwid) nwid = a"
proof -
  let ?M = "nwid_mask nwid"
  have "take_bit 40 (push_bit 40 (ucast (firstOctetForNetwork nwid)) OR addr_toInt a) = addr_toInt a"
    using assms by (simp add: addr_ok_take take_bit_or take_bit_push_bit)
  then have "take_bit 40 (mac_toInt (mac_fromAddress a nwid)) = addr_toInt a XOR ?M"
    by (simp add: mac_fromAddress_mask take_bit_xor nwid_mask_40)
  then have "mac_toAddress (mac_fromAddress a nwid) nwid = addr_new (addr_toInt a)"
    by (simp add: mac_toAddress_mask xor.assoc)
  with assms show ?thesis by (simp add: addr_new_def and_mask40 addr_ok_take address.expand)
qed

lemma firstOctet_bits:
  "\<not> bit (firstOctetForNetwork nwid) 0" "bit (firstOctetForNetwork nwid) 1"
proof -
  let ?a = "ucast (nwid AND 0xfe) OR 0x02 :: u8"
  have a: "\<not> bit ?a 0" "bit ?a 1"
    by (simp_all add: bit_or_iff bit_unsigned_iff bit_and_iff bit_numeral_simps)
  have c: "\<not> bit (0x32 :: u8) 0" "bit (0x32 :: u8) 1" by (simp_all add: bit_numeral_simps)
  show "\<not> bit (firstOctetForNetwork nwid) 0" "bit (firstOctetForNetwork nwid) 1"
    using a c by (simp_all add: firstOctetForNetwork_def Let_def del: bit_0)
qed

lemma mac_and_bit: "(x::u64) AND 2 ^ n \<noteq> 0 \<longleftrightarrow> bit x n"
  by (simp add: and_exp_eq_0_iff_not_bit)

lemma mac_fromAddress_kind:
  assumes "addr_ok a"
  shows "\<not> mac_isMulticast (mac_fromAddress a nwid)"
    "mac_isLocallyAdministered (mac_fromAddress a nwid)" "mac_ok (mac_fromAddress a nwid)"
proof -
  have high: "\<not> bit (addr_toInt a) n" "\<not> bit (nwid_mask nwid) n" if "40 \<le> n" for n
  proof -
    have "bit (take_bit 40 x) n = False" for x :: u64 using that by (simp add: bit_take_bit_iff)
    from this [of "addr_toInt a"] this [of "nwid_mask nwid"] assms nwid_mask_40 [of nwid]
    show "\<not> bit (addr_toInt a) n" "\<not> bit (nwid_mask nwid) n" by (simp_all add: addr_ok_take)
  qed
  have bitm: "bit (mac_toInt (mac_fromAddress a nwid)) n \<longleftrightarrow> bit (firstOctetForNetwork nwid) (n - 40)"
    if "40 \<le> n" "n < 64" for n
    using that high [of n] by (auto simp: mac_fromAddress_mask bit_simps)
  have "(0x010000000000 :: u64) = 2 ^ 40" "(0x020000000000 :: u64) = 2 ^ 41" by simp_all
  then show "\<not> mac_isMulticast (mac_fromAddress a nwid)"
    "mac_isLocallyAdministered (mac_fromAddress a nwid)"
    unfolding mac_isMulticast_def mac_isLocallyAdministered_def
    using firstOctet_bits [of nwid] by (simp_all only: mac_and_bit) (simp_all add: bitm del: bit_0)
  show "mac_ok (mac_fromAddress a nwid)"
    unfolding mac_ok_take
  proof (rule bit_word_eqI)
    fix n assume n: "n < LENGTH(64)"
    show "bit (take_bit 48 (mac_toInt (mac_fromAddress a nwid))) n =
        bit (mac_toInt (mac_fromAddress a nwid)) n"
    proof (cases "n < 48")
      case False
      then have "\<not> bit (firstOctetForNetwork nwid) (n - 40)" by (auto dest: bit_imp_le_length)
      with False n bitm [of n] show ?thesis by (simp add: bit_take_bit_iff)
    qed (simp add: bit_take_bit_iff)
  qed
qed

section \<open>Properties\<close>

text \<open>
  A node address survives both of its external forms: the five bytes of \<open>copyTo\<close> and
  \<open>appendTo\<close> read back by \<open>setTo\<close>, and the ten hexadecimal digits of \<open>toString\<close> read back by
  \<open>hexStrToU64\<close>.
\<close>

theorem address_roundtrip:
  assumes "addr_ok a" "5 \<le> length dst"
  shows "\<exists>dst'. addr_copyTo a dst 5 = Inr dst' \<and> addr_setTo dst' 5 = Inr a \<and>
    drop 5 dst' = drop 5 dst \<and> addr_new (hexStrToU64 (addr_toString a)) = a"
proof -
  have "addr_copyTo a dst 5 = Inr (addr_bytes a @ drop 5 dst)"
    using assms(2) by (simp add: addr_copyTo_def memcpy_ok)
  moreover have "addr_new (hexStrToU64 (addr_toString a)) = a"
    using assms(1) by (simp add: addr_toString_def hexStrToU64_hex10 addr_new_def and_mask40
        addr_ok_take address.expand)
  ultimately show ?thesis using addr_roundtrip [OF assms(1)] by simp
qed

theorem address_roundtrip_witness:
  "\<exists>dst'. addr_copyTo (Address 0x8056c2e21c) [0, 0, 0, 0, 0, 77] 5 = Inr dst' \<and>
    addr_setTo dst' 5 = Inr (Address 0x8056c2e21c) \<and> drop 5 dst' = [77] \<and>
    addr_new (hexStrToU64 (addr_toString (Address 0x8056c2e21c))) = Address 0x8056c2e21c"
proof -
  have "addr_ok (Address 0x8056c2e21c)" by (simp add: addr_ok_def)
  from address_roundtrip [OF this, of "[0, 0, 0, 0, 0, 77]"] show ?thesis by simp
qed

text \<open>
  C20. The Ethernet address a network gives to a node determines the node: \<open>toAddress\<close> undoes
  \<open>fromAddress\<close>, so two nodes never share one on a network; it is a 48-bit unicast, locally
  administered address.
\<close>

theorem mac_identifies_node:
  assumes "addr_ok a"
  shows "mac_toAddress (mac_fromAddress a nwid) nwid = a \<and> mac_ok (mac_fromAddress a nwid) \<and>
    \<not> mac_isMulticast (mac_fromAddress a nwid) \<and> mac_isLocallyAdministered (mac_fromAddress a nwid) \<and>
    (\<forall>b. addr_ok b \<longrightarrow> mac_fromAddress b nwid = mac_fromAddress a nwid \<longrightarrow> b = a)"
  using toAddress_fromAddress [OF assms] mac_fromAddress_kind [OF assms] toAddress_fromAddress
  by metis

theorem mac_identifies_node_witness:
  "mac_toAddress (mac_fromAddress (Address 0x8056c2e21c) 0x8056c2e21c000001) 0x8056c2e21c000001 =
     Address 0x8056c2e21c"
proof -
  have "addr_ok (Address 0x8056c2e21c)" by (simp add: addr_ok_def)
  from mac_identifies_node [OF this] show ?thesis by blast
qed

end
