(* ===== verification/Inet_Address.thy ===== *)
theory Inet_Address
  imports Zt_Address
begin

text \<open>
  \<^verbatim>\<open>node/InetAddress.hpp\<close> and \<^verbatim>\<open>node/InetAddress.cpp\<close>: IPv4 and IPv6 addresses with a port, which
  also holds netmask bits. The object is a \<open>sockaddr_storage\<close>; the model keeps its bytes as the
  members that the casts to \<open>sockaddr_in\<close> and \<open>sockaddr_in6\<close> name: the family, the port in network
  order, the four bytes shared by \<open>sin_addr\<close> and \<open>sin6_flowinfo\<close> (as the raw integer), \<open>sin6_addr\<close>,
  \<open>sin6_scope_id\<close> and the rest. A shift by the width of its type or more is
  \<open>UndefinedBehaviour\<close>; local variables that the code leaves uninitialised are arguments.
\<close>

section \<open>Representation\<close>

definition AF_INET :: u16 where "AF_INET = 2"

definition AF_INET6 :: u16 where "AF_INET6 = 10"

record inet =
  ss_family :: u16
  sin_port :: u16
  sin_addr :: u32
  sin6_addr :: bytes
  sin6_scope_id :: u32
  ss_pad :: bytes

abbreviation (input) sin6_flowinfo :: "inet \<Rightarrow> u32" where
  "sin6_flowinfo a \<equiv> sin_addr a"

definition inet_nil :: inet where
  "inet_nil = \<lparr>ss_family = 0, sin_port = 0, sin_addr = 0, sin6_addr = replicate 16 0,
     sin6_scope_id = 0, ss_pad = replicate 100 0\<rparr>"

text \<open>The 128 bytes of the object.\<close>

definition inet_raw :: "inet \<Rightarrow> bytes" where
  "inet_raw a = le_bytes (ss_family a) @ le_bytes (sin_port a) @ le_bytes (sin_addr a) @
     sin6_addr a @ le_bytes (sin6_scope_id a) @ ss_pad a"

definition inet_ok :: "inet \<Rightarrow> bool" where
  "inet_ok a \<longleftrightarrow> length (sin6_addr a) = 16 \<and> length (ss_pad a) = 100"

section \<open>Setters, ports, raw data\<close>

definition inet_set :: "bytes \<Rightarrow> u32 \<Rightarrow> u32 \<Rightarrow> inet res" where
  "inet_set ipBytes ipLen port =
     (if ipLen = 4 then
        case mem_get ipBytes 0 4 of
          None \<Rightarrow> Inl UndefinedBehaviour
        | Some ip \<Rightarrow> Inr (inet_nil\<lparr>ss_family := AF_INET, sin_addr := le_word ip,
                            sin_port := hton (ucast port)\<rparr>)
      else if ipLen = 16 then
        case mem_get ipBytes 0 16 of
          None \<Rightarrow> Inl UndefinedBehaviour
        | Some ip \<Rightarrow> Inr (inet_nil\<lparr>ss_family := AF_INET6, sin6_addr := ip,
                            sin_port := hton (ucast port)\<rparr>)
      else Inr inet_nil)"

definition inet_setPort :: "inet \<Rightarrow> u32 \<Rightarrow> inet" where
  "inet_setPort a port =
     (if ss_family a = AF_INET \<or> ss_family a = AF_INET6 then a\<lparr>sin_port := hton (ucast port)\<rparr> else a)"

definition inet_port :: "inet \<Rightarrow> u32" where
  "inet_port a =
     (if ss_family a = AF_INET \<or> ss_family a = AF_INET6 then ucast (ntoh (sin_port a)) else 0)"

definition inet_netmaskBits :: "inet \<Rightarrow> u32" where
  "inet_netmaskBits a = inet_port a"

definition inet_netmaskBitsValid :: "inet \<Rightarrow> bool" where
  "inet_netmaskBitsValid a \<longleftrightarrow>
     (if ss_family a = AF_INET then inet_port a \<le> 32
      else if ss_family a = AF_INET6 then inet_port a \<le> 128
      else False)"

definition inet_isDefaultRoute :: "inet \<Rightarrow> bool" where
  "inet_isDefaultRoute a \<longleftrightarrow>
     (if ss_family a = AF_INET then sin_addr a = 0 \<and> sin_port a = 0
      else if ss_family a = AF_INET6 then list_all (\<lambda>b. b = 0) (sin6_addr a) \<and> sin_port a = 0
      else False)"

definition inet_isV4 :: "inet \<Rightarrow> bool" where
  "inet_isV4 a \<longleftrightarrow> ss_family a = AF_INET"

definition inet_isV6 :: "inet \<Rightarrow> bool" where
  "inet_isV6 a \<longleftrightarrow> ss_family a = AF_INET6"

text \<open>\<open>rawIpData\<close>: the bytes behind the returned pointer, \<open>None\<close> for the null pointer.\<close>

definition inet_rawIpData :: "inet \<Rightarrow> bytes option" where
  "inet_rawIpData a =
     (if ss_family a = AF_INET then Some (le_bytes (sin_addr a))
      else if ss_family a = AF_INET6 then Some (sin6_addr a)
      else None)"

definition inet_ipOnly :: "inet \<Rightarrow> inet" where
  "inet_ipOnly a =
     (if ss_family a = AF_INET then inet_nil\<lparr>ss_family := AF_INET, sin_addr := sin_addr a\<rparr>
      else if ss_family a = AF_INET6 then inet_nil\<lparr>ss_family := AF_INET6, sin6_addr := sin6_addr a\<rparr>
      else inet_nil)"

section \<open>Comparison and hashing\<close>

definition inet_ipsEqual :: "inet \<Rightarrow> inet \<Rightarrow> bool" where
  "inet_ipsEqual a b \<longleftrightarrow>
     ss_family a = ss_family b \<and>
     (if ss_family a = AF_INET then sin_addr a = sin_addr b
      else if ss_family a = AF_INET6 then memcmp (sin6_addr a) (sin6_addr b) = 0
      else memcmp (inet_raw a) (inet_raw b) = 0)"

definition inet_ipsEqual2 :: "inet \<Rightarrow> inet \<Rightarrow> bool" where
  "inet_ipsEqual2 a b \<longleftrightarrow>
     ss_family a = ss_family b \<and>
     (if ss_family a = AF_INET then sin_addr a = sin_addr b
      else if ss_family a = AF_INET6 then memcmp (take 8 (sin6_addr a)) (take 8 (sin6_addr b)) = 0
      else memcmp (inet_raw a) (inet_raw b) = 0)"

definition inet_eq :: "inet \<Rightarrow> inet \<Rightarrow> bool" where
  "inet_eq a b \<longleftrightarrow>
     ss_family a = ss_family b \<and>
     (if ss_family a = AF_INET then sin_port a = sin_port b \<and> sin_addr a = sin_addr b
      else if ss_family a = AF_INET6 then
        sin_port a = sin_port b \<and> sin6_flowinfo a = sin6_flowinfo b \<and>
        memcmp (sin6_addr a) (sin6_addr b) = 0 \<and> sin6_scope_id a = sin6_scope_id b
      else memcmp (inet_raw a) (inet_raw b) = 0)"

definition inet_less :: "inet \<Rightarrow> inet \<Rightarrow> bool" where
  "inet_less a b \<longleftrightarrow>
     (if ss_family a < ss_family b then True
      else if ss_family a = ss_family b then
        (if ss_family a = AF_INET then
           (if sin_port a < sin_port b then True
            else sin_port a = sin_port b \<and> sin_addr a < sin_addr b)
         else if ss_family a = AF_INET6 then
           (if sin_port a < sin_port b then True
            else if sin_port a = sin_port b then
              (if sin6_flowinfo a < sin6_flowinfo b then True
               else if sin6_flowinfo a = sin6_flowinfo b then
                 (if memcmp (sin6_addr a) (sin6_addr b) < 0 then True
                  else memcmp (sin6_addr a) (sin6_addr b) = 0 \<and> sin6_scope_id a < sin6_scope_id b)
               else False)
            else False)
         else memcmp (inet_raw a) (inet_raw b) < 0)
      else False)"

text \<open>The loops of \<open>hashCode\<close>: XOR byte \<open>i\<close> into byte \<open>i % 8\<close> of \<open>tmp\<close>.\<close>

definition hash_bytes :: "u64 \<Rightarrow> bytes \<Rightarrow> u64" where
  "hash_bytes tmp a =
     le_word (foldl (\<lambda>t i. t[i mod 8 := t ! (i mod 8) XOR a ! i]) (le_bytes tmp) [0..<length a])"

definition inet_hashCode :: "inet \<Rightarrow> u64" where
  "inet_hashCode a =
     (if ss_family a = AF_INET then ucast (sin_addr a) + ucast (sin_port a)
      else if ss_family a = AF_INET6 then hash_bytes (ucast (sin_port a)) (sin6_addr a)
      else hash_bytes (ucast (sin_port a)) (inet_raw a))"

definition inet_rateGateHash :: "inet \<Rightarrow> u64" where
  "inet_rateGateHash a =
     (let h = (if ss_family a = AF_INET then
                 let h1 = drop_bit 8 (ucast (ntoh (sin_addr a) AND 0xffffff00)) in h1 XOR drop_bit 14 h1
               else if ss_family a = AF_INET6 then
                 foldl (\<lambda>h i. push_bit 1 h + ucast (sin6_addr a ! i)) 0 [0..<6]
               else 0)
      in h AND 0x3fff)"

section \<open>Scope\<close>

datatype ip_scope =
    IP_SCOPE_NONE
  | IP_SCOPE_MULTICAST
  | IP_SCOPE_LOOPBACK
  | IP_SCOPE_PSEUDOPRIVATE
  | IP_SCOPE_GLOBAL
  | IP_SCOPE_LINK_LOCAL
  | IP_SCOPE_SHARED
  | IP_SCOPE_PRIVATE

definition ipScope4_tail :: "u32 \<Rightarrow> ip_scope" where
  "ipScope4_tail ip =
     (if drop_bit 28 ip = 0xe then IP_SCOPE_MULTICAST
      else if drop_bit 28 ip = 0xf then IP_SCOPE_PSEUDOPRIVATE
      else IP_SCOPE_GLOBAL)"

definition ipScope4 :: "u32 \<Rightarrow> ip_scope" where
  "ipScope4 ip =
     (let o1 = drop_bit 24 ip in
      if o1 = 0x00 then IP_SCOPE_NONE
      else if o1 = 0x06 then IP_SCOPE_PSEUDOPRIVATE
      else if o1 = 0x0a then IP_SCOPE_PRIVATE
      else if o1 \<in> {0x0b, 0x15, 0x16, 0x19, 0x1a, 0x1c, 0x1d, 0x1e, 0x2c, 0x33, 0x37, 0x38}
        then IP_SCOPE_PSEUDOPRIVATE
      else if o1 = 0x64 then
        (if ip AND 0xffc00000 = 0x64400000 then IP_SCOPE_PRIVATE else ipScope4_tail ip)
      else if o1 = 0x7f then IP_SCOPE_LOOPBACK
      else if o1 = 0xa9 then
        (if ip AND 0xffff0000 = 0xa9fe0000 then IP_SCOPE_LINK_LOCAL else ipScope4_tail ip)
      else if o1 = 0xac then
        (if ip AND 0xfff00000 = 0xac100000 then IP_SCOPE_PRIVATE else ipScope4_tail ip)
      else if o1 = 0xc0 then
        (if ip AND 0xffff0000 = 0xc0a80000 then IP_SCOPE_PRIVATE else ipScope4_tail ip)
      else if o1 = 0xff then IP_SCOPE_NONE
      else ipScope4_tail ip)"

text \<open>\<open>while ((!ip[k]) && (k < 15)) ++k;\<close>\<close>

function skip_zeros :: "bytes \<Rightarrow> nat \<Rightarrow> nat" where
  "skip_zeros ip k = (if ip ! k = 0 \<and> k < 15 then skip_zeros ip (k + 1) else k)"
  by auto

termination skip_zeros
  by (relation "measure (\<lambda>(ip, k). 15 - k)") auto

declare skip_zeros.simps [simp del]

definition ipScope6_tail :: "bytes \<Rightarrow> ip_scope" where
  "ipScope6_tail ip =
     (if skip_zeros ip 0 = 15 \<and> ip ! 15 = 0x01 then IP_SCOPE_LOOPBACK
      else if skip_zeros ip 0 = 15 \<and> ip ! 15 = 0x00 then IP_SCOPE_NONE
      else IP_SCOPE_GLOBAL)"

definition ipScope6 :: "bytes \<Rightarrow> ip_scope" where
  "ipScope6 ip =
     (if ip ! 0 AND 0xf0 = 0xf0 then
        (if ip ! 0 = 0xff then IP_SCOPE_MULTICAST
         else if ip ! 0 = 0xfe \<and> ip ! 1 AND 0xc0 = 0x80 then
           (if skip_zeros ip 2 = 15 \<and> ip ! 15 = 0x01 then IP_SCOPE_LOOPBACK else IP_SCOPE_LINK_LOCAL)
         else if ip ! 0 AND 0xfe = 0xfc then IP_SCOPE_PRIVATE
         else ipScope6_tail ip)
      else ipScope6_tail ip)"

definition inet_ipScope :: "inet \<Rightarrow> ip_scope" where
  "inet_ipScope a =
     (if ss_family a = AF_INET then ipScope4 (ntoh (sin_addr a))
      else if ss_family a = AF_INET6 then ipScope6 (sin6_addr a)
      else IP_SCOPE_NONE)"

section \<open>Text\<close>

text \<open>The string \<open>Utils::decimal\<close> leaves in its array.\<close>

definition decimal_str :: "u64 \<Rightarrow> bytes" where
  "decimal_str n = (case utils_decimal n (replicate 24 0) of Inl _ \<Rightarrow> [] | Inr s \<Rightarrow> cstr s)"

fun join :: "u8 \<Rightarrow> bytes list \<Rightarrow> bytes" where
  "join d [] = []"
| "join d [s] = s"
| "join d (s # t # ss) = s @ d # join d (t # ss)"

fun groups16 :: "bytes \<Rightarrow> u16 list" where
  "groups16 (x # y # r) = le_word [x, y] # groups16 r"
| "groups16 _ = []"

definition inet_toIpString :: "inet \<Rightarrow> bytes" where
  "inet_toIpString a =
     (if ss_family a = AF_INET then
        join 46 (map (\<lambda>b. decimal_str (ucast b)) (le_bytes (sin_addr a)))
      else if ss_family a = AF_INET6 then
        join 58 (map (\<lambda>g. hex16 (ntoh g)) (groups16 (sin6_addr a)))
      else [])"

definition inet_toString :: "inet \<Rightarrow> bytes" where
  "inet_toString a =
     (let p = inet_toIpString a in
      if p \<noteq> [] then p @ 47 # decimal_str (ucast (inet_port a)) else p)"

text \<open>The tokens \<open>strtok_r\<close> delivers: the maximal runs without the delimiter.\<close>

function c_tokens :: "u8 \<Rightarrow> bytes \<Rightarrow> bytes list" where
  "c_tokens d s =
     (case dropWhile (\<lambda>c. c = d) s of
        [] \<Rightarrow> []
      | c # r \<Rightarrow> (c # takeWhile (\<lambda>x. x \<noteq> d) r) # c_tokens d (dropWhile (\<lambda>x. x \<noteq> d) r))"
  by auto

termination c_tokens
proof (relation "measure (\<lambda>(d, s). length s)")
  fix d s c r
  assume "dropWhile (\<lambda>c. c = d) s = c # (r :: bytes)"
  then have "length (c # r) \<le> length s" using length_dropWhile_le [of "\<lambda>c. c = d" s] by simp
  with length_dropWhile_le [of "\<lambda>x. x \<noteq> d" r]
  show "((d, dropWhile (\<lambda>x. x \<noteq> d) r), d, s) \<in> measure (\<lambda>(d, s). length s)" by simp
qed simp

declare c_tokens.simps [simp del]

text \<open>
  \<open>fromString\<close>; \<open>u8s\<close> and \<open>u16s\<close> are the uninitialised arrays \<open>a[4]\<close> and \<open>a[8]\<close>, whose elements
  stay as they are when the text has fewer groups. The result is the object and the return value.
\<close>

definition inet_fromString :: "u16 list \<Rightarrow> bytes \<Rightarrow> bytes \<Rightarrow> (inet \<times> bool) res" where
  "inet_fromString u16s u8s ipSlashPort =
     (if ipSlashPort = [] then Inr (inet_nil, True)
      else res_bind (scopy (replicate 64 0) 64 (Some ipSlashPort)) (\<lambda>(fits, arr).
        if \<not> fits then Inr (inet_nil, False)
        else
          let buf = cstr arr;
              ip = takeWhile (\<lambda>c. c \<noteq> 47) buf;
              rest = dropWhile (\<lambda>c. c \<noteq> 47) buf;
              port = (case rest of [] \<Rightarrow> 0 | _ # p \<Rightarrow> strToUInt p AND 0xffff)
          in
          if 58 \<in> set ip then
            let toks = take 8 (c_tokens 58 ip);
                a = map (\<lambda>s. hton (ucast (hexStrToUInt s AND 0xffff) :: u16)) toks @ drop (length toks) u16s
            in Inr (inet_nil\<lparr>ss_family := AF_INET6, sin6_addr := concat (map le_bytes a),
                      sin_port := hton (ucast port)\<rparr>, True)
          else if 46 \<in> set ip then
            let toks = take 4 (c_tokens 46 ip);
                a = map (\<lambda>s. ucast (strToUInt s AND 0xff) :: u8) toks @ drop (length toks) u8s
            in Inr (inet_nil\<lparr>ss_family := AF_INET, sin_addr := le_word a,
                      sin_port := hton (ucast port)\<rparr>, True)
          else Inr (inet_nil, False)))"

section \<open>Netmasks\<close>

text \<open>Shifts of a 32-bit and a 64-bit integer by an \<open>unsigned int\<close>.\<close>

definition c_shl :: "'a::len word \<Rightarrow> u32 \<Rightarrow> 'a word res" where
  "c_shl v n = (if unat n < LENGTH('a) then Inr (push_bit (unat n) v) else Inl UndefinedBehaviour)"

definition c_shr :: "'a::len word \<Rightarrow> u32 \<Rightarrow> 'a word res" where
  "c_shr v n = (if unat n < LENGTH('a) then Inr (drop_bit (unat n) v) else Inl UndefinedBehaviour)"

definition mask6_hi :: "u32 \<Rightarrow> u64 res" where
  "mask6_hi bits = (if bits \<ge> 64 then Inr (- 1) else c_shl (- 1) (64 - bits))"

definition mask6_lo :: "u32 \<Rightarrow> u64 res" where
  "mask6_lo bits = (if bits \<le> 64 then Inr 0 else c_shl (- 1) (128 - bits))"

definition inet_netmask :: "inet \<Rightarrow> inet res" where
  "inet_netmask a =
     (let bits = inet_netmaskBits a in
      if ss_family a = AF_INET then
        res_bind (c_shl (0xffffffff :: u32) (32 - bits)) (\<lambda>m. Inr (a\<lparr>sin_addr := hton m\<rparr>))
      else if ss_family a = AF_INET6 then
        (if bits \<noteq> 0 then
           res_bind (mask6_hi bits) (\<lambda>h. res_bind (mask6_lo bits) (\<lambda>l.
             Inr (a\<lparr>sin6_addr := le_bytes (hton h) @ le_bytes (hton l)\<rparr>)))
         else Inr (a\<lparr>sin6_addr := le_bytes (0::u64) @ le_bytes (0::u64)\<rparr>))
      else Inr a)"

definition inet_broadcast :: "inet \<Rightarrow> inet res" where
  "inet_broadcast a =
     (if ss_family a = AF_INET then
        res_bind (c_shr (0xffffffff :: u32) (inet_netmaskBits a)) (\<lambda>m.
          Inr (a\<lparr>sin_addr := sin_addr a OR hton m\<rparr>))
      else Inr inet_nil)"

definition inet_network :: "inet \<Rightarrow> inet res" where
  "inet_network a =
     (let bits = inet_netmaskBits a in
      if ss_family a = AF_INET then
        res_bind (c_shl (0xffffffff :: u32) (32 - bits)) (\<lambda>m.
          Inr (a\<lparr>sin_addr := sin_addr a AND hton m\<rparr>))
      else if ss_family a = AF_INET6 then
        res_bind (mask6_hi bits) (\<lambda>h. res_bind (mask6_lo bits) (\<lambda>l.
          Inr (a\<lparr>sin6_addr := le_bytes ((le_word (take 8 (sin6_addr a)) :: u64) AND hton h) @
                            le_bytes ((le_word (drop 8 (sin6_addr a)) :: u64) AND hton l)\<rparr>)))
      else Inr a)"

definition inet_isEqualPrefix :: "inet \<Rightarrow> inet \<Rightarrow> bool res" where
  "inet_isEqualPrefix this addr =
     (if ss_family addr = ss_family this \<and> ss_family this = AF_INET6 then
        res_bind (inet_netmask this) (\<lambda>mask. res_bind (inet_netmask addr) (\<lambda>addr_mask.
          let n = sin6_addr addr_mask; m = sin6_addr mask; a = sin6_addr addr; b = sin6_addr this in
          Inr (list_all (\<lambda>i. a ! i AND m ! i = b ! i AND n ! i) [0..<16])))
      else Inr False)"

definition inet_containsAddress :: "inet \<Rightarrow> inet \<Rightarrow> bool res" where
  "inet_containsAddress this addr =
     (if ss_family addr = ss_family this then
        (if ss_family this = AF_INET then
           let bits = inet_netmaskBits this in
           if bits = 0 then Inr True
           else res_bind (c_shr (ntoh (sin_addr addr)) (32 - bits)) (\<lambda>x.
                res_bind (c_shr (ntoh (sin_addr this)) (32 - bits)) (\<lambda>y. Inr (x = y)))
         else if ss_family this = AF_INET6 then
           res_bind (inet_netmask this) (\<lambda>mask.
             let m = sin6_addr mask; a = sin6_addr addr; b = sin6_addr this in
             Inr (list_all (\<lambda>i. a ! i AND m ! i = b ! i) [0..<16]))
         else Inr False)
      else Inr False)"

definition inet_isNetwork :: "inet \<Rightarrow> bool res" where
  "inet_isNetwork a =
     (let bits = inet_netmaskBits a in
      if ss_family a = AF_INET then
        (if bits \<le> 0 then Inr False
         else if bits \<ge> 32 then Inr False
         else res_bind (c_shr (0xffffffff :: u32) bits) (\<lambda>m. Inr (ntoh (sin_addr a) AND m = 0)))
      else if ss_family a = AF_INET6 then
        (if bits \<le> 0 then Inr False
         else if bits \<ge> 128 then Inr False
         else
           let p = unat (bits div 8) in
           res_bind (c_shr (0xff :: u32) (bits mod 8)) (\<lambda>m.
           if ucast (sin6_addr a ! p) AND m \<noteq> 0 then Inr False
           else Inr (list_all (\<lambda>i. sin6_addr a ! i = 0) [p + 1..<16])))
      else Inr False)"

section \<open>Wire format\<close>

definition inet_serialize :: "inet \<Rightarrow> buf \<Rightarrow> buf res" where
  "inet_serialize a b =
     (if ss_family a = AF_INET then
        res_bind (buf_append (0x04 :: u8) b) (\<lambda>b1.
        res_bind (buf_append_bytes (le_bytes (sin_addr a)) 4 b1) (\<lambda>b2.
        buf_append (ucast (inet_port a) :: u16) b2))
      else if ss_family a = AF_INET6 then
        res_bind (buf_append (0x06 :: u8) b) (\<lambda>b1.
        res_bind (buf_append_bytes (sin6_addr a) 16 b1) (\<lambda>b2.
        buf_append (ucast (inet_port a) :: u16) b2))
      else buf_append (0 :: u8) b)"

text \<open>\<open>deserialize\<close>: the object and the number of bytes consumed.\<close>

definition inet_deserialize :: "buf \<Rightarrow> u32 \<Rightarrow> (inet \<times> u32) res" where
  "inet_deserialize b startAt =
     res_bind (buf_get b startAt) (\<lambda>t.
     let p = startAt + 1 in
     if t = 0 then Inr (inet_nil, 1)
     else if t = 0x01 then Inr (inet_nil, 7)
     else if t = 0x02 then Inr (inet_nil, 7)
     else if t = 0x03 then
       res_bind (buf_at b p :: u16 res) (\<lambda>n. Inr (inet_nil, ucast n + 3))
     else if t = 0x04 then
       res_bind (buf_field b p 4) (\<lambda>ip.
       res_bind (buf_at b (p + 4) :: u16 res) (\<lambda>port.
       Inr (inet_nil\<lparr>ss_family := AF_INET, sin_addr := le_word ip, sin_port := hton port\<rparr>,
            p + 4 + 2 - startAt)))
     else if t = 0x06 then
       res_bind (buf_field b p 16) (\<lambda>ip.
       res_bind (buf_at b (p + 16) :: u16 res) (\<lambda>port.
       Inr (inet_nil\<lparr>ss_family := AF_INET6, sin6_addr := ip, sin_port := hton port\<rparr>,
            p + 16 + 2 - startAt)))
     else Inl BadEncoding)"

section \<open>Derived addresses\<close>

text \<open>
  \<open>makeIpv6LinkLocal\<close> fills a local \<open>sockaddr_in6\<close> whose flow and scope members are never
  assigned; their indeterminate contents are the arguments \<open>flow\<close> and \<open>scope\<close>.
\<close>

definition inet_makeIpv6LinkLocal :: "u32 \<Rightarrow> u32 \<Rightarrow> mac \<Rightarrow> inet" where
  "inet_makeIpv6LinkLocal flow scope m =
     (let o6 = mac_bytes m in
      inet_nil\<lparr>ss_family := AF_INET6, sin_port := hton 64, sin_addr := flow,
        sin6_addr := [0xfe, 0x80, 0, 0, 0, 0, 0, 0, o6 ! 0 AND 0xfd, o6 ! 1, o6 ! 2, 0xff, 0xfe,
                      o6 ! 3, o6 ! 4, o6 ! 5],
        sin6_scope_id := scope\<rparr>)"

definition inet_makeIpv6rfc4193 :: "u64 \<Rightarrow> u64 \<Rightarrow> inet" where
  "inet_makeIpv6rfc4193 nwid zta =
     inet_nil\<lparr>ss_family := AF_INET6,
       sin6_addr :=
         [0xfd, ucast (drop_bit 56 nwid), ucast (drop_bit 48 nwid), ucast (drop_bit 40 nwid),
          ucast (drop_bit 32 nwid), ucast (drop_bit 24 nwid), ucast (drop_bit 16 nwid),
          ucast (drop_bit 8 nwid), ucast nwid, 0x99, 0x93,
          ucast (drop_bit 32 zta), ucast (drop_bit 24 zta), ucast (drop_bit 16 zta),
          ucast (drop_bit 8 zta), ucast zta],
       sin_port := hton 88\<rparr>"

definition inet_makeIpv66plane :: "u64 \<Rightarrow> u64 \<Rightarrow> inet" where
  "inet_makeIpv66plane nwid0 zta =
     (let nwid = nwid0 XOR drop_bit 32 nwid0 in
      inet_nil\<lparr>ss_family := AF_INET6,
        sin6_addr :=
          [0xfc, ucast (drop_bit 24 nwid), ucast (drop_bit 16 nwid), ucast (drop_bit 8 nwid), ucast nwid,
           ucast (drop_bit 32 zta), ucast (drop_bit 24 zta), ucast (drop_bit 16 zta),
           ucast (drop_bit 8 zta), ucast zta, 0, 0, 0, 0, 0, 0x01],
        sin_port := hton 40\<rparr>)"

section \<open>Lemmas on the wire format\<close>

text \<open>Addresses as the constructors leave them: nothing outside the members of their family.\<close>

definition inet_canonical :: "inet \<Rightarrow> bool" where
  "inet_canonical a \<longleftrightarrow>
     a = inet_nil \<or>
     (ss_family a = AF_INET \<and>
        a = inet_nil\<lparr>ss_family := AF_INET, sin_port := sin_port a, sin_addr := sin_addr a\<rparr>) \<or>
     (ss_family a = AF_INET6 \<and> length (sin6_addr a) = 16 \<and>
        a = inet_nil\<lparr>ss_family := AF_INET6, sin_port := sin_port a, sin6_addr := sin6_addr a\<rparr>)"

definition inet_enc :: "inet \<Rightarrow> bytes" where
  "inet_enc a =
     (if ss_family a = AF_INET then word_bytes_be (0x04 :: u8) @ le_bytes (sin_addr a) @ word_bytes_be (ntoh (sin_port a))
      else if ss_family a = AF_INET6 then word_bytes_be (0x06 :: u8) @ sin6_addr a @ word_bytes_be (ntoh (sin_port a))
      else word_bytes_be (0 :: u8))"

lemma AF_neq [simp]: "AF_INET \<noteq> AF_INET6" "AF_INET6 \<noteq> AF_INET" "AF_INET \<noteq> 0" "AF_INET6 \<noteq> 0"
  by (simp_all add: AF_INET_def AF_INET6_def)

lemma word_bytes_be_u8 [simp]: "word_bytes_be (v::u8) = [v]"
  by (simp add: word_bytes_be_def)

lemma inet_port_16:
  "ss_family a = AF_INET \<or> ss_family a = AF_INET6 \<Longrightarrow> (ucast (inet_port a) :: u16) = ntoh (sin_port a)"
proof -
  have uc: "(ucast (ucast v :: u32) :: u16) = v" for v :: u16
    by (rule bit_word_eqI) (auto simp: bit_simps)
  show "ss_family a = AF_INET \<or> ss_family a = AF_INET6 \<Longrightarrow> ?thesis"
    by (simp add: inet_port_def uc)
qed

lemma hton_ntoh_16 [simp]: "hton (ntoh (v::u16)) = v" "ntoh (hton (v::u16)) = v"
  by (simp_all add: hton_def ntoh_def bswap_bswap)

lemma hton_ntoh_32 [simp]: "hton (ntoh (v::u32)) = v" "ntoh (hton (v::u32)) = v"
  by (simp_all add: hton_def ntoh_def bswap_bswap)

lemma hton_ntoh_64 [simp]: "hton (ntoh (v::u64)) = v" "ntoh (hton (v::u64)) = v"
  by (simp_all add: hton_def ntoh_def bswap_bswap)

lemma inet_canonical_ok:
  assumes "inet_canonical a"
  shows "inet_ok a"
proof -
  have "inet_ok (inet_nil\<lparr>ss_family := f, sin_port := p, sin_addr := x\<rparr>)"
    "length y = 16 \<Longrightarrow> inet_ok (inet_nil\<lparr>ss_family := f, sin_port := p, sin6_addr := y\<rparr>)"
    "inet_ok inet_nil" for f p x y
    by (simp_all add: inet_ok_def inet_nil_def)
  with assms show ?thesis unfolding inet_canonical_def by metis
qed

lemma inet_serialize_appends:
  assumes "inet_canonical a"
  shows "appends (inet_serialize a) (inet_enc a)"
proof -
  have l6: "length (sin6_addr a) = 16" using inet_canonical_ok [OF assms] by (simp add: inet_ok_def)
  have "appends (\<lambda>b. res_bind (buf_append (0x04 :: u8) b) (\<lambda>b1.
        res_bind (buf_append_bytes (le_bytes (sin_addr a)) 4 b1) (buf_append (ntoh (sin_port a)))))
      (word_bytes_be (0x04 :: u8) @ le_bytes (sin_addr a) @ word_bytes_be (ntoh (sin_port a)))"
    by (intro wire_write) simp_all
  moreover have "appends (\<lambda>b. res_bind (buf_append (0x06 :: u8) b) (\<lambda>b1.
        res_bind (buf_append_bytes (sin6_addr a) 16 b1) (buf_append (ntoh (sin_port a)))))
      (word_bytes_be (0x06 :: u8) @ sin6_addr a @ word_bytes_be (ntoh (sin_port a)))"
    using l6 by (intro wire_write) simp_all
  moreover have "appends (buf_append (0 :: u8)) (word_bytes_be (0 :: u8))"
    by (rule appends_buf_append)
  ultimately show ?thesis
    by (auto simp: inet_serialize_def [abs_def] inet_enc_def inet_port_16)
qed

lemma inet_deserialize_enc:
  assumes a: "inet_canonical a" and b: "buf_ok b" "has b p (inet_enc a)"
  shows "inet_deserialize b p = Inr (a, of_nat (length (inet_enc a)))"
proof -
  consider "a = inet_nil"
    | "ss_family a = AF_INET" "a = inet_nil\<lparr>ss_family := AF_INET, sin_port := sin_port a, sin_addr := sin_addr a\<rparr>"
    | "ss_family a = AF_INET6" "length (sin6_addr a) = 16"
      "a = inet_nil\<lparr>ss_family := AF_INET6, sin_port := sin_port a, sin6_addr := sin6_addr a\<rparr>"
    using a unfolding inet_canonical_def by blast
  then show ?thesis
  proof cases
    case 1
    then have "inet_enc a = [0]" by (simp add: inet_enc_def inet_nil_def)
    with has_step8(1) [OF b(1), of p 0 "[]"] b(2) 1 show ?thesis by (simp add: inet_deserialize_def)
  next
    case 2
    then have e: "inet_enc a = [4] @ le_bytes (sin_addr a) @ word_bytes_be (ntoh (sin_port a)) @ []"
      by (simp add: inet_enc_def)
    note s1 = has_step8 [OF b(1) b(2) [unfolded e]]
    note s2 = has_step_field [OF b(1) s1(2), of 4, simplified]
    note s3 = has_at [OF b(1) s2(2), simplified]
    have "inet_deserialize b p =
        Inr (inet_nil\<lparr>ss_family := AF_INET, sin_addr := sin_addr a, sin_port := sin_port a\<rparr>, 7)"
      using s1 s2 s3 by (simp add: inet_deserialize_def Let_def le_word_le_bytes)
    moreover have "a = inet_nil\<lparr>ss_family := AF_INET, sin_addr := sin_addr a, sin_port := sin_port a\<rparr>"
      using 2(2) by (cases a) (simp add: inet_nil_def)
    ultimately show ?thesis by (simp add: e)
  next
    case 3
    then have e: "inet_enc a = [6] @ sin6_addr a @ word_bytes_be (ntoh (sin_port a)) @ []"
      by (simp add: inet_enc_def)
    note s1 = has_step8 [OF b(1) b(2) [unfolded e]]
    have l: "16 = (of_nat (length (sin6_addr a)) :: u32)" using 3 by simp
    note s2 = has_step_field [OF b(1) s1(2) l, simplified]
    note s3 = has_at [OF b(1) s2(2), simplified]
    have "inet_deserialize b p =
        Inr (inet_nil\<lparr>ss_family := AF_INET6, sin6_addr := sin6_addr a, sin_port := sin_port a\<rparr>, 19)"
      using s1 s2 s3 by (simp add: inet_deserialize_def Let_def)
    moreover have "a = inet_nil\<lparr>ss_family := AF_INET6, sin6_addr := sin6_addr a, sin_port := sin_port a\<rparr>"
      using 3(3) by (cases a) (simp add: inet_nil_def)
    ultimately show ?thesis using 3 by (simp add: e)
  qed
qed

interpretation inet_wire: wire_format inet_canonical inet_enc inet_serialize inet_deserialize
  by unfold_locales (rule inet_serialize_appends inet_deserialize_enc; assumption)+

section \<open>Lemmas on the text form\<close>

lemma decimal_str_eq: "decimal_str n = (if n = 0 then [48] else dec_digits (unat n))"
proof -
  have "0 \<notin> set (dec_digits (unat n))" using dec_digits_chars by blast
  from cstr_append [OF this] show ?thesis
    by (simp add: decimal_str_def utils_decimal_ok) (simp add: cstr_def)
qed

lemma decimal_str_chars:
  "c \<in> set (decimal_str n) \<Longrightarrow> c \<noteq> 0 \<and> c_digit c < 10" "decimal_str n \<noteq> []"
proof -
  have "c_digit 48 < 10" by (simp add: c_digit_def)
  then show "c \<in> set (decimal_str n) \<Longrightarrow> c \<noteq> 0 \<and> c_digit c < 10"
    using dec_digits_chars by (auto simp: decimal_str_eq split: if_splits)
  show "decimal_str n \<noteq> []"
    by (simp add: decimal_str_eq unat_eq_0 dec_digits.simps [of "unat n"])
qed

lemma decimal_str_parse: "c_strtoull 10 (decimal_str n) = n"
proof (cases "n = 0")
  case True
  then show ?thesis
    by (simp add: decimal_str_eq c_strtoull_def c_isspace_def c_sign_def c_strip_prefix_def
        c_magnitude_def c_digit_def)
next
  case False
  then show ?thesis
    using strtoull_dec_digits [of "unat n"] unat_bounds(4) [of n] by (simp add: decimal_str_eq unat_eq_0)
qed

lemma length_decimal_str: "unat n < 10 ^ k \<Longrightarrow> 0 < k \<Longrightarrow> length (decimal_str n) \<le> k"
  using length_dec_digits [of "unat n" k] by (simp add: decimal_str_eq)

lemma c_digit_marks: "\<not> c_digit 46 < 16" "\<not> c_digit 47 < 16" "\<not> c_digit 58 < 16" "\<not> c_digit 0 < 16"
  by (simp_all add: c_digit_def)

lemma c_tokens_delim: "c_tokens d (d # s) = c_tokens d s"
  by (subst (1 2) c_tokens.simps) simp

lemma c_tokens_token:
  assumes "t \<noteq> []" "d \<notin> set t"
  shows "c_tokens d t = [t]" "c_tokens d (t @ d # r) = t # c_tokens d r"
proof -
  obtain c u where t: "t = c # u" using assms(1) by (cases t) auto
  have n: "c \<noteq> d" "\<And>x. x \<in> set u \<Longrightarrow> x \<noteq> d" using assms(2) t by auto
  have e: "c_tokens d [] = []" by (simp add: c_tokens.simps)
  have dw: "dropWhile (\<lambda>x. x \<noteq> d) u = []" "takeWhile (\<lambda>x. x \<noteq> d) u = u"
    using n(2) by (simp_all add: takeWhile_eq_all_conv dropWhile_eq_Nil_conv)
  show "c_tokens d t = [t]"
    using n(1) e by (subst c_tokens.simps) (simp add: t dw)
  have tw: "takeWhile (\<lambda>x. x \<noteq> d) (u @ d # r) = u" "dropWhile (\<lambda>x. x \<noteq> d) (u @ d # r) = d # r"
    using n(2) by (simp_all add: takeWhile_append2 dropWhile_append2)
  show "c_tokens d (t @ d # r) = t # c_tokens d r"
    using n(1) by (subst c_tokens.simps) (simp add: t tw c_tokens_delim)
qed

lemma c_tokens_join:
  assumes "\<And>t. t \<in> set ts \<Longrightarrow> t \<noteq> [] \<and> d \<notin> set t"
  shows "c_tokens d (join d ts) = ts"
  using assms
proof (induction d ts rule: join.induct)
  case (1 d)
  show ?case by (simp add: c_tokens.simps)
qed (simp_all add: c_tokens_token)

lemma set_join: "set (join d ts) \<subseteq> insert d (\<Union>t\<in>set ts. set t)"
  by (induction d ts rule: join.induct) auto

lemma length_join:
  "(\<And>t. t \<in> set ts \<Longrightarrow> length t \<le> k) \<Longrightarrow> length (join d ts) \<le> length ts * (k + 1)"
proof (induction d ts rule: join.induct)
  case (3 d s t ss)
  have "length s \<le> k" using "3.prems" [of s] by simp
  moreover have "length (join d (t # ss)) \<le> length (t # ss) * (k + 1)"
    using "3.prems" by (intro "3.IH") simp
  ultimately show ?case by simp
qed auto

lemma groups16_bytes:
  "even (length bs) \<Longrightarrow> concat (map le_bytes (groups16 bs)) = bs"
  by (induction bs rule: groups16.induct) (simp_all add: le_bytes_le_word)

lemma length_groups16: "length (groups16 bs) = length bs div 2"
  by (induction bs rule: groups16.induct) simp_all

lemma hexStrToUInt_hex16: "(ucast (hexStrToUInt (hex16 g) AND 0xffff) :: u16) = g"
proof -
  have "unat g mod 16 ^ 4 = unat g" using unat_bounds(2) [of g] by simp
  then have h: "hexStrToUInt (hex16 g) = ucast (ucast g :: u64)"
    by (simp add: hexStrToUInt_def hex_hexdigits c_strtoull_hexdigits)
  have m: "(0xffff :: u32) = mask 16" by (simp add: mask_eq_exp_minus_1)
  show ?thesis unfolding h m by (rule bit_word_eqI) (auto simp: bit_simps)
qed

lemma strToUInt_byte: "(ucast (strToUInt (decimal_str (ucast b)) AND 0xff) :: u8) = b"
proof -
  have m: "(0xff :: u32) = mask 8" by (simp add: mask_eq_exp_minus_1)
  show ?thesis
    unfolding strToUInt_def decimal_str_parse m by (rule bit_word_eqI) (auto simp: bit_simps)
qed

lemma strToUInt_port: "(ucast (strToUInt (decimal_str (ucast (ucast p :: u32))) AND 0xffff) :: u16) = p"
proof -
  have m: "(0xffff :: u32) = mask 16" by (simp add: mask_eq_exp_minus_1)
  show ?thesis
    unfolding strToUInt_def decimal_str_parse m by (rule bit_word_eqI) (auto simp: bit_simps)
qed

lemma hex16_chars: "c \<in> set (hex16 g) \<Longrightarrow> c_digit c < 16 \<and> c \<noteq> 0" "hex16 g \<noteq> []" "length (hex16 g) = 4"
  by (auto simp: hex16_def)

lemma list4:
  assumes "length b = 4"
  shows "b = [b ! 0, b ! 1, b ! 2, b ! 3]"
  using assms by (intro nth_equalityI) (auto simp: less_Suc_eq numeral_eq_Suc)

lemma decimal_str_no [simp]:
  "46 \<notin> set (decimal_str n)" "47 \<notin> set (decimal_str n)" "58 \<notin> set (decimal_str n)"
  "0 \<notin> set (decimal_str n)"
proof -
  have "\<not> c_digit 46 < 10" "\<not> c_digit 47 < 10" "\<not> c_digit 58 < 10" by (simp_all add: c_digit_def)
  with decimal_str_chars(1) show "46 \<notin> set (decimal_str n)" "47 \<notin> set (decimal_str n)"
    "58 \<notin> set (decimal_str n)" "0 \<notin> set (decimal_str n)" by blast+
qed

lemma hex16_no [simp]: "47 \<notin> set (hex16 g)" "58 \<notin> set (hex16 g)" "0 \<notin> set (hex16 g)"
  using hex16_chars(1) c_digit_marks by blast+

text \<open>What \<open>fromString\<close> sees of a text \<open>ip/port\<close>.\<close>

lemma fromString_split:
  assumes "0 \<notin> set ip" "0 \<notin> set p" "47 \<notin> set ip" "length ip + length p < 63"
  shows "inet_fromString u16s u8s (ip @ 47 # p) =
    (let port = strToUInt p AND 0xffff in
     if 58 \<in> set ip then
       let toks = take 8 (c_tokens 58 ip);
           a = map (\<lambda>s. hton (ucast (hexStrToUInt s AND 0xffff) :: u16)) toks @ drop (length toks) u16s
       in Inr (inet_nil\<lparr>ss_family := AF_INET6, sin6_addr := concat (map le_bytes a),
                 sin_port := hton (ucast port)\<rparr>, True)
     else if 46 \<in> set ip then
       let toks = take 4 (c_tokens 46 ip);
           a = map (\<lambda>s. ucast (strToUInt s AND 0xff) :: u8) toks @ drop (length toks) u8s
       in Inr (inet_nil\<lparr>ss_family := AF_INET, sin_addr := le_word a,
                 sin_port := hton (ucast port)\<rparr>, True)
     else Inr (inet_nil, False))"
proof -
  let ?s = "ip @ 47 # p"
  have len: "length ?s < 64" using assms(4) by simp
  have "scopy (replicate 64 0) 64 (Some ?s) = Inr (True, ?s @ [0] @ drop (length ?s + 1) (replicate 64 0))"
    using scopy_loop_ok [of 0 64 "replicate 64 0" ?s] len by (simp add: scopy_def)
  moreover have "cstr (?s @ [0] @ drop (length ?s + 1) (replicate 64 0)) = ?s"
    using assms by (intro cstr_append) auto
  moreover have "takeWhile (\<lambda>c. c \<noteq> 47) ?s = ip" "dropWhile (\<lambda>c. c \<noteq> 47) ?s = 47 # p"
    using assms(3) by (induction ip) auto
  ultimately show ?thesis unfolding inet_fromString_def by (simp add: Let_def)
qed

lemma v4_text:
  assumes "ss_family a = AF_INET" and u8s: "length u8s = 4"
  shows "inet_fromString u16s u8s (inet_toString a) =
    Inr (inet_nil\<lparr>ss_family := AF_INET, sin_addr := sin_addr a, sin_port := sin_port a\<rparr>, True)"
proof -
  let ?bs = "le_bytes (sin_addr a)"
  let ?ts = "map (\<lambda>b. decimal_str (ucast b)) ?bs" and ?p = "decimal_str (ucast (inet_port a))"
  have d: "t \<noteq> [] \<and> 46 \<notin> set t \<and> 47 \<notin> set t \<and> 58 \<notin> set t \<and> 0 \<notin> set t" if "t \<in> set ?ts" for t
    using that decimal_str_chars(2) by auto
  have l: "length t \<le> 3" if "t \<in> set ?ts" for t
  proof -
    from that obtain b :: u8 where b: "t = decimal_str (ucast b)" by auto
    have "unat (ucast b :: u64) < 10 ^ 3" using unat_bounds(1) [of b] by (simp add: unat_ucast_up)
    then show ?thesis unfolding b by (rule length_decimal_str) simp
  qed
  have l4: "length ?bs = 4" by simp
  have lj: "length (join 46 ?ts) \<le> 16" using length_join [of ?ts 3 46] l l4 by simp
  have lp: "length ?p \<le> 10"
    using unat_bounds(3) [of "inet_port a"] by (intro length_decimal_str) (simp_all add: unat_ucast_up)
  obtain b0 b1 b2 b3 where bs: "?bs = [b0, b1, b2, b3]"
    using list4 [OF l4] by blast
  have ne: "join 46 ?ts \<noteq> []" and m46: "46 \<in> set (join 46 ?ts)" by (simp_all add: bs)
  have no: "0 \<notin> set (join 46 ?ts)" "47 \<notin> set (join 46 ?ts)" "58 \<notin> set (join 46 ?ts)"
    using set_join [of 46 ?ts] d by fastforce+
  have np: "0 \<notin> set ?p" by simp
  have ts: "inet_toString a = join 46 ?ts @ 47 # ?p"
    using assms ne by (simp add: inet_toString_def inet_toIpString_def Let_def)
  have tk: "c_tokens 46 (join 46 ?ts) = ?ts" using d by (intro c_tokens_join) blast
  have pt: "(ucast (strToUInt ?p AND 0xffff) :: u16) = ntoh (sin_port a)"
    using assms by (simp add: inet_port_def strToUInt_port)
  have "length ?ts = 4" using l4 by simp
  then show ?thesis
    unfolding ts using no np lj lp m46 u8s
    by (subst fromString_split) (simp_all add: Let_def tk comp_def strToUInt_byte pt le_word_le_bytes)
qed

lemma v6_text:
  assumes "ss_family a = AF_INET6" "length (sin6_addr a) = 16" and u16s: "length u16s = 8"
  shows "inet_fromString u16s u8s (inet_toString a) =
    Inr (inet_nil\<lparr>ss_family := AF_INET6, sin6_addr := sin6_addr a, sin_port := sin_port a\<rparr>, True)"
proof -
  let ?gs = "groups16 (sin6_addr a)"
  let ?ts = "map (\<lambda>g. hex16 (ntoh g)) ?gs" and ?p = "decimal_str (ucast (inet_port a))"
  have l8: "length ?gs = 8" using assms(2) by (simp add: length_groups16)
  have d: "t \<noteq> [] \<and> 47 \<notin> set t \<and> 58 \<notin> set t \<and> 0 \<notin> set t" if "t \<in> set ?ts" for t
    using that hex16_chars(2) by auto
  have lj: "length (join 58 ?ts) \<le> 40"
    using length_join [of ?ts 4 58] l8 hex16_chars(3) by fastforce
  have lp: "length ?p \<le> 10"
    using unat_bounds(3) [of "inet_port a"] by (intro length_decimal_str) (simp_all add: unat_ucast_up)
  obtain g0 g1 gr where gs: "?gs = g0 # g1 # gr"
    using l8 by (cases ?gs; cases "tl ?gs") auto
  have ne: "join 58 ?ts \<noteq> []" and m58: "58 \<in> set (join 58 ?ts)"
    using hex16_chars(2) by (simp_all add: gs)
  have no: "0 \<notin> set (join 58 ?ts)" "47 \<notin> set (join 58 ?ts)"
    using set_join [of 58 ?ts] d by fastforce+
  have np: "0 \<notin> set ?p" by simp
  have ts: "inet_toString a = join 58 ?ts @ 47 # ?p"
    using assms ne by (simp add: inet_toString_def inet_toIpString_def Let_def)
  have tk: "c_tokens 58 (join 58 ?ts) = ?ts" using d by (intro c_tokens_join) blast
  have pt: "(ucast (strToUInt ?p AND 0xffff) :: u16) = ntoh (sin_port a)"
    using assms by (simp add: inet_port_def strToUInt_port)
  have "length ?ts = 8" using l8 by simp
  then show ?thesis
    unfolding ts using no np lj lp m58 assms(2) u16s
    by (subst fromString_split) (simp_all add: Let_def tk comp_def hexStrToUInt_hex16 pt groups16_bytes)
qed

end
