(* ===== verification/Inet_Laws.thy ===== *)
theory Inet_Laws
  imports Inet_Address "HOL-Library.List_Lexorder"
begin

text \<open>
  Laws of \<open>InetAddress\<close>: \<open>operator<\<close> is a strict total order whose equivalence is \<open>operator==\<close>
  and \<open>hashCode\<close> respects it; the netmask operations against the bits of the address; the
  derived IPv6 addresses; and the properties of the class.
\<close>

section \<open>Order, equality, hash\<close>

lemma memcmp_less_iff:
  "length xs = length ys \<Longrightarrow> memcmp xs ys < 0 \<longleftrightarrow> map unat xs < map unat ys"
  by (induction xs ys rule: memcmp.induct) (auto simp: word_less_nat_alt word_unat_eq_iff)

lemma list_less_snoc:
  "length xs = length (ys :: nat list) \<Longrightarrow> xs @ [s] < ys @ [t] \<longleftrightarrow> xs < ys \<or> (xs = ys \<and> s < t)"
proof (induction xs arbitrary: ys)
  case Nil
  then show ?case by simp
next
  case (Cons x xs)
  then obtain y ys' where "ys = y # ys'" "length xs = length ys'" by (cases ys) auto
  with Cons.IH [of ys'] show ?case by auto
qed

text \<open>The key that the comparison operators look at.\<close>

definition inet_key :: "inet \<Rightarrow> nat list" where
  "inet_key a = unat (ss_family a) #
     (if ss_family a = AF_INET then [unat (sin_port a), unat (sin_addr a)]
      else if ss_family a = AF_INET6 then
        [unat (sin_port a), unat (sin_addr a)] @ map unat (sin6_addr a) @ [unat (sin6_scope_id a)]
      else map unat (inet_raw a))"

lemma length_inet_raw: "inet_ok a \<Longrightarrow> length (inet_raw a) = 128"
  by (simp add: inet_raw_def inet_ok_def)

lemma unat_inj: "map unat (xs :: bytes) = map unat ys \<longleftrightarrow> xs = ys"
  by (simp add: inj_map_eq_map inj_on_def word_unat_eq_iff)

lemma inet_less_key:
  assumes "inet_ok a" "inet_ok b"
  shows "inet_less a b \<longleftrightarrow> inet_key a < inet_key b"
proof -
  have l6: "length (sin6_addr a) = length (sin6_addr b)" "length (inet_raw a) = length (inet_raw b)"
    using assms by (simp_all add: inet_ok_def length_inet_raw)
  have c6: "memcmp (sin6_addr a) (sin6_addr b) = 0 \<longleftrightarrow> map unat (sin6_addr a) = map unat (sin6_addr b)"
    using l6(1) by (simp add: memcmp_eq_0_iff unat_inj)
  show ?thesis
    using l6 c6
    by (simp add: inet_less_def inet_key_def memcmp_less_iff list_less_snoc word_less_nat_alt
        word_unat_eq_iff AF_INET_def AF_INET6_def)
qed

lemma inet_eq_key:
  assumes "inet_ok a" "inet_ok b"
  shows "inet_eq a b \<longleftrightarrow> inet_key a = inet_key b"
proof -
  have l6: "length (sin6_addr a) = length (sin6_addr b)" "length (inet_raw a) = length (inet_raw b)"
    using assms by (simp_all add: inet_ok_def length_inet_raw)
  show ?thesis
    using l6 by (auto simp: inet_eq_def inet_key_def memcmp_eq_0_iff unat_inj word_unat_eq_iff)
qed

lemma inet_raw_inj: "inet_raw a = inet_raw b \<Longrightarrow> inet_ok a \<Longrightarrow> inet_ok b \<Longrightarrow> sin_port a = sin_port b"
proof -
  assume "inet_raw a = inet_raw b"
  then have "le_bytes (sin_port a) = le_bytes (sin_port b)" by (simp add: inet_raw_def)
  then have "le_word (le_bytes (sin_port a)) = (le_word (le_bytes (sin_port b)) :: u16)" by simp
  then show ?thesis by (simp add: le_word_le_bytes)
qed

lemma inet_eq_hash:
  assumes "inet_ok a" "inet_ok b" "inet_eq a b"
  shows "inet_hashCode a = inet_hashCode b"
proof -
  have l6: "length (sin6_addr a) = length (sin6_addr b)" "length (inet_raw a) = length (inet_raw b)"
    using assms by (simp_all add: inet_ok_def length_inet_raw)
  show ?thesis
    using assms l6 inet_raw_inj [OF _ assms(1,2)]
    by (auto simp: inet_eq_def inet_hashCode_def memcmp_eq_0_iff split: if_splits)
qed

section \<open>Address bits and netmasks\<close>

text \<open>Bit \<open>i\<close> of an address, counted from the most significant one.\<close>

definition bytes_bit :: "bytes \<Rightarrow> nat \<Rightarrow> bool" where
  "bytes_bit bs i = bit (bs ! (i div 8)) (7 - i mod 8)"

definition inet_bit :: "inet \<Rightarrow> nat \<Rightarrow> bool" where
  "inet_bit a i =
     (if ss_family a = AF_INET then bit (ntoh (sin_addr a)) (31 - i) else bytes_bit (sin6_addr a) i)"

definition inet_width :: "inet \<Rightarrow> nat" where
  "inet_width a = (if ss_family a = AF_INET then 32 else 128)"

lemma bit_bswap:
  assumes "LENGTH('a) mod 8 = 0" "n < LENGTH('a)"
  shows "bit (bswap (v::'a::len word)) n =
    bit v (8 * (LENGTH('a) div 8 - 1 - n div 8) + n mod 8)"
proof -
  have j: "n div 8 < LENGTH('a) div 8" using assms by (metis div_less_iff_less_mult dvd_div_mult_self mod_0_imp_dvd zero_less_numeral)
  have "word_bytes_be v ! (n div 8) = ucast (drop_bit (8 * (LENGTH('a) div 8 - 1 - n div 8)) v)"
    using j by (simp add: word_bytes_be_def rev_nth)
  then show ?thesis
    using assms j by (simp add: bswap_def bit_be_word bit_simps)
qed

lemma bswap_and:
  assumes "LENGTH('a) mod 8 = 0"
  shows "bswap (x AND y :: 'a::len word) = bswap x AND bswap y"
  by (rule bit_word_eqI) (simp add: bit_bswap assms bit_and_iff)

lemma ntoh_and_hton: "ntoh (x AND hton m :: u32) = ntoh x AND m"
  by (simp add: ntoh_def hton_def bswap_and bswap_bswap)

lemma bytes_bit_be:
  assumes "LENGTH('a) mod 8 = 0" "i < LENGTH('a)"
  shows "bytes_bit (word_bytes_be (v::'a::len word)) i = bit v (LENGTH('a) - 1 - i)"
proof -
  from assms(1) obtain k where k: "LENGTH('a) = 8 * k" by auto
  define q r where "q = i div 8" and "r = i mod 8"
  have i: "i = 8 * q + r" "r < 8" by (simp_all add: q_def r_def)
  have q: "q < k" using assms(2) k i by simp
  then have "word_bytes_be v ! q = ucast (drop_bit (8 * (k - 1 - q)) v)"
    by (simp add: word_bytes_be_def rev_nth k)
  moreover have "8 * (k - 1 - q) + (7 - r) = LENGTH('a) - 1 - i"
    using q i k by (simp add: algebra_simps)
  moreover have "7 - r < (8::nat)" by arith
  ultimately show ?thesis
    using i(2) by (simp add: bytes_bit_def q_def [symmetric] r_def [symmetric] bit_simps)
qed

lemma bytes_bit_append:
  assumes "length xs = 8"
  shows "bytes_bit (xs @ ys) i = (if i < 64 then bytes_bit xs i else bytes_bit ys (i - 64))"
proof (cases "i < 64")
  case True
  then have "i div 8 < 8" by auto
  with True assms show ?thesis by (simp add: bytes_bit_def nth_append)
next
  case False
  then obtain j where j: "i = j + 64" by (metis add.commute le_Suc_ex not_less)
  then have "i div 8 = j div 8 + 8" "i mod 8 = j mod 8"
    using mod_mult_self1 [of j 8 8] by simp_all
  with False assms j show ?thesis by (simp add: bytes_bit_def nth_append)
qed

lemma u8_eq_bits: "(x::u8) = y \<longleftrightarrow> (\<forall>r<8. bit x (7 - r) = bit y (7 - r))"
proof
  assume R: "\<forall>r<8. bit x (7 - r) = bit y (7 - r)"
  show "x = y"
  proof (rule bit_word_eqI)
    fix n assume "n < LENGTH(8)"
    then have "7 - (7 - n) = n" "7 - n < 8" by simp_all
    with R show "bit x n = bit y n" by metis
  qed
qed simp

lemma bytes_all_bits:
  "(\<forall>j<k. (f j :: u8) = g j) \<longleftrightarrow> (\<forall>i<8 * k. bit (f (i div 8)) (7 - i mod 8) = bit (g (i div 8)) (7 - i mod 8))"
proof
  assume "\<forall>j<k. f j = g j"
  then show "\<forall>i<8 * k. bit (f (i div 8)) (7 - i mod 8) = bit (g (i div 8)) (7 - i mod 8)"
    by (auto simp: div_less_iff_less_mult mult.commute)
next
  assume R: "\<forall>i<8 * k. bit (f (i div 8)) (7 - i mod 8) = bit (g (i div 8)) (7 - i mod 8)"
  show "\<forall>j<k. f j = g j"
  proof (intro allI impI)
    fix j assume j: "j < k"
    have "bit (f j) (7 - r) = bit (g j) (7 - r)" if "r < 8" for r
    proof -
      have "8 * j + r < 8 * k" using j that by simp
      from R [rule_format, OF this] that show ?thesis by simp
    qed
    then show "f j = g j" by (simp add: u8_eq_bits)
  qed
qed

lemma masked_bits:
  "(\<forall>j<16. a ! j AND m ! j = b ! j) \<longleftrightarrow> (\<forall>i<128. (bytes_bit a i \<and> bytes_bit m i) = bytes_bit b i)"
  using bytes_all_bits [of 16 "\<lambda>j. a ! j AND m ! j" "\<lambda>j. b ! j"]
  by (simp add: bytes_bit_def bit_and_iff)

lemma unat_sub_bits: "unat b \<le> k \<Longrightarrow> k < 2 ^ 32 \<Longrightarrow> unat (of_nat k - b :: u32) = k - unat b"
  by (subst unat_sub_nowrap) (simp_all add: word_le_nat_alt word_nat)

lemma mask6:
  assumes "0 < unat bits" "unat bits \<le> 128"
  shows "\<exists>h l. mask6_hi bits = Inr h \<and> mask6_lo bits = Inr l \<and>
    (\<forall>i<128. bytes_bit (word_bytes_be h @ word_bytes_be l) i \<longleftrightarrow> i < unat bits)"
proof -
  let ?h = "if unat bits \<ge> 64 then - 1 else push_bit (64 - unat bits) (- 1) :: u64"
  let ?l = "if unat bits \<le> 64 then 0 else push_bit (128 - unat bits) (- 1) :: u64"
  have "unat (64 - bits) = 64 - unat bits" if "unat bits \<le> 64"
    using unat_sub_bits [OF that] by simp
  then have hi: "mask6_hi bits = Inr ?h"
    using assms by (auto simp: mask6_hi_def c_shl_def word_le_nat_alt)
  have "unat (128 - bits) = 128 - unat bits" using unat_sub_bits [OF assms(2)] by simp
  then have lo: "mask6_lo bits = Inr ?l"
    using assms by (auto simp: mask6_lo_def c_shl_def word_le_nat_alt)
  have "bytes_bit (word_bytes_be ?h @ word_bytes_be ?l) i \<longleftrightarrow> i < unat bits" if i: "i < 128" for i
  proof (cases "i < 64")
    case True
    then show ?thesis
      using assms by (auto simp: bytes_bit_append bytes_bit_be bit_simps)
  next
    case False
    then have "i - 64 < 64" using i by simp
    with False show ?thesis
      using assms i by (auto simp: bytes_bit_append bytes_bit_be bit_simps)
  qed
  with hi lo show ?thesis by blast
qed

lemma netmask6:
  assumes "ss_family a = AF_INET6" "0 < unat (inet_port a)" "unat (inet_port a) \<le> 128"
  shows "\<exists>n. inet_netmask a = Inr n \<and> (\<forall>i<128. bytes_bit (sin6_addr n) i \<longleftrightarrow> i < unat (inet_port a))"
proof -
  from mask6 [OF assms(2,3)] obtain h l where hl: "mask6_hi (inet_port a) = Inr h"
    "mask6_lo (inet_port a) = Inr l"
    "\<forall>i<128. bytes_bit (word_bytes_be h @ word_bytes_be l) i \<longleftrightarrow> i < unat (inet_port a)"
    by blast
  have "inet_port a \<noteq> 0" using assms(2) by auto
  then have "inet_netmask a = Inr (a\<lparr>sin6_addr := word_bytes_be h @ word_bytes_be l\<rparr>)"
    using assms(1) hl
    by (simp add: inet_netmask_def inet_netmaskBits_def Let_def hton_def le_bytes_bswap)
  with hl(3) show ?thesis by simp
qed

lemma netmask6_zero:
  assumes "ss_family a = AF_INET6" "inet_port a = 0"
  shows "\<exists>n. inet_netmask a = Inr n \<and> (\<forall>i<128. bytes_bit (sin6_addr n) i \<longleftrightarrow> i < unat (inet_port a))"
proof -
  have "le_bytes (0 :: u64) @ le_bytes (0 :: u64) = replicate 16 0" by code_simp
  moreover have "\<not> bytes_bit (replicate 16 0) i" if "i < 128" for i
    using that nth_replicate [of "i div 8" 16 "0 :: u8"] by (simp add: bytes_bit_def)
  ultimately show ?thesis using assms by (simp add: inet_netmask_def inet_netmaskBits_def Let_def)
qed

lemma le_bytes_and_nth:
  assumes "i < LENGTH('a) div 8"
  shows "le_bytes (x AND y :: 'a::len word) ! i = le_bytes x ! i AND le_bytes y ! i"
  using assms by (simp add: le_bytes_def nth_rev_word_bytes_be drop_bit_and unsigned_and_eq)

lemma masked_le_bytes:
  assumes "length bs = 8" "i < 64"
  shows "bytes_bit (le_bytes ((le_word bs :: u64) AND hton h)) i \<longleftrightarrow>
    bytes_bit bs i \<and> bytes_bit (word_bytes_be h) i"
proof -
  have "i div 8 < 8" using assms(2) by auto
  then show ?thesis
    using assms(1) by (simp add: bytes_bit_def le_bytes_and_nth bit_and_iff le_bytes_le_word hton_def
        le_bytes_bswap)
qed

lemma network6:
  assumes a: "inet_ok a" "ss_family a = AF_INET6" and bits: "0 < unat (inet_port a)" "unat (inet_port a) \<le> 128"
  shows "\<exists>n. inet_network a = Inr n \<and> inet_ok n \<and> ss_family n = AF_INET6 \<and> sin_port n = sin_port a \<and>
    (\<forall>i<128. bytes_bit (sin6_addr n) i \<longleftrightarrow> bytes_bit (sin6_addr a) i \<and> i < unat (inet_port a))"
proof -
  from mask6 [OF bits] obtain h l where hl: "mask6_hi (inet_port a) = Inr h"
    "mask6_lo (inet_port a) = Inr l"
    "\<forall>i<128. bytes_bit (word_bytes_be h @ word_bytes_be l) i \<longleftrightarrow> i < unat (inet_port a)"
    by blast
  let ?t = "take 8 (sin6_addr a)" and ?d = "drop 8 (sin6_addr a)"
  let ?n = "le_bytes ((le_word ?t :: u64) AND hton h) @ le_bytes ((le_word ?d :: u64) AND hton l)"
  have len: "length ?t = 8" "length ?d = 8" using a(1) by (simp_all add: inet_ok_def)
  have nw: "inet_network a = Inr (a\<lparr>sin6_addr := ?n\<rparr>)"
    using a(2) hl(1,2) by (simp add: inet_network_def inet_netmaskBits_def Let_def)
  have "bytes_bit ?n i \<longleftrightarrow> bytes_bit (sin6_addr a) i \<and> i < unat (inet_port a)" if i: "i < 128" for i
  proof -
    have "bytes_bit (sin6_addr a) i = bytes_bit (?t @ ?d) i" by simp
    then have 1: "bytes_bit (sin6_addr a) i = (if i < 64 then bytes_bit ?t i else bytes_bit ?d (i - 64))"
      using len(1) by (simp only: bytes_bit_append)
    have 2: "(if i < 64 then bytes_bit (word_bytes_be h) i else bytes_bit (word_bytes_be l) (i - 64)) \<longleftrightarrow>
        i < unat (inet_port a)"
      using hl(3) i bytes_bit_append [of "word_bytes_be h" "word_bytes_be l" i] by simp
    show ?thesis
      using len i 1 2 by (cases "i < 64") (simp_all add: bytes_bit_append masked_le_bytes)
  qed
  with nw a show ?thesis by (simp add: inet_ok_def)
qed

lemma shl_mask32:
  assumes "0 < unat bits" "unat bits \<le> 32"
  shows "c_shl (0xffffffff :: u32) (32 - bits) = Inr (push_bit (32 - unat bits) (- 1))"
proof -
  have u: "unat (32 - bits) = 32 - unat bits" using unat_sub_bits [OF assms(2)] by simp
  have w: "(0xffffffff :: u32) = - 1" by code_simp
  show ?thesis unfolding w using assms u by (simp add: c_shl_def)
qed

lemma network4:
  assumes a: "ss_family a = AF_INET" and bits: "0 < unat (inet_port a)" "unat (inet_port a) \<le> 32"
  shows "\<exists>n. inet_network a = Inr n \<and> inet_ok n = inet_ok a \<and> ss_family n = AF_INET \<and> sin_port n = sin_port a \<and>
    (\<forall>i<32. bit (ntoh (sin_addr n)) (31 - i) \<longleftrightarrow> bit (ntoh (sin_addr a)) (31 - i) \<and> i < unat (inet_port a))"
proof -
  let ?m = "push_bit (32 - unat (inet_port a)) (- 1) :: u32"
  have nw: "inet_network a = Inr (a\<lparr>sin_addr := sin_addr a AND hton ?m\<rparr>)"
    using a shl_mask32 [OF bits] by (simp add: inet_network_def inet_netmaskBits_def Let_def)
  have "bit (ntoh (sin_addr a AND hton ?m)) (31 - i) \<longleftrightarrow>
      bit (ntoh (sin_addr a)) (31 - i) \<and> i < unat (inet_port a)" if "i < 32" for i
    using that bits by (auto simp: ntoh_and_hton bit_simps)
  with nw a show ?thesis by (simp add: inet_ok_def)
qed

lemma drop_bit_eq_iff:
  assumes "0 < n" "n \<le> 32"
  shows "drop_bit (32 - n) (x::u32) = drop_bit (32 - n) y \<longleftrightarrow> (\<forall>i<n. bit x (31 - i) = bit y (31 - i))"
proof
  assume E: "drop_bit (32 - n) x = drop_bit (32 - n) y"
  show "\<forall>i<n. bit x (31 - i) = bit y (31 - i)"
  proof (intro allI impI)
    fix i assume i: "i < n"
    have "bit (drop_bit (32 - n) x) (n - 1 - i) = bit (drop_bit (32 - n) y) (n - 1 - i)" by (simp add: E)
    moreover have "32 - n + (n - 1 - i) = 31 - i" using i assms by simp
    ultimately show "bit x (31 - i) = bit y (31 - i)" by (simp add: bit_drop_bit_eq)
  qed
next
  assume R: "\<forall>i<n. bit x (31 - i) = bit y (31 - i)"
  show "drop_bit (32 - n) x = drop_bit (32 - n) y"
  proof (rule bit_word_eqI)
    fix k assume "k < LENGTH(32)"
    show "bit (drop_bit (32 - n) x) k = bit (drop_bit (32 - n) y) k"
    proof (cases "k < n")
      case True
      then have "31 - (n - 1 - k) = 32 - n + k" "n - 1 - k < n" using assms by simp_all
      with R have "bit x (32 - n + k) = bit y (32 - n + k)" by metis
      then show ?thesis by (simp add: bit_drop_bit_eq)
    next
      case False
      then have "\<not> bit x (32 - n + k)" "\<not> bit y (32 - n + k)"
        using assms by (auto dest: bit_imp_le_length)
      then show ?thesis by (simp add: bit_drop_bit_eq)
    qed
  qed
qed

lemma contains4:
  assumes "ss_family net = AF_INET" "ss_family a = AF_INET"
    and bits: "unat (inet_port net) \<le> 32"
  shows "inet_containsAddress net a = Inr (\<forall>i<unat (inet_port net). inet_bit a i = inet_bit net i)"
proof (cases "inet_port net = 0")
  case True
  with assms show ?thesis by (simp add: inet_containsAddress_def inet_netmaskBits_def Let_def)
next
  case False
  then have pos: "0 < unat (inet_port net)" by (simp add: unat_gt_0)
  have "unat (32 - inet_port net) = 32 - unat (inet_port net)" using unat_sub_bits [OF bits] by simp
  with False pos show ?thesis
    using assms drop_bit_eq_iff [OF pos bits, of "ntoh (sin_addr a)" "ntoh (sin_addr net)"]
    by (simp add: inet_containsAddress_def inet_netmaskBits_def Let_def c_shr_def inet_bit_def)
qed

lemma contains6:
  assumes "ss_family net = AF_INET6" "ss_family a = AF_INET6"
    and bits: "unat (inet_port net) \<le> 128"
  shows "inet_containsAddress net a =
    Inr ((\<forall>i<unat (inet_port net). inet_bit a i = inet_bit net i) \<and>
         (\<forall>i. unat (inet_port net) \<le> i \<and> i < 128 \<longrightarrow> \<not> inet_bit net i))"
proof -
  obtain n where n: "inet_netmask net = Inr n" "\<forall>i<128. bytes_bit (sin6_addr n) i \<longleftrightarrow> i < unat (inet_port net)"
    using netmask6 [OF assms(1) _ bits] netmask6_zero [OF assms(1)] by (cases "inet_port net = 0") (auto simp: unat_gt_0)
  have "list_all (\<lambda>i. sin6_addr a ! i AND sin6_addr n ! i = sin6_addr net ! i) [0..<16] \<longleftrightarrow>
      (\<forall>i<128. (bytes_bit (sin6_addr a) i \<and> i < unat (inet_port net)) = bytes_bit (sin6_addr net) i)"
    using masked_bits [of "sin6_addr a" "sin6_addr n" "sin6_addr net"] n(2)
    by (simp add: list_all_iff Ball_def)
  also have "\<dots> \<longleftrightarrow> (\<forall>i<unat (inet_port net). inet_bit a i = inet_bit net i) \<and>
         (\<forall>i. unat (inet_port net) \<le> i \<and> i < 128 \<longrightarrow> \<not> inet_bit net i)"
    using assms by (simp add: inet_bit_def) (meson leD leI less_le_trans)
  finally show ?thesis
    using assms n(1) by (simp add: inet_containsAddress_def Let_def)
qed

lemma and_low_eq_0_iff:
  assumes "\<And>k. bit m k \<longleftrightarrow> k < n" "n \<le> LENGTH('a)"
  shows "(x::'a::len word) AND m = 0 \<longleftrightarrow> (\<forall>k<n. \<not> bit x k)"
proof
  assume Z: "x AND m = 0"
  show "\<forall>k<n. \<not> bit x k"
  proof (intro allI impI)
    fix k assume "k < n"
    with assms(1) have "bit m k" by simp
    moreover have "\<not> bit (x AND m) k" by (simp add: Z)
    ultimately show "\<not> bit x k" by (simp add: bit_and_iff)
  qed
next
  assume "\<forall>k<n. \<not> bit x k"
  then show "x AND m = 0" using assms(1) by (intro bit_word_eqI) (auto simp: bit_and_iff)
qed

lemma shr_mask32:
  assumes "unat bits < 32"
  shows "\<exists>m. c_shr (0xffffffff :: u32) bits = Inr m \<and> (\<forall>k. bit m k \<longleftrightarrow> k < 32 - unat bits)"
proof -
  have w: "(0xffffffff :: u32) = - 1" by code_simp
  show ?thesis unfolding w using assms by (auto simp: c_shr_def bit_drop_bit_eq bit_simps)
qed

lemma isNetwork4:
  assumes "ss_family a = AF_INET" "0 < unat (inet_port a)" "unat (inet_port a) < 32"
  shows "inet_isNetwork a = Inr (\<forall>i. unat (inet_port a) \<le> i \<and> i < 32 \<longrightarrow> \<not> inet_bit a i)"
proof -
  let ?n = "unat (inet_port a)"
  from shr_mask32 [OF assms(3)] obtain m where m: "c_shr (0xffffffff :: u32) (inet_port a) = Inr m"
    "\<And>k. bit m k \<longleftrightarrow> k < 32 - ?n" by blast
  have "ntoh (sin_addr a) AND m = 0 \<longleftrightarrow> (\<forall>k<32 - ?n. \<not> bit (ntoh (sin_addr a)) k)"
    by (rule and_low_eq_0_iff [OF m(2)]) simp
  also have "\<dots> \<longleftrightarrow> (\<forall>i. ?n \<le> i \<and> i < 32 \<longrightarrow> \<not> bit (ntoh (sin_addr a)) (31 - i))"
  proof
    assume L: "\<forall>k<32 - ?n. \<not> bit (ntoh (sin_addr a)) k"
    show "\<forall>i. ?n \<le> i \<and> i < 32 \<longrightarrow> \<not> bit (ntoh (sin_addr a)) (31 - i)"
    proof (intro allI impI)
      fix i assume "?n \<le> i \<and> i < 32"
      then have "31 - i < 32 - ?n" by arith
      with L show "\<not> bit (ntoh (sin_addr a)) (31 - i)" by blast
    qed
  next
    assume R: "\<forall>i. ?n \<le> i \<and> i < 32 \<longrightarrow> \<not> bit (ntoh (sin_addr a)) (31 - i)"
    show "\<forall>k<32 - ?n. \<not> bit (ntoh (sin_addr a)) k"
    proof (intro allI impI)
      fix k assume "k < 32 - ?n"
      then have "?n \<le> 31 - k" "31 - k < 32" "31 - (31 - k) = k" by arith+
      with R show "\<not> bit (ntoh (sin_addr a)) k" by metis
    qed
  qed
  finally have E: "ntoh (sin_addr a) AND m = 0 \<longleftrightarrow>
      (\<forall>i. ?n \<le> i \<and> i < 32 \<longrightarrow> \<not> bit (ntoh (sin_addr a)) (31 - i))" .
  have "\<not> inet_port a \<le> 0" "\<not> inet_port a \<ge> 32" using assms by (auto simp: word_le_nat_alt)
  then show ?thesis
    using assms(1) m(1) E by (simp add: inet_isNetwork_def inet_netmaskBits_def Let_def inet_bit_def)
qed

lemma shr_mask8:
  assumes "unat r < 8"
  shows "\<exists>m. c_shr (0xff :: u32) r = Inr m \<and> (\<forall>k. bit m k \<longleftrightarrow> k < 8 - unat r)"
proof -
  have w: "(0xff :: u32) = mask 8" by (simp add: mask_eq_exp_minus_1)
  show ?thesis unfolding w using assms by (auto simp: c_shr_def bit_drop_bit_eq bit_simps)
qed

lemma tail_bits:
  assumes "p = n div 8" "n < 128"
  shows "((\<forall>k<8 - n mod 8. \<not> bit (bs ! p) k) \<and> (\<forall>j. p < j \<and> j < 16 \<longrightarrow> bs ! j = 0)) \<longleftrightarrow>
    (\<forall>i. n \<le> i \<and> i < 128 \<longrightarrow> \<not> bytes_bit bs i)"
proof
  assume L: "(\<forall>k<8 - n mod 8. \<not> bit (bs ! p) k) \<and> (\<forall>j. p < j \<and> j < 16 \<longrightarrow> bs ! j = 0)"
  show "\<forall>i. n \<le> i \<and> i < 128 \<longrightarrow> \<not> bytes_bit bs i"
  proof (intro allI impI)
    fix i assume i: "n \<le> i \<and> i < 128"
    show "\<not> bytes_bit bs i"
    proof (cases "i div 8 = p")
      case True
      then have "n mod 8 \<le> i mod 8" using i assms(1) by (metis add_le_cancel_left div_mult_mod_eq)
      then have "7 - i mod 8 < 8 - n mod 8" by simp
      with L True show ?thesis by (simp add: bytes_bit_def)
    next
      case False
      then have "p < i div 8" "i div 8 < 16" using i assms(1) div_le_mono [of n i 8] by auto
      with L show ?thesis by (simp add: bytes_bit_def)
    qed
  qed
next
  assume R: "\<forall>i. n \<le> i \<and> i < 128 \<longrightarrow> \<not> bytes_bit bs i"
  have dm: "n = 8 * p + n mod 8" "p < 16" "n mod 8 < 8" using assms by auto
  have "\<not> bit (bs ! p) k" if k: "k < 8 - n mod 8" for k
  proof -
    define t where "t = 7 - k"
    have t: "t < 8" "7 - t = k" "n mod 8 \<le> t" using k unfolding t_def by arith+
    define i where "i = 8 * p + t"
    have "i div 8 = p" "i mod 8 = t" using t(1) by (simp_all add: i_def)
    moreover have "n \<le> i" "i < 128"
      using t dm unfolding i_def by linarith+
    ultimately show ?thesis using R t(2) by (metis bytes_bit_def)
  qed
  moreover have "bs ! j = 0" if j: "p < j" "j < 16" for j
  proof (subst u8_eq_bits, intro allI impI)
    fix r :: nat assume r: "r < 8"
    define i where "i = 8 * j + r"
    have "i div 8 = j" "i mod 8 = r" using r by (auto simp: i_def)
    moreover have "n \<le> i" "i < 128"
      using r j dm unfolding i_def by linarith+
    ultimately have "\<not> bit (bs ! j) (7 - r)" using R by (metis bytes_bit_def)
    then show "bit (bs ! j) (7 - r) = bit (0::u8) (7 - r)" by simp
  qed
  ultimately show "(\<forall>k<8 - n mod 8. \<not> bit (bs ! p) k) \<and> (\<forall>j. p < j \<and> j < 16 \<longrightarrow> bs ! j = 0)"
    by blast
qed

lemma isNetwork6:
  assumes "ss_family a = AF_INET6" "0 < unat (inet_port a)" "unat (inet_port a) < 128"
  shows "inet_isNetwork a = Inr (\<forall>i. unat (inet_port a) \<le> i \<and> i < 128 \<longrightarrow> \<not> inet_bit a i)"
proof -
  let ?n = "unat (inet_port a)" and ?bs = "sin6_addr a"
  define p where "p = unat (inet_port a div 8)"
  have p: "p = ?n div 8" by (simp add: p_def unat_div)
  have r: "unat (inet_port a mod 8) = ?n mod 8" by (simp add: unat_mod_distrib)
  then obtain m where m: "c_shr (0xff :: u32) (inet_port a mod 8) = Inr m"
    "\<And>k. bit m k \<longleftrightarrow> k < 8 - ?n mod 8" using shr_mask8 [of "inet_port a mod 8"] by auto
  have "(ucast (?bs ! p) :: u32) AND m = 0 \<longleftrightarrow> (\<forall>k<8 - ?n mod 8. \<not> bit (ucast (?bs ! p) :: u32) k)"
    by (rule and_low_eq_0_iff [OF m(2)]) simp
  also have "\<dots> \<longleftrightarrow> (\<forall>k<8 - ?n mod 8. \<not> bit (?bs ! p) k)"
    by (auto simp: bit_simps)
  finally have E: "(ucast (?bs ! p) :: u32) AND m = 0 \<longleftrightarrow> (\<forall>k<8 - ?n mod 8. \<not> bit (?bs ! p) k)" .
  have F: "list_all (\<lambda>i. ?bs ! i = 0) [p + 1..<16] \<longleftrightarrow> (\<forall>j. p < j \<and> j < 16 \<longrightarrow> ?bs ! j = 0)"
    by (auto simp: list_all_iff)
  have "\<not> inet_port a \<le> 0" "\<not> inet_port a \<ge> 128" using assms by (auto simp: word_le_nat_alt)
  then have "inet_isNetwork a = Inr ((\<forall>k<8 - ?n mod 8. \<not> bit (?bs ! p) k) \<and>
      (\<forall>j. p < j \<and> j < 16 \<longrightarrow> ?bs ! j = 0))"
    using assms(1) m(1) E F
    by (auto simp: inet_isNetwork_def inet_netmaskBits_def Let_def p_def [symmetric])
  with tail_bits [OF p assms(3)] assms(1) show ?thesis by (simp add: inet_bit_def)
qed

lemma network_general:
  assumes "inet_ok a" "inet_isV4 a \<or> inet_isV6 a" "0 < unat (inet_port a)" "unat (inet_port a) \<le> inet_width a"
  shows "\<exists>n. inet_network a = Inr n \<and> inet_ok n \<and> ss_family n = ss_family a \<and> inet_port n = inet_port a \<and>
    (\<forall>i<inet_width a. inet_bit n i \<longleftrightarrow> inet_bit a i \<and> i < unat (inet_port a))"
proof (cases "ss_family a = AF_INET")
  case True
  have "unat (inet_port a) \<le> 32" using assms(4) True by (simp add: inet_width_def)
  from network4 [OF True assms(3) this] obtain n where n: "inet_network a = Inr n" "inet_ok n"
    "ss_family n = AF_INET" "sin_port n = sin_port a"
    "\<forall>i<32. bit (ntoh (sin_addr n)) (31 - i) \<longleftrightarrow> bit (ntoh (sin_addr a)) (31 - i) \<and> i < unat (inet_port a)"
    using assms(1) by blast
  have "inet_port n = inet_port a" using n True by (simp add: inet_port_def)
  with n True show ?thesis by (intro exI [of _ n]) (simp add: inet_width_def inet_bit_def)
next
  case False
  then have v6: "ss_family a = AF_INET6" using assms(2) by (simp add: inet_isV4_def inet_isV6_def)
  have "unat (inet_port a) \<le> 128" using assms(4) v6 by (simp add: inet_width_def)
  from network6 [OF assms(1) v6 assms(3) this] obtain n where n: "inet_network a = Inr n" "inet_ok n"
    "ss_family n = AF_INET6" "sin_port n = sin_port a"
    "\<forall>i<128. bytes_bit (sin6_addr n) i \<longleftrightarrow> bytes_bit (sin6_addr a) i \<and> i < unat (inet_port a)"
    by blast
  have "inet_port n = inet_port a" using n v6 by (simp add: inet_port_def)
  with n v6 show ?thesis by (intro exI [of _ n]) (simp add: inet_width_def inet_bit_def)
qed

lemma contains_general:
  assumes "inet_isV4 net \<or> inet_isV6 net" "ss_family a = ss_family net"
    and "0 < unat (inet_port net)" "unat (inet_port net) \<le> inet_width net"
    and "\<And>i. i < inet_width net \<Longrightarrow> inet_bit net i \<longleftrightarrow> inet_bit a i \<and> i < unat (inet_port net)"
  shows "inet_containsAddress net a = Inr True"
proof (cases "ss_family net = AF_INET")
  case True
  with contains4 [OF True] assms show ?thesis by (auto simp: inet_width_def)
next
  case False
  then have v6: "ss_family net = AF_INET6" using assms(1) by (simp add: inet_isV4_def inet_isV6_def)
  with contains6 [OF v6] assms show ?thesis by (auto simp: inet_width_def)
qed

lemma isNetwork_general:
  assumes "inet_isV4 a \<or> inet_isV6 a" "0 < unat (inet_port a)" "unat (inet_port a) < inet_width a"
  shows "inet_isNetwork a = Inr (\<forall>i. unat (inet_port a) \<le> i \<and> i < inet_width a \<longrightarrow> \<not> inet_bit a i)"
proof (cases "ss_family a = AF_INET")
  case True
  with isNetwork4 [OF True] assms show ?thesis by (simp add: inet_width_def)
next
  case False
  then have v6: "ss_family a = AF_INET6" using assms(1) by (simp add: inet_isV4_def inet_isV6_def)
  with isNetwork6 [OF v6] assms show ?thesis by (simp add: inet_width_def)
qed

lemma isNetwork_host:
  assumes "inet_isV4 a \<or> inet_isV6 a" "unat (inet_port a) = inet_width a"
  shows "inet_isNetwork a = Inr False"
  using assms by (auto simp: inet_isNetwork_def inet_netmaskBits_def inet_width_def inet_isV4_def inet_isV6_def word_le_nat_alt Let_def)

section \<open>Derived addresses\<close>

lemma skip_zeros_le: "k \<le> j \<Longrightarrow> ip ! j \<noteq> 0 \<Longrightarrow> skip_zeros ip k \<le> j"
proof (induction ip k rule: skip_zeros.induct)
  case (1 ip k)
  show ?case
  proof (cases "ip ! k = 0 \<and> k < 15")
    case True
    then have "k < j" using "1.prems" by (cases "k = j") auto
    with "1.IH" [OF True] "1.prems" True show ?thesis by (subst skip_zeros.simps) simp
  next
    case False
    then have "skip_zeros ip k = k" by (subst skip_zeros.simps) auto
    with "1.prems" show ?thesis by simp
  qed
qed

lemma linklocal_scope: "inet_ipScope (inet_makeIpv6LinkLocal flow scope m) = IP_SCOPE_LINK_LOCAL"
proof -
  let ?ip = "sin6_addr (inet_makeIpv6LinkLocal flow scope m)"
  have "?ip ! 11 = 0xff" by (simp add: inet_makeIpv6LinkLocal_def Let_def)
  then have "skip_zeros ?ip 2 \<le> 11" by (intro skip_zeros_le) simp_all
  then show ?thesis
    by (simp add: inet_ipScope_def ipScope6_def inet_makeIpv6LinkLocal_def Let_def)
qed

lemma rfc4193_scope: "inet_ipScope (inet_makeIpv6rfc4193 nwid zta) = IP_SCOPE_PRIVATE"
  by (simp add: inet_ipScope_def ipScope6_def inet_makeIpv6rfc4193_def)

lemma plane6_scope: "inet_ipScope (inet_makeIpv66plane nwid zta) = IP_SCOPE_PRIVATE"
  by (simp add: inet_ipScope_def ipScope6_def inet_makeIpv66plane_def Let_def)

lemma word_bytes_be_u64:
  "word_bytes_be (n::u64) =
     [ucast (drop_bit 56 n), ucast (drop_bit 48 n), ucast (drop_bit 40 n), ucast (drop_bit 32 n),
      ucast (drop_bit 24 n), ucast (drop_bit 16 n), ucast (drop_bit 8 n), ucast n]"
  by (simp add: word_bytes_be_def upt_rec)

lemma addr_bytes_low:
  "addr_bytes (Address z) =
     [ucast (drop_bit 32 z), ucast (drop_bit 24 z), ucast (drop_bit 16 z), ucast (drop_bit 8 z), ucast z]"
  by (simp add: addr_bytes_def ucast_and_ff)

lemma rfc4193_inj:
  assumes "inet_makeIpv6rfc4193 n z = inet_makeIpv6rfc4193 n' z'"
  shows "n = n' \<and> take_bit 40 z = take_bit 40 z'"
proof -
  from assms have "sin6_addr (inet_makeIpv6rfc4193 n z) = sin6_addr (inet_makeIpv6rfc4193 n' z')" by simp
  then have "word_bytes_be n = word_bytes_be n'" "addr_bytes (Address z) = addr_bytes (Address z')"
    by (simp_all add: inet_makeIpv6rfc4193_def word_bytes_be_u64 addr_bytes_low)
  then have "be_word (word_bytes_be n) = (be_word (word_bytes_be n') :: u64)"
    "be_word (addr_bytes (Address z)) = (be_word (addr_bytes (Address z')) :: u64)"
    by simp_all
  then show ?thesis
    by (simp add: be_word_word_bytes_be) (simp add: addr_bytes_be be_word_low_bytes)
qed

section \<open>Properties\<close>

lemma canonical_v4: "inet_canonical (inet_nil\<lparr>ss_family := AF_INET, sin_port := p, sin_addr := x\<rparr>)"
  by (simp add: inet_canonical_def inet_nil_def)

text \<open>
  C16. Text round trip: \<open>fromString\<close> reads back what \<open>toString\<close> prints, for the null address and
  every IPv4 and IPv6 address and port; the text always fits the 64-byte array, and no
  uninitialised array element reaches the result.
\<close>

theorem inet_text_roundtrip:
  assumes "inet_canonical a" "length u16s = 8" "length u8s = 4"
  shows "inet_fromString u16s u8s (inet_toString a) = Inr (a, True)"
proof -
  consider "a = inet_nil"
    | "ss_family a = AF_INET" "a = inet_nil\<lparr>ss_family := AF_INET, sin_port := sin_port a, sin_addr := sin_addr a\<rparr>"
    | "ss_family a = AF_INET6" "length (sin6_addr a) = 16"
      "a = inet_nil\<lparr>ss_family := AF_INET6, sin_port := sin_port a, sin6_addr := sin6_addr a\<rparr>"
    using assms(1) unfolding inet_canonical_def by blast
  then show ?thesis
  proof cases
    case 1
    then show ?thesis
      by (simp add: inet_toString_def inet_toIpString_def inet_fromString_def inet_nil_def Let_def)
  next
    case 2
    have "a = inet_nil\<lparr>ss_family := AF_INET, sin_addr := sin_addr a, sin_port := sin_port a\<rparr>"
      using 2(2) by (cases a) (simp add: inet_nil_def)
    with v4_text [OF 2(1) assms(3)] show ?thesis by simp
  next
    case 3
    have "a = inet_nil\<lparr>ss_family := AF_INET6, sin6_addr := sin6_addr a, sin_port := sin_port a\<rparr>"
      using 3(3) by (cases a) (simp add: inet_nil_def)
    with v6_text [OF 3(1,2) assms(2)] show ?thesis by simp
  qed
qed

theorem inet_text_roundtrip_witness:
  "inet_fromString (replicate 8 7) (replicate 4 7)
     (inet_toString (inet_nil\<lparr>ss_family := AF_INET, sin_port := hton 9993, sin_addr := le_word [10, 1, 2, 3]\<rparr>)) =
   Inr (inet_nil\<lparr>ss_family := AF_INET, sin_port := hton 9993, sin_addr := le_word [10, 1, 2, 3]\<rparr>, True)"
  by (rule inet_text_roundtrip [OF canonical_v4]) simp_all

text \<open>
  C19. \<open>operator<\<close> is a strict total order whose equality is \<open>operator==\<close>, and addresses that
  compare equal have the same \<open>hashCode\<close>; sorted containers and hash tables may use it as a key.
\<close>

theorem inet_order_total:
  assumes "inet_ok a" "inet_ok b" "inet_ok c"
  shows "\<not> inet_less a a \<and> (inet_less a b \<and> inet_less b c \<longrightarrow> inet_less a c) \<and>
    (inet_less a b \<or> inet_eq a b \<or> inet_less b a) \<and> \<not> (inet_less a b \<and> inet_eq a b) \<and>
    \<not> (inet_less a b \<and> inet_less b a) \<and> (inet_eq a b \<longrightarrow> inet_hashCode a = inet_hashCode b)"
  using inet_eq_hash [OF assms(1,2)]
  by (auto simp: inet_less_key inet_eq_key assms dest: less_trans)

theorem inet_order_total_witness:
  "\<not> (inet_less inet_nil (inet_nil\<lparr>sin_port := 1\<rparr>) \<and> inet_less (inet_nil\<lparr>sin_port := 1\<rparr>) inet_nil)"
proof -
  have "inet_ok inet_nil" "inet_ok (inet_nil\<lparr>sin_port := 1\<rparr>)" by (simp_all add: inet_ok_def inet_nil_def)
  with inet_order_total [of inet_nil "inet_nil\<lparr>sin_port := 1\<rparr>" inet_nil] show ?thesis by blast
qed

text \<open>
  C18. For an IPv4 prefix of 1 to 32 bits or an IPv6 prefix of 1 to 128 bits, \<open>network\<close> keeps
  exactly the prefix bits of the address and \<open>containsAddress\<close> of that network accepts the address.
  \<open>isNetwork\<close> recognises the network if and only if the prefix is shorter than the address: a prefix
  of 32 (IPv4) or 128 (IPv6) bits, the network of a single host, is refused, although nothing follows
  its netmask.
\<close>

theorem network_contains:
  assumes "inet_ok a" "inet_isV4 a \<or> inet_isV6 a" "0 < unat (inet_port a)" "unat (inet_port a) \<le> inet_width a"
  shows "\<exists>n. inet_network a = Inr n \<and>
    (\<forall>i<inet_width a. inet_bit n i \<longleftrightarrow> inet_bit a i \<and> i < unat (inet_port a)) \<and>
    inet_containsAddress n a = Inr True \<and>
    inet_isNetwork n = Inr (unat (inet_port a) < inet_width a)"
proof -
  from network_general [OF assms] obtain n where n: "inet_network a = Inr n" "ss_family n = ss_family a"
    "inet_port n = inet_port a" "\<forall>i<inet_width a. inet_bit n i \<longleftrightarrow> inet_bit a i \<and> i < unat (inet_port a)"
    by blast
  have w: "inet_width n = inet_width a" "inet_isV4 n \<or> inet_isV6 n" "ss_family a = ss_family n"
    using n(2) assms(2) by (simp_all add: inet_width_def inet_isV4_def inet_isV6_def)
  have "inet_containsAddress n a = Inr True"
    using contains_general [OF w(2,3)] n w assms by simp
  moreover have "inet_isNetwork n = Inr (unat (inet_port a) < inet_width a)"
    using isNetwork_general [OF w(2)] isNetwork_host [OF w(2)] n w assms(3,4)
    by (cases "unat (inet_port a) < inet_width a") auto
  ultimately show ?thesis using n by blast
qed

theorem network_contains_witness:
  "\<exists>a n. inet_network a = Inr n \<and> unat (inet_port a) = 64 \<and> inet_containsAddress n a = Inr True \<and>
     inet_bit n 0 \<and> inet_bit n 63 \<and> \<not> inet_bit n 127 \<and> inet_bit a 127 \<and> inet_isNetwork n = Inr True"
proof -
  let ?a = "inet_nil\<lparr>ss_family := AF_INET6, sin_port := hton 64, sin6_addr := 0xfd # replicate 15 1\<rparr>"
  have p: "unat (inet_port ?a) = 64" by (simp add: inet_port_def)
  have w: "inet_width ?a = 128" by (simp add: inet_width_def)
  have "inet_ok ?a" by (simp add: inet_ok_def inet_nil_def)
  moreover have "inet_isV4 ?a \<or> inet_isV6 ?a" by (simp add: inet_isV6_def)
  ultimately obtain n where n: "inet_network ?a = Inr n" "\<forall>i<128. inet_bit n i \<longleftrightarrow> inet_bit ?a i \<and> i < 64"
    "inet_containsAddress n ?a = Inr True" "inet_isNetwork n = Inr True"
    using network_contains [of ?a] p w by auto
  have "inet_bit ?a 0" "inet_bit ?a 63" "inet_bit ?a 127" by (simp_all add: inet_bit_def bytes_bit_def)
  with n p show ?thesis by (intro exI [of _ ?a] exI [of _ n]) simp
qed

text \<open>
  C21. \<open>containsAddress\<close> treats the families differently: an IPv4 route contains the addresses that
  share its prefix; an IPv6 route contains them only if its own bits after the prefix are zero, so
  a route written with host bits does not even contain itself.  This holds for every prefix length of
  the family, the empty prefix of a default route included.
\<close>

theorem containsAddress_meaning:
  assumes "ss_family a = ss_family net"
  shows "(inet_isV4 net \<and> unat (inet_port net) \<le> 32 \<longrightarrow>
      inet_containsAddress net a = Inr (\<forall>i<unat (inet_port net). inet_bit a i = inet_bit net i)) \<and>
    (inet_isV6 net \<and> unat (inet_port net) \<le> 128 \<longrightarrow>
      inet_containsAddress net a =
        Inr ((\<forall>i<unat (inet_port net). inet_bit a i = inet_bit net i) \<and>
             (\<forall>i. unat (inet_port net) \<le> i \<and> i < 128 \<longrightarrow> \<not> inet_bit net i)))"
  using assms contains4 [of net a] contains6 [of net a] by (simp add: inet_isV4_def inet_isV6_def)

theorem containsAddress_meaning_witness:
  "\<exists>net. inet_isV6 net \<and> unat (inet_port net) = 64 \<and> inet_containsAddress net net = Inr False"
proof -
  let ?n = "inet_nil\<lparr>ss_family := AF_INET6, sin_port := hton 64, sin6_addr := 0xfd # replicate 15 1\<rparr>"
  have p: "unat (inet_port ?n) = 64" by (simp add: inet_port_def)
  have b: "inet_bit ?n 127" by (simp add: inet_bit_def bytes_bit_def)
  have v: "inet_isV6 ?n" by (simp add: inet_isV6_def)
  from containsAddress_meaning [of ?n ?n] p v have
    "inet_containsAddress ?n ?n = Inr (\<forall>i. 64 \<le> i \<and> i < 128 \<longrightarrow> \<not> inet_bit ?n i)"
    by (simp add: p)
  moreover have "\<not> (\<forall>i. 64 \<le> i \<and> i < 128 \<longrightarrow> \<not> inet_bit ?n i)" using b by (intro notI) (drule spec [of _ 127], simp)
  ultimately show ?thesis using p v by auto
qed

text \<open>
  A prefix length of zero (a default route) makes \<open>netmask\<close> and \<open>network\<close> of an IPv4 address
  and \<open>network\<close> of an IPv6 address shift by the full width of the integer, which is undefined.
\<close>

theorem default_route_undefined:
  assumes "sin_port a = 0"
  shows "(inet_isV4 a \<longrightarrow> inet_netmask a = Inl UndefinedBehaviour \<and> inet_network a = Inl UndefinedBehaviour) \<and>
    (inet_isV6 a \<longrightarrow> inet_network a = Inl UndefinedBehaviour)"
proof -
  have z: "inet_port a = 0"
    using assms by (simp add: inet_port_def ntoh_def bswap_def be_word_def word_bytes_be_def upt_rec)
  show ?thesis
    by (simp add: inet_netmask_def inet_network_def inet_netmaskBits_def z inet_isV4_def inet_isV6_def
        c_shl_def mask6_hi_def)
qed

theorem default_route_undefined_witness:
  "inet_netmask (inet_nil\<lparr>ss_family := AF_INET\<rparr>) = Inl UndefinedBehaviour"
  using default_route_undefined [of "inet_nil\<lparr>ss_family := AF_INET\<rparr>"]
  by (simp add: inet_nil_def inet_isV4_def)

text \<open>
  The addresses a network derives are what they claim to be: the RFC 4193 address is private
  and determines both the network and the 40-bit node address, the 6plane address is private, and
  the address made from an Ethernet address is link-local.
\<close>

theorem derived_addresses:
  "inet_ipScope (inet_makeIpv6rfc4193 nwid zta) = IP_SCOPE_PRIVATE \<and>
   inet_ipScope (inet_makeIpv66plane nwid zta) = IP_SCOPE_PRIVATE \<and>
   inet_ipScope (inet_makeIpv6LinkLocal flow scope m) = IP_SCOPE_LINK_LOCAL \<and>
   (inet_makeIpv6rfc4193 nwid zta = inet_makeIpv6rfc4193 nwid' zta' \<longrightarrow>
      nwid = nwid' \<and> take_bit 40 zta = take_bit 40 zta')"
  using rfc4193_inj [of nwid zta nwid' zta'] rfc4193_scope plane6_scope linklocal_scope by blast

theorem derived_addresses_witness:
  "inet_makeIpv6rfc4193 5 (2 ^ 40 + 7) = inet_makeIpv6rfc4193 5 7 \<and>
   take_bit 40 (2 ^ 40 + 7 :: u64) = take_bit 40 7"
proof -
  have "inet_makeIpv6rfc4193 5 (2 ^ 40 + 7) = inet_makeIpv6rfc4193 5 7"
    by (simp add: inet_makeIpv6rfc4193_def drop_bit_eq_div)
  with derived_addresses [of 5 "2 ^ 40 + 7" 0 0 "MAC 0" 5 7] show ?thesis by blast
qed

text \<open>
  Wire round trip: a canonical address written to a buffer with room is read back from where
  it was written, and exactly its bytes are consumed.
\<close>

theorem inet_wire_roundtrip:
  assumes "inet_canonical a" "buf_ok b" "unat (b_len b) + length (inet_enc a) \<le> b_cap b"
  shows "\<exists>b'. inet_serialize a b = Inr b' \<and> buf_ok b' \<and> b_content b' = b_content b @ inet_enc a \<and>
    inet_deserialize b' (b_len b) = Inr (a, b_len b' - b_len b)"
  by (rule inet_wire.roundtrip [OF assms])

theorem inet_wire_roundtrip_witness:
  "\<exists>b'. inet_serialize inet_nil (buf_new [1, 2, 3]) = Inr b' \<and>
    inet_deserialize b' (b_len (buf_new [1, 2, 3])) = Inr (inet_nil, b_len b' - b_len (buf_new [1, 2, 3]))"
proof -
  have "inet_canonical inet_nil" "buf_ok (buf_new [1, 2, 3])"
    "unat (b_len (buf_new [1, 2, 3])) + length (inet_enc inet_nil) \<le> b_cap (buf_new [1, 2, 3])"
    by (simp_all add: inet_canonical_def buf_ok_def buf_new_def b_cap_def inet_enc_def inet_nil_def)
  from inet_wire_roundtrip [OF this] show ?thesis by blast
qed

text \<open>
  \<open>makeIpv6LinkLocal\<close> leaves the flow and scope members of its result uninitialised, so two
  calls for the same Ethernet address need not give equal addresses.
\<close>

theorem linklocal_uninitialised:
  assumes "flow \<noteq> flow'"
  shows "\<not> inet_eq (inet_makeIpv6LinkLocal flow scope m) (inet_makeIpv6LinkLocal flow' scope m)"
  using assms by (simp add: inet_eq_def inet_makeIpv6LinkLocal_def Let_def)

theorem linklocal_uninitialised_witness:
  "\<not> inet_eq (inet_makeIpv6LinkLocal 0 0 (MAC 1)) (inet_makeIpv6LinkLocal 1 0 (MAC 1))"
  by (rule linklocal_uninitialised) simp

end
