(* ===== verification/Zt_Dictionary.thy ===== *)
theory Zt_Dictionary
  imports Inet_Address "HOL-Library.Sublist"
begin

text \<open>
  \<^verbatim>\<open>node/Dictionary.hpp\<close>: the packed key=value text that carries network configurations. The
  array \<open>_d\<close> is a list of its full capacity; a pointer into it is the rest of the list from that
  position, so that \<open>++p == eof\<close> is \<open>tl = []\<close> and reading \<open>*p\<close> at the end is
  \<open>UndefinedBehaviour\<close>. The contract is the locale \<open>kv_store\<close>.
\<close>

section \<open>The code\<close>

type_synonym dict = bytes

definition dict_new :: "nat \<Rightarrow> dict" where
  "dict_new C = replicate C 0"

text \<open>The copying loop of \<open>load\<close>; \<open>None\<close> is the null pointer \<open>s\<close>.\<close>

fun dict_load_loop :: "nat \<Rightarrow> bytes option \<Rightarrow> bytes \<times> bytes option" where
  "dict_load_loop 0 s = ([], s)"
| "dict_load_loop (Suc n) None = (let (d, s') = dict_load_loop n None in (0 # d, s'))"
| "dict_load_loop (Suc n) (Some []) = (let (d, s') = dict_load_loop n None in (0 # d, s'))"
| "dict_load_loop (Suc n) (Some (c # s)) =
     (let (d, s') = dict_load_loop n (Some s) in (c # d, s'))"

definition dict_load :: "nat \<Rightarrow> bytes \<Rightarrow> dict \<times> bool" where
  "dict_load C s =
     (let (d, s') = dict_load_loop C (Some s) in (d[C - 1 := 0], s' = None))"

text \<open>\<open>Dictionary(s, len)\<close>: at most \<open>len\<close> characters.\<close>

definition dict_new_len :: "nat \<Rightarrow> bytes \<Rightarrow> nat \<Rightarrow> dict" where
  "dict_new_len C s len = (fst (dict_load_loop C (Some (take len s))))[C - 1 := 0]"

definition dict_sizeBytes :: "dict \<Rightarrow> nat" where
  "dict_sizeBytes d = (if 0 \<in> set d then length (takeWhile (\<lambda>c. c \<noteq> 0) d) else length d - 1)"

text \<open>
  The three inner loops of \<open>get\<close>. \<open>Inr None\<close> is the early return at the end of the array.
\<close>

fun dict_match :: "bytes \<Rightarrow> bytes \<Rightarrow> (bytes \<times> bytes) option res" where
  "dict_match [] p = Inr (Some ([], p))"
| "dict_match (k # ks) [] = Inl UndefinedBehaviour"
| "dict_match (k # ks) (c # p) =
     (if c = 0 \<or> c \<noteq> k then Inr (Some (k # ks, c # p))
      else if p = [] then Inr None
      else dict_match ks p)"

fun dict_skip :: "bytes \<Rightarrow> bytes option res" where
  "dict_skip [] = Inl UndefinedBehaviour"
| "dict_skip (c # p) =
     (if c = 0 then Inr None
      else if p = [] then Inr None
      else if c = 13 \<or> c = 10 then Inr (Some p)
      else dict_skip p)"

definition dict_unescape :: "u8 \<Rightarrow> u8" where
  "dict_unescape c =
     (if c = 114 then 13 else if c = 110 then 10 else if c = 48 then 0 else if c = 101 then 61 else c)"

definition dict_not_found :: "bytes \<Rightarrow> (int \<times> bytes) res" where
  "dict_not_found dest = res_bind (wr dest 0 0) (\<lambda>d. Inr (- 1, d))"

fun dict_value :: "bytes \<Rightarrow> bool \<Rightarrow> nat \<Rightarrow> bytes \<Rightarrow> nat \<Rightarrow> (int \<times> bytes) res" where
  "dict_value [] esc j dest destlen = Inl UndefinedBehaviour"
| "dict_value (c # p) esc j dest destlen =
     (if c = 0 \<or> c = 13 \<or> c = 10 then res_bind (wr dest j 0) (\<lambda>d. Inr (int j, d))
      else if \<not> esc \<and> c = 92 then
        (if p = [] then dict_not_found dest else dict_value p True j dest destlen)
      else
        res_bind (wr dest j (if esc then dict_unescape c else c)) (\<lambda>d.
          if j + 1 = destlen then res_bind (wr d j 0) (\<lambda>d'. Inr (int j, d'))
          else if p = [] then dict_not_found d
          else dict_value p False (j + 1) d destlen))"

lemma dict_match_length: "dict_match k p = Inr (Some (k', p')) \<Longrightarrow> length p' \<le> length p"
  by (induction k p rule: dict_match.induct) (auto split: if_splits)

lemma dict_skip_length: "dict_skip p = Inr (Some p') \<Longrightarrow> length p' < length p"
  by (induction p rule: dict_skip.induct) (auto split: if_splits)

function dict_find :: "bytes \<Rightarrow> bytes \<Rightarrow> bytes \<Rightarrow> nat \<Rightarrow> (int \<times> bytes) res" where
  "dict_find p key dest destlen =
     (case p of
        [] \<Rightarrow> Inl UndefinedBehaviour
      | c # _ \<Rightarrow>
          if c = 0 then dict_not_found dest
          else case dict_match key p of
            Inl e \<Rightarrow> Inl e
          | Inr None \<Rightarrow> dict_not_found dest
          | Inr (Some (k, p1)) \<Rightarrow>
              (case p1 of
                 [] \<Rightarrow> Inl UndefinedBehaviour
               | c1 # p2 \<Rightarrow>
                   if k = [] \<and> c1 = 61 then dict_value p2 False 0 dest destlen
                   else case dict_skip p1 of
                     Inl e \<Rightarrow> Inl e
                   | Inr None \<Rightarrow> dict_not_found dest
                   | Inr (Some p3) \<Rightarrow> dict_find p3 key dest destlen))"
  by pat_completeness auto

termination dict_find
proof (relation "measure (\<lambda>(p, key, dest, destlen). length p)", goal_cases)
  case (2 p key dest destlen c r m o k p1 c1 p2 n p3)
  then show ?case
    using dict_match_length [of key p k p1] dict_skip_length [of p1 p3] by simp
qed simp

declare dict_find.simps [simp del]

definition dict_get :: "dict \<Rightarrow> bytes \<Rightarrow> bytes \<Rightarrow> nat \<Rightarrow> (int \<times> bytes) res" where
  "dict_get d key dest destlen =
     (if destlen = 0 then Inr (- 1, dest) else dict_find d key dest destlen)"

definition dict_get_buf :: "dict \<Rightarrow> bytes \<Rightarrow> buf \<Rightarrow> (bool \<times> buf) res" where
  "dict_get_buf d key dest =
     res_bind (dict_get d key (b_data dest) (b_cap dest)) (\<lambda>(r, data).
       let dest1 = dest\<lparr>b_data := data\<rparr> in
       if r \<ge> 0 then res_bind (buf_setSize (of_int r) dest1) (\<lambda>b. Inr (True, b))
       else Inr (False, buf_clear dest1))"

text \<open>\<open>tmp\<close> is the uninitialised local array.\<close>

definition dict_getB :: "bytes \<Rightarrow> dict \<Rightarrow> bytes \<Rightarrow> bool \<Rightarrow> bool res" where
  "dict_getB tmp d key dfl =
     res_bind (dict_get d key tmp 4) (\<lambda>(r, t).
       Inr (if r \<ge> 0 then t ! 0 = 49 \<or> t ! 0 = 116 \<or> t ! 0 = 84 else dfl))"

definition dict_getUI :: "bytes \<Rightarrow> dict \<Rightarrow> bytes \<Rightarrow> u64 \<Rightarrow> u64 res" where
  "dict_getUI tmp d key dfl =
     res_bind (dict_get d key tmp 128) (\<lambda>(r, t).
       Inr (if r \<ge> 1 then hexStrToU64 (cstr t) else dfl))"

definition dict_getI :: "bytes \<Rightarrow> dict \<Rightarrow> bytes \<Rightarrow> int \<Rightarrow> int res" where
  "dict_getI tmp d key dfl =
     res_bind (dict_get d key tmp 128) (\<lambda>(r, t).
       Inr (if r \<ge> 1 then c_strtoll 16 (cstr t) else dfl))"

definition dict_contains :: "bytes \<Rightarrow> dict \<Rightarrow> bytes \<Rightarrow> bool res" where
  "dict_contains tmp d key = res_bind (dict_get d key tmp 2) (\<lambda>(r, t). Inr (r \<ge> 0))"

text \<open>
  \<open>add\<close>: every character is stored by \<open>_d[j++] = c; if (j == C) fail\<close>. \<open>dict_put\<close> stores a run of
  characters this way; \<open>Inl\<close> carries the array at the failure. The switch writes one or two
  characters for each byte of the value.
\<close>

fun dict_put :: "dict \<Rightarrow> nat \<Rightarrow> bytes \<Rightarrow> dict + (dict \<times> nat)" where
  "dict_put d j [] = Inr (d, j)"
| "dict_put d j (c # cs) =
     (let d1 = d[j := c] in if j + 1 = length d then Inl d1 else dict_put d1 (j + 1) cs)"

definition dict_escape :: "u8 \<Rightarrow> bytes" where
  "dict_escape c =
     (if c = 0 then [92, 48] else if c = 13 then [92, 114] else if c = 10 then [92, 110]
      else if c = 92 then [92, 92] else if c = 61 then [92, 101] else [c])"

definition dict_add :: "dict \<Rightarrow> bytes \<Rightarrow> bytes \<Rightarrow> bool \<times> dict" where
  "dict_add d key val =
     (if 0 \<in> set d then
        let i = length (takeWhile (\<lambda>c. c \<noteq> 0) d) in
        case dict_put d i ((if i > 0 then [10] else []) @ key @ [61] @ concat (map dict_escape val)) of
          Inl d1 \<Rightarrow> (False, d1[i := 0])
        | Inr (d1, j) \<Rightarrow> (True, d1[j := 0])
      else (False, d))"

definition dict_add_bool :: "dict \<Rightarrow> bytes \<Rightarrow> bool \<Rightarrow> bool \<times> dict" where
  "dict_add_bool d key v = dict_add d key (if v then [49] else [48])"

definition dict_add_u64 :: "dict \<Rightarrow> bytes \<Rightarrow> u64 \<Rightarrow> bool \<times> dict" where
  "dict_add_u64 d key v = dict_add d key (hex64 v)"

text \<open>\<open>value * -1\<close> overflows for the least 64-bit integer.\<close>

definition dict_add_i64 :: "dict \<Rightarrow> bytes \<Rightarrow> int \<Rightarrow> (bool \<times> dict) res" where
  "dict_add_i64 d key v =
     (if v \<ge> 0 then Inr (dict_add d key (hex64 (of_int v)))
      else if v = - (2 ^ 63) then Inl UndefinedBehaviour
      else Inr (dict_add d key (45 # hex64 (of_int (v * - 1)))))"

definition dict_add_addr :: "dict \<Rightarrow> bytes \<Rightarrow> address \<Rightarrow> bool \<times> dict" where
  "dict_add_addr d key a = dict_add d key (hex64 (addr_toInt a))"

definition dict_add_buf :: "dict \<Rightarrow> bytes \<Rightarrow> buf \<Rightarrow> bool \<times> dict" where
  "dict_add_buf d key v = dict_add d key (take (unat (b_len v)) (b_data v))"

section \<open>What a dictionary text means\<close>

definition eol :: "u8 \<Rightarrow> bool" where
  "eol c \<longleftrightarrow> c = 10 \<or> c = 13"

fun unesc :: "bool \<Rightarrow> bytes \<Rightarrow> bytes" where
  "unesc esc [] = []"
| "unesc esc (c # r) =
     (if \<not> esc \<and> c = 92 then unesc True r
      else (if esc then dict_unescape c else c) # unesc False r)"

text \<open>The value of the first line that starts with \<open>key=\<close>.\<close>

function dict_lookup :: "bytes \<Rightarrow> bytes \<Rightarrow> bytes option" where
  "dict_lookup s key =
     (if s = [] then None
      else let line = takeWhile (\<lambda>c. \<not> eol c) s in
        if prefix (key @ [61]) line then Some (unesc False (drop (length key + 1) line))
        else case dropWhile (\<lambda>c. \<not> eol c) s of
          [] \<Rightarrow> None
        | _ # r \<Rightarrow> dict_lookup r key)"
  by auto

termination dict_lookup
proof (relation "measure (\<lambda>(s, key). length s)")
  fix s key line and x :: u8 and r
  assume "dropWhile (\<lambda>c. \<not> eol c) s = x # r"
  then have "length (x # r) \<le> length s" using length_dropWhile_le [of "\<lambda>c. \<not> eol c" s] by simp
  then show "((r, key :: bytes), s, key) \<in> measure (\<lambda>(s, key). length s)" by simp
qed simp

declare dict_lookup.simps [simp del]

definition key_ok :: "bytes \<Rightarrow> bool" where
  "key_ok key \<longleftrightarrow> (\<forall>c\<in>set key. c \<noteq> 0 \<and> c \<noteq> 61 \<and> \<not> eol c)"

section \<open>Lookup\<close>

lemma dict_value_spec:
  assumes "0 \<notin> set v" "j < destlen" "destlen \<le> length dest"
  shows "dict_value (v @ 0 # r) esc j dest destlen =
    (let w = take (destlen - 1 - j) (unesc esc (takeWhile (\<lambda>c. \<not> eol c) v)) in
     Inr (int (j + length w), take j dest @ w @ [0] @ drop (j + length w + 1) dest))"
  using assms
proof (induction v arbitrary: esc j dest)
  case Nil
  then show ?case by (simp add: take_drop_update)
next
  case (Cons c v)
  have ne: "v @ 0 # r \<noteq> []" by simp
  show ?case
  proof (cases "eol c")
    case True
    with Cons.prems show ?thesis by (auto simp: eol_def take_drop_update)
  next
    case False
    then have c: "c \<noteq> 0" "c \<noteq> 13" "c \<noteq> 10" using Cons.prems by (auto simp: eol_def)
    show ?thesis
    proof (cases "\<not> esc \<and> c = 92")
      case True
      then show ?thesis using Cons.IH [of j dest True] Cons.prems False c by simp
    next
      case esc: False
      let ?x = "if esc then dict_unescape c else c"
      have u: "unesc esc (takeWhile (\<lambda>c. \<not> eol c) (c # v)) =
          ?x # unesc False (takeWhile (\<lambda>c. \<not> eol c) v)"
        using False esc by auto
      show ?thesis
      proof (cases "j + 1 = destlen")
        case True
        then have "destlen = Suc j" by simp
        with u c esc Cons.prems show ?thesis by (auto simp: take_drop_update Let_def)
      next
        case False
        then have lt: "j + 1 < destlen" using Cons.prems by simp
        then obtain m where m: "destlen - Suc j = Suc m" by (cases "destlen - Suc j") auto
        then have m': "destlen - Suc (Suc j) = m" by simp
        have t: "take (Suc j) (dest[j := ?x]) = take j dest @ [?x]"
          using Cons.prems by (simp add: take_Suc_conv_app_nth)
        have "dict_value ((c # v) @ 0 # r) esc j dest destlen =
            dict_value (v @ 0 # r) False (j + 1) (dest[j := ?x]) destlen"
          using c esc False Cons.prems ne by auto
        also have "\<dots> = (let w = take (destlen - 1 - (j + 1)) (unesc False (takeWhile (\<lambda>c. \<not> eol c) v)) in
            Inr (int (j + 1 + length w),
              take (j + 1) (dest[j := ?x]) @ w @ [0] @ drop (j + 1 + length w + 1) (dest[j := ?x])))"
          using lt Cons.prems by (intro Cons.IH) simp_all
        finally show ?thesis using u m m' t by (simp add: Let_def)
      qed
    qed
  qed
qed

lemma dict_skip_spec:
  assumes "0 \<notin> set s"
  shows "dict_skip (s @ 0 # r) =
    Inr (case dropWhile (\<lambda>c. \<not> eol c) s of [] \<Rightarrow> None | _ # t \<Rightarrow> Some (t @ 0 # r))"
  using assms
proof (induction s)
  case Nil
  then show ?case by simp
next
  case (Cons c s)
  then show ?case by (cases "eol c") (auto simp: eol_def)
qed

lemma dict_match_spec:
  assumes "key_ok key" "0 \<notin> set s"
  shows "\<exists>u t. s = u @ t \<and> prefix u key \<and>
    dict_match key (s @ 0 # r) = Inr (Some (drop (length u) key, t @ 0 # r)) \<and>
    (drop (length u) key = [] \<or> t = [] \<or> hd t \<noteq> hd (drop (length u) key))"
  using assms
proof (induction key arbitrary: s)
  case Nil
  then show ?case by (intro exI [of _ "[]"] exI [of _ s]) simp
next
  case (Cons k ks)
  have k0: "k \<noteq> 0" "key_ok ks" using Cons.prems(1) by (simp_all add: key_ok_def)
  show ?case
  proof (cases s)
    case Nil
    then show ?thesis by simp
  next
    case s: (Cons c s')
    show ?thesis
    proof (cases "c = k")
      case False
      then show ?thesis using Cons.prems s by (intro exI [of _ "[]"] exI [of _ s]) simp
    next
      case True
      have "0 \<notin> set s'" using Cons.prems s by simp
      from Cons.IH [OF k0(2) this] obtain u t where ut: "s' = u @ t" "prefix u ks"
        "dict_match ks (s' @ 0 # r) = Inr (Some (drop (length u) ks, t @ 0 # r))"
        "drop (length u) ks = [] \<or> t = [] \<or> hd t \<noteq> hd (drop (length u) ks)"
        by blast
      then show ?thesis
        using True s k0 by (intro exI [of _ "k # u"] exI [of _ t]) simp
    qed
  qed
qed

definition dict_result :: "bytes \<Rightarrow> nat \<Rightarrow> bytes option \<Rightarrow> (int \<times> bytes) res" where
  "dict_result dest destlen lo =
     (case lo of
        None \<Rightarrow> Inr (- 1, dest[0 := 0])
      | Some v \<Rightarrow> let w = take (destlen - 1) v in
          Inr (int (length w), w @ [0] @ drop (length w + 1) dest))"

text \<open>Whether the line at the front has the key, seen from where the match loop stopped.\<close>

lemma line_has_key:
  assumes "key_ok key" "s = u @ t" "prefix u key"
    and stop: "drop (length u) key = [] \<or> t = [] \<or> hd t \<noteq> hd (drop (length u) key)"
  shows "prefix (key @ [61]) (takeWhile (\<lambda>c. \<not> eol c) s) \<longleftrightarrow>
      drop (length u) key = [] \<and> t \<noteq> [] \<and> hd t = 61"
    and "dropWhile (\<lambda>c. \<not> eol c) s = dropWhile (\<lambda>c. \<not> eol c) t"
    and "takeWhile (\<lambda>c. \<not> eol c) s = u @ takeWhile (\<lambda>c. \<not> eol c) t"
proof -
  let ?T = "takeWhile (\<lambda>c. \<not> eol c)"
  obtain z where z: "key = u @ z" using assms(3) by (auto simp: prefix_def)
  have u: "\<And>c. c \<in> set u \<Longrightarrow> \<not> eol c" using assms(1) z by (simp add: key_ok_def)
  show tw: "?T s = u @ ?T t" and "dropWhile (\<lambda>c. \<not> eol c) s = dropWhile (\<lambda>c. \<not> eol c) t"
    using u by (simp_all add: assms(2) takeWhile_append2 dropWhile_append2)
  have "prefix (key @ [61]) (?T s) \<longleftrightarrow> prefix (z @ [61]) (?T t)" by (simp add: tw z)
  also have "\<dots> \<longleftrightarrow> z = [] \<and> t \<noteq> [] \<and> hd t = 61"
  proof (cases z)
    case Nil
    have e: "\<not> eol 61" by (simp add: eol_def)
    show ?thesis using e by (cases t) (auto simp: Nil)
  next
    case (Cons c z')
    have "t = [] \<or> hd t \<noteq> c" using stop z Cons by simp
    then show ?thesis using Cons by (cases t) auto
  qed
  finally show "prefix (key @ [61]) (?T s) \<longleftrightarrow> drop (length u) key = [] \<and> t \<noteq> [] \<and> hd t = 61"
    by (simp add: z)
qed

lemma dict_find_spec:
  assumes "key_ok key" "0 \<notin> set s" "0 < destlen" "destlen \<le> length dest"
  shows "dict_find (s @ 0 # r) key dest destlen = dict_result dest destlen (dict_lookup s key)"
  using assms
proof (induction s key rule: dict_lookup.induct)
  case (1 s key)
  let ?T = "takeWhile (\<lambda>c. \<not> eol c)" and ?D = "dropWhile (\<lambda>c. \<not> eol c)"
  have d0: "0 < length dest" using "1.prems" by linarith
  have nf: "dict_not_found dest = dict_result dest destlen None"
    using d0 by (simp add: dict_not_found_def dict_result_def)
  show ?case
  proof (cases "s = []")
    case True
    with nf show ?thesis by (simp add: dict_find.simps [of "0 # r"] dict_lookup.simps [of "[]"])
  next
    case False
    obtain u t where ut: "s = u @ t" "prefix u key"
      "dict_match key (s @ 0 # r) = Inr (Some (drop (length u) key, t @ 0 # r))"
      "drop (length u) key = [] \<or> t = [] \<or> hd t \<noteq> hd (drop (length u) key)"
      using dict_match_spec [OF "1.prems"(1,2)] by blast
    note L = line_has_key [OF "1.prems"(1) ut(1,2,4)]
    have t0: "0 \<notin> set t" using "1.prems"(2) ut(1) by simp
    obtain c cs where s: "s = c # cs" using False by (cases s) auto
    have c0: "c \<noteq> 0" using "1.prems"(2) s by auto
    obtain c1 p2 where p1: "t @ 0 # r = c1 # p2" by (cases "t @ 0 # r") auto
    have step: "dict_find (s @ 0 # r) key dest destlen =
        (if drop (length u) key = [] \<and> c1 = 61 then dict_value p2 False 0 dest destlen
         else case dict_skip (t @ 0 # r) of
             Inl e \<Rightarrow> Inl e
           | Inr None \<Rightarrow> dict_not_found dest
           | Inr (Some p3) \<Rightarrow> dict_find p3 key dest destlen)"
      using ut(3) s c0 p1 by (subst dict_find.simps) (simp add: p1)
    show ?thesis
    proof (cases "prefix (key @ [61]) (?T s)")
      case True
      with L obtain t' where t': "t = 61 # t'" "drop (length u) key = []" by (cases t) auto
      then have uk: "u = key" using ut(2) by (auto simp: prefix_def)
      have "c1 = 61" "p2 = t' @ 0 # r" using p1 t' by simp_all
      then have "dict_find (s @ 0 # r) key dest destlen = dict_value (t' @ 0 # r) False 0 dest destlen"
        using step t'(2) by simp
      moreover have "dict_lookup s key = Some (unesc False (?T t'))"
        using True False L(3) t' uk
        by (subst dict_lookup.simps) (simp add: Let_def eol_def)
      moreover have "0 \<notin> set t'" using t0 t' by simp
      ultimately show ?thesis
        using "1.prems" by (simp add: dict_value_spec dict_result_def Let_def)
    next
      case no: False
      have ns: "\<not> (drop (length u) key = [] \<and> c1 = 61)"
        using no L(1) p1 by (cases t) auto
      note step' = step [unfolded if_not_P [OF ns]]
      show ?thesis
      proof (cases "?D s")
        case Nil
        have "dict_lookup s key = None"
          using no False by (subst dict_lookup.simps) (simp add: Let_def Nil)
        moreover have "dict_skip (t @ 0 # r) = Inr None"
          by (simp only: dict_skip_spec [OF t0] L(2) [symmetric] Nil list.case)
        ultimately show ?thesis using step' nf by simp
      next
        case (Cons x y)
        have "0 \<notin> set y"
        proof
          assume "0 \<in> set y"
          then have "0 \<in> set (?D s)" using Cons by simp
          with "1.prems"(2) show False using set_dropWhileD by metis
        qed
        with "1.IH" [OF False refl no Cons] "1.prems"
        have "dict_find (y @ 0 # r) key dest destlen = dict_result dest destlen (dict_lookup y key)"
          by simp
        moreover have "dict_lookup s key = dict_lookup y key"
          using no False Cons by (subst dict_lookup.simps) (simp add: Let_def)
        ultimately show ?thesis
          using step' dict_skip_spec [OF t0, of r] Cons L(2) by simp
      qed
    qed
  qed
qed

lemma dict_split:
  assumes "0 \<in> set d"
  shows "\<exists>r. d = cstr d @ 0 # r" "0 \<notin> set (cstr d)"
proof -
  have "dropWhile (\<lambda>c. c \<noteq> 0) d \<noteq> []" using assms by (auto simp: dropWhile_eq_Nil_conv)
  then obtain x r where x: "dropWhile (\<lambda>c. c \<noteq> 0) d = x # r" by (cases "dropWhile (\<lambda>c. c \<noteq> 0) d") auto
  then have "x = 0" using hd_dropWhile [of "\<lambda>c. c \<noteq> 0" d] by auto
  with x have "d = cstr d @ 0 # r" unfolding cstr_def by (metis takeWhile_dropWhile_id)
  then show "\<exists>r. d = cstr d @ 0 # r" by blast
  show "0 \<notin> set (cstr d)" by (auto simp: cstr_def dest: set_takeWhileD)
qed

lemma dict_get_spec:
  assumes "0 \<in> set d" "key_ok key" "0 < destlen" "destlen \<le> length dest"
  shows "dict_get d key dest destlen = dict_result dest destlen (dict_lookup (cstr d) key)"
proof -
  from dict_split [OF assms(1)] obtain r where d: "d = cstr d @ 0 # r" by blast
  have "dict_get d key dest destlen = dict_find (cstr d @ 0 # r) key dest destlen"
    using assms(3) d by (simp add: dict_get_def)
  with dict_find_spec [OF assms(2) dict_split(2) [OF assms(1)] assms(3,4)] show ?thesis by simp
qed

section \<open>Adding entries\<close>

lemma dict_put_ok:
  "j + length cs < length d \<Longrightarrow>
   dict_put d j cs = Inr (take j d @ cs @ drop (j + length cs) d, j + length cs)"
proof (induction cs arbitrary: d j)
  case Nil
  then show ?case by simp
next
  case (Cons c cs)
  have "take (Suc j) (d[j := c]) = take j d @ [c]"
    using Cons.prems by (simp add: take_Suc_conv_app_nth)
  with Cons show ?case by (simp add: Let_def)
qed

lemma dict_put_full:
  assumes "j < length d" "length d \<le> j + length cs"
  shows "\<exists>d1. dict_put d j cs = Inl d1 \<and> length d1 = length d \<and> take j d1 = take j d"
  using assms
proof (induction cs arbitrary: d j)
  case Nil
  then show ?case by simp
next
  case (Cons c cs)
  show ?case
  proof (cases "j + 1 = length d")
    case True
    then show ?thesis by (simp add: Let_def)
  next
    case False
    with Cons.prems have "j + 1 < length (d[j := c])" "length (d[j := c]) \<le> j + 1 + length cs" by simp_all
    from Cons.IH [OF this] obtain d1 where d1: "dict_put (d[j := c]) (j + 1) cs = Inl d1"
      "length d1 = length d" "take (j + 1) d1 = take (j + 1) (d[j := c])"
      by auto
    have "take j d1 = take j (take (j + 1) d1)" by simp
    also have "\<dots> = take j d" unfolding d1(3) by simp
    finally show ?thesis using d1 False by (simp add: Let_def)
  qed
qed

text \<open>The text of one entry.\<close>

definition dict_entry :: "bytes \<Rightarrow> bytes \<Rightarrow> bytes" where
  "dict_entry key val = key @ [61] @ concat (map dict_escape val)"

definition dict_joined :: "bytes \<Rightarrow> bytes \<Rightarrow> bytes" where
  "dict_joined s e = (if s = [] then e else s @ 10 # e)"

lemma dict_escape_chars: "c \<in> set (dict_escape b) \<Longrightarrow> c \<noteq> 0 \<and> \<not> eol c \<and> c \<noteq> 61"
  by (auto simp: dict_escape_def eol_def split: if_splits)

lemma dict_entry_chars:
  "key_ok key \<Longrightarrow> c \<in> set (dict_entry key val) \<Longrightarrow> c \<noteq> 0 \<and> \<not> eol c"
  using dict_escape_chars by (auto simp: dict_entry_def key_ok_def eol_def)

lemma take_cstr: "take (length (cstr d)) d = cstr d"
  by (simp add: cstr_def takeWhile_eq_take [symmetric])

lemma dict_add_spec:
  assumes d: "0 \<in> set d" and key: "key_ok key"
  shows "if length (dict_joined (cstr d) (dict_entry key val)) < length d
    then \<exists>d'. dict_add d key val = (True, d') \<and> length d' = length d \<and> 0 \<in> set d' \<and>
      cstr d' = dict_joined (cstr d) (dict_entry key val)
    else \<exists>d'. dict_add d key val = (False, d') \<and> length d' = length d \<and> 0 \<in> set d' \<and> cstr d' = cstr d"
proof -
  let ?s = "cstr d" and ?e = "dict_entry key val"
  let ?i = "length ?s"
  let ?cs = "(if ?i > 0 then [10] else []) @ ?e"
  obtain r where r: "d = ?s @ 0 # r" using dict_split [OF d] by blast
  have "length d = ?i + Suc (length r)" using arg_cong [OF r, of length] by simp
  then have i: "?i < length d" by simp
  have j: "dict_joined ?s ?e = ?s @ ?cs" by (simp add: dict_joined_def)
  have n0: "0 \<notin> set (?s @ ?cs)"
    using dict_split(2) [OF d] dict_entry_chars [OF key] by auto
  have add: "dict_add d key val =
      (case dict_put d ?i ?cs of Inl d1 \<Rightarrow> (False, d1[?i := 0]) | Inr (d1, j) \<Rightarrow> (True, d1[j := 0]))"
    using d by (simp add: dict_add_def dict_entry_def cstr_def [symmetric] Let_def)
  show ?thesis
  proof (cases "?i + length ?cs < length d")
    case True
    let ?d' = "?s @ ?cs @ [0] @ drop (Suc (?i + length ?cs)) d"
    have "dict_put d ?i ?cs = Inr (?s @ ?cs @ drop (?i + length ?cs) d, ?i + length ?cs)"
      using dict_put_ok [OF True] by (simp only: take_cstr)
    moreover have "(?s @ ?cs @ drop (?i + length ?cs) d)[?i + length ?cs := 0] = ?d'"
      using True list_update_append_drop [of "?s @ ?cs" "?i + length ?cs" d 0] by simp
    ultimately have "dict_add d key val = (True, ?d')" using add by simp
    moreover have "cstr ?d' = ?s @ ?cs" using cstr_append [OF n0] by simp
    moreover have "length ?d' = length d" using True by simp
    ultimately show ?thesis using True j by auto
  next
    case False
    then have "length d \<le> ?i + length ?cs" by simp
    from dict_put_full [OF i this] obtain d1 where d1: "dict_put d ?i ?cs = Inl d1"
      "length d1 = length d" "take ?i d1 = ?s"
      by (auto simp: take_cstr)
    have "d1[?i := 0] = ?s @ [0] @ drop (Suc ?i) d1"
      using i d1 by (simp add: take_drop_update)
    moreover have "cstr (?s @ [0] @ drop (Suc ?i) d1) = ?s"
      by (rule cstr_append [OF dict_split(2) [OF d]])
    moreover have "length (d1[?i := 0]) = length d" using d1 by simp
    ultimately show ?thesis using False j add d1(1) by auto
  qed
qed

lemma dict_lookup_append:
  assumes "key_ok k"
  shows "dict_lookup (s @ 10 # t) k = (case dict_lookup s k of None \<Rightarrow> dict_lookup t k | Some x \<Rightarrow> Some x)"
  using assms
proof (induction s k rule: dict_lookup.induct)
  case (1 s k)
  let ?T = "takeWhile (\<lambda>c. \<not> eol c)" and ?D = "dropWhile (\<lambda>c. \<not> eol c)"
  have e: "eol 10" by (simp add: eol_def)
  show ?case
  proof (cases "?D s")
    case Nil
    then have all: "\<forall>c\<in>set s. \<not> eol c" by (simp add: dropWhile_eq_Nil_conv)
    then have T: "?T (s @ 10 # t) = s" "?D (s @ 10 # t) = 10 # t" "?T s = s"
      using e by (simp_all add: takeWhile_append2 dropWhile_append2 takeWhile_eq_all_conv)
    show ?thesis
      unfolding dict_lookup.simps [of "s @ 10 # t" k] dict_lookup.simps [of s k] T Nil
      by (simp add: Let_def)
  next
    case (Cons x y)
    have T: "?T (s @ 10 # t) = ?T s" "?D (s @ 10 # t) = x # y @ 10 # t"
    proof -
      have s: "s = ?T s @ x # y" using takeWhile_dropWhile_id [of "\<lambda>c. \<not> eol c" s] Cons by simp
      have x: "eol x" using hd_dropWhile [of "\<lambda>c. \<not> eol c" s] Cons by auto
      have n: "\<forall>c\<in>set (?T s). \<not> eol c" by (auto dest: set_takeWhileD)
      show "?T (s @ 10 # t) = ?T s"
        using x n by (subst s) (simp add: takeWhile_append2)
      show "?D (s @ 10 # t) = x # y @ 10 # t"
        using x n by (subst s) (simp add: dropWhile_append2)
    qed
    have ne: "s \<noteq> []" using Cons by auto
    show ?thesis
    proof (cases "prefix (k @ [61]) (?T s)")
      case True
      then show ?thesis
        unfolding dict_lookup.simps [of "s @ 10 # t" k] dict_lookup.simps [of s k] T
        using ne by (simp add: Let_def)
    next
      case False
      from "1.IH" [OF ne refl False Cons "1.prems"] False show ?thesis
        unfolding dict_lookup.simps [of "s @ 10 # t" k] dict_lookup.simps [of s k] T Cons
        using ne by (simp add: Let_def)
    qed
  qed
qed

lemma unesc_escape: "unesc False (concat (map dict_escape v)) = v"
  by (induction v) (auto simp: dict_escape_def dict_unescape_def)

lemma dict_lookup_entry:
  assumes "key_ok k" "key_ok key"
  shows "dict_lookup (dict_entry key v) k = (if k = key then Some v else None)"
proof -
  let ?e = "dict_entry key v"
  have all: "\<forall>c\<in>set ?e. \<not> eol c" using dict_entry_chars [OF assms(2)] by blast
  have T: "takeWhile (\<lambda>c. \<not> eol c) ?e = ?e" "dropWhile (\<lambda>c. \<not> eol c) ?e = []"
    using all by (simp_all add: takeWhile_eq_all_conv dropWhile_eq_Nil_conv)
  have pf: "prefix (k @ [61]) (key @ 61 # z) \<longleftrightarrow> k = key" for z
    using assms
  proof (induction k arbitrary: key)
    case Nil
    then show ?case by (cases key) (auto simp: key_ok_def)
  next
    case (Cons a k)
    then show ?case by (cases key) (auto simp: key_ok_def)
  qed
  have ne: "?e \<noteq> []" by (simp add: dict_entry_def)
  have d: "drop (length key + 1) ?e = concat (map dict_escape v)" by (simp add: dict_entry_def)
  show ?thesis
  proof (cases "k = key")
    case True
    have "prefix (k @ [61]) ?e" using pf True by (simp add: dict_entry_def)
    then show ?thesis
      unfolding dict_lookup.simps [of ?e k] T using ne d True by (simp add: Let_def unesc_escape)
  next
    case False
    have "\<not> prefix (k @ [61]) ?e" using pf False by (simp add: dict_entry_def)
    then show ?thesis
      unfolding dict_lookup.simps [of ?e k] T using ne False by (simp add: Let_def)
  qed
qed

lemma dict_lookup_joined:
  assumes "key_ok k" "key_ok key"
  shows "dict_lookup (dict_joined s (dict_entry key v)) k =
    (case dict_lookup s k of None \<Rightarrow> if k = key then Some v else None | Some x \<Rightarrow> Some x)"
  using assms
  by (auto simp: dict_joined_def dict_lookup_append dict_lookup_entry dict_lookup.simps [of "[]"]
      split: option.split)

lemma length_unesc: "length (unesc esc s) \<le> length s"
proof (induction s arbitrary: esc)
  case (Cons c s)
  from Cons [of True] Cons [of False] show ?case by auto
qed simp

lemma dict_lookup_length: "dict_lookup s k = Some v \<Longrightarrow> length v \<le> length s"
proof (induction s k rule: dict_lookup.induct)
  case (1 s k)
  let ?T = "takeWhile (\<lambda>c. \<not> eol c) s"
  have ne: "s \<noteq> []" using "1.prems" by (auto simp: dict_lookup.simps [of "[]"])
  show ?case
  proof (cases "prefix (k @ [61]) ?T")
    case True
    then have "v = unesc False (drop (length k + 1) ?T)"
      using "1.prems" ne unfolding dict_lookup.simps [of s k] by (simp add: Let_def)
    then have "length v \<le> length (drop (length k + 1) ?T)" by (simp only: length_unesc)
    also have "\<dots> \<le> length s" using length_takeWhile_le [of "\<lambda>c. \<not> eol c" s] by simp
    finally show ?thesis .
  next
    case False
    show ?thesis
    proof (cases "dropWhile (\<lambda>c. \<not> eol c) s")
      case Nil
      from "1.prems" ne False show ?thesis
        unfolding dict_lookup.simps [of s k] Nil by (simp add: Let_def)
    next
      case (Cons x y)
      then have "dict_lookup y k = Some v"
        using "1.prems" ne False unfolding dict_lookup.simps [of s k] by (simp add: Let_def)
      with "1.IH" [OF ne refl False Cons] have "length v \<le> length y" by simp
      also have "length y \<le> length s"
        using length_dropWhile_le [of "\<lambda>c. \<not> eol c" s] Cons by simp
      finally show ?thesis .
    qed
  qed
qed

section \<open>The contract: a store whose first entry for a key wins\<close>

fun add_all :: "('d \<Rightarrow> 'k \<Rightarrow> 'v \<Rightarrow> bool \<times> 'd) \<Rightarrow> 'd \<Rightarrow> ('k \<times> 'v) list \<Rightarrow> bool \<times> 'd" where
  "add_all add d [] = (True, d)"
| "add_all add d ((k, v) # kvs) =
     (case add d k v of (ok, d') \<Rightarrow> if ok then add_all add d' kvs else (False, d'))"

locale kv_store =
  fixes invar :: "'d \<Rightarrow> bool"
    and key :: "'k \<Rightarrow> bool"
    and lookup :: "'d \<Rightarrow> 'k \<Rightarrow> 'v option"
    and add :: "'d \<Rightarrow> 'k \<Rightarrow> 'v \<Rightarrow> bool \<times> 'd"
  assumes add_done: "invar d \<Longrightarrow> key k \<Longrightarrow> add d k v = (True, d') \<Longrightarrow>
      invar d' \<and> (\<forall>k'. key k' \<longrightarrow> lookup d' k' =
        (case lookup d k' of None \<Rightarrow> if k' = k then Some v else None | Some x \<Rightarrow> Some x))"
    and add_refused: "invar d \<Longrightarrow> key k \<Longrightarrow> add d k v = (False, d') \<Longrightarrow>
      invar d' \<and> (\<forall>k'. key k' \<longrightarrow> lookup d' k' = lookup d k')"
begin

lemma add_all_lookup:
  assumes "invar d" "\<And>k v. (k, v) \<in> set kvs \<Longrightarrow> key k" "add_all add d kvs = (True, d')" "key k"
  shows "invar d' \<and> lookup d' k = (case lookup d k of None \<Rightarrow> map_of kvs k | Some x \<Rightarrow> Some x)"
  using assms
proof (induction kvs arbitrary: d)
  case Nil
  then show ?case by (auto split: option.split)
next
  case (Cons kv kvs)
  obtain k1 v1 where kv: "kv = (k1, v1)" by (cases kv)
  obtain d1 where d1: "add d k1 v1 = (True, d1)" "add_all add d1 kvs = (True, d')"
    using Cons.prems(3) kv by (auto split: prod.splits if_splits)
  have "key k1" using Cons.prems(2) [of k1 v1] kv by simp
  note A = add_done [OF Cons.prems(1) this d1(1)]
  then have i1: "invar d1" by blast
  have keys: "\<And>k v. (k, v) \<in> set kvs \<Longrightarrow> key k" using Cons.prems(2) by auto
  have "lookup d1 k = (case lookup d k of None \<Rightarrow> if k = k1 then Some v1 else None | Some x \<Rightarrow> Some x)"
    using A Cons.prems(4) by blast
  with Cons.IH [OF i1 keys d1(2) Cons.prems(4)] show ?case
    by (auto simp: kv split: option.splits)
qed

end

text \<open>\<open>get\<close> into an array as large as the dictionary.\<close>

definition dict_fetch :: "dict \<Rightarrow> bytes \<Rightarrow> bytes option" where
  "dict_fetch d k =
     (case dict_get d k (replicate (length d) 0) (length d) of
        Inl _ \<Rightarrow> None
      | Inr (r, dest) \<Rightarrow> if r \<ge> 0 then Some (take (nat r) dest) else None)"

lemma length_cstr: "0 \<in> set d \<Longrightarrow> length (cstr d) < length d"
proof -
  assume "0 \<in> set d"
  then obtain r where r: "d = cstr d @ 0 # r" using dict_split by blast
  from arg_cong [OF r, of length] show ?thesis by simp
qed

lemma dict_fetch_lookup:
  assumes "0 \<in> set d" "key_ok k"
  shows "dict_fetch d k = dict_lookup (cstr d) k"
proof -
  have lt: "length (cstr d) < length d" by (rule length_cstr [OF assms(1)])
  have g: "dict_get d k (replicate (length d) 0) (length d) =
      dict_result (replicate (length d) 0) (length d) (dict_lookup (cstr d) k)"
    using assms lt by (intro dict_get_spec) auto
  show ?thesis
  proof (cases "dict_lookup (cstr d) k")
    case None
    with g show ?thesis by (simp add: dict_fetch_def dict_result_def)
  next
    case (Some v)
    have "length v \<le> length d - 1" using dict_lookup_length [OF Some] lt by simp
    with Some g show ?thesis by (simp add: dict_fetch_def dict_result_def)
  qed
qed

interpretation dict: kv_store "\<lambda>d. 0 \<in> set d" key_ok dict_fetch dict_add
proof (unfold_locales, goal_cases)
  case (1 d k v d')
  from dict_add_spec [OF 1(1,2), of v] 1(3) have d': "0 \<in> set d'"
    "cstr d' = dict_joined (cstr d) (dict_entry k v)"
    by (auto split: if_splits)
  with 1 show ?case by (simp add: dict_fetch_lookup dict_lookup_joined)
next
  case (2 d k v d')
  from dict_add_spec [OF 2(1,2), of v] 2(3) have "0 \<in> set d'" "cstr d' = cstr d"
    by (auto split: if_splits)
  with 2 show ?case by (simp add: dict_fetch_lookup)
qed

section \<open>Integers\<close>

lemma hex64_chars: "0 \<notin> set (hex64 v)" "length (hex64 v) = 16"
  by (auto simp: hex64_def)

lemma getUI_lookup:
  assumes "0 \<in> set d" "key_ok k" "length tmp = 128" "dict_lookup (cstr d) k = Some (hex64 v)"
  shows "dict_getUI tmp d k dfl = Inr v"
proof -
  have g: "dict_get d k tmp 128 = Inr (16, hex64 v @ [0] @ drop 17 tmp)"
    using dict_get_spec [OF assms(1,2), of 128 tmp] assms(3,4) hex64_chars(2) by (simp add: dict_result_def)
  have "cstr (hex64 v @ [0] @ drop 17 tmp) = hex64 v" by (rule cstr_append [OF hex64_chars(1)])
  with g show ?thesis by (simp add: dict_getUI_def hexStrToU64_hex64)
qed

lemma strtoll_hexdigits:
  "c_strtoll 16 (hex64 v) = min (2 ^ 63 - 1) (int (unat v))"
  "c_strtoll 16 (45 # hex64 v) = max (- (2 ^ 63)) (- int (unat v))"
proof -
  have h: "hex64 v = hexchar (drop_bit 60 v) # map (\<lambda>sh. hexchar (drop_bit sh v))
      [56, 52, 48, 44, 40, 36, 32, 28, 24, 20, 16, 12, 8, 4, 0]" by (simp add: hex64_def)
  have pf: "c_strip_prefix 16 (hex64 v) = hex64 v"
    by (auto simp: c_strip_prefix_def hex64_def)
  have m: "c_magnitude 16 (hex64 v) = unat v"
    using unat_bounds(4) [of v]
    by (simp add: c_magnitude_def hex_hexdigits takeWhile_hexdigits hexdigits_fold)
  have "dropWhile c_isspace (hex64 v) = hex64 v" "c_sign (hex64 v) = (False, hex64 v)"
    by (simp_all add: h c_sign_def)
  then show "c_strtoll 16 (hex64 v) = min (2 ^ 63 - 1) (int (unat v))"
    by (simp add: c_strtoll_def pf m)
  have "dropWhile c_isspace (45 # hex64 v) = 45 # hex64 v" "c_sign (45 # hex64 v) = (True, hex64 v)"
    by (simp_all add: c_sign_def c_isspace_def)
  then show "c_strtoll 16 (45 # hex64 v) = max (- (2 ^ 63)) (- int (unat v))"
    by (simp add: c_strtoll_def pf m)
qed

lemma unat_of_int_small: "0 \<le> v \<Longrightarrow> v < 2 ^ 63 \<Longrightarrow> int (unat (of_int v :: u64)) = v"
  by (simp add: unsigned_of_int take_bit_eq_mod)

lemma getI_lookup:
  assumes "0 \<in> set d" "key_ok k" "length tmp = 128" "- (2 ^ 63) < v" "v < 2 ^ 63"
    and "dict_lookup (cstr d) k = Some (if v \<ge> 0 then hex64 (of_int v) else 45 # hex64 (of_int (v * - 1)))"
  shows "dict_getI tmp d k dfl = Inr v"
proof -
  define t where "t = (if v \<ge> 0 then hex64 (of_int v) else 45 # hex64 (of_int (v * - 1)))"
  have n: "0 \<notin> set t" "1 \<le> length t" "length t \<le> 17" using hex64_chars by (simp_all add: t_def)
  have l: "dict_lookup (cstr d) k = Some t" using assms(6) by (simp only: t_def)
  have g: "dict_get d k tmp 128 = Inr (int (length t), t @ [0] @ drop (length t + 1) tmp)"
    using dict_get_spec [OF assms(1,2), of 128 tmp] assms(3) l n(3) by (simp add: dict_result_def Let_def)
  have "cstr (t @ [0] @ drop (length t + 1) tmp) = t" by (rule cstr_append [OF n(1)])
  then have "dict_getI tmp d k dfl = Inr (c_strtoll 16 t)"
    using g n(2) by (simp add: dict_getI_def)
  also have "c_strtoll 16 t = v"
    using assms(4,5) unat_of_int_small [of v] unat_of_int_small [of "v * - 1"]
    by (cases "v \<ge> 0") (simp_all add: t_def strtoll_hexdigits)
  finally show ?thesis .
qed

section \<open>Properties\<close>

text \<open>
  \<open>get\<close> against its meaning: on a terminated dictionary it never leaves an array; it returns
  \<open>-1\<close> and an empty string when no line has the key, and otherwise the unescaped value of the
  first such line, cut to \<open>destlen - 1\<close> bytes and terminated, with its length.
\<close>

theorem dict_get_correct:
  assumes "0 \<in> set d" "key_ok key" "0 < destlen" "destlen \<le> length dest"
  shows "dict_get d key dest destlen =
    (case dict_lookup (cstr d) key of
       None \<Rightarrow> Inr (- 1, dest[0 := 0])
     | Some v \<Rightarrow> let w = take (destlen - 1) v in Inr (int (length w), w @ [0] @ drop (length w + 1) dest))"
  using dict_get_spec [OF assms] by (simp add: dict_result_def)

theorem dict_get_correct_witness:
  "dict_lookup (cstr [97, 61, 49, 10, 98, 61, 92, 110, 50, 0]) [98] = Some [10, 50] \<and>
   dict_get [97, 61, 49, 10, 98, 61, 92, 110, 50, 0] [98] [7, 7, 7, 7] 4 = Inr (2, [10, 50, 0, 7])"
proof -
  have l: "dict_lookup (cstr [97, 61, 49, 10, 98, 61, 92, 110, 50, 0]) [98] = Some [10, 50]"
    by (simp add: cstr_def dict_lookup.simps eol_def Let_def dict_unescape_def)
  moreover have "key_ok [98]" by (simp add: key_ok_def eol_def)
  ultimately show ?thesis
    using dict_get_correct [of "[97, 61, 49, 10, 98, 61, 92, 110, 50, 0]" "[98]" 4 "[7, 7, 7, 7]"] by simp
qed

text \<open>
  C17. A dictionary built by successful \<open>add\<close> calls returns, for every valid key, the value of the
  first entry added for it, byte for byte, binary values included.
\<close>

theorem dict_add_get:
  assumes "0 < C" "\<And>k v. (k, v) \<in> set kvs \<Longrightarrow> key_ok k" "add_all dict_add (dict_new C) kvs = (True, d)" "key_ok k"
  shows "dict_fetch d k = map_of kvs k"
proof -
  have z: "0 \<in> set (dict_new C)" using assms(1) by (simp add: dict_new_def)
  have "cstr (dict_new C) = []" by (simp add: dict_new_def cstr_def)
  then have "dict_fetch (dict_new C) k = None"
    using z assms(4) by (simp add: dict_fetch_lookup dict_lookup.simps [of "[]"])
  with dict.add_all_lookup [OF z assms(2,3,4)] show ?thesis by simp
qed

theorem dict_add_get_witness:
  "\<exists>d. add_all dict_add (dict_new 12) [([97], [0, 61]), ([98], [7])] = (True, d) \<and>
     dict_fetch d [97] = Some [0, 61] \<and> dict_fetch d [99] = None"
proof -
  have "fst (add_all dict_add (dict_new 12) [([97], [0, 61]), ([98], [7])])" by code_simp
  then obtain d where d: "add_all dict_add (dict_new 12) [([97], [0, 61]), ([98], [7])] = (True, d)"
    by (cases "add_all dict_add (dict_new 12) [([97], [0, 61]), ([98], [7])]") simp
  have k: "key_ok [97]" "key_ok [98]" "key_ok [99]" by (simp_all add: key_ok_def eol_def)
  have keys: "\<And>k v. (k, v) \<in> set [([97], [0, 61]), ([98], [7 :: u8])] \<Longrightarrow> key_ok k" using k by auto
  have "dict_fetch d [97] = Some [0, 61]"
    using dict_add_get [OF _ keys d k(1)] by simp
  moreover have "dict_fetch d [99] = None"
    using dict_add_get [OF _ keys d k(3)] by simp
  ultimately show ?thesis using d by auto
qed

text \<open>
  \<open>add\<close> is all or nothing: it succeeds exactly when the separator, the key and the escaped
  value leave room for the terminator, and otherwise the dictionary text is unchanged; the array
  stays terminated in both cases.
\<close>

theorem dict_add_atomic:
  assumes "0 \<in> set d" "key_ok key"
  shows "\<exists>ok d'. dict_add d key val = (ok, d') \<and> length d' = length d \<and> 0 \<in> set d' \<and>
    ok = (length (dict_joined (cstr d) (dict_entry key val)) < length d) \<and>
    cstr d' = (if ok then dict_joined (cstr d) (dict_entry key val) else cstr d)"
  using dict_add_spec [OF assms, of val] by (auto split: if_splits)

theorem dict_add_atomic_witness:
  "\<exists>d'. dict_add [97, 61, 0, 0] [98] [7, 8] = (False, d') \<and> cstr d' = [97, 61]"
proof -
  have "key_ok [98]" by (simp add: key_ok_def eol_def)
  from dict_add_atomic [OF _ this, of "[97, 61, 0, 0]" "[7, 8]"] show ?thesis
    by (auto simp: cstr_def dict_joined_def dict_entry_def dict_escape_def)
qed

text \<open>
  Integers survive a dictionary: a 64-bit unsigned or (except the least one) signed integer
  added under a fresh key is what \<open>getUI\<close> and \<open>getI\<close> return for it.
\<close>

theorem dict_integer_roundtrip:
  assumes "0 \<in> set d" "key_ok key" "dict_fetch d key = None" "length tmp = 128"
    and "- (2 ^ 63) < i" "i < 2 ^ 63"
  shows "(dict_add_u64 d key u = (True, d1) \<longrightarrow> dict_getUI tmp d1 key dfl = Inr u) \<and>
    (dict_add_i64 d key i = Inr (True, d2) \<longrightarrow> dict_getI tmp d2 key dfl' = Inr i)"
proof -
  have n: "dict_lookup (cstr d) key = None" using assms by (simp add: dict_fetch_lookup)
  have add: "0 \<in> set d' \<and> dict_lookup (cstr d') key = Some v" if "dict_add d key v = (True, d')" for v d'
    using dict_add_spec [OF assms(1,2), of v] that n assms(2)
    by (auto simp: dict_lookup_joined split: if_splits)
  have "dict_getUI tmp d1 key dfl = Inr u" if "dict_add_u64 d key u = (True, d1)"
    using add [OF that [unfolded dict_add_u64_def]] assms by (simp add: getUI_lookup)
  moreover have "dict_getI tmp d2 key dfl' = Inr i" if "dict_add_i64 d key i = Inr (True, d2)"
  proof -
    have "dict_add d key (if i \<ge> 0 then hex64 (of_int i) else 45 # hex64 (of_int (i * - 1))) = (True, d2)"
      using that assms(5) by (auto simp: dict_add_i64_def split: if_splits)
    from add [OF this] assms show ?thesis by (intro getI_lookup) simp_all
  qed
  ultimately show ?thesis by blast
qed

theorem dict_integer_roundtrip_witness:
  "\<exists>d1. dict_add_u64 (dict_new 32) [97] 42 = (True, d1) \<and> dict_getUI (replicate 128 7) d1 [97] 0 = Inr 42"
proof -
  have k: "key_ok [97]" by (simp add: key_ok_def eol_def)
  have z: "0 \<in> set (dict_new 32)" by (simp add: dict_new_def)
  have "cstr (dict_new 32) = []" by (simp add: dict_new_def cstr_def)
  with z k have f: "dict_fetch (dict_new 32) [97] = None"
    by (simp add: dict_fetch_lookup dict_lookup.simps [of "[]"])
  obtain ok d1 where d1: "dict_add_u64 (dict_new 32) [97] 42 = (ok, d1)" by (cases "dict_add_u64 (dict_new 32) [97] 42")
  have esc: "concat (map dict_escape (hex64 42)) = hex64 42" by code_simp
  have "ok" using dict_add_spec [OF z k, of "hex64 42"] d1 \<open>cstr (dict_new 32) = []\<close> hex64_chars(2) [of 42]
    by (auto simp: dict_add_u64_def dict_joined_def dict_entry_def esc dict_new_def split: if_splits)
  with d1 dict_integer_roundtrip [OF z k f, of "replicate 128 7" 0 42 d1 0] show ?thesis by auto
qed

end
