(* ===== verification/Zt_Hashtable.thy ===== *)
theory Zt_Hashtable
  imports Zt_Prelude "HOL-Library.Multiset"
begin

text \<open>
  \<^verbatim>\<open>node/Hashtable.hpp\<close>: the chained hash table of the engine. A bucket's linked list is a list
  of pairs, the bucket array a list of buckets. The hash function of the key type is a parameter
  \<open>hc\<close> of every operation; \<open>avail\<close> says whether the system has memory when \<open>_grow\<close> asks for it
  (\<open>malloc\<close> never satisfies a request of \<open>2 ^ 63\<close> bytes or more). \<open>unsigned long\<close> is a 64-bit
  word. The contract is the locale \<open>map_impl\<close>: a table is a finite map.
\<close>

section \<open>The code\<close>

record ('k, 'v) hashtable =
  ht_t :: "('k \<times> 'v) list list"
  ht_bc :: u64
  ht_s :: u64

definition malloc_ok :: "bool \<Rightarrow> nat \<Rightarrow> bool" where
  "malloc_ok avail n \<longleftrightarrow> avail \<and> n < 2 ^ 63"

definition ht_new :: "bool \<Rightarrow> u64 \<Rightarrow> ('k, 'v) hashtable res" where
  "ht_new avail bc =
     (if malloc_ok avail (unat (8 * bc))
      then Inr \<lparr>ht_t = replicate (unat bc) [], ht_bc = bc, ht_s = 0\<rparr>
      else Inl OutOfMemory)"

text \<open>\<open>_hc\<close> for the integer key types.\<close>

definition hc_u64 :: "u64 \<Rightarrow> u64" where
  "hc_u64 i = i XOR drop_bit 32 i"

definition hc_u32 :: "u32 \<Rightarrow> u64" where
  "hc_u32 i = ucast i * 0x9e3779b1"

definition hc_u16 :: "u16 \<Rightarrow> u64" where
  "hc_u16 i = ucast i * 0x9e3779b1"

definition ht_idx :: "('k \<Rightarrow> u64) \<Rightarrow> u64 \<Rightarrow> 'k \<Rightarrow> nat" where
  "ht_idx hc bc k = unat (hc k mod bc)"

definition ht_push :: "nat \<Rightarrow> 'e \<Rightarrow> 'e list list \<Rightarrow> 'e list list" where
  "ht_push i e t = t[i := e # t ! i]"

text \<open>\<open>_grow\<close>: every bucket in turn, every entry pushed to the front of its new bucket.\<close>

definition ht_grow :: "('k \<Rightarrow> u64) \<Rightarrow> bool \<Rightarrow> ('k, 'v) hashtable \<Rightarrow> ('k, 'v) hashtable" where
  "ht_grow hc avail ht =
     (let nc = ht_bc ht * 2 in
      if malloc_ok avail (unat (8 * nc)) then
        ht\<lparr>ht_t := foldl (foldl (\<lambda>nt e. ht_push (ht_idx hc nc (fst e)) e nt)) (replicate (unat nc) []) (ht_t ht),
           ht_bc := nc\<rparr>
      else ht)"

fun bucket_get :: "'k \<Rightarrow> ('k \<times> 'v) list \<Rightarrow> 'v option" where
  "bucket_get k [] = None"
| "bucket_get k ((k', v) # b) = (if k' = k then Some v else bucket_get k b)"

definition ht_get :: "('k \<Rightarrow> u64) \<Rightarrow> ('k, 'v) hashtable \<Rightarrow> 'k \<Rightarrow> 'v option" where
  "ht_get hc ht k = bucket_get k (ht_t ht ! ht_idx hc (ht_bc ht) k)"

definition ht_contains :: "('k \<Rightarrow> u64) \<Rightarrow> ('k, 'v) hashtable \<Rightarrow> 'k \<Rightarrow> bool" where
  "ht_contains hc ht k = (bucket_get k (ht_t ht ! ht_idx hc (ht_bc ht) k) \<noteq> None)"

text \<open>Overwriting and unlinking the first entry with the key; \<open>None\<close> when there is none.\<close>

fun bucket_put :: "'k \<Rightarrow> 'v \<Rightarrow> ('k \<times> 'v) list \<Rightarrow> ('k \<times> 'v) list option" where
  "bucket_put k v [] = None"
| "bucket_put k v ((k', v') # b) =
     (if k' = k then Some ((k', v) # b) else map_option (Cons (k', v')) (bucket_put k v b))"

fun bucket_del :: "'k \<Rightarrow> ('k \<times> 'v) list \<Rightarrow> ('k \<times> 'v) list option" where
  "bucket_del k [] = None"
| "bucket_del k ((k', v') # b) =
     (if k' = k then Some b else map_option (Cons (k', v')) (bucket_del k b))"

definition ht_erase :: "('k \<Rightarrow> u64) \<Rightarrow> 'k \<Rightarrow> ('k, 'v) hashtable \<Rightarrow> bool \<times> ('k, 'v) hashtable" where
  "ht_erase hc k ht =
     (let bidx = ht_idx hc (ht_bc ht) k in
      case bucket_del k (ht_t ht ! bidx) of
        None \<Rightarrow> (False, ht)
      | Some b \<Rightarrow> (True, ht\<lparr>ht_t := (ht_t ht)[bidx := b], ht_s := ht_s ht - 1\<rparr>))"

text \<open>The tail of \<open>set\<close> and \<open>operator[]\<close>: grow when full, then link a new entry.\<close>

definition ht_insert :: "('k \<Rightarrow> u64) \<Rightarrow> bool \<Rightarrow> 'k \<Rightarrow> 'v \<Rightarrow> ('k, 'v) hashtable \<Rightarrow> ('k, 'v) hashtable" where
  "ht_insert hc avail k v ht =
     (let ht1 = (if ht_s ht \<ge> ht_bc ht then ht_grow hc avail ht else ht);
          bidx = ht_idx hc (ht_bc ht1) k
      in ht1\<lparr>ht_t := ht_push bidx (k, v) (ht_t ht1), ht_s := ht_s ht1 + 1\<rparr>)"

definition ht_set :: "('k \<Rightarrow> u64) \<Rightarrow> bool \<Rightarrow> 'k \<Rightarrow> 'v \<Rightarrow> ('k, 'v) hashtable \<Rightarrow> ('k, 'v) hashtable" where
  "ht_set hc avail k v ht =
     (let bidx = ht_idx hc (ht_bc ht) k in
      case bucket_put k v (ht_t ht ! bidx) of
        Some b \<Rightarrow> ht\<lparr>ht_t := (ht_t ht)[bidx := b]\<rparr>
      | None \<Rightarrow> ht_insert hc avail k v ht)"

text \<open>\<open>operator[]\<close>; \<open>v0\<close> is the default-constructed value.\<close>

definition ht_ref :: "('k \<Rightarrow> u64) \<Rightarrow> bool \<Rightarrow> 'v \<Rightarrow> 'k \<Rightarrow> ('k, 'v) hashtable \<Rightarrow> 'v \<times> ('k, 'v) hashtable" where
  "ht_ref hc avail v0 k ht =
     (case bucket_get k (ht_t ht ! ht_idx hc (ht_bc ht) k) of
        Some v \<Rightarrow> (v, ht)
      | None \<Rightarrow> (v0, ht_insert hc avail k v0 ht))"

definition ht_clear :: "('k, 'v) hashtable \<Rightarrow> ('k, 'v) hashtable" where
  "ht_clear ht =
     (if ht_s ht \<noteq> 0 then ht\<lparr>ht_t := map (\<lambda>_. []) (ht_t ht), ht_s := 0\<rparr> else ht)"

definition ht_entries :: "('k, 'v) hashtable \<Rightarrow> ('k \<times> 'v) list" where
  "ht_entries ht = (if ht_s ht \<noteq> 0 then concat (ht_t ht) else [])"

definition ht_keys :: "('k, 'v) hashtable \<Rightarrow> 'k list" where
  "ht_keys ht = (if ht_s ht \<noteq> 0 then map fst (concat (ht_t ht)) else [])"

text \<open>The copy constructor pushes each entry to the front, which reverses every bucket.\<close>

definition ht_copy :: "bool \<Rightarrow> ('k, 'v) hashtable \<Rightarrow> ('k, 'v) hashtable res" where
  "ht_copy avail ht =
     (if malloc_ok avail (unat (8 * ht_bc ht))
      then Inr (ht\<lparr>ht_t := map (foldl (\<lambda>b e. e # b) []) (ht_t ht)\<rparr>)
      else Inl OutOfMemory)"

definition ht_assign :: "('k \<Rightarrow> u64) \<Rightarrow> bool \<Rightarrow> ('k, 'v) hashtable \<Rightarrow> ('k, 'v) hashtable \<Rightarrow> ('k, 'v) hashtable" where
  "ht_assign hc avail ht src =
     (let ht1 = ht_clear ht in
      if ht_s src \<noteq> 0 then foldl (foldl (\<lambda>h e. ht_set hc avail (fst e) (snd e) h)) ht1 (ht_t src) else ht1)"

text \<open>The iterator: the current bucket's index and the rest of its list.\<close>

record ('k, 'v) ht_iter =
  it_idx :: nat
  it_b :: "('k \<times> 'v) list"

definition ht_iterator :: "('k, 'v) hashtable \<Rightarrow> ('k, 'v) ht_iter" where
  "ht_iterator ht = \<lparr>it_idx = 0, it_b = ht_t ht ! 0\<rparr>"

function ht_next :: "('k, 'v) hashtable \<Rightarrow> ('k, 'v) ht_iter \<Rightarrow> (('k \<times> 'v) \<times> ('k, 'v) ht_iter) option" where
  "ht_next ht it =
     (case it_b it of
        e # b \<Rightarrow> Some (e, it\<lparr>it_b := b\<rparr>)
      | [] \<Rightarrow>
          if it_idx it + 1 \<ge> unat (ht_bc ht) then None
          else ht_next ht \<lparr>it_idx = it_idx it + 1, it_b = ht_t ht ! (it_idx it + 1)\<rparr>)"
  by auto

termination ht_next
  by (relation "measure (\<lambda>(ht, it). unat (ht_bc ht) - it_idx it)") auto

declare ht_next.simps [simp del]

text \<open>The first \<open>n\<close> results of an iterator.\<close>

primrec ht_collect :: "('k, 'v) hashtable \<Rightarrow> nat \<Rightarrow> ('k, 'v) ht_iter \<Rightarrow> ('k \<times> 'v) list" where
  "ht_collect ht 0 it = []"
| "ht_collect ht (Suc n) it =
     (case ht_next ht it of None \<Rightarrow> [] | Some (e, it') \<Rightarrow> e # ht_collect ht n it')"

section \<open>The contract: a finite map\<close>

text \<open>An update carries what the environment decides for it (for the table: whether there is memory).\<close>

datatype ('a, 'k, 'v) map_op = Upd 'a 'k 'v | Del 'k

fun map_step :: "('a, 'k, 'v) map_op \<Rightarrow> ('k \<Rightarrow> 'v option) \<Rightarrow> 'k \<Rightarrow> 'v option" where
  "map_step (Upd a k v) m = m(k \<mapsto> v)"
| "map_step (Del k) m = m(k := None)"

locale map_impl =
  fixes invar :: "'s \<Rightarrow> bool"
    and lookup :: "'s \<Rightarrow> 'k \<Rightarrow> 'v option"
    and update :: "'a \<Rightarrow> 'k \<Rightarrow> 'v \<Rightarrow> 's \<Rightarrow> 's"
    and delete :: "'k \<Rightarrow> 's \<Rightarrow> 's"
    and step :: "('a, 'k, 'v) map_op \<Rightarrow> 's \<Rightarrow> 's"
  assumes update_law: "invar m \<Longrightarrow> invar (update a k v m) \<and> lookup (update a k v m) = (lookup m)(k \<mapsto> v)"
    and delete_law: "invar m \<Longrightarrow> invar (delete k m) \<and> lookup (delete k m) = (lookup m)(k := None)"
    and step_law: "step (Upd a k v) = update a k v" "step (Del k) = delete k"
begin

lemma run_map:
  "invar m \<Longrightarrow> invar (fold step ops m) \<and> lookup (fold step ops m) = fold map_step ops (lookup m)"
proof (induction ops arbitrary: m)
  case Nil
  then show ?case by simp
next
  case (Cons op ops)
  have "invar (step op m)" "lookup (step op m) = map_step op (lookup m)"
    using update_law [OF Cons.prems] delete_law [OF Cons.prems] by (cases op; simp add: step_law)+
  with Cons.IH show ?case by simp
qed

lemma update_all:
  assumes "invar m" "distinct (map fst es)"
  shows "invar (fold (\<lambda>e. update a (fst e) (snd e)) es m) \<and>
    lookup (fold (\<lambda>e. update a (fst e) (snd e)) es m) = lookup m ++ map_of es"
  using assms
proof (induction es arbitrary: m)
  case Nil
  then show ?case by simp
next
  case (Cons e es)
  note u = update_law [OF Cons.prems(1), of a "fst e" "snd e"]
  have "map_of es (fst e) = None"
    using Cons.prems(2) by (simp add: map_of_eq_None_iff)
  then have e: "(lookup m)(fst e \<mapsto> snd e) ++ map_of es = lookup m ++ map_of (e # es)"
    by (auto simp: fun_eq_iff map_add_def split: option.splits)
  have "distinct (map fst es)"
    using Cons.prems(2) by simp
  from Cons.IH [OF conjunct1 [OF u] this] show ?case
    unfolding fold_simps conjunct2 [OF u] e .
qed

end

section \<open>The table implements the contract\<close>

definition ht_placed :: "('k \<Rightarrow> u64) \<Rightarrow> u64 \<Rightarrow> ('k \<times> 'v) list list \<Rightarrow> bool" where
  "ht_placed hc bc t \<longleftrightarrow> (\<forall>i < length t. \<forall>e \<in> set (t ! i). ht_idx hc bc (fst e) = i)"

definition ht_ok :: "('k \<Rightarrow> u64) \<Rightarrow> ('k, 'v) hashtable \<Rightarrow> bool" where
  "ht_ok hc ht \<longleftrightarrow>
     0 < ht_bc ht \<and> 8 * unat (ht_bc ht) < 2 ^ 63 \<and> length (ht_t ht) = unat (ht_bc ht) \<and>
     ht_placed hc (ht_bc ht) (ht_t ht) \<and> distinct (map fst (concat (ht_t ht))) \<and>
     ht_s ht = of_nat (length (concat (ht_t ht)))"

lemma ht_idx_bound: "0 < bc \<Longrightarrow> ht_idx hc bc k < unat bc"
  by (simp add: ht_idx_def unat_mod word_gt_0 unat_gt_0)

lemma ht_idx_ok: "ht_ok hc ht \<Longrightarrow> ht_idx hc (ht_bc ht) k < length (ht_t ht)"
  by (auto simp: ht_ok_def intro: ht_idx_bound)

lemma bucket_get_map_of: "bucket_get k b = map_of b k"
  by (induction b) auto

lemma mset_concat_update:
  "i < length t \<Longrightarrow> mset (concat (t[i := b])) + mset (t ! i) = mset (concat t) + mset b"
proof (induction t arbitrary: i)
  case Nil
  then show ?case by simp
next
  case (Cons x t)
  show ?case
  proof (cases i)
    case 0
    then show ?thesis by (simp add: union_ac)
  next
    case (Suc j)
    with Cons have "mset (concat (t[j := b])) + mset (t ! j) = mset (concat t) + mset b" by simp
    with Suc show ?thesis by (simp add: union_ac)
  qed
qed

lemma mset_concat_push: "i < length t \<Longrightarrow> mset (concat (ht_push i e t)) = add_mset e (mset (concat t))"
  using mset_concat_update [of i t "e # t ! i"] by (simp add: ht_push_def)

lemma length_push [simp]: "length (ht_push i e t) = length t"
  by (simp add: ht_push_def)

lemma placed_update:
  assumes "ht_placed hc bc t" "\<And>e. e \<in> set b \<Longrightarrow> ht_idx hc bc (fst e) = i"
  shows "ht_placed hc bc (t[i := b])"
  unfolding ht_placed_def
proof (intro allI impI ballI)
  fix j e
  assume j: "j < length (t[i := b])" "e \<in> set (t[i := b] ! j)"
  show "ht_idx hc bc (fst e) = j"
    using j assms by (cases "j = i") (auto simp: ht_placed_def)
qed

lemma placed_update_keys:
  assumes "ht_placed hc bc t" "i < length t" "fst ` set b \<subseteq> fst ` set (t ! i)"
  shows "ht_placed hc bc (t[i := b])"
proof (rule placed_update [OF assms(1)])
  fix e
  assume "e \<in> set b"
  with assms(3) obtain e' where "e' \<in> set (t ! i)" "fst e = fst e'" by (auto simp: subset_iff)
  with assms(1,2) show "ht_idx hc bc (fst e) = i" by (auto simp: ht_placed_def)
qed

lemma placed_push: "ht_placed hc bc t \<Longrightarrow> ht_placed hc bc (ht_push (ht_idx hc bc (fst e)) e t)"
proof -
  assume p: "ht_placed hc bc t"
  let ?i = "ht_idx hc bc (fst e)"
  show ?thesis
  proof (cases "?i < length t")
    case True
    with p show ?thesis unfolding ht_push_def
      by (intro placed_update) (auto simp: ht_placed_def)
  next
    case False
    with p show ?thesis by (simp add: ht_push_def list_update_beyond)
  qed
qed

lemma distinct_fst_mset: "mset xs = mset ys \<Longrightarrow> distinct (map fst xs) = distinct (map fst ys)"
  by (metis mset_map mset_eq_imp_distinct_iff)

lemma map_of_mset: "mset xs = mset ys \<Longrightarrow> distinct (map fst xs) \<Longrightarrow> map_of xs = map_of ys"
  by (metis distinct_fst_mset map_of_inject_set mset_eq_setD)

text \<open>A lookup in the key's bucket is a lookup in the list of all entries.\<close>

lemma map_of_placed:
  assumes "ht_placed hc bc t" "ht_idx hc bc k < length t" "distinct (map fst (concat t))"
  shows "map_of (t ! ht_idx hc bc k) k = map_of (concat t) k"
proof (cases "map_of (concat t) k")
  case None
  have "set (t ! ht_idx hc bc k) \<subseteq> set (concat t)"
    using assms(2) by (auto intro: nth_mem)
  with None have "map_of (t ! ht_idx hc bc k) k = None"
    by (auto simp: map_of_eq_None_iff)
  with None show ?thesis by simp
next
  case (Some v)
  then have "(k, v) \<in> set (concat t)" by (rule map_of_SomeD)
  then obtain i where i: "i < length t" "(k, v) \<in> set (t ! i)"
    by (auto simp: in_set_conv_nth [of _ t])
  with assms(1) have e: "ht_idx hc bc k = i"
    unfolding ht_placed_def by fastforce
  have "distinct (map fst (t ! i))"
  proof -
    have "concat t = concat (take i t) @ t ! i @ concat (drop (Suc i) t)"
      using i(1) by (metis concat.simps(2) concat_append id_take_nth_drop)
    with assms(3) show ?thesis by simp
  qed
  with i e Some show ?thesis by simp
qed

lemma ht_get_map_of:
  assumes "ht_ok hc ht"
  shows "ht_get hc ht k = map_of (concat (ht_t ht)) k"
  using assms map_of_placed [of hc "ht_bc ht" "ht_t ht" k] ht_idx_bound [of "ht_bc ht" hc k]
  by (simp add: ht_get_def bucket_get_map_of ht_ok_def)

lemma bucket_put_None: "bucket_put k v b = None \<longleftrightarrow> k \<notin> fst ` set b"
  by (induction b) (auto split: if_splits)

lemma bucket_put_Some:
  "bucket_put k v b = Some b' \<Longrightarrow> map fst b' = map fst b \<and> map_of b' = (map_of b)(k \<mapsto> v)"
proof (induction b arbitrary: b')
  case Nil
  then show ?case by simp
next
  case (Cons e b)
  obtain k' v' where e: "e = (k', v')" by (cases e)
  show ?case
    using Cons e by (cases "k' = k") (auto simp: fun_upd_twist)
qed

lemma bucket_del_None: "bucket_del k b = None \<longleftrightarrow> k \<notin> fst ` set b"
  by (induction b) (auto split: if_splits)

lemma bucket_del_Some:
  "bucket_del k b = Some b' \<Longrightarrow> \<exists>v. (k, v) \<in> set b \<and> mset b = add_mset (k, v) (mset b')"
proof (induction b arbitrary: b')
  case Nil
  then show ?case by simp
next
  case (Cons e b)
  obtain k' v' where e: "e = (k', v')" by (cases e)
  show ?case
  proof (cases "k' = k")
    case True
    with Cons.prems e show ?thesis by auto
  next
    case False
    with Cons.prems e obtain b0 where b0: "bucket_del k b = Some b0" "b' = (k', v') # b0" by auto
    from Cons.IH [OF b0(1)] b0(2) e show ?thesis by auto
  qed
qed

text \<open>\<open>_grow\<close> keeps the entries and restores their places.\<close>

lemma foldl_foldl_concat: "foldl (foldl f) a xss = foldl f a (concat xss)"
  by (induction xss arbitrary: a) auto

lemma rehash:
  assumes "0 < bc" "length t = unat bc" "ht_placed hc bc t"
  shows "length (foldl (\<lambda>nt e. ht_push (ht_idx hc bc (fst e)) e nt) t xs) = unat bc \<and>
    ht_placed hc bc (foldl (\<lambda>nt e. ht_push (ht_idx hc bc (fst e)) e nt) t xs) \<and>
    mset (concat (foldl (\<lambda>nt e. ht_push (ht_idx hc bc (fst e)) e nt) t xs)) = mset (concat t) + mset xs"
  using assms(2,3)
proof (induction xs arbitrary: t)
  case Nil
  then show ?case by simp
next
  case (Cons e xs)
  have "mset (concat (ht_push (ht_idx hc bc (fst e)) e t)) = add_mset e (mset (concat t))"
    using ht_idx_bound [OF assms(1), of hc "fst e"] Cons.prems(1) by (intro mset_concat_push) simp
  with Cons.IH [of "ht_push (ht_idx hc bc (fst e)) e t"] Cons.prems placed_push [OF Cons.prems(2)]
  show ?case by simp
qed

lemma unat_double: "8 * unat (bc :: u64) < 2 ^ 63 \<Longrightarrow> unat (bc * 2) = 2 * unat bc"
  by (subst unat_mult_lem [THEN iffD1]) auto

lemma unat_times8: "8 * unat (bc :: u64) < 2 ^ 64 \<Longrightarrow> unat (8 * bc) = 8 * unat bc"
  by (subst unat_mult_lem [THEN iffD1]) auto

lemma concat_replicate_Nil [simp]: "concat (replicate n []) = []"
  by (induction n) auto

lemma placed_replicate [simp]: "ht_placed hc bc (replicate n [])"
  by (simp add: ht_placed_def)

lemma ht_grow_ok:
  assumes ok: "ht_ok hc ht"
  shows "ht_ok hc (ht_grow hc avail ht) \<and>
    mset (concat (ht_t (ht_grow hc avail ht))) = mset (concat (ht_t ht)) \<and> ht_s (ht_grow hc avail ht) = ht_s ht"
proof (cases "malloc_ok avail (unat (8 * (ht_bc ht * 2)))")
  case False
  then show ?thesis using ok by (simp add: ht_grow_def)
next
  case True
  let ?nc = "ht_bc ht * 2"
  let ?t = "foldl (\<lambda>nt e. ht_push (ht_idx hc ?nc (fst e)) e nt) (replicate (unat ?nc) []) (concat (ht_t ht))"
  have u: "unat ?nc = 2 * unat (ht_bc ht)" and pos: "0 < unat (ht_bc ht)"
    using ok unat_double by (auto simp: ht_ok_def unat_gt_0 word_gt_0)
  then have nc: "0 < ?nc"
    by (simp add: word_gt_0 flip: unat_gt_0)
  have "unat (8 * ?nc) = 8 * unat ?nc"
    using u ok by (intro unat_times8) (simp add: ht_ok_def)
  then have lim: "8 * unat ?nc < 2 ^ 63"
    using True by (simp add: malloc_ok_def)
  note r = rehash [OF nc, of "replicate (unat ?nc) []" hc "concat (ht_t ht)", simplified]
  have m: "mset (concat ?t) = mset (concat (ht_t ht))"
    using r by simp
  have g: "ht_grow hc avail ht = ht\<lparr>ht_t := ?t, ht_bc := ?nc\<rparr>"
    using True by (simp only: ht_grow_def Let_def foldl_foldl_concat if_True)
  have l: "length (concat ?t) = length (concat (ht_t ht))"
    using m by (rule mset_eq_length)
  have "ht_ok hc (ht\<lparr>ht_t := ?t, ht_bc := ?nc\<rparr>)"
    unfolding ht_ok_def using r lim nc l ok distinct_fst_mset [OF m] by (simp add: ht_ok_def)
  with m g show ?thesis by simp
qed

lemma ht_insert_law:
  assumes ok: "ht_ok hc ht" and new: "ht_get hc ht k = None"
  shows "ht_ok hc (ht_insert hc avail k v ht) \<and>
    mset (concat (ht_t (ht_insert hc avail k v ht))) = add_mset (k, v) (mset (concat (ht_t ht)))"
proof -
  define h1 where "h1 = (if ht_s ht \<ge> ht_bc ht then ht_grow hc avail ht else ht)"
  have h1: "ht_ok hc h1" "mset (concat (ht_t h1)) = mset (concat (ht_t ht))" "ht_s h1 = ht_s ht"
    using ok ht_grow_ok [OF ok] by (auto simp: h1_def)
  let ?i = "ht_idx hc (ht_bc h1) k"
  let ?t = "ht_push ?i (k, v) (ht_t h1)"
  have i: "?i < length (ht_t h1)"
    using h1(1) by (rule ht_idx_ok)
  have m: "mset (concat ?t) = mset ((k, v) # concat (ht_t h1))"
    using mset_concat_push [OF i] by simp
  have "k \<notin> fst ` set (concat (ht_t h1))"
    using new ok mset_eq_setD [OF h1(2)] by (simp add: ht_get_map_of map_of_eq_None_iff del: set_concat)
  then have d: "distinct (map fst (concat ?t))"
    using distinct_fst_mset [OF m] h1(1) by (simp add: ht_ok_def)
  have "length (concat ?t) = Suc (length (concat (ht_t h1)))"
    using mset_eq_length [OF m] by simp
  then have "ht_ok hc (h1\<lparr>ht_t := ?t, ht_s := ht_s h1 + 1\<rparr>)"
    using h1(1) d placed_push [of hc "ht_bc h1" "ht_t h1" "(k, v)"] by (simp add: ht_ok_def add.commute)
  moreover have "ht_insert hc avail k v ht = h1\<lparr>ht_t := ?t, ht_s := ht_s h1 + 1\<rparr>"
    by (simp add: ht_insert_def h1_def Let_def)
  ultimately show ?thesis using m h1(2) by simp
qed

lemma map_of_add_mset:
  assumes "mset xs = add_mset (k, v) (mset ys)" "distinct (map fst xs)"
  shows "map_of xs = (map_of ys)(k \<mapsto> v)"
  using map_of_mset [of xs "(k, v) # ys"] assms by simp

lemma map_of_put:
  assumes "i < length t" "bucket_put k v (t ! i) = Some b" "distinct (map fst (concat t))"
  shows "map_of (concat (t[i := b])) = (map_of (concat t))(k \<mapsto> v) \<and>
    map fst (concat (t[i := b])) = map fst (concat t)"
proof -
  have t: "t = take i t @ t ! i # drop (Suc i) t"
    using assms(1) by (rule id_take_nth_drop)
  have u: "t[i := b] = take i t @ b # drop (Suc i) t"
    using assms(1) by (rule upd_conv_take_nth_drop)
  have b: "map fst b = map fst (t ! i)" "map_of b = (map_of (t ! i))(k \<mapsto> v)"
    using bucket_put_Some [OF assms(2)] by auto
  have "k \<in> fst ` set (t ! i)"
    using assms(2) bucket_put_None [of k v "t ! i"] by auto
  moreover have "distinct (map fst (concat (take i t) @ t ! i @ concat (drop (Suc i) t)))"
    using assms(3) by (subst (asm) t) simp
  then have "fst ` set (concat (take i t)) \<inter> fst ` set (t ! i) = {}"
    by (simp del: set_concat) blast
  ultimately have "map_of (concat (take i t)) k = None"
    unfolding map_of_eq_None_iff by blast
  then have "map_of (concat (t[i := b])) = (map_of (concat (take i t @ t ! i # drop (Suc i) t)))(k \<mapsto> v)"
    unfolding u by (auto simp: b(2) fun_eq_iff map_add_def split: option.splits)
  then have m: "map_of (concat (t[i := b])) = (map_of (concat t))(k \<mapsto> v)"
    by (simp flip: t)
  have "map fst (concat (t[i := b])) = map fst (concat (take i t @ t ! i # drop (Suc i) t))"
    unfolding u by (simp add: b(1))
  then show ?thesis using m by (simp flip: t)
qed

lemma ht_set_law:
  assumes ok: "ht_ok hc ht"
  shows "ht_ok hc (ht_set hc avail k v ht) \<and> ht_get hc (ht_set hc avail k v ht) = (ht_get hc ht)(k \<mapsto> v)"
proof -
  let ?i = "ht_idx hc (ht_bc ht) k"
  have i: "?i < length (ht_t ht)"
    using ok by (rule ht_idx_ok)
  show ?thesis
  proof (cases "bucket_put k v (ht_t ht ! ?i)")
    case None
    then have "ht_get hc ht k = None"
      by (simp add: bucket_put_None ht_get_def bucket_get_map_of map_of_eq_None_iff)
    note ins = ht_insert_law [OF ok this, of avail v]
    have s: "ht_set hc avail k v ht = ht_insert hc avail k v ht"
      using None by (simp add: ht_set_def Let_def)
    have "map_of (concat (ht_t (ht_insert hc avail k v ht))) = (map_of (concat (ht_t ht)))(k \<mapsto> v)"
      using ins by (intro map_of_add_mset) (simp_all add: ht_ok_def)
    with ins ok show ?thesis by (simp add: s ht_get_map_of fun_eq_iff)
  next
    case (Some b)
    let ?h = "ht\<lparr>ht_t := (ht_t ht)[?i := b]\<rparr>"
    have mp: "map_of (concat (ht_t ?h)) = (map_of (concat (ht_t ht)))(k \<mapsto> v)"
      "map fst (concat (ht_t ?h)) = map fst (concat (ht_t ht))"
      using map_of_put [OF i Some] ok by (auto simp: ht_ok_def)
    have "ht_placed hc (ht_bc ht) (ht_t ?h)"
    proof -
      have "fst ` set b = fst ` set (ht_t ht ! ?i)"
        using bucket_put_Some [OF Some] by (metis list.set_map)
      then show ?thesis
        using ok i by (simp add: ht_ok_def placed_update_keys)
    qed
    moreover have "length (concat (ht_t ?h)) = length (concat (ht_t ht))"
      using mp(2) by (metis length_map)
    ultimately have "ht_ok hc ?h"
      using ok mp(2) by (simp add: ht_ok_def)
    moreover have "ht_set hc avail k v ht = ?h"
      using Some by (simp add: ht_set_def Let_def)
    ultimately show ?thesis using ok mp(1) by (simp add: ht_get_map_of fun_eq_iff)
  qed
qed

lemma map_of_del:
  assumes "mset xs = add_mset (k, v) (mset ys)" "distinct (map fst xs)"
  shows "map_of ys = (map_of xs)(k := None) \<and> distinct (map fst ys)"
proof -
  have d: "distinct (map fst ((k, v) # ys))"
    using distinct_fst_mset [of xs "(k, v) # ys"] assms by simp
  then have "map_of ys k = None"
    by (auto simp: map_of_eq_None_iff)
  with d show ?thesis
    using map_of_add_mset [OF assms] by (auto simp: fun_eq_iff)
qed

lemma ht_erase_law:
  assumes ok: "ht_ok hc ht"
  shows "ht_ok hc (snd (ht_erase hc k ht)) \<and>
    ht_get hc (snd (ht_erase hc k ht)) = (ht_get hc ht)(k := None) \<and>
    fst (ht_erase hc k ht) = (ht_get hc ht k \<noteq> None)"
proof -
  let ?i = "ht_idx hc (ht_bc ht) k"
  have i: "?i < length (ht_t ht)"
    using ok by (rule ht_idx_ok)
  show ?thesis
  proof (cases "bucket_del k (ht_t ht ! ?i)")
    case None
    then have "ht_get hc ht k = None"
      by (simp add: bucket_del_None ht_get_def bucket_get_map_of map_of_eq_None_iff)
    with None ok show ?thesis by (auto simp: ht_erase_def Let_def)
  next
    case (Some b)
    then obtain v where v: "mset (ht_t ht ! ?i) = add_mset (k, v) (mset b)"
      using bucket_del_Some by metis
    let ?t = "(ht_t ht)[?i := b]"
    let ?h = "ht\<lparr>ht_t := ?t, ht_s := ht_s ht - 1\<rparr>"
    have m: "mset (concat (ht_t ht)) = add_mset (k, v) (mset (concat ?t))"
      using mset_concat_update [OF i, of b] v by simp
    have d: "map_of (concat ?t) = (map_of (concat (ht_t ht)))(k := None)" "distinct (map fst (concat ?t))"
      using map_of_del [OF m] ok by (auto simp: ht_ok_def)
    have "set (ht_t ht ! ?i) = insert (k, v) (set b)"
      using v by (metis set_mset_add_mset_insert set_mset_mset)
    then have p: "ht_placed hc (ht_bc ht) ?t"
      using ok i by (intro placed_update_keys) (auto simp: ht_ok_def)
    have "length (concat (ht_t ht)) = Suc (length (concat ?t))"
      using arg_cong [OF m, of size] by simp
    then have "ht_ok hc ?h"
      using ok d p by (simp add: ht_ok_def)
    moreover have "ht_get hc ht k \<noteq> None"
      using Some bucket_del_None [of k "ht_t ht ! ?i"]
      by (auto simp: ht_get_def bucket_get_map_of map_of_eq_None_iff)
    moreover have "ht_erase hc k ht = (True, ?h)"
      using Some by (simp add: ht_erase_def Let_def)
    ultimately show ?thesis using d ok by (simp add: ht_get_map_of fun_eq_iff)
  qed
qed

text \<open>One operation of a client on the table.\<close>

fun ht_step :: "('k \<Rightarrow> u64) \<Rightarrow> (bool, 'k, 'v) map_op \<Rightarrow> ('k, 'v) hashtable \<Rightarrow> ('k, 'v) hashtable" where
  "ht_step hc (Upd avail k v) = ht_set hc avail k v"
| "ht_step hc (Del k) = (\<lambda>h. snd (ht_erase hc k h))"

interpretation ht: map_impl "ht_ok hc" "ht_get hc" "ht_set hc" "\<lambda>k h. snd (ht_erase hc k h)" "ht_step hc"
  for hc :: "'k \<Rightarrow> u64"
  by unfold_locales (simp_all add: ht_set_law ht_erase_law)

lemma ht_new_ok:
  assumes "ht_new avail bc = Inr ht" "0 < bc" "8 * unat bc < 2 ^ 64"
  shows "ht_ok hc ht \<and> ht_get hc ht = Map.empty"
proof -
  have "ht_ok hc ht" "concat (ht_t ht) = []"
    using assms unat_times8 [of bc] by (auto simp: ht_new_def ht_ok_def malloc_ok_def split: if_splits)
  then show ?thesis by (simp add: ht_get_map_of fun_eq_iff del: concat_eq_Nil_conv)
qed

lemma ht_size_card:
  assumes "ht_ok hc ht"
  shows "ht_s ht = of_nat (card (dom (ht_get hc ht)))"
proof -
  have "dom (ht_get hc ht) = fst ` set (concat (ht_t ht))"
    using assms by (simp add: ht_get_map_of dom_map_of_conv_image_fst [symmetric] dom_def del: set_concat)
  also have "card \<dots> = length (concat (ht_t ht))"
    using assms distinct_card [of "map fst (concat (ht_t ht))"] by (simp add: ht_ok_def del: set_concat)
  finally show ?thesis using assms by (simp add: ht_ok_def)
qed

text \<open>C2. the table is a finite map. After any sequence of \<open>set\<close> and \<open>erase\<close> on a new table, with
memory for growing present or not, \<open>get\<close> and \<open>contains\<close> answer as the map built by the same
updates, \<open>erase\<close> reports whether the key was there, and \<open>size\<close> is the number of keys.\<close>

theorem hashtable_is_map:
  assumes "ht_new avail bc = Inr ht0" "0 < bc" "8 * unat bc < 2 ^ 64"
    and h: "h = fold (ht_step hc) ops ht0" and m: "m = fold map_step ops Map.empty"
  shows "ht_get hc h = m \<and> ht_contains hc h k = (k \<in> dom m) \<and>
    fst (ht_erase hc k h) = (k \<in> dom m) \<and> ht_s h = of_nat (card (dom m))"
proof -
  have h: "ht_ok hc h" "ht_get hc h = m"
    using ht_new_ok [OF assms(1-3), of hc] ht.run_map [of hc ht0 ops] by (simp_all add: h m)
  then show ?thesis
    using ht_erase_law [OF h(1)] ht_size_card [OF h(1)]
    by (auto simp: ht_contains_def ht_get_def [symmetric])
qed

theorem hashtable_is_map_witness:
  "ht_get hc_u64 (fold (ht_step hc_u64) [Upd True 7 ''a'', Upd True 9 ''b'', Upd False 7 ''c'', Del 9]
     \<lparr>ht_t = [[]], ht_bc = 1, ht_s = 0\<rparr>) 7 = Some ''c''"
proof -
  have "(ht_new True 1 :: (u64, string) hashtable res) = Inr \<lparr>ht_t = [[]], ht_bc = 1, ht_s = 0\<rparr>"
    by (simp add: ht_new_def malloc_ok_def)
  from hashtable_is_map [OF this _ _ refl refl, of hc_u64 "[Upd True 7 ''a'', Upd True 9 ''b'', Upd False 7 ''c'', Del 9]"]
  show ?thesis by simp
qed

text \<open>The iterator walks what is left of the current list and then the following buckets.\<close>

definition ht_left :: "('k, 'v) hashtable \<Rightarrow> ('k, 'v) ht_iter \<Rightarrow> ('k \<times> 'v) list" where
  "ht_left ht it = it_b it @ concat (drop (Suc (it_idx it)) (ht_t ht))"

lemma ht_next_left:
  assumes "length (ht_t ht) = unat (ht_bc ht)"
  shows "(case ht_next ht it of None \<Rightarrow> ht_left ht it = [] | Some (e, it') \<Rightarrow> ht_left ht it = e # ht_left ht it')"
  using assms
proof (induction ht it rule: ht_next.induct)
  case (1 ht it)
  show ?case
  proof (cases "it_b it")
    case Nil
    show ?thesis
    proof (cases "it_idx it + 1 \<ge> unat (ht_bc ht)")
      case True
      with Nil "1.prems" show ?thesis by (simp add: ht_next.simps [of ht it] ht_left_def)
    next
      case False
      let ?j = "\<lparr>it_idx = it_idx it + 1, it_b = ht_t ht ! (it_idx it + 1)\<rparr>"
      have l: "ht_left ht it = ht_left ht ?j"
        using Nil False "1.prems" by (simp add: ht_left_def Cons_nth_drop_Suc [symmetric])
      have n: "ht_next ht it = ht_next ht ?j"
        using Nil False by (simp add: ht_next.simps [of ht it])
      from "1.IH" [OF Nil False "1.prems"] show ?thesis unfolding l n .
    qed
  next
    case (Cons e b)
    then show ?thesis by (simp add: ht_next.simps [of ht it] ht_left_def)
  qed
qed

lemma ht_collect_left:
  assumes "length (ht_t ht) = unat (ht_bc ht)" "length (ht_left ht it) \<le> n"
  shows "ht_collect ht n it = ht_left ht it"
  using assms(2)
proof (induction n arbitrary: it)
  case 0
  then show ?case by simp
next
  case (Suc n)
  show ?case
    using ht_next_left [OF assms(1), of it] Suc by (cases "ht_next ht it") auto
qed

lemma ht_iterate_all:
  assumes "ht_ok hc ht" "length (concat (ht_t ht)) \<le> n"
  shows "ht_collect ht n (ht_iterator ht) = concat (ht_t ht)"
proof -
  have "ht_left ht (ht_iterator ht) = concat (ht_t ht)"
    using assms(1) by (cases "ht_t ht") (auto simp: ht_left_def ht_iterator_def ht_ok_def word_gt_0 simp flip: unat_eq_0)
  with assms ht_collect_left [of ht "ht_iterator ht" n] show ?thesis by (simp add: ht_ok_def)
qed

text \<open>The count is zero only for the empty table, as long as it has not wrapped.\<close>

lemma ht_s_zero:
  assumes "ht_ok hc ht" "length (concat (ht_t ht)) < 2 ^ 64"
  shows "ht_s ht = 0 \<longleftrightarrow> concat (ht_t ht) = []"
proof -
  have "unat (ht_s ht) = length (concat (ht_t ht))"
    using assms by (simp add: ht_ok_def unat_of_nat)
  then show ?thesis by (metis length_0_conv unat_eq_zero)
qed

lemma ht_clear_law:
  assumes "ht_ok hc ht" "length (concat (ht_t ht)) < 2 ^ 64"
  shows "ht_ok hc (ht_clear ht) \<and> concat (ht_t (ht_clear ht)) = []"
proof (cases "ht_s ht = 0")
  case True
  with assms ht_s_zero [OF assms] show ?thesis by (simp add: ht_clear_def)
next
  case False
  then have "ht_clear ht = ht\<lparr>ht_t := map (\<lambda>_. []) (ht_t ht), ht_s := 0\<rparr>"
    by (simp add: ht_clear_def)
  moreover have c: "concat (map (\<lambda>_. []) (ht_t ht)) = []"
    by simp
  ultimately show ?thesis
    using assms(1) by (simp add: c ht_ok_def ht_placed_def del: concat_eq_Nil_conv)
qed

lemma ht_entries_all:
  assumes "ht_ok hc ht" "length (concat (ht_t ht)) < 2 ^ 64"
  shows "ht_entries ht = concat (ht_t ht)" "ht_keys ht = map fst (concat (ht_t ht))"
  using ht_s_zero [OF assms] by (simp_all add: ht_entries_def ht_keys_def)

lemma ht_copy_law:
  assumes ok: "ht_ok hc src" and c: "ht_copy avail src = Inr c"
  shows "ht_ok hc c \<and> ht_get hc c = ht_get hc src"
proof -
  have rv: "foldl (\<lambda>b e. e # b) [] = rev"
    by (simp add: fun_eq_iff rev_conv_fold foldl_conv_fold)
  have t: "c = src\<lparr>ht_t := map rev (ht_t src)\<rparr>"
    using c by (auto simp: ht_copy_def rv split: if_splits)
  have m: "mset (concat (ht_t c)) = mset (concat (ht_t src))"
  proof -
    have "mset (concat (map rev xss)) = mset (concat xss)" for xss :: "'c list list"
      by (induction xss) auto
    then show ?thesis by (simp add: t)
  qed
  have "length (concat (ht_t c)) = length (concat (ht_t src))"
    using m by (rule mset_eq_length)
  moreover have "ht_placed hc (ht_bc src) (ht_t c)"
    using ok by (simp add: t ht_ok_def ht_placed_def)
  ultimately have "ht_ok hc c"
    using ok distinct_fst_mset [OF m] by (simp add: ht_ok_def t)
  then show ?thesis
    using ok map_of_mset [OF m] by (simp add: ht_get_map_of fun_eq_iff ht_ok_def)
qed

lemma ht_assign_law:
  assumes ok: "ht_ok hc src" "length (concat (ht_t src)) < 2 ^ 64"
    and dst: "ht_ok hc dst" "length (concat (ht_t dst)) < 2 ^ 64"
  shows "ht_ok hc (ht_assign hc avail dst src) \<and> ht_get hc (ht_assign hc avail dst src) = ht_get hc src"
proof -
  note cl = ht_clear_law [OF dst]
  have e: "ht_get hc (ht_clear dst) = Map.empty"
    using cl by (simp add: ht_get_map_of fun_eq_iff del: concat_eq_Nil_conv)
  have "ht_assign hc avail dst src =
      fold (\<lambda>e. ht_set hc avail (fst e) (snd e)) (concat (ht_t src)) (ht_clear dst)"
    using ht_s_zero [OF ok] unfolding ht_assign_def Let_def foldl_foldl_concat
    by (simp add: foldl_conv_fold del: concat_eq_Nil_conv)
  moreover have "distinct (map fst (concat (ht_t src)))"
    using ok(1) by (simp add: ht_ok_def)
  moreover have "ht_get hc src = map_of (concat (ht_t src))"
    using ok(1) by (simp add: ht_get_map_of fun_eq_iff)
  ultimately show ?thesis
    using ht.update_all [OF conjunct1 [OF cl], of "concat (ht_t src)" avail] e by simp
qed

lemma ht_ref_law:
  assumes ok: "ht_ok hc ht"
  shows "case ht_ref hc avail v0 k ht of (v, h) \<Rightarrow>
       v = (case ht_get hc ht k of None \<Rightarrow> v0 | Some w \<Rightarrow> w) \<and> ht_ok hc h \<and>
       ht_get hc h = (ht_get hc ht)(k \<mapsto> v)"
proof (cases "ht_get hc ht k")
  case None
  note ins = ht_insert_law [OF ok None, of avail v0]
  have "map_of (concat (ht_t (ht_insert hc avail k v0 ht))) = (map_of (concat (ht_t ht)))(k \<mapsto> v0)"
    using ins by (intro map_of_add_mset) (simp_all add: ht_ok_def)
  with None ins ok show ?thesis
    by (simp add: ht_ref_def ht_get_def [symmetric] ht_get_map_of fun_eq_iff)
next
  case (Some v)
  with ok show ?thesis by (auto simp: ht_ref_def ht_get_def [symmetric])
qed

text \<open>the three ways to see the whole table agree with the map: \<open>entries\<close> lists each key once
with the value \<open>get\<close> finds, \<open>keys\<close> is its first column, and an iterator yields the same list and
then stops.\<close>

theorem hashtable_views:
  assumes "ht_ok hc ht" "length (concat (ht_t ht)) < 2 ^ 64" "length (concat (ht_t ht)) \<le> n"
  shows "map_of (ht_entries ht) = ht_get hc ht \<and> distinct (map fst (ht_entries ht)) \<and>
    ht_keys ht = map fst (ht_entries ht) \<and> ht_collect ht n (ht_iterator ht) = ht_entries ht"
  using assms ht_iterate_all [OF assms(1,3)] ht_entries_all [OF assms(1,2)]
  by (simp add: fun_eq_iff ht_get_map_of ht_ok_def)

definition ht_sample :: "(u32, u8) hashtable" where
  "ht_sample = \<lparr>ht_t = [[(4, 40)], [(3, 30), (1, 10)]], ht_bc = 2, ht_s = 3\<rparr>"

lemma ht_sample_ok: "ht_ok hc_u32 ht_sample"
proof -
  have "hc_u32 4 mod 2 = 0" "hc_u32 3 mod 2 = 1" "hc_u32 1 mod 2 = 1"
    by code_simp+
  then have "ht_placed hc_u32 2 [[(4, 40)], [(3, 30), (1, 10 :: u8)]]"
    by (auto simp: ht_placed_def ht_idx_def less_Suc_eq)
  then show ?thesis
    by (simp add: ht_ok_def ht_sample_def)
qed

theorem hashtable_views_witness:
  "ht_collect ht_sample 5 (ht_iterator ht_sample) = [(4, 40), (3, 30), (1, 10)]"
  using hashtable_views [OF ht_sample_ok, of 5] by (simp add: ht_sample_def ht_entries_def)

text \<open>the copy constructor and the assignment give a table with the same map (from a different
object; neither keeps the order of the entries), and \<open>operator[]\<close> returns the stored value or
stores the default one.\<close>

theorem hashtable_copies:
  assumes ok: "ht_ok hc src" "length (concat (ht_t src)) < 2 ^ 64"
    and dst: "ht_ok hc dst" "length (concat (ht_t dst)) < 2 ^ 64"
  shows "(\<forall>c. ht_copy avail src = Inr c \<longrightarrow> ht_ok hc c \<and> ht_get hc c = ht_get hc src) \<and>
    ht_ok hc (ht_assign hc avail dst src) \<and> ht_get hc (ht_assign hc avail dst src) = ht_get hc src \<and>
    (case ht_ref hc avail v0 k src of (v, h) \<Rightarrow>
       v = (case ht_get hc src k of None \<Rightarrow> v0 | Some w \<Rightarrow> w) \<and> ht_ok hc h \<and>
       ht_get hc h = (ht_get hc src)(k \<mapsto> v))"
proof (intro conjI allI impI)
  show "ht_ok hc c" "ht_get hc c = ht_get hc src" if "ht_copy avail src = Inr c" for c
    using ht_copy_law [OF ok(1) that] by auto
  show "ht_ok hc (ht_assign hc avail dst src)" "ht_get hc (ht_assign hc avail dst src) = ht_get hc src"
    using ht_assign_law [OF ok dst] by auto
  show "case ht_ref hc avail v0 k src of (v, h) \<Rightarrow>
       v = (case ht_get hc src k of None \<Rightarrow> v0 | Some w \<Rightarrow> w) \<and> ht_ok hc h \<and>
       ht_get hc h = (ht_get hc src)(k \<mapsto> v)"
    using ht_ref_law [OF ok(1)] .
qed

theorem hashtable_copies_witness:
  "ht_get hc_u32 (ht_assign hc_u32 True ht_sample ht_sample) 3 = Some 30"
proof -
  have "ht_get hc_u32 ht_sample 3 = Some 30"
    using ht_get_map_of [OF ht_sample_ok] by (simp add: ht_sample_def)
  moreover have "length (concat (ht_t ht_sample)) < 2 ^ 64"
    by (simp add: ht_sample_def)
  ultimately show ?thesis
    using hashtable_copies [OF ht_sample_ok _ ht_sample_ok, of True 0 3] by simp
qed

end
