(* ===== verification/Zt_Wire.thy ===== *)
theory Zt_Wire
  imports Zt_Address
begin

text \<open>
  The shapes in which the engine's serializers and parsers are written: \<open>ser_seq\<close> is a sequence of
  \<open>append\<close> calls, and the readers \<open>rd_at\<close>, \<open>rd_byte\<close>, \<open>rd_field\<close>, \<open>rd_addr\<close>, \<open>rd_skip\<close> are the
  idiom "read at \<open>p\<close>, then advance \<open>p\<close>", with the rest of the parser as their last argument.
  Two collections of rules carry every parser proof: \<open>wire_read\<close> (the field is there, the parser
  continues behind it) and \<open>wire_safe\<close> (on any input the parser throws or continues inside the
  array).
\<close>

section \<open>Writing\<close>

fun ser_seq :: "(buf \<Rightarrow> buf res) list \<Rightarrow> buf \<Rightarrow> buf res" where
  "ser_seq [] b = Inr b"
| "ser_seq (f # fs) b = res_bind (f b) (ser_seq fs)"

definition ser_when :: "bool \<Rightarrow> (buf \<Rightarrow> buf res) \<Rightarrow> buf \<Rightarrow> buf res" where
  "ser_when c f b = (if c then f b else Inr b)"

lemma appends_seq_Nil [wire_write]: "appends (ser_seq []) []"
proof -
  have "ser_seq [] = Inr" by (rule ext) simp
  then show ?thesis by (simp add: appends_Inr)
qed

lemma appends_seq_Cons [wire_write]:
  assumes "appends f xs" "appends (ser_seq fs) ys"
  shows "appends (ser_seq (f # fs)) (xs @ ys)"
proof -
  have "ser_seq (f # fs) = (\<lambda>b. res_bind (f b) (ser_seq fs))" by (rule ext) simp
  with appends_bind [OF assms] show ?thesis by simp
qed

lemma appends_when [wire_write]:
  assumes "c \<Longrightarrow> appends f xs"
  shows "appends (ser_when c f) (if c then xs else [])"
proof (cases c)
  case True
  then have "ser_when c f = f" by (intro ext) (simp add: ser_when_def)
  with assms True show ?thesis by simp
next
  case False
  then have "ser_when c f = Inr" by (intro ext) (simp add: ser_when_def)
  with False show ?thesis by (simp add: appends_Inr)
qed

text \<open>A writer and the bytes it leaves in a fresh buffer, as the signing code uses it.\<close>

definition ser_bytes :: "(buf \<Rightarrow> buf res) \<Rightarrow> bytes \<Rightarrow> bytes res" where
  "ser_bytes f mem = res_bind (f (buf_new mem)) (\<lambda>b. Inr (b_content b))"

lemma ser_bytes_appends:
  assumes "appends f bs" "length bs \<le> length mem" "length mem < 2 ^ 31"
  shows "ser_bytes f mem = Inr bs"
proof -
  have ok: "buf_ok (buf_new mem)" "unat (b_len (buf_new mem)) + length bs \<le> b_cap (buf_new mem)"
    using assms(2,3) by (simp_all add: buf_new_def buf_ok_def b_cap_def)
  from appendsD [OF assms(1) this] show ?thesis
    by (auto simp: ser_bytes_def buf_new_def b_content_def)
qed

section \<open>Reading\<close>

definition rd_at :: "buf \<Rightarrow> u32 \<Rightarrow> ('a::len word \<Rightarrow> u32 \<Rightarrow> 'b res) \<Rightarrow> 'b res" where
  "rd_at b p k = res_bind (buf_at b p) (\<lambda>v. k v (p + of_nat (LENGTH('a) div 8)))"

definition rd_byte :: "buf \<Rightarrow> u32 \<Rightarrow> (u8 \<Rightarrow> u32 \<Rightarrow> 'b res) \<Rightarrow> 'b res" where
  "rd_byte b p k = res_bind (buf_get b p) (\<lambda>v. k v (p + 1))"

definition rd_field :: "buf \<Rightarrow> u32 \<Rightarrow> u32 \<Rightarrow> (bytes \<Rightarrow> u32 \<Rightarrow> 'b res) \<Rightarrow> 'b res" where
  "rd_field b p l k = res_bind (buf_field b p l) (\<lambda>bs. k bs (p + l))"

definition rd_addr :: "buf \<Rightarrow> u32 \<Rightarrow> (address \<Rightarrow> u32 \<Rightarrow> 'b res) \<Rightarrow> 'b res" where
  "rd_addr b p k =
     res_bind (buf_field b p 5) (\<lambda>bs. res_bind (addr_setTo bs 5) (\<lambda>a. k a (p + 5)))"

definition rd_skip :: "buf \<Rightarrow> u32 \<Rightarrow> (u32 \<Rightarrow> 'b res) \<Rightarrow> 'b res" where
  "rd_skip b p k = res_bind (buf_at b p :: u16 res) (\<lambda>n. k (p + (2 + ucast n)))"

named_theorems wire_read \<open>a reader in front of its field\<close>

lemma rd_at_8 [wire_read]:
  assumes "buf_ok b" "has b p (word_bytes_be (v::u8) @ r)" "has b (p + 1) r \<Longrightarrow> k v (p + 1) = R"
  shows "rd_at b p k = R"
  using assms(3) has_step8_at [OF assms(1,2)] by (simp add: rd_at_def)

lemma rd_at_16 [wire_read]:
  assumes "buf_ok b" "has b p (word_bytes_be (v::u16) @ r)" "has b (p + 2) r \<Longrightarrow> k v (p + 2) = R"
  shows "rd_at b p k = R"
  using assms(3) has_step16 [OF assms(1,2)] by (simp add: rd_at_def)

lemma rd_at_32 [wire_read]:
  assumes "buf_ok b" "has b p (word_bytes_be (v::u32) @ r)" "has b (p + 4) r \<Longrightarrow> k v (p + 4) = R"
  shows "rd_at b p k = R"
  using assms(3) has_step32 [OF assms(1,2)] by (simp add: rd_at_def)

lemma rd_at_64 [wire_read]:
  assumes "buf_ok b" "has b p (word_bytes_be (v::u64) @ r)" "has b (p + 8) r \<Longrightarrow> k v (p + 8) = R"
  shows "rd_at b p k = R"
  using assms(3) has_step64 [OF assms(1,2)] by (simp add: rd_at_def)

lemma word_bytes_be_8 [simp]: "word_bytes_be (v::u8) = [v]"
  by (simp add: word_bytes_be_def)

lemma rd_byte_law [wire_read]:
  assumes "buf_ok b" "has b p ([v] @ r)" "has b (p + 1) r \<Longrightarrow> k v (p + 1) = R"
  shows "rd_byte b p k = R"
  using assms(3) has_step8 [OF assms(1,2)] by (simp add: rd_byte_def)

lemma rd_field_law [wire_read]:
  assumes "buf_ok b" "has b p (bs @ r)" "l = of_nat (length bs)" "has b (p + l) r \<Longrightarrow> k bs (p + l) = R"
  shows "rd_field b p l k = R"
  using assms(4) has_step_field [OF assms(1-3)] by (simp add: rd_field_def)

lemma rd_addr_law [wire_read]:
  assumes "buf_ok b" "has b p (addr_bytes a @ r)" "addr_ok a" "has b (p + 5) r \<Longrightarrow> k a (p + 5) = R"
  shows "rd_addr b p k = R"
  using assms(4) has_step_field [OF assms(1,2), of 5] addr_roundtrip [OF assms(3), of "[]"]
  by (simp add: rd_addr_def)

lemma rd_skip_law [wire_read]:
  assumes "buf_ok b" "has b p (word_bytes_be (0::u16) @ r)" "has b (p + 2) r \<Longrightarrow> k (p + 2) = R"
  shows "rd_skip b p k = R"
  using assms(3) has_step16 [OF assms(1,2)] by (simp add: rd_skip_def)

section \<open>Robustness\<close>

text \<open>
  Positions a parser can reach: behind the array by at most one skipped field of 65535 bytes, so
  that no 32-bit sum in a bounds check wraps.
\<close>

definition pos_ok :: "u32 \<Rightarrow> bool" where
  "pos_ok p \<longleftrightarrow> unat p < 2 ^ 31 + 2 ^ 17"

text \<open>The result is an exception, or a value that satisfies \<open>Q\<close>; never undefined.\<close>

definition res_all :: "('a \<Rightarrow> bool) \<Rightarrow> 'a res \<Rightarrow> bool" where
  "res_all Q r = (case r of Inl e \<Rightarrow> e \<noteq> UndefinedBehaviour | Inr x \<Rightarrow> Q x)"

lemma res_all_simps [simp]: "res_all Q (Inl e) \<longleftrightarrow> e \<noteq> UndefinedBehaviour" "res_all Q (Inr x) \<longleftrightarrow> Q x"
  by (simp_all add: res_all_def)

lemma res_all_not_ub: "res_all Q r \<Longrightarrow> \<not> is_ub r"
  by (cases r; cases "projl r") (auto simp: res_all_def)

lemma res_all_Inr: "res_all Q r \<Longrightarrow> r = Inr x \<Longrightarrow> Q x"
  by simp

lemma res_all_mono: "res_all P r \<Longrightarrow> (\<And>x. P x \<Longrightarrow> Q x) \<Longrightarrow> res_all Q r"
  by (cases r) auto

lemma pos_ok_le: "buf_ok b \<Longrightarrow> unat p \<le> unat (b_len b) \<Longrightarrow> pos_ok p"
  by (simp add: pos_ok_def buf_ok_def)

named_theorems wire_safe \<open>a reader on any input\<close>

lemma rd_at_safe [wire_safe]:
  assumes ok: "buf_ok b" and k: "\<And>v q. unat q \<le> unat (b_len b) \<Longrightarrow> pos_ok q \<Longrightarrow> res_all Q (k (v::'a::len word) q)"
  shows "res_all Q (rd_at b p k)"
proof (cases "unat p + LENGTH('a) div 8 > unat (b_len b)")
  case True
  then show ?thesis by (simp add: rd_at_def buf_at_def)
next
  case False
  then have le: "unat p + LENGTH('a) div 8 \<le> unat (b_len b)" by simp
  have "unat (b_len b) < 2 ^ 31" using ok by (simp add: buf_ok_def)
  with le have "unat (p + of_nat (LENGTH('a) div 8)) = unat p + LENGTH('a) div 8"
    by (subst unat_add_nowrap) (simp_all add: word_nat)
  with le have q: "unat (p + of_nat (LENGTH('a) div 8)) \<le> unat (b_len b)" by simp
  from at_total [OF ok, of p, where 'a = 'a] show ?thesis
    using k [OF q pos_ok_le [OF ok q]] by (auto simp: rd_at_def)
qed

lemma rd_byte_safe [wire_safe]:
  assumes ok: "buf_ok b" and k: "\<And>v q. unat q \<le> unat (b_len b) \<Longrightarrow> pos_ok q \<Longrightarrow> res_all Q (k v q)"
  shows "res_all Q (rd_byte b p k)"
proof (cases "p \<ge> b_len b")
  case True
  then show ?thesis by (simp add: rd_byte_def buf_get_def)
next
  case False
  then have lt: "unat p < unat (b_len b)" by (simp add: word_less_nat_alt not_le)
  have "unat (b_len b) < 2 ^ 31" using ok by (simp add: buf_ok_def)
  with lt have "unat (p + 1) = unat p + 1"
    by (subst unat_add_nowrap) simp_all
  with lt have q: "unat (p + 1) \<le> unat (b_len b)" by simp
  from get_total [OF ok, of p] show ?thesis
    using k [OF q pos_ok_le [OF ok q]] by (auto simp: rd_byte_def)
qed

lemma field_safe:
  assumes ok: "buf_ok b" and p: "pos_ok p" and l: "unat l < 2 ^ 30"
  shows "buf_field b p l = Inl OutOfBounds \<or>
    (\<exists>xs. buf_field b p l = Inr xs \<and> length xs = unat l \<and> unat (p + l) \<le> unat (b_len b))"
proof (cases "p + l > b_len b")
  case True
  then show ?thesis by (simp add: buf_field_def)
next
  case False
  have s: "unat (p + l) = unat p + unat l"
    using p l by (intro unat_add_nowrap) (simp add: pos_ok_def)
  from False have q: "unat (p + l) \<le> unat (b_len b)" by (simp add: word_le_nat_alt not_less)
  with s ok have "unat p + unat l \<le> length (b_data b)" by (simp add: buf_ok_def b_cap_def)
  with False q show ?thesis by (simp add: buf_field_def mem_get_def)
qed

lemma rd_field_safe [wire_safe]:
  assumes ok: "buf_ok b" and p: "pos_ok p" and l: "unat l < 2 ^ 30"
    and k: "\<And>bs q. length bs = unat l \<Longrightarrow> unat q \<le> unat (b_len b) \<Longrightarrow> pos_ok q \<Longrightarrow> res_all Q (k bs q)"
  shows "res_all Q (rd_field b p l k)"
  using field_safe [OF ok p l] k pos_ok_le [OF ok] by (auto simp: rd_field_def)

lemma rd_addr_safe [wire_safe]:
  assumes ok: "buf_ok b" and p: "pos_ok p"
    and k: "\<And>a q. addr_ok a \<Longrightarrow> unat q \<le> unat (b_len b) \<Longrightarrow> pos_ok q \<Longrightarrow> res_all Q (k a q)"
  shows "res_all Q (rd_addr b p k)"
proof -
  have l: "unat (5 :: u32) < 2 ^ 30" by simp
  have "\<exists>a. addr_setTo bs 5 = Inr a \<and> addr_ok a" if "length bs = 5" for bs
  proof -
    have "take_bit 40 (be_word bs :: u64) = be_word bs"
      using that by (intro bit_word_eqI) (auto simp: bit_simps bit_be_word)
    with that show ?thesis by (simp add: addr_setTo_bytes addr_ok_take)
  qed
  with field_safe [OF ok p l] k pos_ok_le [OF ok] show ?thesis
    by (fastforce simp: rd_addr_def)
qed

lemma rd_skip_safe [wire_safe]:
  assumes ok: "buf_ok b" and k: "\<And>q. pos_ok q \<Longrightarrow> res_all Q (k q)"
  shows "res_all Q (rd_skip b p k)"
proof (cases "unat p + 2 > unat (b_len b)")
  case True
  then show ?thesis by (simp add: rd_skip_def buf_at_def)
next
  case False
  have len: "unat (b_len b) < 2 ^ 31" using ok by (simp add: buf_ok_def)
  have "pos_ok (p + (2 + ucast n))" for n :: u16
  proof -
    have n: "unat (ucast n :: u32) < 2 ^ 16"
      using unat_bounds(2) [of n] by (simp add: unsigned_ucast_eq take_bit_eq_mod)
    then have "unat (2 + ucast n :: u32) = 2 + unat (ucast n :: u32)"
      by (subst unat_add_nowrap) simp_all
    moreover have "unat (p + (2 + ucast n)) = unat p + unat (2 + ucast n :: u32)"
      using False len n calculation by (intro unat_add_nowrap) simp
    ultimately show ?thesis using False len n by (simp add: pos_ok_def)
  qed
  with at_total [OF ok, of p, where 'a = 16] k show ?thesis
    by (auto simp: rd_skip_def)
qed

lemma if_safe [wire_safe]:
  "(c \<Longrightarrow> res_all Q x) \<Longrightarrow> (\<not> c \<Longrightarrow> res_all Q y) \<Longrightarrow> res_all Q (if c then x else y)"
  by simp

lemma Inr_safe [wire_safe]: "Q x \<Longrightarrow> res_all Q (Inr x)"
  by simp

lemma bind_safe:
  "res_all P m \<Longrightarrow> (\<And>x. P x \<Longrightarrow> res_all Q (f x)) \<Longrightarrow> res_all Q (res_bind m f)"
  by (cases m) auto

lemma wr_safe [wire_safe]:
  "i < length a \<Longrightarrow> (\<And>a'. length a' = length a \<Longrightarrow> res_all Q (f a')) \<Longrightarrow> res_all Q (res_bind (wr a i v) f)"
  by simp

lemma Inl_safe [wire_safe]: "e \<noteq> UndefinedBehaviour \<Longrightarrow> res_all Q (Inl e)"
  by simp

end
