(* ===== verification/Zt_Identity.thy ===== *)
theory Zt_Identity
  imports Zt_Wire
begin

text \<open>
  \<^verbatim>\<open>node/Identity.hpp\<close> and \<^verbatim>\<open>node/Identity.cpp\<close>: a node's address with its public key and, for the
  local node, the private key. The elliptic-curve operations of \<^verbatim>\<open>node/C25519.cpp\<close> and the
  memory-hard hash are a parameter, the record \<open>crypto\<close>; \<open>signs_for\<close> states what is relied on: a
  signature made with a key pair verifies under its public key.
\<close>

section \<open>The code\<close>

record crypto =
  cr_sign :: "bytes \<Rightarrow> bytes \<Rightarrow> bytes \<Rightarrow> bytes"
  cr_verify :: "bytes \<Rightarrow> bytes \<Rightarrow> bytes \<Rightarrow> bool"
  cr_agree :: "bytes \<Rightarrow> bytes \<Rightarrow> nat \<Rightarrow> bytes"
  cr_memhash :: "bytes \<Rightarrow> bytes"

record identity =
  id_address :: address
  id_publicKey :: bytes
  id_privateKey :: "bytes option"

definition id_valid :: "identity \<Rightarrow> bool" where
  "id_valid i \<longleftrightarrow> id_address i \<noteq> Address 0"

definition id_hasPrivate :: "identity \<Rightarrow> bool" where
  "id_hasPrivate i \<longleftrightarrow> id_privateKey i \<noteq> None"

definition id_sign :: "crypto \<Rightarrow> identity \<Rightarrow> bytes \<Rightarrow> bytes res" where
  "id_sign C i data =
     (case id_privateKey i of
        Some k \<Rightarrow> Inr (cr_sign C k (id_publicKey i) data)
      | None \<Rightarrow> Inl PrivateKeyRequired)"

definition id_verify_len :: "crypto \<Rightarrow> identity \<Rightarrow> bytes \<Rightarrow> bytes \<Rightarrow> u32 \<Rightarrow> bool" where
  "id_verify_len C i data sig siglen =
     (if siglen \<noteq> 96 then False else cr_verify C (id_publicKey i) data sig)"

definition id_verify :: "crypto \<Rightarrow> identity \<Rightarrow> bytes \<Rightarrow> bytes \<Rightarrow> bool" where
  "id_verify C i data sig = cr_verify C (id_publicKey i) data sig"

definition id_agree :: "crypto \<Rightarrow> identity \<Rightarrow> identity \<Rightarrow> nat \<Rightarrow> bytes option" where
  "id_agree C i other klen =
     (case id_privateKey i of
        Some k \<Rightarrow> Some (cr_agree C k (id_publicKey other) klen)
      | None \<Rightarrow> None)"

definition id_locallyValidate :: "crypto \<Rightarrow> identity \<Rightarrow> bool" where
  "id_locallyValidate C i =
     (if addr_isReserved (id_address i) then False
      else let digest = cr_memhash C (id_publicKey i); addrb = addr_bytes (id_address i) in
        digest ! 0 < 17 \<and> digest ! 59 = addrb ! 0 \<and> digest ! 60 = addrb ! 1 \<and>
        digest ! 61 = addrb ! 2 \<and> digest ! 62 = addrb ! 3 \<and> digest ! 63 = addrb ! 4)"

definition id_serialize :: "bool \<Rightarrow> identity \<Rightarrow> buf \<Rightarrow> buf res" where
  "id_serialize includePrivate i =
     ser_seq
      [addr_appendTo (id_address i),
       buf_append (0 :: u8),
       buf_append_bytes (id_publicKey i) 64,
       (case id_privateKey i of
          Some k \<Rightarrow>
            if includePrivate then ser_seq [buf_append (64 :: u8), buf_append_bytes k 64]
            else buf_append (0 :: u8)
        | None \<Rightarrow> buf_append (0 :: u8))]"

definition id_deserialize :: "buf \<Rightarrow> u32 \<Rightarrow> (identity \<times> u32) res" where
  "id_deserialize b startAt =
     rd_addr b startAt (\<lambda>address p.
     rd_byte b p (\<lambda>t p.
     if t \<noteq> 0 then Inl InvalidType
     else
       rd_field b p 64 (\<lambda>pub p.
       rd_byte b p (\<lambda>privateKeyLength p.
       if privateKeyLength \<noteq> 0 then
         if privateKeyLength \<noteq> 64 then Inl InvalidCryptographicToken
         else rd_field b p 64 (\<lambda>priv p.
           Inr (\<lparr>id_address = address, id_publicKey = pub, id_privateKey = Some priv\<rparr>, p - startAt))
       else Inr (\<lparr>id_address = address, id_publicKey = pub, id_privateKey = None\<rparr>, p - startAt)))))"

definition id_toString :: "bool \<Rightarrow> identity \<Rightarrow> bytes" where
  "id_toString includePrivate i =
     hex10 (addr_toInt (id_address i)) @ [58, 48, 58] @ hexbytes (id_publicKey i) @
     (case id_privateKey i of
        Some k \<Rightarrow> if includePrivate then 58 # hexbytes k else []
      | None \<Rightarrow> [])"

text \<open>\<open>strtok_r\<close> with one delimiter: the next token and what \<open>saveptr\<close> points to afterwards.\<close>

definition c_strtok :: "u8 \<Rightarrow> bytes \<Rightarrow> (bytes \<times> bytes) option" where
  "c_strtok d s =
     (let t = dropWhile (\<lambda>c. c = d) s in
      if t = [] then None
      else Some (takeWhile (\<lambda>c. c \<noteq> d) t, drop 1 (dropWhile (\<lambda>c. c \<noteq> d) t)))"

lemma c_strtok_length: "c_strtok d s = Some (f, s') \<Longrightarrow> length s' < length s"
proof -
  assume a: "c_strtok d s = Some (f, s')"
  let ?t = "dropWhile (\<lambda>c. c = d) s"
  have "?t \<noteq> []" "s' = drop 1 (dropWhile (\<lambda>c. c \<noteq> d) ?t)"
    using a by (auto simp: c_strtok_def Let_def split: if_splits)
  then have "length s' < length ?t"
    using length_dropWhile_le [of "\<lambda>c. c \<noteq> d" ?t] by (cases ?t) auto
  with length_dropWhile_le [of "\<lambda>c. c = d" s] show ?thesis by linarith
qed

text \<open>
  The field loop of \<open>fromString\<close>: success with the number of fields and the object, or failure with
  the object as it is left (its address zeroed). \<open>privmem\<close> is the fresh private key.
\<close>

definition id_fail :: "identity \<Rightarrow> identity" where
  "id_fail i = i\<lparr>id_address := Address 0\<rparr>"

function id_fields :: "bytes \<Rightarrow> nat \<Rightarrow> bytes \<Rightarrow> identity \<Rightarrow> (bool \<times> nat \<times> identity) res" where
  "id_fields privmem fno s i =
     (case c_strtok 58 s of
        None \<Rightarrow> Inr (True, fno, i)
      | Some (f, s') \<Rightarrow>
          if fno = 0 then
            let i1 = i\<lparr>id_address := addr_new (hexStrToU64 f)\<rparr> in
            if addr_isReserved (id_address i1) then Inr (False, fno + 1, id_fail i1)
            else id_fields privmem (fno + 1) s' i1
          else if fno = 1 then
            if f \<noteq> [48] then Inr (False, fno + 1, id_fail i)
            else id_fields privmem (fno + 1) s' i
          else if fno = 2 then
            res_bind (unhex f (id_publicKey i) 64) (\<lambda>(n, pub).
            let i1 = i\<lparr>id_publicKey := pub\<rparr> in
            if n \<noteq> 64 then Inr (False, fno + 1, id_fail i1)
            else id_fields privmem (fno + 1) s' i1)
          else if fno = 3 then
            res_bind (unhex f privmem 64) (\<lambda>(n, priv).
            let i1 = i\<lparr>id_privateKey := Some priv\<rparr> in
            if n \<noteq> 64 then Inr (False, fno + 1, id_fail i1)
            else id_fields privmem (fno + 1) s' i1)
          else Inr (False, fno + 1, id_fail i))"
  by auto

termination id_fields
  by (relation "measure (\<lambda>(privmem, fno, s, i). length s)") (auto dest: c_strtok_length)

declare id_fields.simps [simp del]

definition id_fromString :: "bytes \<Rightarrow> bytes \<Rightarrow> bytes option \<Rightarrow> identity \<Rightarrow> (bool \<times> identity) res" where
  "id_fromString tmp privmem str i =
     (if str = None then Inr (False, id_fail i)
      else res_bind (scopy tmp 384 str) (\<lambda>(ok, t).
        if \<not> ok then Inr (False, id_fail i)
        else res_bind (id_fields privmem 0 (cstr t) (i\<lparr>id_privateKey := None\<rparr>)) (\<lambda>(ok, fno, i1).
          if \<not> ok then Inr (False, i1)
          else if fno < 3 then Inr (False, id_fail i1)
          else Inr (True, i1))))"

definition id_eq :: "identity \<Rightarrow> identity \<Rightarrow> bool" where
  "id_eq i j \<longleftrightarrow> id_address i = id_address j \<and> memcmp (id_publicKey i) (id_publicKey j) = 0"

definition id_less :: "identity \<Rightarrow> identity \<Rightarrow> bool" where
  "id_less i j \<longleftrightarrow>
     id_address i < id_address j \<or>
     id_address i = id_address j \<and> memcmp (id_publicKey i) (id_publicKey j) < 0"

section \<open>Well-formed identities\<close>

definition id_ok :: "identity \<Rightarrow> bool" where
  "id_ok i \<longleftrightarrow>
     addr_ok (id_address i) \<and> length (id_publicKey i) = 64 \<and>
     (\<forall>k. id_privateKey i = Some k \<longrightarrow> length k = 64)"

definition id_public :: "identity \<Rightarrow> identity" where
  "id_public i = i\<lparr>id_privateKey := None\<rparr>"

definition id_enc :: "identity \<Rightarrow> bytes" where
  "id_enc i =
     addr_bytes (id_address i) @ [0] @ id_publicKey i @
     (case id_privateKey i of Some k \<Rightarrow> [64] @ k | None \<Rightarrow> [0])"

text \<open>A signature made by a holder of the private key verifies.\<close>

definition signs_for :: "crypto \<Rightarrow> identity \<Rightarrow> bool" where
  "signs_for C i \<longleftrightarrow>
     (\<forall>k m. id_privateKey i = Some k \<longrightarrow>
        length (cr_sign C k (id_publicKey i) m) = 96 \<and>
        cr_verify C (id_publicKey i) m (cr_sign C k (id_publicKey i) m))"

section \<open>The binary form\<close>

lemma id_serialize_appends:
  assumes "id_ok i"
  shows "appends (id_serialize True i) (id_enc i)"
proof -
  have key: "appends (case id_privateKey i of
          Some k \<Rightarrow> if True then ser_seq [buf_append (64 :: u8), buf_append_bytes k 64] else buf_append (0 :: u8)
        | None \<Rightarrow> buf_append (0 :: u8))
      (case id_privateKey i of Some k \<Rightarrow> [64] @ k | None \<Rightarrow> [0])"
  proof (cases "id_privateKey i")
    case None
    then show ?thesis using appends_buf_append [of "0 :: u8"] by simp
  next
    case (Some k)
    then have "length k = 64" using assms by (simp add: id_ok_def)
    then have "appends (ser_seq [buf_append (64 :: u8), buf_append_bytes k 64]) (word_bytes_be (64 :: u8) @ k @ [])"
      by (intro wire_write) simp_all
    with Some show ?thesis by simp
  qed
  have "appends (id_serialize True i) (addr_bytes (id_address i) @ word_bytes_be (0 :: u8) @ id_publicKey i @
      (case id_privateKey i of Some k \<Rightarrow> [64] @ k | None \<Rightarrow> [0]) @ [])"
    unfolding id_serialize_def using assms by (intro wire_write key) (simp_all add: id_ok_def)
  then show ?thesis by (simp add: id_enc_def)
qed

lemma id_serialize_public: "id_serialize False i = id_serialize True (id_public i)"
  by (simp add: id_serialize_def id_public_def split: option.split)

lemma id_deserialize_enc:
  assumes "id_ok i" "buf_ok b" "has b p (id_enc i)"
  shows "id_deserialize b p = Inr (i, of_nat (length (id_enc i)))"
proof -
  have ok: "addr_ok (id_address i)" "length (id_publicKey i) = 64" using assms(1) by (simp_all add: id_ok_def)
  show ?thesis
  proof (cases "id_privateKey i")
    case None
    then have h: "has b p (addr_bytes (id_address i) @ [0] @ id_publicKey i @ [0] @ [])"
      using assms(3) by (simp add: id_enc_def)
    have i: "i = \<lparr>id_address = id_address i, id_publicKey = id_publicKey i, id_privateKey = None\<rparr>"
      using None by (cases i) simp
    show ?thesis unfolding id_deserialize_def
      apply (rule rd_addr_law [OF assms(2) h ok(1)])
      apply (rule rd_byte_law [OF assms(2)], assumption)
      apply (simp only: not_True_eq_False if_False simp_thms)
      apply (rule rd_field_law [OF assms(2)], assumption, simp add: ok)
      apply (rule rd_byte_law [OF assms(2)], assumption)
      using i None ok by (simp add: id_enc_def)
  next
    case (Some k)
    have k: "length k = 64" using Some assms(1) by (simp add: id_ok_def)
    have h: "has b p (addr_bytes (id_address i) @ [0] @ id_publicKey i @ [64] @ k @ [])"
      using assms(3) Some by (simp add: id_enc_def)
    have i: "i = \<lparr>id_address = id_address i, id_publicKey = id_publicKey i, id_privateKey = Some k\<rparr>"
      using Some by (cases i) simp
    show ?thesis unfolding id_deserialize_def
      apply (rule rd_addr_law [OF assms(2) h ok(1)])
      apply (rule rd_byte_law [OF assms(2)], assumption)
      apply (simp only: not_True_eq_False if_False simp_thms)
      apply (rule rd_field_law [OF assms(2)], assumption, simp add: ok)
      apply (rule rd_byte_law [OF assms(2)], assumption)
      apply simp
      apply (rule rd_field_law [OF assms(2), where bs = k and r = "[]"], simp, simp add: k)
      using i Some ok k by (simp add: id_enc_def)
  qed
qed

lemma id_deserialize_safe: "buf_ok b \<Longrightarrow> pos_ok p \<Longrightarrow> \<not> is_ub (id_deserialize b p)"
  unfolding id_deserialize_def
  by (rule res_all_not_ub [where Q = "\<lambda>_. True"]) (intro wire_safe; simp)

interpretation id_wire: wire_format id_ok id_enc "id_serialize True" id_deserialize
  by unfold_locales (simp_all add: id_serialize_appends id_deserialize_enc)

section \<open>The text form\<close>

lemma c_strtok_Nil [simp]: "c_strtok d [] = None"
  by (simp add: c_strtok_def)

lemma c_strtok_tok:
  assumes "f \<noteq> []" "d \<notin> set f"
  shows "c_strtok d (f @ d # s) = Some (f, s)" "c_strtok d f = Some (f, [])"
proof -
  have dw: "dropWhile (\<lambda>c. c = d) (f @ d # s) = f @ d # s" "dropWhile (\<lambda>c. c = d) f = f"
    using assms by (cases f; auto)+
  have tw: "takeWhile (\<lambda>c. c \<noteq> d) (f @ d # s) = f" "dropWhile (\<lambda>c. c \<noteq> d) (f @ d # s) = d # s"
    "takeWhile (\<lambda>c. c \<noteq> d) f = f" "dropWhile (\<lambda>c. c \<noteq> d) f = []"
    using assms(2) by (auto simp: takeWhile_append dropWhile_append takeWhile_eq_all_conv)
  from assms(1) show "c_strtok d (f @ d # s) = Some (f, s)" "c_strtok d f = Some (f, [])"
    unfolding c_strtok_def Let_def dw tw by simp_all
qed

lemma hexchar_plain: "hexchar x \<noteq> 58" "hexchar x \<noteq> 0"
proof -
  have "unat (x AND 0xf) < length HEXCHARS" by (simp add: unat_and_15 HEXCHARS_def)
  then have "hexchar x \<in> set HEXCHARS" by (simp add: hexchar_def)
  moreover have "58 \<notin> set HEXCHARS" "0 \<notin> set HEXCHARS" by code_simp+
  ultimately show "hexchar x \<noteq> 58" "hexchar x \<noteq> 0" by metis+
qed

lemma hexbytes_plain: "58 \<notin> set (hexbytes d)" "0 \<notin> set (hexbytes d)" "length (hexbytes d) = 2 * length d"
  using hexchar_plain by (induction d) (auto simp: hexbytes_Cons hexbytes_def)

lemma hex10_plain: "58 \<notin> set (hex10 i)" "0 \<notin> set (hex10 i)" "length (hex10 i) = 10"
  using hexchar_plain by (auto simp: hex10_def)

lemma hexbytes_Nil_iff [simp]: "hexbytes d = [] \<longleftrightarrow> d = []"
  using hexbytes_plain(3) [of d] by auto

lemma unhex_hexbytes_all: "length d = n \<Longrightarrow> length buf = n \<Longrightarrow> unhex (hexbytes d) buf n = Inr (n, d)"
  by (simp add: unhex_def unhex_loop_hexbytes)

lemma id_fields_text:
  assumes "id_ok i" "\<not> addr_isReserved (id_address i)" "length (id_publicKey j) = 64" "length privmem = 64"
  shows "id_fields privmem 0 (id_toString True i) (j\<lparr>id_privateKey := None\<rparr>) =
    Inr (True, if id_privateKey i = None then 3 else 4, i)"
proof -
  have ok: "addr_ok (id_address i)" "length (id_publicKey i) = 64" using assms(1) by (simp_all add: id_ok_def)
  have ne: "hexbytes (id_publicKey i) \<noteq> []" using ok(2) by auto
  have a: "addr_new (hexStrToU64 (hex10 (addr_toInt (id_address i)))) = id_address i"
    using ok(1) by (simp add: hexStrToU64_hex10 addr_new_def and_mask40 addr_ok_take address.expand)
  have h10: "hex10 (addr_toInt (id_address i)) \<noteq> []"
    using hex10_plain(3) [of "addr_toInt (id_address i)"] by auto
  define s2 where "s2 = hexbytes (id_publicKey i) @
     (case id_privateKey i of Some k \<Rightarrow> 58 # hexbytes k | None \<Rightarrow> [])"
  have t: "id_toString True i = hex10 (addr_toInt (id_address i)) @ 58 # [48] @ 58 # s2"
    by (simp add: id_toString_def s2_def cong: option.case_cong)
  have s0: "id_fields privmem 0 (id_toString True i) (j\<lparr>id_privateKey := None\<rparr>) =
      id_fields privmem 2 s2 (j\<lparr>id_privateKey := None, id_address := id_address i\<rparr>)"
    using assms(2) unfolding t
    by (simp add: id_fields.simps [of privmem 0] id_fields.simps [of privmem "Suc 0"] numeral_2_eq_2
        c_strtok_tok(1) [OF h10 hex10_plain(1)] c_strtok_tok(1) [of "[48]" 58 s2, simplified] a)
  show ?thesis
  proof (cases "id_privateKey i")
    case None
    then have "i = j\<lparr>id_privateKey := None, id_address := id_address i, id_publicKey := id_publicKey i\<rparr>"
      by (cases i) (cases j, simp)
    then show ?thesis
      using None assms ok
      by (simp add: s0 s2_def id_fields.simps [of privmem 2] id_fields.simps [of privmem 3]
          c_strtok_tok(2) [OF ne hexbytes_plain(1)] unhex_hexbytes_all)
  next
    case (Some k)
    have k: "length k = 64" using Some assms(1) by (simp add: id_ok_def)
    then have nk: "hexbytes k \<noteq> []" by auto
    have "i = j\<lparr>id_privateKey := Some k, id_address := id_address i, id_publicKey := id_publicKey i\<rparr>"
      using Some by (cases i) (cases j, simp)
    then show ?thesis
      using Some assms ok k
      by (simp add: s0 s2_def id_fields.simps [of privmem 2] id_fields.simps [of privmem 3] id_fields.simps [of privmem 4]
          c_strtok_tok(1) [OF ne hexbytes_plain(1)] c_strtok_tok(2) [OF nk hexbytes_plain(1)] unhex_hexbytes_all)
  qed
qed

lemma id_toString_plain:
  assumes "id_ok i"
  shows "0 \<notin> set (id_toString b i)" "length (id_toString b i) < 384"
  using assms hexbytes_plain hex10_plain by (auto simp: id_toString_def id_ok_def split: option.splits)

lemma id_toString_public: "id_toString False i = id_toString True (id_public i)"
  by (simp add: id_toString_def id_public_def split: option.splits)

lemma id_fromString_toString:
  assumes i: "id_ok i" "\<not> addr_isReserved (id_address i)"
    and len: "length (id_publicKey j) = 64" "length privmem = 64" "length tmp = 384"
  shows "id_fromString tmp privmem (Some (id_toString True i)) j = Inr (True, i)"
proof -
  note pl = id_toString_plain [OF i(1), of True]
  have "scopy tmp 384 (Some (id_toString True i)) =
      Inr (True, id_toString True i @ [0] @ drop (length (id_toString True i) + 1) tmp)"
    using pl(2) len(3) by (simp add: scopy_def scopy_loop_ok)
  with id_fields_text [OF i len(1,2)] pl show ?thesis
    by (simp add: id_fromString_def cstr_append del: append.simps)
qed

lemma unhex_loop_total:
  assumes "buflen \<le> length buf"
  shows "\<exists>n buf'. unhex_loop h buf l buflen = Inr (n, buf') \<and> length buf' = length buf"
  using assms
proof (induction h buf l buflen rule: unhex_loop.induct)
  case (1 hc hc' h buf l buflen)
  let ?c = "push_bit 4 (unhex_digit hc) OR unhex_digit hc'"
  show ?case
  proof (cases "l < buflen \<and> hc \<noteq> 0 \<and> hc' \<noteq> 0")
    case True
    then have w: "wr buf l ?c = Inr (buf[l := ?c])" using "1.prems" by simp
    from "1.IH" [OF True, of "buf[l := ?c]"] "1.prems" show ?thesis using True w by simp
  qed auto
qed simp_all

text \<open>On any text the fields stay inside the key arrays, and a failure leaves no usable address.\<close>

definition id_parsed :: "(bool \<times> nat \<times> identity) res \<Rightarrow> bool" where
  "id_parsed r \<longleftrightarrow>
     (case r of Inl e \<Rightarrow> False | Inr (ok, n, j) \<Rightarrow>
        if ok then length (id_publicKey j) = 64 \<and> (\<forall>k. id_privateKey j = Some k \<longrightarrow> length k = 64) \<and>
          (n = 0 \<or> \<not> addr_isReserved (id_address j) \<and> addr_ok (id_address j))
        else id_address j = Address 0)"

lemma id_fields_total:
  assumes "length (id_publicKey i) = 64" "length privmem = 64"
    and "fno = 0 \<or> \<not> addr_isReserved (id_address i) \<and> addr_ok (id_address i)"
    and "\<forall>k. id_privateKey i = Some k \<longrightarrow> length k = 64"
  shows "id_parsed (id_fields privmem fno s i)"
  using assms
proof (induction privmem fno s i rule: id_fields.induct)
  case (1 privmem fno s i)
  show ?case
  proof (cases "c_strtok 58 s")
    case None
    with "1.prems" show ?thesis by (simp add: id_fields.simps [of privmem fno s i] id_parsed_def)
  next
    case (Some fs)
    then obtain f s' where f: "c_strtok 58 s = Some (f, s')" by (cases fs) auto
    obtain n pub where u: "unhex f (id_publicKey i) 64 = Inr (n, pub)" "length pub = 64"
      using unhex_loop_total [of 64 "id_publicKey i" f 0] "1.prems"(1) by (auto simp: unhex_def)
    obtain m priv where v: "unhex f privmem 64 = Inr (m, priv)" "length priv = 64"
      using unhex_loop_total [of 64 privmem f 0] "1.prems"(2) by (auto simp: unhex_def)
    consider "fno = 0" | "fno = 1" | "fno = 2" | "fno = 3" | "fno > 3" by linarith
    then show ?thesis
    proof cases
      case 1
      then show ?thesis
        unfolding id_fields.simps [of privmem fno s i] using f "1.prems" "1.IH"(1) [OF f refl 1 refl]
        by (cases "addr_isReserved (addr_new (hexStrToU64 f))")
          (simp_all add: id_parsed_def id_fail_def)
    next
      case 2
      then show ?thesis
        unfolding id_fields.simps [of privmem fno s i] using f "1.prems" "1.IH"(2) [OF f refl]
        by (cases "f = [48]") (simp_all add: id_parsed_def id_fail_def)
    next
      case 3
      then show ?thesis
        unfolding id_fields.simps [of privmem fno s i] using f u "1.prems" "1.IH"(3) [OF f refl]
        by (cases "n = 64") (simp_all add: id_parsed_def id_fail_def)
    next
      case 4
      then show ?thesis
        unfolding id_fields.simps [of privmem fno s i] using f v "1.prems" "1.IH"(4) [OF f refl]
        by (cases "m = 64") (simp_all add: id_parsed_def id_fail_def)
    next
      case 5
      then show ?thesis
        unfolding id_fields.simps [of privmem fno s i] using f by (simp add: id_parsed_def id_fail_def)
    qed
  qed
qed

lemma id_fromString_total:
  assumes "length (id_publicKey i) = 64" "length privmem = 64" "length tmp = 384"
  shows "case id_fromString tmp privmem str i of Inl e \<Rightarrow> False | Inr (ok, j) \<Rightarrow>
    if ok then id_ok j \<and> \<not> addr_isReserved (id_address j) else id_address j = Address 0"
proof (cases str)
  case None
  then show ?thesis by (simp add: id_fromString_def id_fail_def)
next
  case (Some s)
  obtain ok t where t: "scopy tmp 384 str = Inr (ok, t)"
    using Some assms(3) by (simp add: scopy_def scopy_loop_ok)
  have "id_parsed (id_fields privmem 0 (cstr t) (i\<lparr>id_privateKey := None\<rparr>))"
    using assms by (intro id_fields_total) simp_all
  then obtain ok' n j where j: "id_fields privmem 0 (cstr t) (i\<lparr>id_privateKey := None\<rparr>) = Inr (ok', n, j)"
    by (auto simp: id_parsed_def split: sum.splits)
  with \<open>id_parsed _\<close> Some t show ?thesis
    by (auto simp: id_fromString_def id_parsed_def id_fail_def id_ok_def split: if_splits)
qed

section \<open>Properties\<close>

definition id_sample :: identity where
  "id_sample = \<lparr>id_address = Address 0x8056c2e21c, id_publicKey = replicate 64 7, id_privateKey = Some (replicate 64 9)\<rparr>"

lemma id_sample_ok: "id_ok id_sample"
  by (simp add: id_sample_def id_ok_def addr_ok_def)

text \<open>
  C22. The binary form of an identity: \<open>deserialize\<close> reads back what \<open>serialize\<close> wrote, with the
  private key when it was included and without it otherwise, and on an arbitrary buffer it throws
  or succeeds but never reads outside the array.
\<close>

theorem identity_wire:
  assumes "id_ok i" "buf_ok b" "unat (b_len b) + length (id_enc i) \<le> b_cap b" "buf_ok b0" "pos_ok p"
  shows "(\<exists>b'. id_serialize True i b = Inr b' \<and> id_deserialize b' (b_len b) = Inr (i, b_len b' - b_len b)) \<and>
    (\<exists>b'. id_serialize False i b = Inr b' \<and>
       id_deserialize b' (b_len b) = Inr (i\<lparr>id_privateKey := None\<rparr>, b_len b' - b_len b)) \<and>
    \<not> is_ub (id_deserialize b0 p)"
proof (intro conjI)
  show "\<exists>b'. id_serialize True i b = Inr b' \<and> id_deserialize b' (b_len b) = Inr (i, b_len b' - b_len b)"
    using id_wire.roundtrip [OF assms(1-3)] by blast
  have ok: "id_ok (id_public i)" using assms(1) by (simp add: id_ok_def id_public_def)
  have len: "unat (b_len b) + length (id_enc (id_public i)) \<le> b_cap b"
    using assms(3) by (auto simp: id_enc_def id_public_def split: option.splits)
  show "\<exists>b'. id_serialize False i b = Inr b' \<and>
       id_deserialize b' (b_len b) = Inr (i\<lparr>id_privateKey := None\<rparr>, b_len b' - b_len b)"
    using id_wire.roundtrip [OF ok assms(2) len] by (auto simp: id_serialize_public id_public_def)
  show "\<not> is_ub (id_deserialize b0 p)"
    using assms(4,5) by (rule id_deserialize_safe)
qed

theorem identity_wire_witness:
  "\<exists>b'. id_serialize True id_sample (buf_new (replicate 200 0)) = Inr b' \<and>
     id_deserialize b' 0 = Inr (id_sample, b_len b')"
proof -
  have b: "buf_ok (buf_new (replicate 200 0))" by (simp add: buf_ok_def buf_new_def b_cap_def)
  have l: "unat (b_len (buf_new (replicate 200 0))) + length (id_enc id_sample) \<le> b_cap (buf_new (replicate 200 0))"
    by (simp add: buf_new_def b_cap_def id_enc_def id_sample_def)
  from identity_wire [OF id_sample_ok b l b, of 0] show ?thesis
    by (auto simp: buf_new_def pos_ok_def)
qed

text \<open>
  The text form of an identity: \<open>fromString\<close> inverts \<open>toString\<close> for every address that is not
  reserved, and for an arbitrary string it stays inside its arrays, accepts only well-formed
  identities and leaves the null address when it refuses.
\<close>

theorem identity_text:
  assumes "id_ok i" "\<not> addr_isReserved (id_address i)"
    and "length (id_publicKey j) = 64" "length privmem = 64" "length tmp = 384"
  shows "id_fromString tmp privmem (Some (id_toString True i)) j = Inr (True, i) \<and>
    id_fromString tmp privmem (Some (id_toString False i)) j = Inr (True, i\<lparr>id_privateKey := None\<rparr>) \<and>
    (case id_fromString tmp privmem str j of Inl e \<Rightarrow> False | Inr (ok, r) \<Rightarrow>
       if ok then id_ok r \<and> \<not> addr_isReserved (id_address r) else id_address r = Address 0)"
proof -
  have "id_ok (id_public i)" "\<not> addr_isReserved (id_address (id_public i))"
    using assms(1,2) by (simp_all add: id_ok_def id_public_def)
  from id_fromString_toString [OF this assms(3-5)] id_fromString_toString [OF assms]
    id_fromString_total [OF assms(3-5)]
  show ?thesis by (simp add: id_toString_public) (simp add: id_public_def)
qed

theorem identity_text_witness:
  "id_fromString (replicate 384 0) (replicate 64 0) (Some (id_toString False id_sample))
     (id_sample\<lparr>id_address := Address 5\<rparr>) = Inr (True, id_sample\<lparr>id_privateKey := None\<rparr>)"
proof -
  have "\<not> addr_isReserved (id_address id_sample)"
    by (simp add: id_sample_def addr_isReserved_def)
  from identity_text [OF id_sample_ok this, of "id_sample\<lparr>id_address := Address 5\<rparr>"] show ?thesis
    by (simp add: id_sample_def)
qed

end
