(* ===== verification/Zt_Com.thy ===== *)
theory Zt_Com
  imports Zt_Identity
begin

text \<open>
  \<^verbatim>\<open>node/CertificateOfMembership.hpp\<close> and \<^verbatim>\<open>.cpp\<close>: the certificate by which a controller admits a
  node to a network, a list of at most eight (id, value, maxDelta) qualifiers with a signature.
  \<open>_qualifiers\<close> is the full array; \<open>_qualifierCount\<close> says how many entries are in use. The
  identities that the topology knows are the parameter \<open>known\<close> of \<open>verify\<close> (the null identity
  where it knows none), and \<open>verify\<close> returns with its result the WHOIS requests it makes.
\<close>

section \<open>The code\<close>

record qualifier =
  q_id :: u64
  q_value :: u64
  q_maxDelta :: u64

record com =
  com_signedBy :: address
  com_qualifiers :: "qualifier list"
  com_qualifierCount :: nat
  com_signature :: bytes

definition q_null :: qualifier where
  "q_null = \<lparr>q_id = 0, q_value = 0, q_maxDelta = 0\<rparr>"

definition com_empty :: com where
  "com_empty = \<lparr>com_signedBy = Address 0, com_qualifiers = replicate 8 q_null, com_qualifierCount = 0,
     com_signature = replicate 96 0\<rparr>"

definition com_new :: "u64 \<Rightarrow> u64 \<Rightarrow> u64 \<Rightarrow> address \<Rightarrow> com" where
  "com_new timestamp timestampMaxDelta nwid issuedTo =
     com_empty\<lparr>com_qualifiers :=
         [\<lparr>q_id = 0, q_value = timestamp, q_maxDelta = timestampMaxDelta\<rparr>,
          \<lparr>q_id = 1, q_value = nwid, q_maxDelta = 0\<rparr>,
          \<lparr>q_id = 2, q_value = addr_toInt issuedTo, q_maxDelta = 0xffffffffffffffff\<rparr>] @ replicate 5 q_null,
       com_qualifierCount := 3\<rparr>"

definition com_valid :: "com \<Rightarrow> bool" where
  "com_valid c \<longleftrightarrow> com_qualifierCount c \<noteq> 0"

text \<open>The qualifiers in use; a count above the array's size would be read past its end.\<close>

definition com_used :: "com \<Rightarrow> qualifier list res" where
  "com_used c =
     (case mem_get (com_qualifiers c) 0 (com_qualifierCount c) of
        None \<Rightarrow> Inl UndefinedBehaviour
      | Some qs \<Rightarrow> Inr qs)"

definition com_find :: "u64 \<Rightarrow> com \<Rightarrow> u64 res" where
  "com_find i c =
     res_bind (com_used c) (\<lambda>qs.
       Inr (case find (\<lambda>q. q_id q = i) qs of None \<Rightarrow> 0 | Some q \<Rightarrow> q_value q))"

definition com_timestamp :: "com \<Rightarrow> u64 res" where
  "com_timestamp c = com_find 0 c"

definition com_networkId :: "com \<Rightarrow> u64 res" where
  "com_networkId c = com_find 1 c"

definition com_issuedTo :: "com \<Rightarrow> address res" where
  "com_issuedTo c = res_bind (com_find 2 c) (\<lambda>v. Inr (addr_new v))"

text \<open>
  \<open>std::sort\<close> on the first \<open>n\<close> entries, by \<open>id\<close>.  The C++ standard leaves the order of equal ids open;
  it does not matter here, because \<open>setQualifier\<close> only sorts after it found no entry with the new id,
  so that the ids of a certificate it built are distinct and have one sorted order.
\<close>

definition com_sort :: "nat \<Rightarrow> qualifier list \<Rightarrow> qualifier list" where
  "com_sort n qs = sort_key q_id (take n qs) @ drop n qs"

fun com_update :: "u64 \<Rightarrow> u64 \<Rightarrow> u64 \<Rightarrow> qualifier list \<Rightarrow> qualifier list option" where
  "com_update i v d [] = None"
| "com_update i v d (q # qs) =
     (if q_id q = i then Some (q\<lparr>q_value := v, q_maxDelta := d\<rparr> # qs)
      else map_option (Cons q) (com_update i v d qs))"

definition com_setQualifier :: "u64 \<Rightarrow> u64 \<Rightarrow> u64 \<Rightarrow> com \<Rightarrow> com res" where
  "com_setQualifier i v d c =
     (let c1 = c\<lparr>com_signedBy := Address 0\<rparr>; n = com_qualifierCount c in
      res_bind (com_used c1) (\<lambda>qs.
      case com_update i v d qs of
        Some qs' \<Rightarrow> Inr (c1\<lparr>com_qualifiers := qs' @ drop n (com_qualifiers c1)\<rparr>)
      | None \<Rightarrow>
          if n < 8 then
            res_bind (wr (com_qualifiers c1) n \<lparr>q_id = i, q_value = v, q_maxDelta = d\<rparr>) (\<lambda>a.
            Inr (c1\<lparr>com_qualifiers := com_sort (n + 1) a, com_qualifierCount := n + 1\<rparr>))
          else Inr c1))"

text \<open>\<open>agreesWith\<close>: the inner loop seeks the id in \<open>other\<close>, the outer one walks our qualifiers.\<close>

function com_seek :: "com \<Rightarrow> u64 \<Rightarrow> nat \<Rightarrow> nat option res" where
  "com_seek other i otheridx =
     res_bind (rd (com_qualifiers other) otheridx) (\<lambda>q.
     if q_id q = i then Inr (Some otheridx)
     else if otheridx + 1 \<ge> com_qualifierCount other then Inr None
     else com_seek other i (otheridx + 1))"
  by auto

termination com_seek
  by (relation "measure (\<lambda>(other, i, otheridx). com_qualifierCount other - otheridx)") auto

declare com_seek.simps [simp del]

definition absdiff :: "u64 \<Rightarrow> u64 \<Rightarrow> u64" where
  "absdiff a b = (if a \<ge> b then a - b else b - a)"

function com_agree :: "com \<Rightarrow> com \<Rightarrow> nat \<Rightarrow> nat \<Rightarrow> bool res" where
  "com_agree c other myidx otheridx =
     (if myidx < com_qualifierCount c then
        if otheridx \<ge> com_qualifierCount other then Inr False
        else
          res_bind (rd (com_qualifiers c) myidx) (\<lambda>q.
          res_bind (com_seek other (q_id q) otheridx) (\<lambda>s.
          case s of
            None \<Rightarrow> Inr False
          | Some otheridx' \<Rightarrow>
              res_bind (rd (com_qualifiers other) myidx) (\<lambda>q'.
              if absdiff (q_value q) (q_value q') > q_maxDelta q then Inr False
              else com_agree c other (myidx + 1) otheridx')))
      else Inr True)"
  by auto

termination com_agree
  by (relation "measure (\<lambda>(c, other, myidx, otheridx). com_qualifierCount c - myidx)") auto

declare com_agree.simps [simp del]

definition com_agreesWith :: "com \<Rightarrow> com \<Rightarrow> bool res" where
  "com_agreesWith c other =
     (if com_qualifierCount c = 0 \<or> com_qualifierCount other = 0 then Inr False
      else com_agree c other 0 0)"

text \<open>The bytes that are signed: the qualifiers in network byte order.\<close>

definition q_bytes :: "qualifier \<Rightarrow> bytes" where
  "q_bytes q = le_bytes (hton (q_id q)) @ le_bytes (hton (q_value q)) @ le_bytes (hton (q_maxDelta q))"

definition com_msg :: "com \<Rightarrow> bytes res" where
  "com_msg c =
     res_bind (com_used c) (\<lambda>qs.
     if length qs > 8 then Inl UndefinedBehaviour else Inr (concat (map q_bytes qs)))"

definition com_sign :: "crypto \<Rightarrow> identity \<Rightarrow> com \<Rightarrow> (bool \<times> com) res" where
  "com_sign C i c =
     res_bind (com_msg c) (\<lambda>m.
     case id_sign C i m of
       Inr s \<Rightarrow> Inr (True, c\<lparr>com_signature := s, com_signedBy := id_address i\<rparr>)
     | Inl e \<Rightarrow> Inr (False, c\<lparr>com_signedBy := Address 0\<rparr>))"

definition controllerFor :: "u64 \<Rightarrow> address" where
  "controllerFor nwid = addr_new (drop_bit 24 nwid)"

definition com_verify :: "crypto \<Rightarrow> (address \<Rightarrow> identity) \<Rightarrow> com \<Rightarrow> (int \<times> address list) res" where
  "com_verify C known c =
     res_bind (com_networkId c) (\<lambda>nwid.
     if com_signedBy c = Address 0 \<or> com_signedBy c \<noteq> controllerFor nwid \<or> com_qualifierCount c > 8
     then Inr (- 1, [])
     else if \<not> id_valid (known (com_signedBy c)) then Inr (1, [com_signedBy c])
     else res_bind (com_msg c) (\<lambda>m.
       Inr (if id_verify C (known (com_signedBy c)) m (com_signature c) then 0 else - 1, [])))"

definition com_serialize :: "com \<Rightarrow> buf \<Rightarrow> buf res" where
  "com_serialize c b =
     res_bind (com_used c) (\<lambda>qs.
     ser_seq
      [buf_append (1 :: u8),
       buf_append (of_nat (com_qualifierCount c) :: u16),
       serialize_all (\<lambda>q. ser_seq [buf_append (q_id q), buf_append (q_value q), buf_append (q_maxDelta q)]) qs,
       addr_appendTo (com_signedBy c),
       ser_when (com_signedBy c \<noteq> Address 0) (buf_append_bytes (com_signature c) 96)] b)"

fun com_deserialize_loop :: "buf \<Rightarrow> nat \<Rightarrow> u64 \<Rightarrow> u32 \<Rightarrow> com \<Rightarrow> (com \<times> u32) res" where
  "com_deserialize_loop b 0 lastId p c = Inr (c, p)"
| "com_deserialize_loop b (Suc n) lastId p c =
     rd_at b p (\<lambda>qid p1.
     if qid < lastId then Inl BadEncoding
     else if com_qualifierCount c < 8 then
       rd_at b p1 (\<lambda>value p2.
       rd_at b p2 (\<lambda>maxDelta p3.
       res_bind (wr (com_qualifiers c) (com_qualifierCount c)
           \<lparr>q_id = qid, q_value = value, q_maxDelta = maxDelta\<rparr>) (\<lambda>a.
       com_deserialize_loop b n qid p3
         (c\<lparr>com_qualifiers := a, com_qualifierCount := com_qualifierCount c + 1\<rparr>))))
     else Inl SerializedOverflow)"

text \<open>\<open>deserialize\<close> into the object \<open>c0\<close>.\<close>

definition com_deserialize :: "com \<Rightarrow> buf \<Rightarrow> u32 \<Rightarrow> (com \<times> u32) res" where
  "com_deserialize c0 b startAt =
     rd_byte b startAt (\<lambda>t p.
     if t \<noteq> 1 then Inl InvalidType
     else rd_at b p (\<lambda>numq p.
       res_bind (com_deserialize_loop b (unat (numq :: u16)) 0 p
         (c0\<lparr>com_qualifierCount := 0, com_signedBy := Address 0\<rparr>)) (\<lambda>(c, p).
       rd_addr b p (\<lambda>signedBy p.
       if signedBy \<noteq> Address 0 then
         rd_field b p 96 (\<lambda>s p.
         Inr (c\<lparr>com_signedBy := signedBy, com_signature := s\<rparr>, p - startAt))
       else Inr (c\<lparr>com_signedBy := signedBy\<rparr>, p - startAt)))))"

definition com_eq :: "com \<Rightarrow> com \<Rightarrow> bool res" where
  "com_eq c d =
     (if com_signedBy c \<noteq> com_signedBy d then Inr False
      else if com_qualifierCount c \<noteq> com_qualifierCount d then Inr False
      else res_bind (com_used c) (\<lambda>qs. res_bind (com_used d) (\<lambda>rs.
        Inr (if qs \<noteq> rs then False else memcmp (com_signature c) (com_signature d) = 0))))"

text \<open>
  The old text form. \<open>toString\<close> prints the qualifiers into a local array of \<open>8 * 32\<close> characters;
  \<open>fromString\<close> walks a pointer \<open>s\<close> along the string, and moving it past the terminating NUL is
  undefined.
\<close>

definition com_toString :: "com \<Rightarrow> bytes res" where
  "com_toString c =
     res_bind (com_used c) (\<lambda>qs.
     let h = hexbytes (concat (map q_bytes qs)) in
     if length h + 1 > 8 * 32 then Inl UndefinedBehaviour
     else Inr ([49, 58] @ h @ [58] @ addr_toString (com_signedBy c) @
       (if com_signedBy c \<noteq> Address 0 then 58 # hexbytes (com_signature c) else [])))"

definition colonAt :: "bytes \<Rightarrow> nat" where
  "colonAt s = length (takeWhile (\<lambda>ch. ch \<noteq> 58) s)"

text \<open>\<open>s += colonAt + 1\<close>, allowed while the result still points into the string or to its NUL.\<close>

definition skip_colon :: "bytes \<Rightarrow> bytes res" where
  "skip_colon s = (if colonAt s < length s then Inr (drop (colonAt s + 1) s) else Inl UndefinedBehaviour)"

function com_fromString_quals :: "bytes \<Rightarrow> com \<Rightarrow> com" where
  "com_fromString_quals buf c =
     (if length buf \<ge> 24 then
        com_fromString_quals (drop 24 buf)
          (if com_qualifierCount c < 8 then
             c\<lparr>com_qualifiers := (com_qualifiers c)[com_qualifierCount c :=
                 \<lparr>q_id = ntoh (le_word (take 8 buf)), q_value = ntoh (le_word (take 8 (drop 8 buf))),
                  q_maxDelta = ntoh (le_word (take 8 (drop 16 buf)))\<rparr>],
               com_qualifierCount := com_qualifierCount c + 1\<rparr>
           else c)
      else c)"
  by auto

termination com_fromString_quals
  by (relation "measure (\<lambda>(buf, c). length buf)") auto

declare com_fromString_quals.simps [simp del]

text \<open>\<open>mem\<close> is the fresh array \<open>buf\<close> (of half the length of the hex text), \<open>amem\<close> the local \<open>addrbuf\<close>.\<close>

definition com_fromString_sig :: "bytes \<Rightarrow> com \<Rightarrow> com res" where
  "com_fromString_sig s c =
     (if colonAt s \<noteq> 0 then
        res_bind (unhex_n s (colonAt s) (com_signature c) 96) (\<lambda>(n, sig).
        Inr (if n \<noteq> 96 then c\<lparr>com_signature := sig, com_signedBy := Address 0\<rparr> else c\<lparr>com_signature := sig\<rparr>))
      else Inr (c\<lparr>com_signedBy := Address 0\<rparr>))"

definition com_fromString_signer :: "bytes \<Rightarrow> bytes \<Rightarrow> com \<Rightarrow> com res" where
  "com_fromString_signer amem s c =
     (if colonAt s \<noteq> 0 then
        res_bind (unhex_n s (colonAt s) amem 5) (\<lambda>(n, a).
        res_bind (if n = 5 then res_bind (addr_setTo a 5) (\<lambda>x. Inr (c\<lparr>com_signedBy := x\<rparr>)) else Inr c) (\<lambda>c1.
        if com_signedBy c1 \<noteq> Address 0 \<and> colonAt s < length s then
          res_bind (skip_colon s) (\<lambda>s1. com_fromString_sig s1 c1)
        else Inr (c1\<lparr>com_signedBy := Address 0\<rparr>)))
      else Inr c)"

definition com_fromString :: "bytes \<Rightarrow> bytes \<Rightarrow> bytes \<Rightarrow> com \<Rightarrow> com res" where
  "com_fromString mem amem s c0 =
     (let c = c0\<lparr>com_qualifierCount := 0, com_signedBy := Address 0, com_signature := replicate 96 0\<rparr> in
      if s = [] then Inr c
      else if \<not> (colonAt s = 1 \<and> s ! 0 = 49) then Inr c
      else
        res_bind (skip_colon s) (\<lambda>s1.
        res_bind
          (if colonAt s1 \<noteq> 0 then
             let buflen = colonAt s1 div 2 in
             res_bind (unhex_n s1 (colonAt s1) (take buflen mem) buflen) (\<lambda>(n, buf).
             Inr (com_fromString_quals (take n buf) c))
           else Inr c) (\<lambda>c1.
        res_bind
          (if colonAt s1 < length s1
           then res_bind (skip_colon s1) (\<lambda>s2. com_fromString_signer amem s2 c1)
           else Inr c1) (\<lambda>c2.
        Inr (c2\<lparr>com_qualifiers := com_sort (com_qualifierCount c2) (com_qualifiers c2)\<rparr>)))))"

section \<open>Well-formed certificates\<close>

definition com_ok :: "com \<Rightarrow> bool" where
  "com_ok c \<longleftrightarrow> length (com_qualifiers c) = 8 \<and> com_qualifierCount c \<le> 8 \<and> length (com_signature c) = 96 \<and>
     addr_ok (com_signedBy c)"

abbreviation com_quals :: "com \<Rightarrow> qualifier list" where
  "com_quals c \<equiv> take (com_qualifierCount c) (com_qualifiers c)"

lemma com_used_ok [simp]: "com_ok c \<Longrightarrow> com_used c = Inr (com_quals c)"
  by (simp add: com_ok_def com_used_def mem_get_def)

lemma com_ok_update [simp]:
  "com_ok (c\<lparr>com_signedBy := a\<rparr>) \<longleftrightarrow> com_ok c \<and> addr_ok a" if "com_ok c"
  using that by (auto simp: com_ok_def)

subsection \<open>The wire format\<close>

definition q_enc :: "qualifier \<Rightarrow> bytes" where
  "q_enc q = word_bytes_be (q_id q) @ word_bytes_be (q_value q) @ word_bytes_be (q_maxDelta q)"

lemma q_bytes_enc: "q_bytes = q_enc"
  by (rule ext) (simp add: q_bytes_def q_enc_def hton_def le_bytes_bswap)

lemma length_q_enc [simp]: "length (q_enc q) = 24"
  by (simp add: q_enc_def)

definition com_enc :: "com \<Rightarrow> bytes" where
  "com_enc c =
     [1] @ word_bytes_be (of_nat (com_qualifierCount c) :: u16) @ concat (map q_enc (com_quals c)) @
     addr_bytes (com_signedBy c) @ (if com_signedBy c \<noteq> Address 0 then com_signature c else [])"

text \<open>What \<open>deserialize\<close> into \<open>c0\<close> can produce: sorted ids, and the rest of \<open>c0\<close> untouched.\<close>

definition com_wire_ok :: "com \<Rightarrow> com \<Rightarrow> bool" where
  "com_wire_ok c0 c \<longleftrightarrow>
     com_ok c \<and> sorted (map q_id (com_quals c)) \<and>
     drop (com_qualifierCount c) (com_qualifiers c) = drop (com_qualifierCount c) (com_qualifiers c0) \<and>
     length (com_qualifiers c0) = 8 \<and>
     (com_signedBy c = Address 0 \<longrightarrow> com_signature c = com_signature c0)"

lemma q_serialize_appends:
  "appends (ser_seq [buf_append (q_id q), buf_append (q_value q), buf_append (q_maxDelta q)]) (q_enc q)"
proof -
  have "appends (ser_seq [buf_append (q_id q), buf_append (q_value q), buf_append (q_maxDelta q)])
     (word_bytes_be (q_id q) @ word_bytes_be (q_value q) @ word_bytes_be (q_maxDelta q) @ [])"
    by (intro wire_write)
  then show ?thesis by (simp add: q_enc_def)
qed

lemma com_serialize_appends:
  assumes "com_ok c"
  shows "appends (com_serialize c) (com_enc c)"
proof -
  let ?ser = "\<lambda>q. ser_seq [buf_append (q_id q), buf_append (q_value q), buf_append (q_maxDelta q)]"
  have "com_serialize c = ser_seq
      [buf_append (1 :: u8), buf_append (of_nat (com_qualifierCount c) :: u16),
       serialize_all ?ser (com_quals c), addr_appendTo (com_signedBy c),
       ser_when (com_signedBy c \<noteq> Address 0) (buf_append_bytes (com_signature c) 96)]"
    using assms by (intro ext) (simp add: com_serialize_def)
  moreover have "appends \<dots> (word_bytes_be (1 :: u8) @ word_bytes_be (of_nat (com_qualifierCount c) :: u16) @
      concat (map q_enc (com_quals c)) @ addr_bytes (com_signedBy c) @
      (if com_signedBy c \<noteq> Address 0 then com_signature c else []) @ [])"
    using assms by (intro wire_write appends_serialize_all q_serialize_appends) (simp_all add: com_ok_def)
  ultimately show ?thesis by (simp add: com_enc_def)
qed

lemma com_loop_enc:
  assumes "buf_ok b" "has b p (concat (map q_enc qs) @ r)" "sorted (lid # map q_id qs)"
    and "com_qualifierCount c + length qs \<le> 8" "length (com_qualifiers c) = 8"
  shows "com_deserialize_loop b (length qs) lid p c =
      Inr (c\<lparr>com_qualifiers := take (com_qualifierCount c) (com_qualifiers c) @ qs @
               drop (com_qualifierCount c + length qs) (com_qualifiers c),
             com_qualifierCount := com_qualifierCount c + length qs\<rparr>,
           p + of_nat (24 * length qs)) \<and>
    has b (p + of_nat (24 * length qs)) r"
  using assms(2-5)
proof (induction qs arbitrary: p lid c)
  case Nil
  then show ?case by simp
next
  case (Cons q qs)
  let ?n = "com_qualifierCount c"
  let ?c = "c\<lparr>com_qualifiers := (com_qualifiers c)[?n := q], com_qualifierCount := ?n + 1\<rparr>"
  have h: "has b p (word_bytes_be (q_id q) @ word_bytes_be (q_value q) @ word_bytes_be (q_maxDelta q) @
      concat (map q_enc qs) @ r)"
    using Cons.prems(1) by (simp add: q_enc_def [of q])
  note s1 = has_step64 [OF assms(1) h]
  note s2 = has_step64 [OF assms(1) s1(2)]
  note s3 = has_step64 [OF assms(1) s2(2)]
  have h3: "has b (p + 24) (concat (map q_enc qs) @ r)"
    using s3(2) by (simp add: add.commute)
  have IH: "com_deserialize_loop b (length qs) (q_id q) (p + 24) ?c =
      Inr (?c\<lparr>com_qualifiers := take (?n + 1) ((com_qualifiers c)[?n := q]) @ qs @
               drop (?n + 1 + length qs) ((com_qualifiers c)[?n := q]),
             com_qualifierCount := ?n + 1 + length qs\<rparr>, p + 24 + of_nat (24 * length qs)) \<and>
    has b (p + 24 + of_nat (24 * length qs)) r"
    using Cons.IH [OF h3, of "q_id q" ?c] Cons.prems by simp
  have q: "\<lparr>q_id = q_id q, q_value = q_value q, q_maxDelta = q_maxDelta q\<rparr> = q" by (cases q) simp
  have l: "\<not> q_id q < lid" using Cons.prems(2) by (simp add: not_less)
  have t: "take (?n + 1) ((com_qualifiers c)[?n := q]) = take ?n (com_qualifiers c) @ [q]"
    using Cons.prems(3,4) by (simp add: take_Suc_conv_app_nth)
  have "com_deserialize_loop b (length (q # qs)) lid p c = com_deserialize_loop b (length qs) (q_id q) (p + 24) ?c"
    using s1(1) s2(1) s3(1) l Cons.prems(3,4) by (simp add: rd_at_def q add.commute [of p])
  then show ?case using IH t by (simp add: algebra_simps)
qed

lemma com_loop_safe:
  assumes "buf_ok b"
  shows "com_qualifierCount c \<le> 8 \<Longrightarrow> length (com_qualifiers c) = 8 \<Longrightarrow> pos_ok p \<Longrightarrow>
    res_all (\<lambda>(c', q). com_qualifierCount c' \<le> 8 \<and> length (com_qualifiers c') = 8 \<and> pos_ok q \<and>
        com_signature c' = com_signature c) (com_deserialize_loop b n lid p c)"
proof (induction n arbitrary: p lid c)
  case 0
  then show ?case by simp
next
  case (Suc n)
  have step: "res_all (\<lambda>(c', q). com_qualifierCount c' \<le> 8 \<and> length (com_qualifiers c') = 8 \<and> pos_ok q \<and>
        com_signature c' = com_signature c)
      (com_deserialize_loop b n qid q (c\<lparr>com_qualifiers := a, com_qualifierCount := com_qualifierCount c + 1\<rparr>))"
    if "com_qualifierCount c < 8" "length a = 8" "pos_ok q" for qid q a
    using Suc.IH [of "c\<lparr>com_qualifiers := a, com_qualifierCount := com_qualifierCount c + 1\<rparr>" q qid] that by simp
  show ?case
    unfolding com_deserialize_loop.simps
    using Suc.prems step by (intro wire_safe assms) simp_all
qed

lemma com_deserialize_safe:
  assumes "buf_ok b" "pos_ok p" "length (com_qualifiers c0) = 8" "length (com_signature c0) = 96"
  shows "res_all (\<lambda>(c, _). com_ok c) (com_deserialize c0 b p)"
  unfolding com_deserialize_def
  apply (intro wire_safe assms)
    apply simp
   apply (rule bind_safe [OF com_loop_safe [OF assms(1)]])
  using assms by (auto intro!: wire_safe simp: com_ok_def)

lemma com_deserialize_enc:
  assumes "com_wire_ok c0 c" "buf_ok b" "has b p (com_enc c)"
  shows "com_deserialize c0 b p = Inr (c, of_nat (length (com_enc c)))"
proof -
  let ?n = "com_qualifierCount c"
  have ok: "com_ok c" "?n \<le> 8" "addr_ok (com_signedBy c)" "length (com_qualifiers c) = 8"
    "length (com_qualifiers c0) = 8" "length (com_signature c) = 96"
    using assms(1) by (simp_all add: com_wire_ok_def com_ok_def)
  let ?c = "c0\<lparr>com_qualifierCount := 0, com_signedBy := Address 0\<rparr>"
  let ?sig = "if com_signedBy c \<noteq> Address 0 then com_signature c else []"
  have h: "has b p ([1] @ word_bytes_be (of_nat ?n :: u16) @ concat (map q_enc (com_quals c)) @
      addr_bytes (com_signedBy c) @ ?sig @ [])"
    using assms(3) by (simp add: com_enc_def)
  note s1 = has_step8 [OF assms(2) h]
  note s2 = has_step16 [OF assms(2) s1(2)]
  have n: "unat (of_nat ?n :: u16) = ?n" using ok(2) by (simp add: word_nat)
  have len: "length (com_quals c) = ?n" using ok by simp
  have so: "sorted (0 # map q_id (com_quals c))" using assms(1) by (simp add: com_wire_ok_def)
  let ?c1 = "c0\<lparr>com_qualifierCount := ?n, com_signedBy := Address 0, com_qualifiers := com_qualifiers c\<rparr>"
  have q: "com_quals c @ drop ?n (com_qualifiers c0) = com_qualifiers c"
    using assms(1) append_take_drop_id [of ?n "com_qualifiers c"] by (simp add: com_wire_ok_def)
  let ?q = "p + 1 + 2 + of_nat (24 * ?n)"
  have "com_deserialize_loop b ?n 0 (p + 1 + 2) ?c = Inr (?c1, ?q) \<and> has b ?q (addr_bytes (com_signedBy c) @ ?sig @ [])"
    using com_loop_enc [OF assms(2) s2(2) so, of ?c] ok q by (simp add: len)
  then have L: "com_deserialize_loop b ?n 0 (p + 1 + 2) ?c = Inr (?c1, ?q)" "has b ?q (addr_bytes (com_signedBy c) @ ?sig @ [])"
    by blast+
  have res: "c0\<lparr>com_qualifierCount := ?n, com_qualifiers := com_qualifiers c, com_signedBy := com_signedBy c,
      com_signature := com_signature c\<rparr> = c"
    by (cases c0, cases c) simp
  have sig0: "com_signedBy c = Address 0 \<Longrightarrow> com_signature c0 = com_signature c"
    using assms(1) by (simp add: com_wire_ok_def)
  have lenc: "of_nat (length (com_enc c)) = 8 + of_nat (24 * ?n) + (if com_signedBy c \<noteq> Address 0 then 96 else 0 :: u32)"
    using ok len by (simp add: com_enc_def length_concat sum_list_triv comp_def)
  show ?thesis
    unfolding com_deserialize_def
    apply (rule rd_byte_law [OF assms(2) h])
    apply (simp only: not_True_eq_False if_False simp_thms)
    apply (rule rd_at_16 [OF assms(2)], assumption)
    apply (simp only: n L(1) res_bind_simps prod.case)
    apply (rule rd_addr_law [OF assms(2) L(2) ok(3)])
    apply (cases "com_signedBy c = Address 0")
     apply (use sig0 res in \<open>simp add: lenc\<close>)
    apply simp
    apply (rule rd_field_law [OF assms(2), where bs = "com_signature c" and r = "[]"])
    using ok res by (simp_all add: lenc)
qed

interpretation com_wire: wire_format "com_wire_ok c0" com_enc com_serialize "com_deserialize c0" for c0
proof unfold_locales
  fix c b p
  show "appends (com_serialize c) (com_enc c)" if "com_wire_ok c0 c"
    using that by (simp add: com_wire_ok_def com_serialize_appends)
  show "com_deserialize c0 b p = Inr (c, of_nat (length (com_enc c)))"
    if "com_wire_ok c0 c" "buf_ok b" "has b p (com_enc c)"
    using that by (rule com_deserialize_enc)
qed

subsection \<open>Agreement\<close>

lemma com_seek_total:
  assumes "com_ok other" "oi < com_qualifierCount other"
  shows "\<exists>s. com_seek other i oi = Inr s \<and> (\<forall>j. s = Some j \<longrightarrow> j < com_qualifierCount other)"
  using assms
proof (induction other i oi rule: com_seek.induct)
  case (1 other i oi)
  then have "oi < length (com_qualifiers other)" by (simp add: com_ok_def)
  with 1 show ?case by (auto simp: com_seek.simps [of other i oi])
qed

lemma com_agree_total:
  assumes "com_ok c" "com_ok other"
  shows "\<exists>r. com_agree c other m oi = Inr r"
  using assms
proof (induction c other m oi rule: com_agree.induct)
  case (1 c other m oi)
  show ?case
  proof (cases "m < com_qualifierCount c \<and> oi < com_qualifierCount other")
    case True
    then have m: "m < length (com_qualifiers c)" "m < length (com_qualifiers other)"
      using "1.prems" by (simp_all add: com_ok_def)
    obtain s where s: "com_seek other (q_id (com_qualifiers c ! m)) oi = Inr s"
      using com_seek_total [OF "1.prems"(2)] True by blast
    show ?thesis
      using 1 True m s by (cases s) (auto simp: com_agree.simps [of c other m oi])
  qed (auto simp: com_agree.simps [of c other m oi])
qed

lemma com_agreesWith_total: "com_ok c \<Longrightarrow> com_ok other \<Longrightarrow> \<exists>r. com_agreesWith c other = Inr r"
  using com_agree_total by (auto simp: com_agreesWith_def)

text \<open>What the comment of \<open>agreesWith\<close> promises.\<close>

definition com_agrees_spec :: "com \<Rightarrow> com \<Rightarrow> bool" where
  "com_agrees_spec c other \<longleftrightarrow>
     com_quals c \<noteq> [] \<and>
     (\<forall>q \<in> set (com_quals c). \<exists>q' \<in> set (com_quals other).
        q_id q' = q_id q \<and> absdiff (q_value q) (q_value q') \<le> q_maxDelta q)"

text \<open>Our ids are the first ids of the other certificate, and its ids are distinct.\<close>

definition com_same_layout :: "com \<Rightarrow> com \<Rightarrow> bool" where
  "com_same_layout c other \<longleftrightarrow>
     com_qualifierCount c \<le> com_qualifierCount other \<and> distinct (map q_id (com_quals other)) \<and>
     (\<forall>i < com_qualifierCount c. q_id (com_qualifiers c ! i) = q_id (com_qualifiers other ! i))"

lemma com_seek_layout:
  assumes "com_ok other" "com_same_layout c other" "m < com_qualifierCount c"
  shows "com_seek other (q_id (com_qualifiers c ! m)) (m - 1) = Inr (Some m)"
proof -
  have m: "m < length (com_qualifiers other)" "m < com_qualifierCount other" "m - 1 < length (com_qualifiers other)"
    using assms by (auto simp: com_ok_def com_same_layout_def)
  have e: "q_id (com_qualifiers c ! m) = q_id (com_qualifiers other ! m)"
    using assms by (simp add: com_same_layout_def)
  have hit: "com_seek other (q_id (com_qualifiers other ! m)) m = Inr (Some m)"
    using m by (simp add: com_seek.simps [of other _ m])
  show ?thesis
  proof (cases m)
    case 0
    then show ?thesis using hit e by simp
  next
    case (Suc k)
    have "q_id (com_qualifiers other ! k) \<noteq> q_id (com_qualifiers other ! m)"
      using assms(2) Suc m by (auto simp: com_same_layout_def distinct_conv_nth)
    then show ?thesis
      using hit e Suc m by (simp add: com_seek.simps [of other _ k])
  qed
qed

lemma com_agree_layout:
  assumes "com_ok c" "com_ok other" "com_same_layout c other"
  shows "com_agree c other m (m - 1) =
    Inr (\<forall>i. m \<le> i \<and> i < com_qualifierCount c \<longrightarrow>
      absdiff (q_value (com_qualifiers c ! i)) (q_value (com_qualifiers other ! i)) \<le> q_maxDelta (com_qualifiers c ! i))"
proof (induction "com_qualifierCount c - m" arbitrary: m)
  case 0
  then show ?case by (auto simp: com_agree.simps [of c other m])
next
  case (Suc n)
  then have m: "m < com_qualifierCount c" by simp
  then have l: "m < length (com_qualifiers c)" "m < length (com_qualifiers other)"
      "\<not> com_qualifierCount other \<le> m - 1"
    using assms by (auto simp: com_ok_def com_same_layout_def)
  have IH: "com_agree c other (m + 1) m =
    Inr (\<forall>i. m + 1 \<le> i \<and> i < com_qualifierCount c \<longrightarrow>
      absdiff (q_value (com_qualifiers c ! i)) (q_value (com_qualifiers other ! i)) \<le> q_maxDelta (com_qualifiers c ! i))"
    using Suc.hyps(1) [of "m + 1"] Suc.hyps(2) by simp
  have split: "(\<forall>i. m \<le> i \<and> i < com_qualifierCount c \<longrightarrow> P i) \<longleftrightarrow>
      P m \<and> (\<forall>i. m + 1 \<le> i \<and> i < com_qualifierCount c \<longrightarrow> P i)" for P
    using m by (metis Suc_eq_plus1 Suc_leD Suc_leI le_neq_implies_less order_refl)
  show ?case
    unfolding com_agree.simps [of c other m "m - 1"] split
    using m l IH com_seek_layout [OF assms(2,3) m] by (auto simp: not_less)
qed

lemma com_agreesWith_layout:
  assumes "com_ok c" "com_ok other" "com_same_layout c other"
  shows "com_agreesWith c other = Inr (com_agrees_spec c other)"
proof -
  let ?n = "com_qualifierCount c" and ?k = "com_qualifierCount other"
  let ?P = "\<lambda>i. absdiff (q_value (com_qualifiers c ! i)) (q_value (com_qualifiers other ! i)) \<le> q_maxDelta (com_qualifiers c ! i)"
  have len: "?n \<le> length (com_qualifiers c)" "?k \<le> length (com_qualifiers other)" "?n \<le> ?k"
    using assms by (simp_all add: com_ok_def com_same_layout_def)
  have one: "(\<exists>q' \<in> set (com_quals other). q_id q' = q_id (com_qualifiers c ! i) \<and>
      absdiff (q_value (com_qualifiers c ! i)) (q_value q') \<le> q_maxDelta (com_qualifiers c ! i)) \<longleftrightarrow> ?P i"
    if i: "i < ?n" for i
  proof -
    have e: "q_id (com_qualifiers c ! i) = q_id (com_qualifiers other ! i)"
      using assms(3) i by (simp add: com_same_layout_def)
    have u: "q' = com_qualifiers other ! i"
      if q: "q' \<in> set (com_quals other)" "q_id q' = q_id (com_qualifiers other ! i)" for q'
    proof -
      obtain j where j: "j < ?k" "q' = com_qualifiers other ! j"
        using q(1) len by (auto simp: in_set_conv_nth)
      have d: "distinct (map q_id (com_quals other))" using assms(3) by (simp add: com_same_layout_def)
      have "map q_id (com_quals other) ! j = map q_id (com_quals other) ! i"
        using q(2) j i len by simp
      then have "j = i"
        using nth_eq_iff_index_eq [OF d] j i len by simp
      with j show ?thesis by simp
    qed
    have "com_quals other ! i \<in> set (com_quals other)"
      using i len by (intro nth_mem) simp
    then have "com_qualifiers other ! i \<in> set (com_quals other)"
      using i len by simp
    with u e show ?thesis by auto
  qed
  have "com_agrees_spec c other \<longleftrightarrow> ?n \<noteq> 0 \<and> (\<forall>i < ?n. ?P i)"
  proof -
    have "(\<forall>q \<in> set (com_quals c). R q) \<longleftrightarrow> (\<forall>i < ?n. R (com_qualifiers c ! i))" for R
      using len by (auto simp: all_set_conv_all_nth)
    with one show ?thesis using len by (auto simp: com_agrees_spec_def)
  qed
  moreover have "com_agreesWith c other = Inr (?n \<noteq> 0 \<and> (\<forall>i < ?n. ?P i))"
    using com_agree_layout [OF assms, of 0] len by (auto simp: com_agreesWith_def)
  ultimately show ?thesis by simp
qed

subsection \<open>Signing\<close>

lemma com_msg_ok: "com_ok c \<Longrightarrow> com_msg c = Inr (concat (map q_enc (com_quals c)))"
  by (auto simp: com_msg_def com_ok_def com_used_def mem_get_def q_bytes_enc)

lemma word_bytes_be_inj: "word_bytes_be (x::u64) = word_bytes_be y \<longleftrightarrow> x = y"
proof
  assume "word_bytes_be x = word_bytes_be y"
  then have "(be_word (word_bytes_be x) :: u64) = be_word (word_bytes_be y)" by simp
  then show "x = y" by (simp add: be_word_word_bytes_be)
qed simp

lemma q_enc_inj: "q_enc q = q_enc q' \<Longrightarrow> q = q'"
proof -
  assume "q_enc q = q_enc q'"
  then have "word_bytes_be (q_id q) = word_bytes_be (q_id q')" "word_bytes_be (q_value q) = word_bytes_be (q_value q')"
    "word_bytes_be (q_maxDelta q) = word_bytes_be (q_maxDelta q')"
    by (simp_all add: q_enc_def)
  then have "q_id q = q_id q'" "q_value q = q_value q'" "q_maxDelta q = q_maxDelta q'"
    by (simp_all add: word_bytes_be_inj)
  then show ?thesis by simp
qed

lemma concat_q_enc_inj:
  "concat (map q_enc qs) = concat (map q_enc rs) \<Longrightarrow> qs = rs"
proof (induction qs arbitrary: rs)
  case Nil
  have "length (concat (map q_enc rs)) = 24 * length rs"
    by (induction rs) simp_all
  with Nil show ?case by (metis concat.simps(1) length_0_conv list.simps(8) mult_eq_0_iff zero_neq_numeral)
next
  case (Cons q qs)
  show ?case
  proof (cases rs)
    case Nil
    then have "length (q_enc q) = 0" using Cons.prems by simp
    then show ?thesis by simp
  next
    case (Cons r rs')
    then have e: "q_enc q @ concat (map q_enc qs) = q_enc r @ concat (map q_enc rs')"
      using Cons.prems by simp
    then have "q_enc q = q_enc r" "concat (map q_enc qs) = concat (map q_enc rs')"
      by simp_all
    with Cons.IH [of rs'] q_enc_inj Cons show ?thesis by simp
  qed
qed

subsection \<open>The text form\<close>

lemma hexchar_cong: "unat x mod 16 = unat y mod 16 \<Longrightarrow> hexchar x = hexchar y"
  by (simp add: hexchar_def unat_and_15)

lemma hex10_addr_bytes: "hex10 (addr_toInt a) = hexbytes (addr_bytes a)"
proof -
  let ?a = "addr_toInt a"
  have u: "unat (ucast (drop_bit k ?a AND 0xff) :: u8) = unat ?a div 2 ^ k mod 256" for k
    by (simp add: ucast_and_ff unsigned_ucast_eq take_bit_eq_mod unat_drop_bit)
  have hi: "hexchar (drop_bit 4 (ucast (drop_bit k ?a AND 0xff) :: u8)) = hexchar (drop_bit (k + 4) ?a)" for k
  proof (rule hexchar_cong)
    have "n mod 256 div 16 mod 16 = n div 16 mod 16" for n :: nat
      using mod_mult2_eq [of n 16 16] by simp
    then show "unat (drop_bit 4 (ucast (drop_bit k ?a AND 0xff) :: u8)) mod 16 = unat (drop_bit (k + 4) ?a) mod 16"
      by (simp add: unat_drop_bit u div_mult2_eq power_add)
  qed
  have lo: "hexchar (ucast (drop_bit k ?a AND 0xff) :: u8) = hexchar (drop_bit k ?a)" for k
  proof (rule hexchar_cong)
    have "n mod 256 mod 16 = n mod 16" for n :: nat by (simp add: mod_mod_cancel)
    then show "unat (ucast (drop_bit k ?a AND 0xff) :: u8) mod 16 = unat (drop_bit k ?a) mod 16"
      by (simp only: unat_drop_bit u)
  qed
  show ?thesis
    by (simp only: hex10_def addr_bytes_def list.map hexbytes_Cons hi lo) (simp add: hexbytes_def)
qed

lemma colonAt_simps:
  "58 \<notin> set f \<Longrightarrow> colonAt (f @ 58 # s) = length f" "58 \<notin> set f \<Longrightarrow> colonAt f = length f"
  by (induction f) (auto simp: colonAt_def)

lemma skip_colon_simps: "58 \<notin> set f \<Longrightarrow> skip_colon (f @ 58 # s) = Inr s"
  by (simp add: skip_colon_def colonAt_simps)

lemma unhex_n_hexbytes:
  assumes "length buf = length d" "r = [] \<or> r = 58 # r'"
  shows "unhex_n (hexbytes d @ r) (length (hexbytes d)) buf (length d) = Inr (length d, d)"
  using assms(1) by (simp add: unhex_n_def unhex_loop_hexbytes)

lemma quals_of_bytes:
  assumes "com_qualifierCount c + length qs \<le> 8" "length (com_qualifiers c) = 8"
  shows "com_fromString_quals (concat (map q_enc qs)) c =
    c\<lparr>com_qualifiers := take (com_qualifierCount c) (com_qualifiers c) @ qs @
          drop (com_qualifierCount c + length qs) (com_qualifiers c),
      com_qualifierCount := com_qualifierCount c + length qs\<rparr>"
  using assms
proof (induction qs arbitrary: c)
  case Nil
  then show ?case by (simp add: com_fromString_quals.simps)
next
  case (Cons q qs)
  let ?n = "com_qualifierCount c"
  let ?b = "q_enc q @ concat (map q_enc qs)"
  have d: "take 8 ?b = word_bytes_be (q_id q)" "take 8 (drop 8 ?b) = word_bytes_be (q_value q)"
    "take 8 (drop 16 ?b) = word_bytes_be (q_maxDelta q)" "drop 24 ?b = concat (map q_enc qs)"
    by (simp_all add: q_enc_def)
  have n: "ntoh (le_word (word_bytes_be (v::u64))) = v" for v
    by (simp add: ntoh_def bswap_le_word be_word_word_bytes_be)
  have q: "\<lparr>q_id = q_id q, q_value = q_value q, q_maxDelta = q_maxDelta q\<rparr> = q" by (cases q) simp
  have t: "take (Suc ?n) ((com_qualifiers c)[?n := q]) = take ?n (com_qualifiers c) @ [q]"
    using Cons.prems by (simp add: take_Suc_conv_app_nth)
  have s: "com_fromString_quals ?b c = com_fromString_quals (concat (map q_enc qs))
      (c\<lparr>com_qualifiers := (com_qualifiers c)[?n := q], com_qualifierCount := ?n + 1\<rparr>)"
    using Cons.prems by (simp only: com_fromString_quals.simps [of ?b] d n q) simp
  show ?case
    using Cons.IH [of "c\<lparr>com_qualifiers := (com_qualifiers c)[?n := q], com_qualifierCount := ?n + 1\<rparr>"] Cons.prems t
    by (simp add: s)
qed

lemma length_concat_q_enc: "length (concat (map q_enc qs)) = 24 * length qs"
  by (induction qs) simp_all

lemma com_toString_ok:
  assumes "com_ok c"
  shows "com_toString c =
    (if com_qualifierCount c \<le> 5
     then Inr ([49] @ 58 # hexbytes (concat (map q_enc (com_quals c))) @ 58 # hexbytes (addr_bytes (com_signedBy c)) @
       (if com_signedBy c \<noteq> Address 0 then 58 # hexbytes (com_signature c) else []))
     else Inl UndefinedBehaviour)"
proof -
  have "length (com_quals c) = com_qualifierCount c" using assms by (simp add: com_ok_def)
  then have "length (hexbytes (concat (map q_enc (com_quals c)))) = 48 * com_qualifierCount c"
    by (simp add: hexbytes_plain(3) length_concat_q_enc)
  then show ?thesis
    using assms by (simp add: com_toString_def q_bytes_enc addr_toString_def hex10_addr_bytes Let_def)
qed

text \<open>The signer and the signature at the end of the text.\<close>

lemma com_signer_text:
  assumes "addr_ok a" "length sig = 96" "length amem = 5" "com_signedBy c = Address 0" "length (com_signature c) = 96"
  shows "com_fromString_signer amem (hexbytes (addr_bytes a) @ (if a \<noteq> Address 0 then 58 # hexbytes sig else [])) c =
    Inr (if a \<noteq> Address 0 then c\<lparr>com_signedBy := a, com_signature := sig\<rparr> else c)"
proof -
  let ?h = "hexbytes (addr_bytes a)"
  have h: "length ?h = 10" "58 \<notin> set ?h" by (simp_all add: hexbytes_plain)
  have u: "unhex_n (?h @ r) 10 amem 5 = Inr (5, addr_bytes a)" if "r = [] \<or> r = 58 # r'" for r r'
    using unhex_n_hexbytes [of amem "addr_bytes a" r r'] that assms(3) h(1) by simp
  have a: "addr_setTo (addr_bytes a) 5 = Inr a" using addr_roundtrip [OF assms(1), of "[]"] by simp
  show ?thesis
  proof (cases "a = Address 0")
    case True
    have "c\<lparr>com_signedBy := Address 0\<rparr> = c" using assms(4) by (cases c) simp
    then show ?thesis
      using True u [of "[]"] a h by (simp add: com_fromString_signer_def colonAt_simps)
  next
    case False
    have k: "colonAt (hexbytes sig) = 192" "unhex_n (hexbytes sig) 192 (com_signature c) 96 = Inr (96, sig)"
      using unhex_n_hexbytes [of "com_signature c" sig "[]" "[]"] assms(2,5)
      by (simp_all add: colonAt_simps hexbytes_plain)
    show ?thesis
      using False u [of "58 # hexbytes sig" "hexbytes sig"] a h k
      by (simp add: com_fromString_signer_def com_fromString_sig_def colonAt_simps skip_colon_simps)
  qed
qed

lemma com_fromString_toString:
  assumes c: "com_wire_ok c0 c" "com_qualifierCount c \<le> 5"
    and z: "com_signedBy c = Address 0 \<Longrightarrow> com_signature c = replicate 96 0"
    and mem: "240 \<le> length mem" "length amem = 5"
  shows "\<exists>s. com_toString c = Inr s \<and> com_fromString mem amem s c0 = Inr c"
proof -
  let ?n = "com_qualifierCount c" and ?qs = "com_quals c"
  have ok: "com_ok c" "length (com_qualifiers c) = 8" "length (com_qualifiers c0) = 8" "length (com_signature c) = 96"
    "addr_ok (com_signedBy c)" "length ?qs = ?n"
    using c by (simp_all add: com_wire_ok_def com_ok_def)
  define d where "d = concat (map q_enc ?qs)"
  have ld: "length d = 24 * ?n" using ok(6) by (simp add: d_def length_concat_q_enc)
  define r where "r = hexbytes (addr_bytes (com_signedBy c)) @
       (if com_signedBy c \<noteq> Address 0 then 58 # hexbytes (com_signature c) else [])"
  let ?c = "c0\<lparr>com_qualifierCount := 0, com_signedBy := Address 0, com_signature := replicate 96 0\<rparr>"
  let ?c1 = "?c\<lparr>com_qualifiers := com_qualifiers c, com_qualifierCount := ?n\<rparr>"
  have q: "?qs @ drop ?n (com_qualifiers c0) = com_qualifiers c"
    using c(1) append_take_drop_id [of ?n "com_qualifiers c"] by (simp add: com_wire_ok_def)
  have c1: "com_fromString_quals d ?c = ?c1"
    using quals_of_bytes [of ?c ?qs] ok c(2) q by (simp add: d_def)
  have quals: "(if colonAt (hexbytes d @ 58 # r) \<noteq> 0 then
             let buflen = colonAt (hexbytes d @ 58 # r) div 2 in
             res_bind (unhex_n (hexbytes d @ 58 # r) (colonAt (hexbytes d @ 58 # r)) (take buflen mem) buflen) (\<lambda>(n, buf).
             Inr (com_fromString_quals (take n buf) ?c))
           else Inr ?c) = Inr ?c1"
  proof (cases "d = []")
    case True
    then show ?thesis using c1 by (simp add: colonAt_simps hexbytes_plain com_fromString_quals.simps [of "[]"])
  next
    case False
    have "length (take (length d) mem) = length d" using mem(1) ld c(2) by simp
    from unhex_n_hexbytes [OF this, of "58 # r" r] False c1 show ?thesis
      by (simp add: colonAt_simps hexbytes_plain)
  qed
  have signer: "com_fromString_signer amem r ?c1 =
      Inr (if com_signedBy c \<noteq> Address 0 then ?c1\<lparr>com_signedBy := com_signedBy c, com_signature := com_signature c\<rparr> else ?c1)"
    unfolding r_def using ok mem(2) by (intro com_signer_text) simp_all
  have fin: "(if com_signedBy c \<noteq> Address 0 then ?c1\<lparr>com_signedBy := com_signedBy c, com_signature := com_signature c\<rparr> else ?c1) = c"
    using z by (cases c, cases c0) auto
  have srt: "c\<lparr>com_qualifiers := com_sort ?n (com_qualifiers c)\<rparr> = c"
  proof -
    have "sorted (map q_id ?qs)" using c(1) by (simp add: com_wire_ok_def)
    then have "com_sort ?n (com_qualifiers c) = com_qualifiers c" by (simp add: com_sort_def sort_key_id_if_sorted)
    then show ?thesis by simp
  qed
  have "com_toString c = Inr ([49] @ 58 # hexbytes d @ 58 # r)"
    using com_toString_ok [OF ok(1)] c(2) by (simp add: d_def r_def)
  moreover have "com_fromString mem amem ([49] @ 58 # hexbytes d @ 58 # r) c0 = Inr c"
  proof -
    have "colonAt ([49] @ 58 # hexbytes d @ 58 # r) = 1" "skip_colon ([49] @ 58 # hexbytes d @ 58 # r) = Inr (hexbytes d @ 58 # r)"
      using colonAt_simps(1) [of "[49]"] skip_colon_simps [of "[49]"] by simp_all
    then show ?thesis
      using quals signer fin srt
      by (simp add: com_fromString_def Let_def colonAt_simps hexbytes_plain skip_colon_simps)
  qed
  ultimately show ?thesis by blast
qed

subsection \<open>Setting qualifiers\<close>

text \<open>The certificates that \<open>setQualifier\<close> builds: ids strictly ascending.\<close>

definition com_built :: "com \<Rightarrow> bool" where
  "com_built c \<longleftrightarrow> com_ok c \<and> sorted (map q_id (com_quals c)) \<and> distinct (map q_id (com_quals c))"

lemma find_id_iff:
  assumes "distinct (map q_id qs)"
  shows "find (\<lambda>q. q_id q = i) qs = Some q \<longleftrightarrow> q \<in> set qs \<and> q_id q = i"
  using assms by (induction qs) auto

lemma find_id_cong:
  assumes "distinct (map q_id qs)" "distinct (map q_id rs)"
    and "\<And>q. q_id q = i \<Longrightarrow> q \<in> set qs \<longleftrightarrow> q \<in> set rs"
  shows "find (\<lambda>q. q_id q = i) qs = find (\<lambda>q. q_id q = i) rs"
proof (rule option.expand, goal_cases)
  case 1
  show ?case using assms(3) by (auto simp: find_None_iff)
next
  case 2
  then show ?case using find_id_iff [OF assms(1), of i] find_id_iff [OF assms(2), of i] assms(3)
    by (metis option.collapse)
qed

lemma com_update_None: "com_update i v d qs = None \<longleftrightarrow> i \<notin> q_id ` set qs"
  by (induction qs) auto

lemma com_update_Some:
  assumes "com_update i v d qs = Some rs"
  shows "map q_id rs = map q_id qs \<and> i \<in> q_id ` set qs \<and> find (\<lambda>q. q_id q = i) rs \<noteq> None \<and>
    (\<forall>q. find (\<lambda>q. q_id q = i) rs = Some q \<longrightarrow> q_value q = v \<and> q_maxDelta q = d) \<and>
    (\<forall>j. j \<noteq> i \<longrightarrow> find (\<lambda>q. q_id q = j) rs = find (\<lambda>q. q_id q = j) qs)"
  using assms by (induction qs arbitrary: rs) (auto split: if_splits)

lemma com_update_set:
  assumes "com_update i v d qs = Some rs" "distinct (map q_id qs)"
  shows "set rs = insert \<lparr>q_id = i, q_value = v, q_maxDelta = d\<rparr> {q \<in> set qs. q_id q \<noteq> i}"
  using assms
proof (induction qs arbitrary: rs)
  case (Cons q qs)
  show ?case
  proof (cases "q_id q = i")
    case True
    with Cons.prems have "rs = q\<lparr>q_value := v, q_maxDelta := d\<rparr> # qs" "i \<notin> q_id ` set qs" by auto
    with True show ?thesis by (cases q) (auto simp: image_iff)
  next
    case False
    with Cons.prems obtain rs' where "com_update i v d qs = Some rs'" "rs = q # rs'" by auto
    with Cons.IH [of rs'] Cons.prems False show ?thesis by auto
  qed
qed simp

lemma com_find_built:
  "com_ok c \<Longrightarrow> com_find j c = Inr (case find (\<lambda>q. q_id q = j) (com_quals c) of None \<Rightarrow> 0 | Some q \<Rightarrow> q_value q)"
  by (simp add: com_find_def)

lemma com_setQualifier_built:
  assumes b: "com_built c"
  shows "\<exists>c'. com_setQualifier i v d c = Inr c' \<and> com_built c' \<and> com_signedBy c' = Address 0 \<and>
    (i \<in> q_id ` set (com_quals c) \<or> com_qualifierCount c < 8 \<longrightarrow> com_find i c' = Inr v \<and>
       set (com_quals c') = insert \<lparr>q_id = i, q_value = v, q_maxDelta = d\<rparr> {q \<in> set (com_quals c). q_id q \<noteq> i}) \<and>
    (\<forall>j. j \<noteq> i \<longrightarrow> com_find j c' = com_find j c)"
proof -
  let ?n = "com_qualifierCount c"
  let ?c1 = "c\<lparr>com_signedBy := Address 0\<rparr>"
  have ok: "com_ok c" "length (com_qualifiers c) = 8" "?n \<le> 8"
    using b by (simp_all add: com_built_def com_ok_def)
  have ok1: "com_ok ?c1" using ok(1) by (simp add: com_ok_def addr_ok_def)
  show ?thesis
  proof (cases "com_update i v d (com_quals c)")
    case (Some rs)
    note u = com_update_Some [OF Some]
    let ?c2 = "?c1\<lparr>com_qualifiers := rs @ drop ?n (com_qualifiers c)\<rparr>"
    have l: "length rs = ?n" using u ok by (metis length_map length_take min.absorb2)
    have q: "com_quals ?c2 = rs" using l by simp
    have ok2: "com_ok ?c2" using ok1 l ok by (simp add: com_ok_def)
    have "com_built ?c2" using b u ok2 q by (simp add: com_built_def)
    moreover have "com_find i ?c2 = Inr v"
      using u ok2 q by (auto simp: com_find_built)
    moreover have "set (com_quals ?c2) = insert \<lparr>q_id = i, q_value = v, q_maxDelta = d\<rparr> {q \<in> set (com_quals c). q_id q \<noteq> i}"
      unfolding q using com_update_set [OF Some] b by (simp add: com_built_def)
    moreover have "com_find j ?c2 = com_find j c" if "j \<noteq> i" for j
      using u that ok2 q ok(1) by (simp add: com_find_built)
    moreover have "com_setQualifier i v d c = Inr ?c2"
      using ok1 Some by (simp add: com_setQualifier_def Let_def)
    ultimately show ?thesis by auto
  next
    case None
    then have new: "i \<notin> q_id ` set (com_quals c)" by (simp add: com_update_None)
    show ?thesis
    proof (cases "?n < 8")
      case False
      have "com_built ?c1" using b ok1 by (simp add: com_built_def)
      moreover have "com_find j ?c1 = com_find j c" for j using ok1 ok(1) by (simp add: com_find_built)
      moreover have "com_setQualifier i v d c = Inr ?c1"
        using ok1 None False by (simp add: com_setQualifier_def Let_def)
      ultimately show ?thesis using new False by auto
    next
      case True
      let ?q = "\<lparr>q_id = i, q_value = v, q_maxDelta = d\<rparr>"
      let ?rs = "sort_key q_id (com_quals c @ [?q])"
      have t: "take (?n + 1) ((com_qualifiers c)[?n := ?q]) = com_quals c @ [?q]"
        using True ok by (simp add: take_Suc_conv_app_nth)
      let ?c2 = "?c1\<lparr>com_qualifiers := ?rs @ drop (?n + 1) (com_qualifiers c), com_qualifierCount := ?n + 1\<rparr>"
      have q: "com_quals ?c2 = ?rs" using ok True by simp
      have ok2: "com_ok ?c2" using ok1 ok True by (simp add: com_ok_def)
      have dist: "distinct (map q_id (com_quals c @ [?q]))"
        using b new by (auto simp: com_built_def)
      have set: "set ?rs = insert ?q (set (com_quals c))" by simp
      have dr: "distinct (map q_id ?rs)"
        using dist by (metis distinct_map distinct_sort set_sort)
      have "com_built ?c2" unfolding com_built_def q using ok2 dr by simp
      moreover have "set (com_quals ?c2) = insert ?q {q \<in> set (com_quals c). q_id q \<noteq> i}"
        unfolding q set using new by auto
      moreover have "com_find i ?c2 = Inr v"
        unfolding com_find_built [OF ok2, unfolded q] using find_id_iff [OF dr, of i ?q] set by simp
      moreover have "com_find j ?c2 = com_find j c" if "j \<noteq> i" for j
      proof -
        have "find (\<lambda>q. q_id q = j) ?rs = find (\<lambda>q. q_id q = j) (com_quals c)"
          using dr b that set by (intro find_id_cong) (auto simp: com_built_def)
        then show ?thesis unfolding com_find_built [OF ok2, unfolded q] com_find_built [OF ok(1)] by simp
      qed
      moreover have "com_setQualifier i v d c = Inr ?c2"
        using ok1 None True ok t by (simp add: com_setQualifier_def Let_def com_sort_def)
      ultimately show ?thesis by auto
    qed
  qed
qed

primrec com_setAll :: "(u64 \<times> u64 \<times> u64) list \<Rightarrow> com \<Rightarrow> com res" where
  "com_setAll [] c = Inr c"
| "com_setAll (x # xs) c =
     res_bind (com_setQualifier (fst x) (fst (snd x)) (snd (snd x)) c) (com_setAll xs)"

lemma com_setAll_built: "com_built c \<Longrightarrow> \<exists>c'. com_setAll xs c = Inr c' \<and> com_built c'"
proof (induction xs arbitrary: c)
  case Nil
  then show ?case by simp
next
  case (Cons x xs)
  from com_setQualifier_built [OF Cons.prems, of "fst x" "fst (snd x)" "snd (snd x)"] Cons.IH
  show ?case by auto
qed

section \<open>Properties\<close>

definition com_sample :: com where
  "com_sample = com_new 1000 500 0x8056c2e21c000001 (Address 0x1122334455)"

lemma com_sample_ok: "com_ok com_sample" "com_wire_ok com_empty com_sample" "com_qualifierCount com_sample = 3"
  by (simp_all add: com_sample_def com_new_def com_empty_def com_ok_def com_wire_ok_def addr_ok_def)

text \<open>
  C29. The wire format of a membership certificate: \<open>deserialize\<close> reads back what \<open>serialize\<close>
  wrote, and from an arbitrary buffer it throws or yields a certificate whose count fits its array.
\<close>

theorem com_wire_roundtrip:
  assumes "com_wire_ok c0 c" "buf_ok b" "unat (b_len b) + length (com_enc c) \<le> b_cap b"
    and "buf_ok b0" "pos_ok p" "length (com_signature c0) = 96"
  shows "(\<exists>b'. com_serialize c b = Inr b' \<and> com_deserialize c0 b' (b_len b) = Inr (c, b_len b' - b_len b)) \<and>
    \<not> is_ub (com_deserialize c0 b0 p) \<and> (\<forall>c' n. com_deserialize c0 b0 p = Inr (c', n) \<longrightarrow> com_ok c')"
proof -
  have "length (com_qualifiers c0) = 8" using assms(1) by (simp add: com_wire_ok_def)
  note safe = com_deserialize_safe [OF assms(4,5) this assms(6)]
  have "com_ok c'" if "com_deserialize c0 b0 p = Inr (c', n)" for c' n
    using res_all_Inr [OF safe that] by simp
  with com_wire.roundtrip [OF assms(1-3)] res_all_not_ub [OF safe] show ?thesis by blast
qed

theorem com_wire_roundtrip_witness:
  "\<exists>b'. com_serialize com_sample (buf_new (replicate 200 0)) = Inr b' \<and>
     com_deserialize com_empty b' 0 = Inr (com_sample, b_len b')"
proof -
  have b: "buf_ok (buf_new (replicate 200 0))" by (simp add: buf_ok_def buf_new_def b_cap_def)
  have l: "unat (b_len (buf_new (replicate 200 0))) + length (com_enc com_sample) \<le> b_cap (buf_new (replicate 200 0))"
    by (simp add: buf_new_def b_cap_def com_enc_def com_sample_def com_new_def com_empty_def numeral_3_eq_3)
  from com_wire_roundtrip [OF com_sample_ok(2) b l b, of 0] show ?thesis
    by (auto simp: buf_new_def pos_ok_def com_empty_def)
qed

text \<open>
  C12. \<open>agreesWith\<close> always terminates with an answer inside its arrays. When our qualifiers are the
  first ones of the other certificate, as in certificates of one controller, the answer is the
  documented one: every qualifier of ours is present in the other within our maximum delta.
\<close>

theorem com_agreesWith_correct:
  assumes "com_ok c" "com_ok other"
  shows "(\<exists>r. com_agreesWith c other = Inr r) \<and>
    (com_same_layout c other \<longrightarrow> com_agreesWith c other = Inr (com_agrees_spec c other))"
  using com_agreesWith_total [OF assms] com_agreesWith_layout [OF assms] by blast

theorem com_agreesWith_correct_witness:
  "com_agreesWith com_sample (com_new 1400 500 0x8056c2e21c000001 (Address 0x99)) =
     Inr (com_agrees_spec com_sample (com_new 1400 500 0x8056c2e21c000001 (Address 0x99)))"
proof -
  have "com_ok (com_new 1400 500 0x8056c2e21c000001 (Address 0x99))"
    by (simp add: com_new_def com_empty_def com_ok_def addr_ok_def)
  moreover have "com_same_layout com_sample (com_new 1400 500 0x8056c2e21c000001 (Address 0x99))"
    by (simp add: com_same_layout_def com_sample_def com_new_def com_empty_def numeral_3_eq_3 less_Suc_eq all_simps)
  ultimately show ?thesis using com_agreesWith_correct [OF com_sample_ok(1)] by blast
qed

definition q_of :: "u64 \<Rightarrow> u64 \<Rightarrow> qualifier" where
  "q_of i v = \<lparr>q_id = i, q_value = v, q_maxDelta = 0\<rparr>"

definition com_of :: "qualifier list \<Rightarrow> com" where
  "com_of qs = com_empty\<lparr>com_qualifiers := qs @ replicate (8 - length qs) q_null, com_qualifierCount := length qs\<rparr>"

text \<open>
  With another layout the comparison is wrong: the value is read at our own index in the other
  certificate and not at the index that the search found. A certificate without qualifier 1 agrees
  with one whose qualifier 2 differs, and disagrees with one that satisfies the documentation.
\<close>

theorem com_agreesWith_wrong_index:
  "com_agreesWith (com_of [q_of 0 7, q_of 2 5]) (com_of [q_of 0 7, q_of 1 5, q_of 2 99]) = Inr True \<and>
   \<not> com_agrees_spec (com_of [q_of 0 7, q_of 2 5]) (com_of [q_of 0 7, q_of 1 5, q_of 2 99]) \<and>
   com_agreesWith (com_of [q_of 0 7, q_of 2 5]) (com_of [q_of 0 7, q_of 1 99, q_of 2 5]) = Inr False \<and>
   com_agrees_spec (com_of [q_of 0 7, q_of 2 5]) (com_of [q_of 0 7, q_of 1 99, q_of 2 5])"
  by (simp add: com_agreesWith_def com_of_def q_of_def com_empty_def com_agree.simps com_seek.simps absdiff_def
      com_agrees_spec_def)

text \<open>
  C28. Invariant of \<open>setQualifier\<close>: any sequence of calls on a new certificate keeps the count within
  the array and the ids strictly ascending, as \<open>agreesWith\<close> and \<open>deserialize\<close> expect; each call
  removes the signature and, unless the id is new and the array full, leaves exactly the qualifiers of
  other ids as they were and one for this id, with the value and the maximum delta given.
\<close>

theorem com_setQualifier_invariant:
  "\<exists>c. com_setAll xs com_empty = Inr c \<and> com_built c \<and>
    (\<exists>c'. com_setQualifier i v d c = Inr c' \<and> com_built c' \<and> com_signedBy c' = Address 0 \<and>
       (if i \<in> q_id ` set (com_quals c) \<or> com_qualifierCount c < 8 then
          com_find i c' = Inr v \<and>
          set (com_quals c') = insert \<lparr>q_id = i, q_value = v, q_maxDelta = d\<rparr> {q \<in> set (com_quals c). q_id q \<noteq> i}
        else c' = c\<lparr>com_signedBy := Address 0\<rparr>) \<and>
       (\<forall>j. j = i \<or> com_find j c' = com_find j c))"
proof -
  have "com_built com_empty" by (simp add: com_built_def com_empty_def com_ok_def addr_ok_def)
  from com_setAll_built [OF this] obtain c where c: "com_setAll xs com_empty = Inr c" "com_built c" by blast
  then have ok: "com_ok (c\<lparr>com_signedBy := Address 0\<rparr>)" by (simp add: com_built_def com_ok_def addr_ok_def)
  have full: "com_setQualifier i v d c = Inr (c\<lparr>com_signedBy := Address 0\<rparr>)"
    if "\<not> (i \<in> q_id ` set (com_quals c) \<or> com_qualifierCount c < 8)"
    using that ok com_update_None [of i v d "com_quals c"] by (simp add: com_setQualifier_def Let_def)
  from com_setQualifier_built [OF c(2), of i v d] c full show ?thesis by auto
qed

text \<open>
  A certificate that the controller of its network signs is accepted by every node that knows
  the controller's identity, and the signed bytes determine every qualifier: no other list of
  qualifiers has the same ones.
\<close>

theorem com_sign_verify:
  assumes "com_ok c" "com_networkId c = Inr nwid" "id_address i = controllerFor nwid" "id_valid i"
    and "signs_for C i" "id_hasPrivate i" "known (id_address i) = i"
    and "com_ok d" "com_msg d = com_msg c"
  shows "(\<exists>c'. com_sign C i c = Inr (True, c') \<and> com_quals c' = com_quals c \<and> com_verify C known c' = Inr (0, [])) \<and>
    com_quals d = com_quals c"
proof -
  obtain k where k: "id_privateKey i = Some k" using assms(6) by (auto simp: id_hasPrivate_def)
  let ?m = "concat (map q_enc (com_quals c))"
  let ?s = "cr_sign C k (id_publicKey i) ?m"
  let ?c = "c\<lparr>com_signature := ?s, com_signedBy := id_address i\<rparr>"
  have s: "cr_verify C (id_publicKey i) ?m ?s" "length ?s = 96"
    using assms(5) k by (simp_all add: signs_for_def)
  have ok: "com_ok ?c"
    using assms(1,3) s(2) by (simp add: com_ok_def controllerFor_def)
  have nw: "com_networkId ?c = Inr nwid"
    using assms(2) by (simp add: com_networkId_def com_find_def com_used_def)
  have "com_sign C i c = Inr (True, ?c)"
    using com_msg_ok [OF assms(1)] k by (simp add: com_sign_def id_sign_def)
  moreover have "com_verify C known ?c = Inr (0, [])"
    using nw com_msg_ok [OF ok] assms(3,4,7) s(1) ok
    by (simp add: com_verify_def id_valid_def id_verify_def com_ok_def)
  moreover have "com_quals d = com_quals c"
    using assms(9) com_msg_ok [OF assms(1)] com_msg_ok [OF assms(8)] concat_q_enc_inj by simp
  ultimately show ?thesis by auto
qed

definition toy_crypto :: crypto where
  "toy_crypto = \<lparr>cr_sign = (\<lambda>k p m. replicate 96 (foldl (+) 0 m)),
     cr_verify = (\<lambda>p m s. s = replicate 96 (foldl (+) 0 m)), cr_agree = (\<lambda>k p n. replicate n 0),
     cr_memhash = (\<lambda>p. replicate 64 0)\<rparr>"

lemma toy_signs_for: "signs_for toy_crypto i"
  by (simp add: signs_for_def toy_crypto_def)

theorem com_sign_verify_witness:
  "\<exists>c'. com_sign toy_crypto id_sample com_sample = Inr (True, c') \<and>
     com_verify toy_crypto (\<lambda>a. id_sample) c' = Inr (0, [])"
proof -
  have "com_networkId com_sample = Inr 0x8056c2e21c000001"
    by (simp add: com_networkId_def com_find_def com_used_def mem_get_def com_sample_def com_new_def com_empty_def numeral_3_eq_3)
  moreover have "id_address id_sample = controllerFor 0x8056c2e21c000001"
    by (simp add: id_sample_def controllerFor_def addr_new_def)
  moreover have "id_valid id_sample" "id_hasPrivate id_sample"
    by (simp_all add: id_valid_def id_sample_def id_hasPrivate_def)
  ultimately show ?thesis
    using com_sign_verify [OF com_sample_ok(1) _ _ _ toy_signs_for, of "0x8056c2e21c000001" id_sample "\<lambda>a. id_sample" com_sample]
      com_sample_ok(1) by auto
qed

text \<open>
  C30. The text form: up to five qualifiers survive \<open>toString\<close> and \<open>fromString\<close>; with six or more the
  hexadecimal text does not fit the local array of \<open>toString\<close>, which is overrun; and \<open>fromString\<close> of
  the string "1" moves its pointer past the terminating NUL.
\<close>

theorem com_text:
  assumes "com_wire_ok c0 c" "com_signedBy c = Address 0 \<longrightarrow> com_signature c = replicate 96 0"
    and "240 \<le> length mem" "length amem = 5"
  shows "(if com_qualifierCount c \<le> 5
      then \<exists>s. com_toString c = Inr s \<and> com_fromString mem amem s c0 = Inr c
      else com_toString c = Inl UndefinedBehaviour) \<and>
    com_fromString mem amem [49] c0 = Inl UndefinedBehaviour"
proof -
  have "com_ok c" using assms(1) by (simp add: com_wire_ok_def)
  moreover have "com_fromString mem amem [49] c0 = Inl UndefinedBehaviour"
    by (simp add: com_fromString_def colonAt_def skip_colon_def)
  ultimately show ?thesis
    using com_fromString_toString [OF assms(1) _ _ assms(3,4)] assms(2) com_toString_ok by simp
qed

theorem com_text_witness:
  "\<exists>s. com_toString com_sample = Inr s \<and> com_fromString (replicate 240 0) (replicate 5 0) s com_empty = Inr com_sample"
proof -
  have "com_signature com_sample = replicate 96 0" by (simp add: com_sample_def com_new_def com_empty_def)
  with com_text [OF com_sample_ok(2), of "replicate 240 0" "replicate 5 0"] com_sample_ok(3) show ?thesis by simp
qed

end
