(* ===== verification/Zt_Credentials.thy ===== *)
theory Zt_Credentials
  imports Zt_Com Inet_Laws
begin

text \<open>
  \<^verbatim>\<open>node/Credential.hpp\<close>, \<^verbatim>\<open>node/Tag.hpp\<close>, \<^verbatim>\<open>node/CertificateOfOwnership.hpp\<close>, \<^verbatim>\<open>node/Revocation.hpp\<close>
  and their \<^verbatim>\<open>.cpp\<close> files: the credentials that a controller signs for one member. The contract
  that the three share is the locale \<open>signed_credential\<close>. Timestamps (\<open>int64_t\<close>) are kept as the
  64 bits that are written; a comparison reads them with \<open>sint\<close>.
\<close>

section \<open>The code\<close>

subsection \<open>Shared pieces\<close>

datatype credential_type = CredNull | CredCom | CredCapability | CredTag | CredCoo | CredRevocation

fun credential_code :: "credential_type \<Rightarrow> u32" where
  "credential_code CredNull = 0"
| "credential_code CredCom = 1"
| "credential_code CredCapability = 2"
| "credential_code CredTag = 3"
| "credential_code CredCoo = 4"
| "credential_code CredRevocation = 6"

text \<open>The signature block: \<open>None\<close> when its type is not Ed25519 and it is skipped.\<close>

definition rd_signature :: "buf \<Rightarrow> u32 \<Rightarrow> (bytes option \<Rightarrow> u32 \<Rightarrow> 'b res) \<Rightarrow> 'b res" where
  "rd_signature b p k =
     rd_byte b p (\<lambda>t p.
     if t = 1 then
       rd_at b p (\<lambda>l p.
       if l \<noteq> (96 :: u16) then Inl InvalidCryptographicToken
       else rd_field b p 96 (\<lambda>s p. k (Some s) p))
     else rd_skip b p (\<lambda>p. k None p))"

definition ser_signature :: "bytes \<Rightarrow> buf \<Rightarrow> buf res" where
  "ser_signature s = ser_seq [buf_append (1 :: u8), buf_append (96 :: u16), buf_append_bytes s 96]"

definition ser_magic :: "buf \<Rightarrow> buf res" where
  "ser_magic = buf_append (0x7f7f7f7f7f7f7f7f :: u64)"

text \<open>The additional fields at the end, and the check that they do not pass the end.\<close>

definition rd_end :: "buf \<Rightarrow> u32 \<Rightarrow> u32 \<Rightarrow> 'a \<Rightarrow> ('a \<times> u32) res" where
  "rd_end b startAt p x =
     rd_skip b p (\<lambda>p. if p > b_len b then Inl SerializedOverflow else Inr (x, p - startAt))"

text \<open>
  The body of the three \<open>verify\<close> functions. \<open>m\<close> is the outcome of serializing into the local
  buffer; an exception there is caught.
\<close>

definition cred_verify ::
  "crypto \<Rightarrow> (address \<Rightarrow> identity) \<Rightarrow> address \<Rightarrow> u64 \<Rightarrow> bytes res \<Rightarrow> bytes \<Rightarrow> (int \<times> address list) res" where
  "cred_verify C known signedBy nwid m sig =
     (if signedBy = Address 0 \<or> signedBy \<noteq> controllerFor nwid then Inr (- 1, [])
      else if \<not> id_valid (known signedBy) then Inr (1, [signedBy])
      else case m of
        Inl UndefinedBehaviour \<Rightarrow> Inl UndefinedBehaviour
      | Inl e \<Rightarrow> Inr (- 1, [])
      | Inr msg \<Rightarrow> Inr (if id_verify C (known signedBy) msg sig then 0 else - 1, []))"

text \<open>The body of the three \<open>sign\<close> functions: \<open>x\<close> has its signer set already.\<close>

definition cred_sign ::
  "crypto \<Rightarrow> identity \<Rightarrow> bytes res \<Rightarrow> (bytes \<Rightarrow> 'a) \<Rightarrow> 'a \<Rightarrow> (bool \<times> 'a) res" where
  "cred_sign C i m put x =
     (if id_hasPrivate i then
        res_bind m (\<lambda>msg. res_bind (id_sign C i msg) (\<lambda>s. Inr (True, put s)))
      else Inr (False, x))"

subsection \<open>Tag\<close>

record tag =
  tag_id :: u32
  tag_value :: u32
  tag_networkId :: u64
  tag_ts :: u64
  tag_issuedTo :: address
  tag_signedBy :: address
  tag_signature :: bytes

definition tag_zero :: tag where
  "tag_zero = \<lparr>tag_id = 0, tag_value = 0, tag_networkId = 0, tag_ts = 0, tag_issuedTo = Address 0,
     tag_signedBy = Address 0, tag_signature = replicate 96 0\<rparr>"

text \<open>The second constructor leaves the signature uninitialised (\<open>mem\<close>).\<close>

definition tag_new :: "bytes \<Rightarrow> u64 \<Rightarrow> u64 \<Rightarrow> address \<Rightarrow> u32 \<Rightarrow> u32 \<Rightarrow> tag" where
  "tag_new mem nwid ts issuedTo i v =
     \<lparr>tag_id = i, tag_value = v, tag_networkId = nwid, tag_ts = ts, tag_issuedTo = issuedTo,
      tag_signedBy = Address 0, tag_signature = mem\<rparr>"

definition tag_serialize :: "bool \<Rightarrow> tag \<Rightarrow> buf \<Rightarrow> buf res" where
  "tag_serialize forSign t =
     ser_seq
      [ser_when forSign ser_magic,
       buf_append (tag_networkId t),
       buf_append (tag_ts t),
       buf_append (tag_id t),
       buf_append (tag_value t),
       addr_appendTo (tag_issuedTo t),
       addr_appendTo (tag_signedBy t),
       ser_when (\<not> forSign) (ser_signature (tag_signature t)),
       buf_append (0 :: u16),
       ser_when forSign ser_magic]"

definition tag_deserialize :: "buf \<Rightarrow> u32 \<Rightarrow> (tag \<times> u32) res" where
  "tag_deserialize b startAt =
     rd_at b startAt (\<lambda>nwid p.
     rd_at b p (\<lambda>ts p.
     rd_at b p (\<lambda>i p.
     rd_at b p (\<lambda>v p.
     rd_addr b p (\<lambda>issuedTo p.
     rd_addr b p (\<lambda>signedBy p.
     rd_signature b p (\<lambda>s p.
     rd_end b startAt p
       \<lparr>tag_id = i, tag_value = v, tag_networkId = nwid, tag_ts = ts, tag_issuedTo = issuedTo,
        tag_signedBy = signedBy, tag_signature = (case s of Some x \<Rightarrow> x | None \<Rightarrow> replicate 96 0)\<rparr>)))))))"

definition tag_sign :: "crypto \<Rightarrow> bytes \<Rightarrow> identity \<Rightarrow> tag \<Rightarrow> (bool \<times> tag) res" where
  "tag_sign C mem i t =
     (let t1 = t\<lparr>tag_signedBy := id_address i\<rparr> in
      cred_sign C i (ser_bytes (tag_serialize True t1) (take 200 mem)) (\<lambda>s. t1\<lparr>tag_signature := s\<rparr>) t)"

definition tag_verify :: "crypto \<Rightarrow> (address \<Rightarrow> identity) \<Rightarrow> bytes \<Rightarrow> tag \<Rightarrow> (int \<times> address list) res" where
  "tag_verify C known mem t =
     cred_verify C known (tag_signedBy t) (tag_networkId t)
       (ser_bytes (tag_serialize True t) (take 272 mem)) (tag_signature t)"

subsection \<open>Certificate of ownership\<close>

record coo =
  coo_networkId :: u64
  coo_ts :: u64
  coo_flags :: u64
  coo_id :: u32
  coo_thingCount :: u16
  coo_thingTypes :: bytes
  coo_thingValues :: "bytes list"
  coo_issuedTo :: address
  coo_signedBy :: address
  coo_signature :: bytes

definition coo_zero :: coo where
  "coo_zero = \<lparr>coo_networkId = 0, coo_ts = 0, coo_flags = 0, coo_id = 0, coo_thingCount = 0,
     coo_thingTypes = replicate 16 0, coo_thingValues = replicate 16 (replicate 16 0),
     coo_issuedTo = Address 0, coo_signedBy = Address 0, coo_signature = replicate 96 0\<rparr>"

definition coo_new :: "bytes \<Rightarrow> u64 \<Rightarrow> u64 \<Rightarrow> address \<Rightarrow> u32 \<Rightarrow> coo" where
  "coo_new mem nwid ts issuedTo i =
     coo_zero\<lparr>coo_networkId := nwid, coo_ts := ts, coo_id := i, coo_issuedTo := issuedTo, coo_signature := mem\<rparr>"

text \<open>\<open>_owns(t, v, l)\<close> with \<open>v\<close> the \<open>l\<close> bytes, as a loop over the things from \<open>i\<close> on.\<close>

function coo_owns_from :: "coo \<Rightarrow> u8 \<Rightarrow> bytes \<Rightarrow> nat \<Rightarrow> bool res" where
  "coo_owns_from c t v i =
     (if i < unat (coo_thingCount c) then
        res_bind (rd (coo_thingTypes c) i) (\<lambda>ty.
        if ty = t then
          res_bind (rd (coo_thingValues c) i) (\<lambda>val.
          if take (length v) val = v then Inr True else coo_owns_from c t v (i + 1))
        else coo_owns_from c t v (i + 1))
      else Inr False)"
  by auto

termination coo_owns_from
  by (relation "measure (\<lambda>(c, t, v, i). unat (coo_thingCount c) - i)") auto

declare coo_owns_from.simps [simp del]

definition coo_owns_inet :: "coo \<Rightarrow> inet \<Rightarrow> bool res" where
  "coo_owns_inet c ip =
     (if ss_family ip = AF_INET then coo_owns_from c 2 (le_bytes (sin_addr ip)) 0
      else if ss_family ip = AF_INET6 then coo_owns_from c 3 (sin6_addr ip) 0
      else Inr False)"

definition coo_owns_mac :: "coo \<Rightarrow> mac \<Rightarrow> bool res" where
  "coo_owns_mac c m = coo_owns_from c 1 (mac_bytes m) 0"

definition coo_put :: "u8 \<Rightarrow> bytes \<Rightarrow> coo \<Rightarrow> coo res" where
  "coo_put t v c =
     (let n = unat (coo_thingCount c) in
      res_bind (wr (coo_thingTypes c) n t) (\<lambda>ts.
      res_bind (rd (coo_thingValues c) n) (\<lambda>old.
      res_bind (memcpy old 0 v 0 (length v)) (\<lambda>new.
      Inr (c\<lparr>coo_thingTypes := ts, coo_thingValues := (coo_thingValues c)[n := new],
             coo_thingCount := coo_thingCount c + 1\<rparr>)))))"

definition coo_addThing_inet :: "inet \<Rightarrow> coo \<Rightarrow> coo res" where
  "coo_addThing_inet ip c =
     (if coo_thingCount c \<ge> 16 then Inr c
      else if ss_family ip = AF_INET then coo_put 2 (le_bytes (sin_addr ip)) c
      else if ss_family ip = AF_INET6 then coo_put 3 (sin6_addr ip) c
      else Inr c)"

definition coo_addThing_mac :: "mac \<Rightarrow> coo \<Rightarrow> coo res" where
  "coo_addThing_mac m c = (if coo_thingCount c \<ge> 16 then Inr c else coo_put 1 (mac_bytes m) c)"

fun coo_serialize_things :: "coo \<Rightarrow> nat \<Rightarrow> nat \<Rightarrow> buf \<Rightarrow> buf res" where
  "coo_serialize_things c 0 i b = Inr b"
| "coo_serialize_things c (Suc n) i b =
     res_bind (rd (coo_thingTypes c) i) (\<lambda>t.
     res_bind (buf_append t b) (\<lambda>b.
     res_bind (rd (coo_thingValues c) i) (\<lambda>v.
     res_bind (buf_append_bytes v 16 b) (\<lambda>b.
     coo_serialize_things c n (i + 1) b))))"

definition coo_serialize :: "bool \<Rightarrow> coo \<Rightarrow> buf \<Rightarrow> buf res" where
  "coo_serialize forSign c =
     ser_seq
      [ser_when forSign ser_magic,
       buf_append (coo_networkId c),
       buf_append (coo_ts c),
       buf_append (coo_flags c),
       buf_append (coo_id c),
       buf_append (coo_thingCount c),
       coo_serialize_things c (unat (coo_thingCount c)) 0,
       addr_appendTo (coo_issuedTo c),
       addr_appendTo (coo_signedBy c),
       ser_when (\<not> forSign) (ser_signature (coo_signature c)),
       buf_append (0 :: u16),
       ser_when forSign ser_magic]"

text \<open>The loop stores the first sixteen things and, for the others, does nothing.\<close>

fun coo_deserialize_things :: "buf \<Rightarrow> nat \<Rightarrow> nat \<Rightarrow> u32 \<Rightarrow> coo \<Rightarrow> (coo \<times> u32) res" where
  "coo_deserialize_things b 0 i p c = Inr (c, p)"
| "coo_deserialize_things b (Suc n) i p c =
     (if i < 16 then
        rd_byte b p (\<lambda>t p.
        res_bind (wr (coo_thingTypes c) i t) (\<lambda>ts.
        rd_field b p 16 (\<lambda>v p.
        res_bind (wr (coo_thingValues c) i v) (\<lambda>vs.
        coo_deserialize_things b n (i + 1) p (c\<lparr>coo_thingTypes := ts, coo_thingValues := vs\<rparr>)))))
      else coo_deserialize_things b n (i + 1) p c)"

definition coo_deserialize :: "buf \<Rightarrow> u32 \<Rightarrow> (coo \<times> u32) res" where
  "coo_deserialize b startAt =
     rd_at b startAt (\<lambda>nwid p.
     rd_at b p (\<lambda>ts p.
     rd_at b p (\<lambda>fl p.
     rd_at b p (\<lambda>i p.
     rd_at b p (\<lambda>n p.
     res_bind (coo_deserialize_things b (unat n) 0 p
       (coo_zero\<lparr>coo_networkId := nwid, coo_ts := ts, coo_flags := fl, coo_id := i, coo_thingCount := n\<rparr>)) (\<lambda>(c, p).
     rd_addr b p (\<lambda>issuedTo p.
     rd_addr b p (\<lambda>signedBy p.
     rd_signature b p (\<lambda>s p.
     rd_end b startAt p (c\<lparr>coo_issuedTo := issuedTo, coo_signedBy := signedBy,
       coo_signature := (case s of Some x \<Rightarrow> x | None \<Rightarrow> replicate 96 0)\<rparr>))))))))))"

definition coo_sign :: "crypto \<Rightarrow> bytes \<Rightarrow> identity \<Rightarrow> coo \<Rightarrow> (bool \<times> coo) res" where
  "coo_sign C mem i c =
     (let c1 = c\<lparr>coo_signedBy := id_address i\<rparr> in
      cred_sign C i (ser_bytes (coo_serialize True c1) (take 480 mem)) (\<lambda>s. c1\<lparr>coo_signature := s\<rparr>) c)"

definition coo_verify :: "crypto \<Rightarrow> (address \<Rightarrow> identity) \<Rightarrow> bytes \<Rightarrow> coo \<Rightarrow> (int \<times> address list) res" where
  "coo_verify C known mem c =
     cred_verify C known (coo_signedBy c) (coo_networkId c)
       (ser_bytes (coo_serialize True c) (take 480 mem)) (coo_signature c)"

subsection \<open>Revocation\<close>

record revocation =
  rev_id :: u32
  rev_credentialId :: u32
  rev_networkId :: u64
  rev_threshold :: u64
  rev_flags :: u64
  rev_target :: address
  rev_signedBy :: address
  rev_type :: u8
  rev_signature :: bytes

definition rev_fastPropagate :: "revocation \<Rightarrow> bool" where
  "rev_fastPropagate r \<longleftrightarrow> rev_flags r AND 1 \<noteq> 0"

definition rev_serialize :: "bool \<Rightarrow> revocation \<Rightarrow> buf \<Rightarrow> buf res" where
  "rev_serialize forSign r =
     ser_seq
      [ser_when forSign ser_magic,
       buf_append (0 :: u32),
       buf_append (rev_id r),
       buf_append (rev_networkId r),
       buf_append (0 :: u32),
       buf_append (rev_credentialId r),
       buf_append (rev_threshold r),
       buf_append (rev_flags r),
       addr_appendTo (rev_target r),
       addr_appendTo (rev_signedBy r),
       buf_append (rev_type r),
       ser_when (\<not> forSign) (ser_signature (rev_signature r)),
       buf_append (0 :: u16),
       ser_when forSign ser_magic]"

definition rev_deserialize :: "buf \<Rightarrow> u32 \<Rightarrow> (revocation \<times> u32) res" where
  "rev_deserialize b startAt =
     rd_at b (startAt + 4) (\<lambda>i p.
     rd_at b p (\<lambda>nwid p.
     rd_at b (p + 4) (\<lambda>cid p.
     rd_at b p (\<lambda>thr p.
     rd_at b p (\<lambda>fl p.
     rd_addr b p (\<lambda>target p.
     rd_addr b p (\<lambda>signedBy p.
     rd_byte b p (\<lambda>ty p.
     rd_signature b p (\<lambda>s p.
     rd_end b startAt p
       \<lparr>rev_id = i, rev_credentialId = cid, rev_networkId = nwid, rev_threshold = thr, rev_flags = fl,
        rev_target = target, rev_signedBy = signedBy, rev_type = ty,
        rev_signature = (case s of Some x \<Rightarrow> x | None \<Rightarrow> replicate 96 0)\<rparr>)))))))))"

definition rev_sign :: "crypto \<Rightarrow> bytes \<Rightarrow> identity \<Rightarrow> revocation \<Rightarrow> (bool \<times> revocation) res" where
  "rev_sign C mem i r =
     (let r1 = r\<lparr>rev_signedBy := id_address i\<rparr> in
      cred_sign C i (ser_bytes (rev_serialize True r1) (take 216 mem)) (\<lambda>s. r1\<lparr>rev_signature := s\<rparr>) r)"

definition rev_verify :: "crypto \<Rightarrow> (address \<Rightarrow> identity) \<Rightarrow> bytes \<Rightarrow> revocation \<Rightarrow> (int \<times> address list) res" where
  "rev_verify C known mem r =
     cred_verify C known (rev_signedBy r) (rev_networkId r)
       (ser_bytes (rev_serialize True r) (take 216 mem)) (rev_signature r)"

section \<open>Encodings\<close>

definition magic_enc :: bytes where
  "magic_enc = word_bytes_be (0x7f7f7f7f7f7f7f7f :: u64)"

definition sig_enc :: "bytes \<Rightarrow> bytes" where
  "sig_enc s = [1] @ word_bytes_be (96 :: u16) @ s"

lemma length_magic_enc [simp]: "length magic_enc = 8"
  by (simp add: magic_enc_def)

lemma length_sig_enc [simp]: "length (sig_enc s) = 3 + length s"
  by (simp add: sig_enc_def)

lemma appends_magic [wire_write]: "appends ser_magic magic_enc"
  unfolding ser_magic_def magic_enc_def by (rule appends_buf_append)

lemma appends_signature [wire_write]:
  assumes "length s = 96"
  shows "appends (ser_signature s) (sig_enc s)"
proof -
  have "appends (ser_signature s) (word_bytes_be (1 :: u8) @ word_bytes_be (96 :: u16) @ s @ [])"
    unfolding ser_signature_def using assms by (intro wire_write) simp_all
  then show ?thesis by (simp add: sig_enc_def)
qed

lemma rd_signature_law [wire_read]:
  assumes "buf_ok b" "has b p (sig_enc s @ r)" "length s = 96"
    and "has b (p + 99) r \<Longrightarrow> k (Some s) (p + 99) = R"
  shows "rd_signature b p k = R"
proof -
  have h: "has b p ([1] @ word_bytes_be (96 :: u16) @ s @ r)" using assms(2) by (simp add: sig_enc_def)
  note s1 = has_step8 [OF assms(1) h]
  note s2 = has_step16 [OF assms(1) s1(2)]
  note s3 = has_step_field [OF assms(1) s2(2), of 96]
  have e: "p + 1 + 2 + 96 = p + 99" by simp
  have "rd_signature b p k = k (Some s) (p + 1 + 2 + 96)"
    using s1(1) s2(1) s3(1) assms(3) by (simp add: rd_signature_def rd_byte_def rd_at_def rd_field_def)
  then show ?thesis
    using assms(3,4) s3(2) unfolding e by simp
qed

lemma rd_signature_safe [wire_safe]:
  assumes "buf_ok b" "\<And>s q. (\<forall>x. s = Some x \<longrightarrow> length x = 96) \<Longrightarrow> pos_ok q \<Longrightarrow> res_all Q (k s q)"
  shows "res_all Q (rd_signature b p k)"
  unfolding rd_signature_def using assms by (intro wire_safe) simp_all

lemma rd_end_law [wire_read]:
  assumes "buf_ok b" "has b p (word_bytes_be (0 :: u16) @ r)" "R = Inr (x, p + 2 - startAt)"
  shows "rd_end b startAt p x = R"
proof -
  have "unat p + 2 \<le> unat (b_len b)" using assms(2) by (simp add: has_def)
  moreover have "unat (b_len b) < 2 ^ 31" using assms(1) by (simp add: buf_ok_def)
  ultimately have "unat (p + 2) \<le> unat (b_len b)" by (subst unat_add_nowrap) simp_all
  then have "\<not> p + 2 > b_len b" by (simp add: word_le_nat_alt not_less)
  with assms(3) show ?thesis
    unfolding rd_end_def by (intro rd_skip_law [OF assms(1,2)]) simp
qed

lemma rd_end_safe [wire_safe]:
  assumes "buf_ok b" "\<And>n. Q (x, n)"
  shows "res_all Q (rd_end b startAt p x)"
  unfolding rd_end_def using assms by (intro wire_safe) simp_all

text \<open>Tag.\<close>

definition tag_ok :: "tag \<Rightarrow> bool" where
  "tag_ok t \<longleftrightarrow> addr_ok (tag_issuedTo t) \<and> addr_ok (tag_signedBy t) \<and> length (tag_signature t) = 96"

definition tag_body :: "tag \<Rightarrow> bytes" where
  "tag_body t = word_bytes_be (tag_networkId t) @ word_bytes_be (tag_ts t) @ word_bytes_be (tag_id t) @
     word_bytes_be (tag_value t) @ addr_bytes (tag_issuedTo t) @ addr_bytes (tag_signedBy t)"

definition tag_enc :: "tag \<Rightarrow> bytes" where
  "tag_enc t = tag_body t @ sig_enc (tag_signature t) @ word_bytes_be (0 :: u16)"

definition tag_msg :: "tag \<Rightarrow> bytes" where
  "tag_msg t = magic_enc @ tag_body t @ word_bytes_be (0 :: u16) @ magic_enc"

lemma tag_serialize_appends:
  assumes "length (tag_signature t) = 96"
  shows "appends (tag_serialize forSign t) (if forSign then tag_msg t else tag_enc t)"
proof -
  have "appends (tag_serialize forSign t)
      ((if forSign then magic_enc else []) @ word_bytes_be (tag_networkId t) @ word_bytes_be (tag_ts t) @
       word_bytes_be (tag_id t) @ word_bytes_be (tag_value t) @ addr_bytes (tag_issuedTo t) @
       addr_bytes (tag_signedBy t) @ (if \<not> forSign then sig_enc (tag_signature t) else []) @
       word_bytes_be (0 :: u16) @ (if forSign then magic_enc else []) @ [])"
    unfolding tag_serialize_def using assms by (intro wire_write) simp_all
  then show ?thesis by (cases forSign) (simp_all add: tag_msg_def tag_enc_def tag_body_def)
qed

lemma tag_deserialize_enc:
  assumes "tag_ok t" "buf_ok b" "has b p (tag_enc t)"
  shows "tag_deserialize b p = Inr (t, of_nat (length (tag_enc t)))"
proof -
  have h: "has b p (word_bytes_be (tag_networkId t) @ word_bytes_be (tag_ts t) @ word_bytes_be (tag_id t) @
     word_bytes_be (tag_value t) @ addr_bytes (tag_issuedTo t) @ addr_bytes (tag_signedBy t) @
     sig_enc (tag_signature t) @ word_bytes_be (0 :: u16) @ [])"
    using assms(3) by (simp add: tag_enc_def tag_body_def)
  have ok: "addr_ok (tag_issuedTo t)" "addr_ok (tag_signedBy t)" "length (tag_signature t) = 96"
    using assms(1) by (simp_all add: tag_ok_def)
  show ?thesis
    unfolding tag_deserialize_def
    apply (rule rd_at_64 [OF assms(2) h])
    apply (rule rd_at_64 [OF assms(2)], assumption)
    apply (rule rd_at_32 [OF assms(2)], assumption)
    apply (rule rd_at_32 [OF assms(2)], assumption)
    apply (rule rd_addr_law [OF assms(2)], assumption, rule ok)
    apply (rule rd_addr_law [OF assms(2)], assumption, rule ok)
    apply (rule rd_signature_law [OF assms(2)], assumption, rule ok)
    apply (rule rd_end_law [OF assms(2)], assumption)
    using ok by (simp add: tag_enc_def tag_body_def)
qed

lemma tag_deserialize_safe:
  "buf_ok b \<Longrightarrow> pos_ok p \<Longrightarrow> res_all (\<lambda>(t, n). tag_ok t) (tag_deserialize b p)"
  unfolding tag_deserialize_def by (intro wire_safe) (auto simp: tag_ok_def split: option.split)

interpretation tag_wire: wire_format tag_ok tag_enc "tag_serialize False" tag_deserialize
proof unfold_locales
  fix t b p
  show "appends (tag_serialize False t) (tag_enc t)" if "tag_ok t"
    using tag_serialize_appends [of t False] that by (simp add: tag_ok_def)
  show "tag_deserialize b p = Inr (t, of_nat (length (tag_enc t)))"
    if "tag_ok t" "buf_ok b" "has b p (tag_enc t)"
    using that by (rule tag_deserialize_enc)
qed

text \<open>Revocation.\<close>

definition rev_ok :: "revocation \<Rightarrow> bool" where
  "rev_ok r \<longleftrightarrow> addr_ok (rev_target r) \<and> addr_ok (rev_signedBy r) \<and> length (rev_signature r) = 96"

definition rev_body :: "revocation \<Rightarrow> bytes" where
  "rev_body r = word_bytes_be (0 :: u32) @ word_bytes_be (rev_id r) @ word_bytes_be (rev_networkId r) @
     word_bytes_be (0 :: u32) @ word_bytes_be (rev_credentialId r) @ word_bytes_be (rev_threshold r) @
     word_bytes_be (rev_flags r) @ addr_bytes (rev_target r) @ addr_bytes (rev_signedBy r) @ [rev_type r]"

definition rev_enc :: "revocation \<Rightarrow> bytes" where
  "rev_enc r = rev_body r @ sig_enc (rev_signature r) @ word_bytes_be (0 :: u16)"

definition rev_msg :: "revocation \<Rightarrow> bytes" where
  "rev_msg r = magic_enc @ rev_body r @ word_bytes_be (0 :: u16) @ magic_enc"

lemma rev_serialize_appends:
  assumes "length (rev_signature r) = 96"
  shows "appends (rev_serialize forSign r) (if forSign then rev_msg r else rev_enc r)"
proof -
  have "appends (rev_serialize forSign r)
      ((if forSign then magic_enc else []) @ word_bytes_be (0 :: u32) @ word_bytes_be (rev_id r) @
       word_bytes_be (rev_networkId r) @ word_bytes_be (0 :: u32) @ word_bytes_be (rev_credentialId r) @
       word_bytes_be (rev_threshold r) @ word_bytes_be (rev_flags r) @ addr_bytes (rev_target r) @
       addr_bytes (rev_signedBy r) @ word_bytes_be (rev_type r) @
       (if \<not> forSign then sig_enc (rev_signature r) else []) @
       word_bytes_be (0 :: u16) @ (if forSign then magic_enc else []) @ [])"
    unfolding rev_serialize_def using assms by (intro wire_write) simp_all
  then show ?thesis by (cases forSign) (simp_all add: rev_msg_def rev_enc_def rev_body_def)
qed

lemma rev_deserialize_enc:
  assumes "rev_ok r" "buf_ok b" "has b p (rev_enc r)"
  shows "rev_deserialize b p = Inr (r, of_nat (length (rev_enc r)))"
proof -
  let ?t = "word_bytes_be (rev_credentialId r) @ word_bytes_be (rev_threshold r) @ word_bytes_be (rev_flags r) @
     addr_bytes (rev_target r) @ addr_bytes (rev_signedBy r) @ [rev_type r] @
     sig_enc (rev_signature r) @ word_bytes_be (0 :: u16) @ []"
  have h: "has b p (word_bytes_be (0 :: u32) @ word_bytes_be (rev_id r) @ word_bytes_be (rev_networkId r) @
     word_bytes_be (0 :: u32) @ ?t)"
    using assms(3) by (simp add: rev_enc_def rev_body_def)
  note h1 = has_step32(2) [OF assms(2) h]
  note h2 = has_step32(2) [OF assms(2) has_step64(2) [OF assms(2) has_step32(2) [OF assms(2) h1]]]
  have ok: "addr_ok (rev_target r)" "addr_ok (rev_signedBy r)" "length (rev_signature r) = 96"
    using assms(1) by (simp_all add: rev_ok_def)
  show ?thesis
    unfolding rev_deserialize_def
    apply (rule rd_at_32 [OF assms(2) h1])
    apply (rule rd_at_64 [OF assms(2)], assumption)
    apply (rule rd_at_32 [OF assms(2) h2])
    apply (rule rd_at_64 [OF assms(2)], assumption)
    apply (rule rd_at_64 [OF assms(2)], assumption)
    apply (rule rd_addr_law [OF assms(2)], assumption, rule ok)
    apply (rule rd_addr_law [OF assms(2)], assumption, rule ok)
    apply (rule rd_byte_law [OF assms(2)], assumption)
    apply (rule rd_signature_law [OF assms(2)], assumption, rule ok)
    apply (rule rd_end_law [OF assms(2)], assumption)
    using ok by (simp add: rev_enc_def rev_body_def)
qed

lemma rev_deserialize_safe:
  "buf_ok b \<Longrightarrow> pos_ok p \<Longrightarrow> res_all (\<lambda>(r, n). rev_ok r) (rev_deserialize b p)"
  unfolding rev_deserialize_def by (intro wire_safe) (auto simp: rev_ok_def split: option.split)

interpretation rev_wire: wire_format rev_ok rev_enc "rev_serialize False" rev_deserialize
proof unfold_locales
  fix r b p
  show "appends (rev_serialize False r) (rev_enc r)" if "rev_ok r"
    using rev_serialize_appends [of r False] that by (simp add: rev_ok_def)
  show "rev_deserialize b p = Inr (r, of_nat (length (rev_enc r)))"
    if "rev_ok r" "buf_ok b" "has b p (rev_enc r)"
    using that by (rule rev_deserialize_enc)
qed

text \<open>Certificate of ownership: \<open>coo_ok\<close> bounds the count by the arrays.\<close>

definition coo_shape :: "coo \<Rightarrow> bool" where
  "coo_shape c \<longleftrightarrow> length (coo_thingTypes c) = 16 \<and> length (coo_thingValues c) = 16 \<and>
     (\<forall>v \<in> set (coo_thingValues c). length v = 16)"

definition coo_ok :: "coo \<Rightarrow> bool" where
  "coo_ok c \<longleftrightarrow> coo_shape c \<and> unat (coo_thingCount c) \<le> 16 \<and>
     addr_ok (coo_issuedTo c) \<and> addr_ok (coo_signedBy c) \<and> length (coo_signature c) = 96"

definition coo_things :: "coo \<Rightarrow> (u8 \<times> bytes) list" where
  "coo_things c = zip (take (unat (coo_thingCount c)) (coo_thingTypes c)) (take (unat (coo_thingCount c)) (coo_thingValues c))"

definition things_enc :: "(u8 \<times> bytes) list \<Rightarrow> bytes" where
  "things_enc ts = concat (map (\<lambda>(t, v). [t] @ v) ts)"

lemma things_enc_simps [simp]: "things_enc [] = []" "things_enc ((t, v) # ts) = [t] @ v @ things_enc ts"
  by (simp_all add: things_enc_def)

definition coo_head :: "coo \<Rightarrow> bytes" where
  "coo_head c = word_bytes_be (coo_networkId c) @ word_bytes_be (coo_ts c) @ word_bytes_be (coo_flags c) @
     word_bytes_be (coo_id c) @ word_bytes_be (coo_thingCount c)"

definition coo_body :: "coo \<Rightarrow> bytes" where
  "coo_body c = coo_head c @ things_enc (coo_things c) @ addr_bytes (coo_issuedTo c) @ addr_bytes (coo_signedBy c)"

definition coo_enc :: "coo \<Rightarrow> bytes" where
  "coo_enc c = coo_body c @ sig_enc (coo_signature c) @ word_bytes_be (0 :: u16)"

definition coo_msg :: "coo \<Rightarrow> bytes" where
  "coo_msg c = magic_enc @ coo_body c @ word_bytes_be (0 :: u16) @ magic_enc"

text \<open>What a parsed certificate looks like: the unused slots are zero.\<close>

definition coo_wire_ok :: "coo \<Rightarrow> bool" where
  "coo_wire_ok c \<longleftrightarrow> coo_ok c \<and>
     drop (unat (coo_thingCount c)) (coo_thingTypes c) = replicate (16 - unat (coo_thingCount c)) 0 \<and>
     drop (unat (coo_thingCount c)) (coo_thingValues c) = replicate (16 - unat (coo_thingCount c)) (replicate 16 0)"

lemma length_coo_things: "coo_ok c \<Longrightarrow> length (coo_things c) = unat (coo_thingCount c)"
  by (simp add: coo_things_def coo_ok_def coo_shape_def)

lemma length_things_enc: "\<forall>x \<in> set ts. length (snd x) = 16 \<Longrightarrow> length (things_enc ts) = 17 * length ts"
  by (induction ts) (auto simp: things_enc_def)

lemma coo_thing_length: "coo_shape c \<Longrightarrow> x \<in> set (coo_things c) \<Longrightarrow> length (snd x) = 16"
  by (cases x) (auto simp: coo_things_def coo_shape_def dest!: set_zip_rightD in_set_takeD)

lemma coo_things_appends:
  assumes "coo_ok c"
  shows "n + i = unat (coo_thingCount c) \<Longrightarrow> appends (coo_serialize_things c n i) (things_enc (drop i (coo_things c)))"
proof (induction n arbitrary: i)
  case 0
  have "coo_serialize_things c 0 i = Inr" by (rule ext) simp
  with 0 assms show ?case by (simp add: length_coo_things appends_Inr)
next
  case (Suc n)
  let ?t = "coo_thingTypes c ! i" and ?v = "coo_thingValues c ! i"
  have i: "i < unat (coo_thingCount c)" "i < 16" "length (coo_thingTypes c) = 16" "length (coo_thingValues c) = 16"
    "length ?v = 16"
    using Suc.prems assms by (auto simp: coo_ok_def coo_shape_def)
  have d: "drop i (coo_things c) = (?t, ?v) # drop (i + 1) (coo_things c)"
    using i length_coo_things [OF assms] Cons_nth_drop_Suc [of i "coo_things c"] by (simp add: coo_things_def)
  have e: "coo_serialize_things c (Suc n) i =
      (\<lambda>b. res_bind (buf_append ?t b) (\<lambda>b. res_bind (buf_append_bytes ?v 16 b) (coo_serialize_things c n (i + 1))))"
    using i by (intro ext) simp
  have "appends (\<lambda>b. res_bind (buf_append ?t b) (\<lambda>b. res_bind (buf_append_bytes ?v 16 b) (coo_serialize_things c n (i + 1))))
      (word_bytes_be ?t @ ?v @ things_enc (drop (i + 1) (coo_things c)))"
    using i Suc.IH [of "i + 1"] Suc.prems by (intro wire_write) simp_all
  then show ?case unfolding e d by simp
qed

lemma coo_serialize_appends:
  assumes "coo_ok c"
  shows "appends (coo_serialize forSign c) (if forSign then coo_msg c else coo_enc c)"
proof -
  have t: "appends (coo_serialize_things c (unat (coo_thingCount c)) 0) (things_enc (coo_things c))"
    using coo_things_appends [OF assms, of "unat (coo_thingCount c)" 0] by simp
  have "appends (coo_serialize forSign c)
      ((if forSign then magic_enc else []) @ word_bytes_be (coo_networkId c) @ word_bytes_be (coo_ts c) @
       word_bytes_be (coo_flags c) @ word_bytes_be (coo_id c) @ word_bytes_be (coo_thingCount c) @
       things_enc (coo_things c) @ addr_bytes (coo_issuedTo c) @ addr_bytes (coo_signedBy c) @
       (if \<not> forSign then sig_enc (coo_signature c) else []) @
       word_bytes_be (0 :: u16) @ (if forSign then magic_enc else []) @ [])"
    unfolding coo_serialize_def using assms by (intro wire_write t) (simp_all add: coo_ok_def)
  then show ?thesis by (cases forSign) (simp_all add: coo_msg_def coo_enc_def coo_body_def coo_head_def)
qed

lemma take_Suc_update: "i < length xs \<Longrightarrow> take (Suc i) (xs[i := x]) = take i xs @ [x]"
  by (simp add: take_Suc_conv_app_nth)

lemma coo_loop_enc:
  assumes "buf_ok b" "has b p (things_enc ts @ r)" "i + length ts \<le> 16" "\<forall>x \<in> set ts. length (snd x) = 16"
    and "length (coo_thingTypes c) = 16" "length (coo_thingValues c) = 16"
  shows "coo_deserialize_things b (length ts) i p c =
      Inr (c\<lparr>coo_thingTypes := take i (coo_thingTypes c) @ map fst ts @ drop (i + length ts) (coo_thingTypes c),
             coo_thingValues := take i (coo_thingValues c) @ map snd ts @ drop (i + length ts) (coo_thingValues c)\<rparr>,
           p + of_nat (17 * length ts)) \<and>
    has b (p + of_nat (17 * length ts)) r"
  using assms(2-6)
proof (induction ts arbitrary: p i c)
  case Nil
  then show ?case by simp
next
  case (Cons x ts)
  obtain t v where x: "x = (t, v)" by (cases x)
  let ?c = "c\<lparr>coo_thingTypes := (coo_thingTypes c)[i := t], coo_thingValues := (coo_thingValues c)[i := v]\<rparr>"
  have h: "has b p ([t] @ v @ things_enc ts @ r)" and v: "length v = 16" and i: "i < 16"
    using Cons.prems x by simp_all
  note s1 = has_step8 [OF assms(1) h]
  note s2 = has_step_field [OF assms(1) s1(2), of 16]
  have h2: "has b (p + 17) (things_enc ts @ r)" using s2(2) v by (simp add: add.commute)
  have step: "coo_deserialize_things b (length (x # ts)) i p c = coo_deserialize_things b (length ts) (i + 1) (p + 17) ?c"
    using s1(1) s2(1) v i Cons.prems(4,5) by (simp add: rd_byte_def rd_field_def add.commute [of p])
  have IH: "coo_deserialize_things b (length ts) (i + 1) (p + 17) ?c =
      Inr (?c\<lparr>coo_thingTypes := take (i + 1) ((coo_thingTypes c)[i := t]) @ map fst ts @ drop (i + 1 + length ts) ((coo_thingTypes c)[i := t]),
             coo_thingValues := take (i + 1) ((coo_thingValues c)[i := v]) @ map snd ts @ drop (i + 1 + length ts) ((coo_thingValues c)[i := v])\<rparr>,
           p + 17 + of_nat (17 * length ts)) \<and>
    has b (p + 17 + of_nat (17 * length ts)) r"
    using Cons.IH [OF h2, of "i + 1" ?c] Cons.prems by simp
  show ?case
    unfolding step using IH x i Cons.prems(4,5) by (simp add: take_Suc_update algebra_simps)
qed

lemma coo_shape_zero: "coo_shape coo_zero"
  by (simp add: coo_shape_def coo_zero_def)

lemma coo_deserialize_enc:
  assumes "coo_wire_ok c" "buf_ok b" "has b p (coo_enc c)"
  shows "coo_deserialize b p = Inr (c, of_nat (length (coo_enc c)))"
proof -
  let ?n = "unat (coo_thingCount c)" and ?ts = "coo_things c"
  let ?t = "addr_bytes (coo_issuedTo c) @ addr_bytes (coo_signedBy c) @ sig_enc (coo_signature c) @ word_bytes_be (0 :: u16) @ []"
  have h: "has b p (word_bytes_be (coo_networkId c) @ word_bytes_be (coo_ts c) @ word_bytes_be (coo_flags c) @
     word_bytes_be (coo_id c) @ word_bytes_be (coo_thingCount c) @ things_enc ?ts @ ?t)"
    using assms(3) by (simp add: coo_enc_def coo_body_def coo_head_def)
  have ok: "coo_ok c" "addr_ok (coo_issuedTo c)" "addr_ok (coo_signedBy c)" "length (coo_signature c) = 96" "?n \<le> 16"
    "length (coo_thingTypes c) = 16" "length (coo_thingValues c) = 16"
    using assms(1) by (simp_all add: coo_wire_ok_def coo_ok_def coo_shape_def)
  have len: "length ?ts = ?n" using length_coo_things [OF ok(1)] .
  have vs: "\<forall>x \<in> set ?ts. length (snd x) = 16"
    using coo_thing_length ok(1) by (auto simp: coo_ok_def)
  have ft: "map fst ?ts = take ?n (coo_thingTypes c)" "map snd ?ts = take ?n (coo_thingValues c)"
    using ok by (simp_all add: coo_things_def)
  have zr: "drop ?n (coo_thingTypes coo_zero) = drop ?n (coo_thingTypes c)" "drop ?n (coo_thingValues coo_zero) = drop ?n (coo_thingValues c)"
    using assms(1) by (simp_all add: coo_wire_ok_def coo_zero_def)
  let ?c = "coo_zero\<lparr>coo_networkId := coo_networkId c, coo_ts := coo_ts c, coo_flags := coo_flags c, coo_id := coo_id c,
      coo_thingCount := coo_thingCount c\<rparr>"
  have loop: "coo_deserialize_things b ?n 0 q ?c =
      Inr (?c\<lparr>coo_thingTypes := coo_thingTypes c, coo_thingValues := coo_thingValues c\<rparr>, q + of_nat (17 * ?n)) \<and>
      has b (q + of_nat (17 * ?n)) ?t" if "has b q (things_enc ?ts @ ?t)" for q
    using coo_loop_enc [OF assms(2) that, of 0 ?c] vs ok len coo_shape_zero
    by (simp add: ft zr coo_shape_def)
  have lenc: "of_nat (length (coo_enc c)) = 141 + of_nat (17 * ?n) + (0 :: u32)"
    using ok len vs by (simp add: coo_enc_def coo_body_def coo_head_def length_things_enc)
  show ?thesis
    unfolding coo_deserialize_def
    apply (rule rd_at_64 [OF assms(2) h])
    apply (rule rd_at_64 [OF assms(2)], assumption)
    apply (rule rd_at_64 [OF assms(2)], assumption)
    apply (rule rd_at_32 [OF assms(2)], assumption)
    apply (rule rd_at_16 [OF assms(2)], assumption)
    apply (drule loop, elim conjE)
    apply (simp only: res_bind_simps prod.case)
    apply (rule rd_addr_law [OF assms(2)], assumption, rule ok)
    apply (rule rd_addr_law [OF assms(2)], assumption, rule ok)
    apply (rule rd_signature_law [OF assms(2)], assumption, rule ok)
    apply (rule rd_end_law [OF assms(2)], assumption)
    by (simp add: lenc)
qed

lemma coo_loop_safe:
  assumes "buf_ok b"
  shows "coo_shape c \<Longrightarrow> pos_ok p \<Longrightarrow>
    res_all (\<lambda>(c', q). coo_shape c' \<and> pos_ok q) (coo_deserialize_things b n i p c)"
proof (induction n arbitrary: i p c)
  case 0
  then show ?case by simp
next
  case (Suc n)
  show ?case
  proof (cases "i < 16")
    case False
    then show ?thesis using Suc by simp
  next
    case True
    have step: "res_all (\<lambda>(c', q). coo_shape c' \<and> pos_ok q)
        (coo_deserialize_things b n (i + 1) q (c\<lparr>coo_thingTypes := ts, coo_thingValues := (coo_thingValues c)[i := v]\<rparr>))"
      if "length ts = length (coo_thingTypes c)" "length v = 16" "pos_ok q" for ts v q
      using that Suc.prems(1) by (intro Suc.IH) (auto simp: coo_shape_def dest: set_update_subset_insert [THEN subsetD])
    have r: "res_all (\<lambda>(c', q). coo_shape c' \<and> pos_ok q)
       (rd_field b p' 16 (\<lambda>v p. res_bind (wr (coo_thingValues c) i v) (\<lambda>vs.
          coo_deserialize_things b n (i + 1) p (c\<lparr>coo_thingTypes := ts, coo_thingValues := vs\<rparr>))))"
      if "length ts = length (coo_thingTypes c)" "pos_ok p'" for ts p'
      using that True Suc.prems(1) step by (intro rd_field_safe assms) (simp_all add: coo_shape_def)
    show ?thesis
      using True Suc.prems(1) unfolding coo_deserialize_things.simps
      by (simp only: if_True) (intro rd_byte_safe assms wr_safe r, simp_all add: coo_shape_def)
  qed
qed

lemma coo_deserialize_safe:
  "buf_ok b \<Longrightarrow> pos_ok p \<Longrightarrow> res_all (\<lambda>(c, n). coo_shape c) (coo_deserialize b p)"
  unfolding coo_deserialize_def
  apply (intro wire_safe, assumption+)
  apply (rule bind_safe, rule coo_loop_safe, assumption)
  using coo_shape_zero by (auto intro!: wire_safe simp: coo_shape_def split: option.split)

interpretation coo_wire: wire_format coo_wire_ok coo_enc "coo_serialize False" coo_deserialize
proof unfold_locales
  fix c b p
  show "appends (coo_serialize False c) (coo_enc c)" if "coo_wire_ok c"
    using coo_serialize_appends [of c False] that by (simp add: coo_wire_ok_def)
  show "coo_deserialize b p = Inr (c, of_nat (length (coo_enc c)))"
    if "coo_wire_ok c" "buf_ok b" "has b p (coo_enc c)"
    using that by (rule coo_deserialize_enc)
qed

section \<open>Signatures\<close>

text \<open>
  The contract of a signed credential: \<open>sign\<close> and \<open>verify\<close> work on the same message, which covers
  the signer but not the signature.
\<close>

locale signed_credential =
  fixes wf :: "'a \<Rightarrow> bool"
    and nwid :: "'a \<Rightarrow> u64"
    and signer :: "'a \<Rightarrow> address"
    and set_signer :: "address \<Rightarrow> 'a \<Rightarrow> 'a"
    and sig :: "'a \<Rightarrow> bytes"
    and set_sig :: "bytes \<Rightarrow> 'a \<Rightarrow> 'a"
    and msg :: "'a \<Rightarrow> bytes"
    and sign :: "crypto \<Rightarrow> bytes \<Rightarrow> identity \<Rightarrow> 'a \<Rightarrow> (bool \<times> 'a) res"
    and verify :: "crypto \<Rightarrow> (address \<Rightarrow> identity) \<Rightarrow> bytes \<Rightarrow> 'a \<Rightarrow> (int \<times> address list) res"
  assumes wf_set: "wf x \<Longrightarrow> addr_ok a \<Longrightarrow> wf (set_signer a x)" "wf x \<Longrightarrow> length s = 96 \<Longrightarrow> wf (set_sig s x)"
    and fields: "signer (set_signer a x) = a" "nwid (set_signer a x) = nwid x" "sig (set_sig s x) = s"
      "signer (set_sig s x) = signer x" "nwid (set_sig s x) = nwid x" "msg (set_sig s x) = msg x"
    and sign_law: "wf x \<Longrightarrow> addr_ok (id_address i) \<Longrightarrow> 480 \<le> length mem \<Longrightarrow> sign C mem i x =
      cred_sign C i (Inr (msg (set_signer (id_address i) x))) (\<lambda>s. set_sig s (set_signer (id_address i) x)) x"
    and verify_law: "wf x \<Longrightarrow> 480 \<le> length mem \<Longrightarrow>
      verify C known mem x = cred_verify C known (signer x) (nwid x) (Inr (msg x)) (sig x)"
begin

lemma sign_then_verify:
  assumes "wf x" "480 \<le> length mem" "id_address i = controllerFor (nwid x)" "id_valid i" "id_hasPrivate i"
    and "signs_for C i" "known (id_address i) = i"
  shows "\<exists>y. sign C mem i x = Inr (True, y) \<and> wf y \<and> verify C known mem y = Inr (0, [])"
proof -
  obtain k where k: "id_privateKey i = Some k" using assms(5) by (auto simp: id_hasPrivate_def)
  let ?x = "set_signer (id_address i) x"
  let ?s = "cr_sign C k (id_publicKey i) (msg ?x)"
  have a: "addr_ok (id_address i)" using assms(3) by (simp add: controllerFor_def)
  have s: "length ?s = 96" "cr_verify C (id_publicKey i) (msg ?x) ?s"
    using assms(6) k by (simp_all add: signs_for_def)
  have wfy: "wf (set_sig ?s ?x)" using assms(1) a s(1) wf_set by blast
  have "sign C mem i x = Inr (True, set_sig ?s ?x)"
    using sign_law [OF assms(1) a assms(2)] assms(5) k by (simp add: cred_sign_def id_sign_def)
  moreover have "verify C known mem (set_sig ?s ?x) = Inr (0, [])"
    unfolding verify_law [OF wfy assms(2)]
    using assms(3,4,7) s(2) by (simp add: cred_verify_def fields id_valid_def id_verify_def)
  ultimately show ?thesis using wfy by blast
qed

lemma verify_genuine:
  assumes "wf x" "480 \<le> length mem" "verify C known mem x = Inr (0, ws)"
  shows "signer x = controllerFor (nwid x) \<and> id_valid (known (signer x)) \<and>
    id_verify C (known (signer x)) (msg x) (sig x)"
  using assms(3) unfolding verify_law [OF assms(1,2)]
  by (auto simp: cred_verify_def split: if_splits)

lemma verify_total:
  assumes "wf x" "480 \<le> length mem"
  shows "\<exists>r ws. verify C known mem x = Inr (r, ws) \<and> r \<in> {- 1, 0, 1} \<and>
    ws = (if r = 1 then [signer x] else [])"
  unfolding verify_law [OF assms] by (auto simp: cred_verify_def)

end

lemma ser_bytes_take:
  assumes "appends f bs" "length bs \<le> n" "n \<le> length mem" "n < 2 ^ 31"
  shows "ser_bytes f (take n mem) = Inr bs"
  using assms by (intro ser_bytes_appends) simp_all

lemma length_tag_msg: "length (tag_msg t) = 52"
  by (simp add: tag_msg_def tag_body_def)

lemma length_rev_msg: "length (rev_msg r) = 69"
  by (simp add: rev_msg_def rev_body_def)

lemma length_coo_msg: "coo_ok c \<Longrightarrow> length (coo_msg c) = 58 + 17 * unat (coo_thingCount c)"
  using coo_thing_length [of c] length_coo_things [of c]
  by (simp add: coo_msg_def coo_body_def coo_head_def length_things_enc coo_ok_def)

interpretation tag_signed: signed_credential tag_ok tag_networkId tag_signedBy "\<lambda>a t. t\<lparr>tag_signedBy := a\<rparr>"
  tag_signature "\<lambda>s t. t\<lparr>tag_signature := s\<rparr>" tag_msg tag_sign tag_verify
proof unfold_locales
  have m: "ser_bytes (tag_serialize True t) (take n mem) = Inr (tag_msg t)"
    if "tag_ok t" "480 \<le> length mem" "52 \<le> n" "n \<le> 480" for t mem n
    using that tag_serialize_appends [of t True] length_tag_msg [of t]
    by (intro ser_bytes_take) (simp_all add: tag_ok_def)
  show "tag_sign C mem i x = cred_sign C i (Inr (tag_msg (x\<lparr>tag_signedBy := id_address i\<rparr>)))
      (\<lambda>s. x\<lparr>tag_signedBy := id_address i, tag_signature := s\<rparr>) x"
    if "tag_ok x" "addr_ok (id_address i)" "480 \<le> length mem" for C mem i x
    using m [of "x\<lparr>tag_signedBy := id_address i\<rparr>" mem 200] that by (simp add: tag_sign_def Let_def tag_ok_def)
  show "tag_verify C known mem x = cred_verify C known (tag_signedBy x) (tag_networkId x) (Inr (tag_msg x)) (tag_signature x)"
    if "tag_ok x" "480 \<le> length mem" for C known mem x
    using m [of x mem 272] that by (simp add: tag_verify_def)
qed (simp_all add: tag_ok_def tag_msg_def tag_body_def)

interpretation rev_signed: signed_credential rev_ok rev_networkId rev_signedBy "\<lambda>a r. r\<lparr>rev_signedBy := a\<rparr>"
  rev_signature "\<lambda>s r. r\<lparr>rev_signature := s\<rparr>" rev_msg rev_sign rev_verify
proof unfold_locales
  have m: "ser_bytes (rev_serialize True r) (take 216 mem) = Inr (rev_msg r)"
    if "rev_ok r" "480 \<le> length mem" for r mem
    using that rev_serialize_appends [of r True] length_rev_msg [of r]
    by (intro ser_bytes_take) (simp_all add: rev_ok_def)
  show "rev_sign C mem i x = cred_sign C i (Inr (rev_msg (x\<lparr>rev_signedBy := id_address i\<rparr>)))
      (\<lambda>s. x\<lparr>rev_signedBy := id_address i, rev_signature := s\<rparr>) x"
    if "rev_ok x" "addr_ok (id_address i)" "480 \<le> length mem" for C mem i x
    using m [of "x\<lparr>rev_signedBy := id_address i\<rparr>" mem] that by (simp add: rev_sign_def Let_def rev_ok_def)
  show "rev_verify C known mem x = cred_verify C known (rev_signedBy x) (rev_networkId x) (Inr (rev_msg x)) (rev_signature x)"
    if "rev_ok x" "480 \<le> length mem" for C known mem x
    using m [of x mem] that by (simp add: rev_verify_def)
qed (simp_all add: rev_ok_def rev_msg_def rev_body_def)

interpretation coo_signed: signed_credential coo_ok coo_networkId coo_signedBy "\<lambda>a c. c\<lparr>coo_signedBy := a\<rparr>"
  coo_signature "\<lambda>s c. c\<lparr>coo_signature := s\<rparr>" coo_msg coo_sign coo_verify
proof unfold_locales
  have m: "ser_bytes (coo_serialize True c) (take 480 mem) = Inr (coo_msg c)"
    if "coo_ok c" "480 \<le> length mem" for c mem
    using that coo_serialize_appends [of c True] length_coo_msg [of c]
    by (intro ser_bytes_take) (simp_all add: coo_ok_def)
  show "coo_sign C mem i x = cred_sign C i (Inr (coo_msg (x\<lparr>coo_signedBy := id_address i\<rparr>)))
      (\<lambda>s. x\<lparr>coo_signedBy := id_address i, coo_signature := s\<rparr>) x"
    if "coo_ok x" "addr_ok (id_address i)" "480 \<le> length mem" for C mem i x
    using m [of "x\<lparr>coo_signedBy := id_address i\<rparr>" mem] that by (simp add: coo_sign_def Let_def coo_ok_def coo_shape_def)
  show "coo_verify C known mem x = cred_verify C known (coo_signedBy x) (coo_networkId x) (Inr (coo_msg x)) (coo_signature x)"
    if "coo_ok x" "480 \<le> length mem" for C known mem x
    using m [of x mem] that by (simp add: coo_verify_def)
qed (simp_all add: coo_ok_def coo_shape_def coo_msg_def coo_body_def coo_head_def coo_things_def)

end
