(* ===== verification/Zt_Rules.thy ===== *)
theory Zt_Rules
  imports Zt_Credentials
begin

text \<open>
  Network flow rules (include/ZeroTierOne.h) and their binary form (\<open>Capability::serializeRules\<close> and
  \<open>Capability::deserializeRules\<close> in node/Capability.hpp).  The union of a rule is a datatype whose
  constructor is the member last stored; reading another member is undefined.  The arms of the two
  switches that work on the same member are one clause each, and \<open>type_member\<close> says which case
  labels lead to it.
\<close>

section \<open>Types\<close>

abbreviation (input) ACTION_DROP :: u8 where "ACTION_DROP \<equiv> 0"
abbreviation (input) ACTION_ACCEPT :: u8 where "ACTION_ACCEPT \<equiv> 1"
abbreviation (input) ACTION_TEE :: u8 where "ACTION_TEE \<equiv> 2"
abbreviation (input) ACTION_WATCH :: u8 where "ACTION_WATCH \<equiv> 3"
abbreviation (input) ACTION_REDIRECT :: u8 where "ACTION_REDIRECT \<equiv> 4"
abbreviation (input) ACTION_BREAK :: u8 where "ACTION_BREAK \<equiv> 5"
abbreviation (input) ACTION_MAX_ID :: u8 where "ACTION_MAX_ID \<equiv> 15"
abbreviation (input) MATCH_SOURCE_ZEROTIER_ADDRESS :: u8 where "MATCH_SOURCE_ZEROTIER_ADDRESS \<equiv> 24"
abbreviation (input) MATCH_DEST_ZEROTIER_ADDRESS :: u8 where "MATCH_DEST_ZEROTIER_ADDRESS \<equiv> 25"
abbreviation (input) MATCH_VLAN_ID :: u8 where "MATCH_VLAN_ID \<equiv> 26"
abbreviation (input) MATCH_VLAN_PCP :: u8 where "MATCH_VLAN_PCP \<equiv> 27"
abbreviation (input) MATCH_VLAN_DEI :: u8 where "MATCH_VLAN_DEI \<equiv> 28"
abbreviation (input) MATCH_MAC_SOURCE :: u8 where "MATCH_MAC_SOURCE \<equiv> 29"
abbreviation (input) MATCH_MAC_DEST :: u8 where "MATCH_MAC_DEST \<equiv> 30"
abbreviation (input) MATCH_IPV4_SOURCE :: u8 where "MATCH_IPV4_SOURCE \<equiv> 31"
abbreviation (input) MATCH_IPV4_DEST :: u8 where "MATCH_IPV4_DEST \<equiv> 32"
abbreviation (input) MATCH_IPV6_SOURCE :: u8 where "MATCH_IPV6_SOURCE \<equiv> 33"
abbreviation (input) MATCH_IPV6_DEST :: u8 where "MATCH_IPV6_DEST \<equiv> 34"
abbreviation (input) MATCH_IP_TOS :: u8 where "MATCH_IP_TOS \<equiv> 35"
abbreviation (input) MATCH_IP_PROTOCOL :: u8 where "MATCH_IP_PROTOCOL \<equiv> 36"
abbreviation (input) MATCH_ETHERTYPE :: u8 where "MATCH_ETHERTYPE \<equiv> 37"
abbreviation (input) MATCH_ICMP :: u8 where "MATCH_ICMP \<equiv> 38"
abbreviation (input) MATCH_IP_SOURCE_PORT_RANGE :: u8 where "MATCH_IP_SOURCE_PORT_RANGE \<equiv> 39"
abbreviation (input) MATCH_IP_DEST_PORT_RANGE :: u8 where "MATCH_IP_DEST_PORT_RANGE \<equiv> 40"
abbreviation (input) MATCH_CHARACTERISTICS :: u8 where "MATCH_CHARACTERISTICS \<equiv> 41"
abbreviation (input) MATCH_FRAME_SIZE_RANGE :: u8 where "MATCH_FRAME_SIZE_RANGE \<equiv> 42"
abbreviation (input) MATCH_RANDOM :: u8 where "MATCH_RANDOM \<equiv> 43"
abbreviation (input) MATCH_TAGS_DIFFERENCE :: u8 where "MATCH_TAGS_DIFFERENCE \<equiv> 44"
abbreviation (input) MATCH_TAGS_BITWISE_AND :: u8 where "MATCH_TAGS_BITWISE_AND \<equiv> 45"
abbreviation (input) MATCH_TAGS_BITWISE_OR :: u8 where "MATCH_TAGS_BITWISE_OR \<equiv> 46"
abbreviation (input) MATCH_TAGS_BITWISE_XOR :: u8 where "MATCH_TAGS_BITWISE_XOR \<equiv> 47"
abbreviation (input) MATCH_TAGS_EQUAL :: u8 where "MATCH_TAGS_EQUAL \<equiv> 48"
abbreviation (input) MATCH_TAG_SENDER :: u8 where "MATCH_TAG_SENDER \<equiv> 49"
abbreviation (input) MATCH_TAG_RECEIVER :: u8 where "MATCH_TAG_RECEIVER \<equiv> 50"
abbreviation (input) MATCH_INTEGER_RANGE :: u8 where "MATCH_INTEGER_RANGE \<equiv> 51"

datatype rule_member =
  M_none | M_fwd | M_zt | M_vlanId | M_vlanPcp | M_vlanDei | M_mac | M_ipv4 | M_ipv6 | M_ipTos | M_ipProtocol |
  M_etherType | M_icmp | M_port | M_characteristics | M_frameSize | M_randomProbability | M_tag | M_intRange

datatype rule_value =
  V_unset
| V_fwd u64 u32 u16         \<comment> \<open>address, flags, length\<close>
| V_zt u64
| V_vlanId u16
| V_vlanPcp u8
| V_vlanDei u8
| V_mac bytes
| V_ipv4 u32 u8             \<comment> \<open>ip (network byte order), mask\<close>
| V_ipv6 bytes u8           \<comment> \<open>ip, mask\<close>
| V_ipTos u8 u8 u8          \<comment> \<open>mask, value[0], value[1]\<close>
| V_ipProtocol u8
| V_etherType u16
| V_icmp u8 u8 u8           \<comment> \<open>type, code, flags\<close>
| V_port u16 u16
| V_characteristics u64
| V_frameSize u16 u16
| V_randomProbability u32
| V_tag u32 u32             \<comment> \<open>id, value\<close>
| V_intRange u64 u32 u16 u8 \<comment> \<open>start, end, idx, format\<close>

record rule =
  r_t :: u8
  r_v :: rule_value

fun value_member :: "rule_value \<Rightarrow> rule_member" where
  "value_member V_unset = M_none"
| "value_member (V_fwd a f l) = M_fwd"
| "value_member (V_zt z) = M_zt"
| "value_member (V_vlanId v) = M_vlanId"
| "value_member (V_vlanPcp v) = M_vlanPcp"
| "value_member (V_vlanDei v) = M_vlanDei"
| "value_member (V_mac m) = M_mac"
| "value_member (V_ipv4 ip m) = M_ipv4"
| "value_member (V_ipv6 ip m) = M_ipv6"
| "value_member (V_ipTos m v0 v1) = M_ipTos"
| "value_member (V_ipProtocol v) = M_ipProtocol"
| "value_member (V_etherType v) = M_etherType"
| "value_member (V_icmp t c f) = M_icmp"
| "value_member (V_port p0 p1) = M_port"
| "value_member (V_characteristics c) = M_characteristics"
| "value_member (V_frameSize p0 p1) = M_frameSize"
| "value_member (V_randomProbability v) = M_randomProbability"
| "value_member (V_tag i v) = M_tag"
| "value_member (V_intRange s e i f) = M_intRange"

definition type_member :: "u8 \<Rightarrow> rule_member" where
  "type_member rt =
     (if rt \<in> {ACTION_TEE, ACTION_WATCH, ACTION_REDIRECT} then M_fwd
      else if rt \<in> {MATCH_SOURCE_ZEROTIER_ADDRESS, MATCH_DEST_ZEROTIER_ADDRESS} then M_zt
      else if rt = MATCH_VLAN_ID then M_vlanId
      else if rt = MATCH_VLAN_PCP then M_vlanPcp
      else if rt = MATCH_VLAN_DEI then M_vlanDei
      else if rt \<in> {MATCH_MAC_SOURCE, MATCH_MAC_DEST} then M_mac
      else if rt \<in> {MATCH_IPV4_SOURCE, MATCH_IPV4_DEST} then M_ipv4
      else if rt \<in> {MATCH_IPV6_SOURCE, MATCH_IPV6_DEST} then M_ipv6
      else if rt = MATCH_IP_TOS then M_ipTos
      else if rt = MATCH_IP_PROTOCOL then M_ipProtocol
      else if rt = MATCH_ETHERTYPE then M_etherType
      else if rt = MATCH_ICMP then M_icmp
      else if rt \<in> {MATCH_IP_SOURCE_PORT_RANGE, MATCH_IP_DEST_PORT_RANGE} then M_port
      else if rt = MATCH_CHARACTERISTICS then M_characteristics
      else if rt = MATCH_FRAME_SIZE_RANGE then M_frameSize
      else if rt = MATCH_RANDOM then M_randomProbability
      else if rt \<in> {MATCH_TAGS_DIFFERENCE, MATCH_TAGS_BITWISE_AND, MATCH_TAGS_BITWISE_OR, MATCH_TAGS_BITWISE_XOR,
        MATCH_TAGS_EQUAL, MATCH_TAG_SENDER, MATCH_TAG_RECEIVER} then M_tag
      else if rt = MATCH_INTEGER_RANGE then M_intRange
      else M_none)"

definition rule_type :: "rule \<Rightarrow> u8" where
  "rule_type r = r_t r AND 0x3f"

section \<open>Serialization\<close>

fun ser_value :: "rule_value \<Rightarrow> buf \<Rightarrow> buf res" where
  "ser_value V_unset = buf_append (0 :: u8)"
| "ser_value (V_fwd a f l) = ser_seq [buf_append (14 :: u8), buf_append a, buf_append f, buf_append l]"
| "ser_value (V_zt z) = ser_seq [buf_append (5 :: u8), addr_appendTo (addr_new z)]"
| "ser_value (V_vlanId v) = ser_seq [buf_append (2 :: u8), buf_append v]"
| "ser_value (V_vlanPcp v) = ser_seq [buf_append (1 :: u8), buf_append v]"
| "ser_value (V_vlanDei v) = ser_seq [buf_append (1 :: u8), buf_append v]"
| "ser_value (V_mac m) = ser_seq [buf_append (6 :: u8), buf_append_bytes m 6]"
| "ser_value (V_ipv4 ip m) = ser_seq [buf_append (5 :: u8), buf_append_bytes (le_bytes ip) 4, buf_append m]"
| "ser_value (V_ipv6 ip m) = ser_seq [buf_append (17 :: u8), buf_append_bytes ip 16, buf_append m]"
| "ser_value (V_ipTos m v0 v1) = ser_seq [buf_append (3 :: u8), buf_append m, buf_append v0, buf_append v1]"
| "ser_value (V_ipProtocol v) = ser_seq [buf_append (1 :: u8), buf_append v]"
| "ser_value (V_etherType v) = ser_seq [buf_append (2 :: u8), buf_append v]"
| "ser_value (V_icmp t c f) = ser_seq [buf_append (3 :: u8), buf_append t, buf_append c, buf_append f]"
| "ser_value (V_port p0 p1) = ser_seq [buf_append (4 :: u8), buf_append p0, buf_append p1]"
| "ser_value (V_characteristics c) = ser_seq [buf_append (8 :: u8), buf_append c]"
| "ser_value (V_frameSize p0 p1) = ser_seq [buf_append (4 :: u8), buf_append p0, buf_append p1]"
| "ser_value (V_randomProbability v) = ser_seq [buf_append (4 :: u8), buf_append v]"
| "ser_value (V_tag i v) = ser_seq [buf_append (8 :: u8), buf_append i, buf_append v]"
| "ser_value (V_intRange s e i f) =
     ser_seq [buf_append (19 :: u8), buf_append s, buf_append (s + ucast e), buf_append i, buf_append f]"

text \<open>The union, read as the member the switch expects.\<close>

definition rule_get :: "rule \<Rightarrow> rule_value res" where
  "rule_get r =
     (if type_member (rule_type r) = M_none then Inr V_unset
      else if value_member (r_v r) = type_member (rule_type r) then Inr (r_v r)
      else Inl UndefinedBehaviour)"

definition serializeRule :: "rule \<Rightarrow> buf \<Rightarrow> buf res" where
  "serializeRule r b =
     res_bind (buf_append (r_t r) b) (\<lambda>b. res_bind (rule_get r) (\<lambda>v. ser_value v b))"

fun serializeRules_from :: "rule list \<Rightarrow> nat \<Rightarrow> nat \<Rightarrow> buf \<Rightarrow> buf res" where
  "serializeRules_from rules 0 i b = Inr b"
| "serializeRules_from rules (Suc n) i b =
     res_bind (rd rules i) (\<lambda>r. res_bind (serializeRule r b) (serializeRules_from rules n (i + 1)))"

definition serializeRules :: "rule list \<Rightarrow> u32 \<Rightarrow> buf \<Rightarrow> buf res" where
  "serializeRules rules ruleCount = serializeRules_from rules (unat ruleCount) 0"

section \<open>Parsing\<close>

text \<open>
  The code reads at fixed offsets from \<open>p\<close>; as the fields of a member are contiguous, this is
  reading one after the other.  \<open>old\<close> is what the union held before.
\<close>

fun rd_value :: "rule_member \<Rightarrow> rule_value \<Rightarrow> buf \<Rightarrow> u32 \<Rightarrow> rule_value res" where
  "rd_value M_none old b p = Inr old"
| "rd_value M_fwd old b p = rd_at b p (\<lambda>a p. rd_at b p (\<lambda>f p. rd_at b p (\<lambda>l p. Inr (V_fwd a f l))))"
| "rd_value M_zt old b p = rd_addr b p (\<lambda>a p. Inr (V_zt (addr_toInt a)))"
| "rd_value M_vlanId old b p = rd_at b p (\<lambda>v p. Inr (V_vlanId v))"
| "rd_value M_vlanPcp old b p = rd_byte b p (\<lambda>v p. Inr (V_vlanPcp v))"
| "rd_value M_vlanDei old b p = rd_byte b p (\<lambda>v p. Inr (V_vlanDei v))"
| "rd_value M_mac old b p = rd_field b p 6 (\<lambda>m p. Inr (V_mac m))"
| "rd_value M_ipv4 old b p = rd_field b p 4 (\<lambda>ip p. rd_byte b p (\<lambda>m p. Inr (V_ipv4 (le_word ip) m)))"
| "rd_value M_ipv6 old b p = rd_field b p 16 (\<lambda>ip p. rd_byte b p (\<lambda>m p. Inr (V_ipv6 ip m)))"
| "rd_value M_ipTos old b p =
     rd_byte b p (\<lambda>m p. rd_byte b p (\<lambda>v0 p. rd_byte b p (\<lambda>v1 p. Inr (V_ipTos m v0 v1))))"
| "rd_value M_ipProtocol old b p = rd_byte b p (\<lambda>v p. Inr (V_ipProtocol v))"
| "rd_value M_etherType old b p = rd_at b p (\<lambda>v p. Inr (V_etherType v))"
| "rd_value M_icmp old b p =
     rd_byte b p (\<lambda>t p. rd_byte b p (\<lambda>c p. rd_byte b p (\<lambda>f p. Inr (V_icmp t c f))))"
| "rd_value M_port old b p = rd_at b p (\<lambda>p0 p. rd_at b p (\<lambda>p1 p. Inr (V_port p0 p1)))"
| "rd_value M_characteristics old b p = rd_at b p (\<lambda>c p. Inr (V_characteristics c))"
| "rd_value M_frameSize old b p = rd_at b p (\<lambda>p0 p. rd_at b p (\<lambda>p1 p. Inr (V_frameSize p0 p1)))"
| "rd_value M_randomProbability old b p = rd_at b p (\<lambda>v p. Inr (V_randomProbability v))"
| "rd_value M_tag old b p = rd_at b p (\<lambda>i p. rd_at b p (\<lambda>v p. Inr (V_tag i v)))"
| "rd_value M_intRange old b p =
     rd_at b p (\<lambda>s p. rd_at b p (\<lambda>e p. rd_at b p (\<lambda>i p. rd_byte b p (\<lambda>f p.
       Inr (V_intRange s (ucast (e - s :: u64)) i f)))))"

function deserializeRules :: "buf \<Rightarrow> u32 \<Rightarrow> rule list \<Rightarrow> u32 \<Rightarrow> u32 \<Rightarrow> (u32 \<times> rule list \<times> u32) res" where
  "deserializeRules b p rules ruleCount maxRuleCount =
     (if ruleCount < maxRuleCount \<and> p < b_len b then
        rd_byte b p (\<lambda>t p.
        res_bind (rd rules (unat ruleCount)) (\<lambda>old.
        rd_byte b p (\<lambda>fieldLen p.
        res_bind (rd_value (type_member (t AND 0x3f)) (r_v old) b p) (\<lambda>v.
        res_bind (wr rules (unat ruleCount) \<lparr>r_t = t, r_v = v\<rparr>) (\<lambda>rules.
        deserializeRules b (p + ucast fieldLen) rules (ruleCount + 1) maxRuleCount)))))
      else Inr (p, rules, ruleCount))"
  by auto

termination deserializeRules
proof (relation "measure (\<lambda>(b, p, rules, rc, mx). unat mx - unat rc)")
  fix b :: buf and p rc mx :: u32 and rules rules' :: "rule list" and p' :: u32
  assume "rc < mx \<and> p < b_len b"
  then have "unat rc < unat mx" by (simp add: word_less_nat_alt)
  moreover have "unat (rc + 1) = unat rc + 1"
    using calculation unat_bounds(3) [of mx] by (subst unat_add_nowrap) simp_all
  ultimately show "((b, p', rules', rc + 1, mx), b, p, rules, rc, mx) \<in> measure (\<lambda>(b, p, rules, rc, mx). unat mx - unat rc)"
    by simp
qed simp

declare deserializeRules.simps [simp del]

end
