(* ===== verification/Zt_Rule_Laws.thy ===== *)
theory Zt_Rule_Laws
  imports Zt_Rules
begin

text \<open>
  The binary form of flow rules: what \<open>serializeRules\<close> appends, that \<open>deserializeRules\<close> reads it
  back, that it skips rules of unsupported types by their length, and that on any input it stays
  inside its buffer and array.
\<close>

section \<open>The encoding\<close>

fun value_body :: "rule_value \<Rightarrow> bytes" where
  "value_body V_unset = []"
| "value_body (V_fwd a f l) = word_bytes_be a @ word_bytes_be f @ word_bytes_be l"
| "value_body (V_zt z) = addr_bytes (Address z)"
| "value_body (V_vlanId v) = word_bytes_be v"
| "value_body (V_vlanPcp v) = [v]"
| "value_body (V_vlanDei v) = [v]"
| "value_body (V_mac m) = m"
| "value_body (V_ipv4 ip m) = le_bytes ip @ [m]"
| "value_body (V_ipv6 ip m) = ip @ [m]"
| "value_body (V_ipTos m v0 v1) = [m] @ [v0] @ [v1]"
| "value_body (V_ipProtocol v) = [v]"
| "value_body (V_etherType v) = word_bytes_be v"
| "value_body (V_icmp t c f) = [t] @ [c] @ [f]"
| "value_body (V_port p0 p1) = word_bytes_be p0 @ word_bytes_be p1"
| "value_body (V_characteristics c) = word_bytes_be c"
| "value_body (V_frameSize p0 p1) = word_bytes_be p0 @ word_bytes_be p1"
| "value_body (V_randomProbability v) = word_bytes_be v"
| "value_body (V_tag i v) = word_bytes_be i @ word_bytes_be v"
| "value_body (V_intRange s e i f) = word_bytes_be s @ word_bytes_be (s + ucast e) @ word_bytes_be i @ [f]"

text \<open>Array members have their length, and a node address its forty bits.\<close>

fun value_ok :: "rule_value \<Rightarrow> bool" where
  "value_ok (V_zt z) = (z < 2 ^ 40)"
| "value_ok (V_mac m) = (length m = 6)"
| "value_ok (V_ipv6 ip m) = (length ip = 16)"
| "value_ok _ = True"

definition rule_enc :: "rule \<Rightarrow> bytes" where
  "rule_enc r = [r_t r] @ [of_nat (length (value_body (r_v r)))] @ value_body (r_v r)"

text \<open>A rule whose union holds the member of its type; unsupported types carry nothing.\<close>

definition rule_ok :: "rule \<Rightarrow> bool" where
  "rule_ok r \<longleftrightarrow> value_member (r_v r) = type_member (rule_type r) \<and> value_ok (r_v r)"

definition rules_enc :: "rule list \<Rightarrow> bytes" where
  "rules_enc rs = concat (map rule_enc rs)"

lemma rules_enc_simps [simp]: "rules_enc [] = []" "rules_enc (r # rs) = rule_enc r @ rules_enc rs"
  by (simp_all add: rules_enc_def)

lemma length_value_body: "value_ok v \<Longrightarrow> length (value_body v) \<le> 19"
  by (cases v) simp_all

lemma length_rule_enc: "rule_ok r \<Longrightarrow> length (rule_enc r) \<le> 21"
  using length_value_body [of "r_v r"] by (simp add: rule_enc_def rule_ok_def)

lemma length_rules_enc: "\<forall>r \<in> set rs. rule_ok r \<Longrightarrow> length (rules_enc rs) \<le> 21 * length rs"
proof (induction rs)
  case (Cons r rs)
  then show ?case using length_rule_enc [of r] by simp
qed simp

lemma addr_new_id: "z < 2 ^ 40 \<Longrightarrow> addr_new z = Address z"
  using addr_ok_take [of "Address z"] by (simp add: addr_new_def addr_ok_def and_mask40)

lemma appends_eq: "appends f xs \<Longrightarrow> xs = ys \<Longrightarrow> appends f ys"
  by simp

lemma appends_value:
  assumes "value_ok v"
  shows "appends (ser_value v) ([of_nat (length (value_body v))] @ value_body v)"
proof -
  have b: "appends (buf_append (x :: u8)) [x]" for x using appends_buf_append [of x] by simp
  show ?thesis
    using assms
    by (cases v) ((simp only: ser_value.simps, rule appends_eq, (rule b wire_write | (simp; fail))+, (simp add: addr_new_id; fail)?)[1])+
qed

text \<open>
  What a parsed or serialized rule may hold: the union member of its type, or anything when the type
  has none; \<open>rule_norm\<close> forgets what the code never reads.
\<close>

definition rule_fits :: "rule \<Rightarrow> bool" where
  "rule_fits r \<longleftrightarrow>
     type_member (rule_type r) = M_none \<or> value_member (r_v r) = type_member (rule_type r) \<and> value_ok (r_v r)"

definition rule_norm :: "rule \<Rightarrow> rule" where
  "rule_norm r = (if type_member (rule_type r) = M_none then r\<lparr>r_v := V_unset\<rparr> else r)"

lemma value_member_none: "value_member v = M_none \<longleftrightarrow> v = V_unset"
  by (cases v) simp_all

lemma rule_norm_ok: "rule_fits r \<Longrightarrow> rule_ok (rule_norm r)"
  by (auto simp: rule_fits_def rule_norm_def rule_ok_def rule_type_def)

lemma rule_norm_id: "rule_ok r \<Longrightarrow> rule_norm r = r"
  by (cases r) (auto simp: rule_norm_def rule_ok_def value_member_none rule_type_def)

lemma rule_ok_fits: "rule_ok r \<Longrightarrow> rule_fits r"
  by (simp add: rule_ok_def rule_fits_def)

lemma rule_get_norm: "rule_fits r \<Longrightarrow> rule_get r = Inr (r_v (rule_norm r))"
  by (auto simp: rule_get_def rule_fits_def rule_norm_def)

lemma appends_rule:
  assumes "rule_fits r"
  shows "appends (serializeRule r) (rule_enc (rule_norm r))"
proof -
  let ?n = "rule_norm r"
  have e: "serializeRule r = (\<lambda>b. res_bind (buf_append (r_t ?n) b) (ser_value (r_v ?n)))"
    by (intro ext) (simp add: serializeRule_def rule_get_norm [OF assms] rule_norm_def)
  show ?thesis
    unfolding e rule_enc_def
    using appends_bind [OF appends_buf_append [of "r_t ?n"] appends_value [of "r_v ?n"]] rule_norm_ok [OF assms]
    by (simp add: rule_ok_def)
qed

lemma appends_rules_from:
  assumes "\<forall>r \<in> set rules. rule_fits r" "i + n \<le> length rules"
  shows "appends (serializeRules_from rules n i) (rules_enc (map rule_norm (take n (drop i rules))))"
  using assms(2)
proof (induction n arbitrary: i)
  case 0
  have "serializeRules_from rules 0 i = Inr" by (rule ext) simp
  then show ?case by (simp add: appends_Inr)
next
  case (Suc n)
  have i: "i < length rules" using Suc.prems by simp
  with assms(1) have ok: "rule_fits (rules ! i)" by simp
  have e: "serializeRules_from rules (Suc n) i = (\<lambda>b. res_bind (serializeRule (rules ! i) b) (serializeRules_from rules n (i + 1)))"
    using i by (intro ext) simp
  have d: "take (Suc n) (drop i rules) = rules ! i # take n (drop (i + 1) rules)"
    using i Cons_nth_drop_Suc [of i rules] by (metis Suc_eq_plus1 take_Suc_Cons)
  show ?case
    unfolding e d list.map rules_enc_simps using Suc by (intro appends_bind appends_rule ok) simp_all
qed

lemma appends_rules [wire_write]:
  assumes "\<forall>r \<in> set rules. rule_fits r" "unat n \<le> length rules"
  shows "appends (serializeRules rules n) (rules_enc (map rule_norm (take (unat n) rules)))"
  using appends_rules_from [of rules 0 "unat n"] assms by (simp add: serializeRules_def)

lemma rd_value_law:
  assumes b: "buf_ok b" and h: "has b p (value_body v @ r)" and v: "value_ok v" and old: "v = V_unset \<Longrightarrow> old = V_unset"
  shows "rd_value (value_member v) old b p = Inr v"
proof -
  have u: "ucast (ucast e :: u64) = e" for e :: u32
    by (rule bit_word_eqI) (auto simp: bit_simps)
  have rest: ?thesis if "value_member v \<notin> {M_none, M_zt, M_mac, M_ipv4, M_ipv6}"
    using that h
    apply (cases v; simp only: value_member.simps rd_value.simps value_body.simps append_assoc insert_iff empty_iff
        rule_member.distinct not_False_eq_True simp_thms)
                    apply ((rule rd_at_64 [OF b] rd_at_32 [OF b] rd_at_16 [OF b] rd_byte_law [OF b], assumption)+, simp add: u)+
    done
  show ?thesis
  proof (cases v)
    case V_unset
    then show ?thesis using old by simp
  next
    case (V_zt z)
    then show ?thesis using h v by (auto intro!: rd_addr_law [OF b, where a = "Address z"] simp: addr_ok_def)
  next
    case (V_mac m)
    then show ?thesis using h v by (auto intro!: rd_field_law [OF b, where bs = m])
  next
    case (V_ipv4 ip m)
    then have "has b p (le_bytes ip @ [m] @ r)" using h by simp
    then show ?thesis
      using V_ipv4 by (auto intro!: rd_field_law [OF b, where bs = "le_bytes ip"] rd_byte_law [OF b] simp: le_word_le_bytes)
  next
    case (V_ipv6 ip m)
    then have "has b p (ip @ [m] @ r)" using h by simp
    then show ?thesis
      using V_ipv6 v by (auto intro!: rd_field_law [OF b, where bs = ip] rd_byte_law [OF b])
  qed (use rest in simp_all)
qed

lemma unat_Suc_less: "(x::u32) < y \<Longrightarrow> unat (x + 1) = unat x + 1"
  using unat_bounds(3) [of y] by (subst unat_add_nowrap) (simp_all add: word_less_nat_alt)

lemma has_in_range: "has b p ([x] @ r) \<Longrightarrow> p < b_len b"
  by (simp add: has_def word_less_nat_alt)

lemma rule_step:
  assumes b: "buf_ok b" and h: "has b p (rule_enc x @ r)" and x: "rule_ok x" and rc: "rc < mx" "unat rc < length arr"
    and old: "r_v (arr ! unat rc) = V_unset"
  shows "deserializeRules b p arr rc mx =
      deserializeRules b (p + of_nat (length (rule_enc x))) (arr[unat rc := x]) (rc + 1) mx"
    and "has b (p + of_nat (length (rule_enc x))) r"
proof -
  let ?v = "r_v x" and ?n = "length (value_body (r_v x))"
  have v: "value_ok ?v" "value_member ?v = type_member (r_t x AND 0x3f)" and n: "?n \<le> 19"
    using x length_value_body by (auto simp: rule_ok_def rule_type_def)
  have h1: "has b p ([r_t x] @ [of_nat ?n] @ value_body ?v @ r)" using h by (simp add: rule_enc_def)
  note s1 = has_step8 [OF b h1]
  note s2 = has_step8 [OF b s1(2)]
  have val: "rd_value (type_member (r_t x AND 0x3f)) (r_v (arr ! unat rc)) b (p + 1 + 1) = Inr ?v"
    using rd_value_law [OF b s2(2) v(1)] old v(2) by simp
  have len: "ucast (of_nat ?n :: u8) = (of_nat ?n :: u32)"
    using n by (simp add: unsigned_of_nat take_bit_eq_mod)
  have pos: "p + 1 + 1 + of_nat ?n = p + of_nat (length (rule_enc x))"
    by (simp add: rule_enc_def algebra_simps)
  have x': "\<lparr>r_t = r_t x, r_v = ?v\<rparr> = x" by simp
  show "deserializeRules b p arr rc mx =
      deserializeRules b (p + of_nat (length (rule_enc x))) (arr[unat rc := x]) (rc + 1) mx"
    unfolding deserializeRules.simps [of b p arr rc mx] pos [symmetric]
    using rc has_in_range [OF h1] s1(1) s2(1) val by (simp add: rd_byte_def len x')
  show "has b (p + of_nat (length (rule_enc x))) r"
    using has_append(2) [OF b s2(2)] unfolding pos .
qed

lemma deserializeRules_enc:
  assumes b: "buf_ok b"
  shows "has b p (rules_enc rs @ r) \<Longrightarrow> \<forall>x \<in> set rs. rule_ok x \<Longrightarrow> unat rc + length rs = unat mx \<Longrightarrow>
    unat mx \<le> length arr \<Longrightarrow> \<forall>i < length arr. unat rc \<le> i \<longrightarrow> r_v (arr ! i) = V_unset \<Longrightarrow>
    deserializeRules b p arr rc mx =
      Inr (p + of_nat (length (rules_enc rs)), take (unat rc) arr @ rs @ drop (unat mx) arr, mx) \<and>
    has b (p + of_nat (length (rules_enc rs))) r"
proof (induction rs arbitrary: p rc arr)
  case Nil
  then have "rc = mx" by (simp add: word_unat_eq_iff)
  with Nil show ?case by (simp add: deserializeRules.simps)
next
  case (Cons x rs)
  have rc: "rc < mx" "unat rc < length arr" using Cons.prems by (simp_all add: word_less_nat_alt)
  note s = unat_Suc_less [OF rc(1)]
  have h: "has b p (rule_enc x @ rules_enc rs @ r)" using Cons.prems(1) by simp
  have old: "r_v (arr ! unat rc) = V_unset" and x: "rule_ok x" using Cons.prems rc by auto
  note st = rule_step [OF b h x rc old]
  have "deserializeRules b (p + of_nat (length (rule_enc x))) (arr[unat rc := x]) (rc + 1) mx =
      Inr (p + of_nat (length (rule_enc x)) + of_nat (length (rules_enc rs)),
           take (unat (rc + 1)) (arr[unat rc := x]) @ rs @ drop (unat mx) (arr[unat rc := x]), mx) \<and>
    has b (p + of_nat (length (rule_enc x)) + of_nat (length (rules_enc rs))) r"
    using Cons.prems rc s by (intro Cons.IH st(2)) auto
  then show ?case
    unfolding st(1) using rc s Cons.prems(3) by (simp add: take_Suc_update algebra_simps)
qed

text \<open>A rule of a type this version does not know is skipped by its field length.\<close>

lemma deserializeRules_unknown:
  assumes b: "buf_ok b" and h: "has b p ([t] @ [of_nat (length field)] @ field @ r)" and t: "type_member (t AND 0x3f) = M_none"
    and f: "length field < 256" and rc: "rc < mx" "unat rc < length arr"
  shows "deserializeRules b p arr rc mx =
      deserializeRules b (p + 2 + of_nat (length field)) (arr[unat rc := (arr ! unat rc)\<lparr>r_t := t\<rparr>]) (rc + 1) mx \<and>
    has b (p + 2 + of_nat (length field)) r"
proof -
  note s1 = has_step8 [OF b h]
  note s2 = has_step8 [OF b s1(2)]
  have len: "ucast (of_nat (length field) :: u8) = (of_nat (length field) :: u32)"
    using f by (simp add: unsigned_of_nat take_bit_eq_mod)
  have pos: "p + 1 + 1 = p + 2" by simp
  have x: "\<lparr>r_t = t, r_v = r_v (arr ! unat rc)\<rparr> = (arr ! unat rc)\<lparr>r_t := t\<rparr>" by (cases "arr ! unat rc") simp
  show ?thesis
    unfolding deserializeRules.simps [of b p arr rc mx]
    using rc has_in_range [OF h] s1(1) s2(1) has_append(2) [OF b s2(2)] t
    by (simp add: rd_byte_def len x add.commute [of p])
qed

section \<open>Robustness\<close>

lemma rd_value_safe:
  assumes b: "buf_ok b" and p: "pos_ok p"
  shows "res_all (\<lambda>v. m = M_none \<or> value_member v = m \<and> value_ok v) (rd_value m old b p)"
  using p by (cases m; simp only: rd_value.simps; intro wire_safe b) (auto simp: addr_ok_def)

lemma pos_ok_skip: "buf_ok b \<Longrightarrow> unat q \<le> unat (b_len b) \<Longrightarrow> pos_ok (q + ucast (n :: u8))"
proof -
  assume b: "buf_ok b" and q: "unat q \<le> unat (b_len b)"
  have n: "unat (ucast n :: u32) < 256"
    using unat_bounds(1) [of n] by (simp add: unsigned_ucast_eq take_bit_eq_mod)
  then have "unat (q + ucast n) = unat q + unat (ucast n :: u32)"
    using b q by (intro unat_add_nowrap) (simp add: buf_ok_def)
  with b q n show ?thesis by (simp add: pos_ok_def buf_ok_def)
qed

lemma deserializeRules_safe:
  assumes b: "buf_ok b"
  shows "pos_ok p \<Longrightarrow> unat rc \<le> unat mx \<Longrightarrow> unat mx \<le> length arr \<Longrightarrow> \<forall>x \<in> set arr. rule_fits x \<Longrightarrow>
    res_all (\<lambda>(q, rs, n). pos_ok q \<and> length rs = length arr \<and> (\<forall>x \<in> set rs. rule_fits x) \<and> unat n \<le> unat mx)
      (deserializeRules b p arr rc mx)"
proof (induction "unat mx - unat rc" arbitrary: p rc arr)
  case 0
  then show ?case by (simp add: deserializeRules.simps word_less_nat_alt)
next
  case (Suc k)
  show ?case
  proof (cases "rc < mx \<and> p < b_len b")
    case False
    then show ?thesis using Suc.prems unfolding deserializeRules.simps [of b p arr rc mx] if_not_P [OF False] by simp
  next
    case True
    note s = unat_Suc_less [OF conjunct1 [OF True]]
    have rc: "unat rc < unat mx" "unat rc < length arr" using True Suc.prems by (simp_all add: word_less_nat_alt)
    have rec: "res_all (\<lambda>(q, rs, n). pos_ok q \<and> length rs = length arr \<and> (\<forall>x \<in> set rs. rule_fits x) \<and> unat n \<le> unat mx)
        (deserializeRules b q (arr[unat rc := \<lparr>r_t = t, r_v = v\<rparr>]) (rc + 1) mx)"
      if "pos_ok q" "type_member (t AND 0x3f) = M_none \<or> value_member v = type_member (t AND 0x3f) \<and> value_ok v" for q t v
    proof -
      have "\<forall>x \<in> set (arr[unat rc := \<lparr>r_t = t, r_v = v\<rparr>]). rule_fits x"
        using Suc.prems(4) that(2) by (auto simp: rule_fits_def rule_type_def dest: set_update_subset_insert [THEN subsetD])
      with Suc.hyps(1) [of "rc + 1" q "arr[unat rc := \<lparr>r_t = t, r_v = v\<rparr>]"] that(1) s rc Suc.hyps(2) Suc.prems
      show ?thesis by simp
    qed
    show ?thesis
      unfolding deserializeRules.simps [of b p arr rc mx] if_P [OF True] using rc(2)
      apply (intro rd_byte_safe [OF b], simp only: rd_simps res_bind_simps)
      apply (intro rd_byte_safe [OF b] bind_safe [OF rd_value_safe [OF b]], assumption)
      apply (simp only: wr_simps res_bind_simps)
      by (rule rec) (simp_all add: pos_ok_skip [OF b])
  qed
qed

end
