(* ===== verification/Zt_Capability.thy ===== *)
theory Zt_Capability
  imports Zt_Rule_Laws
begin

text \<open>
  Capabilities (node/Capability.hpp and node/Capability.cpp): a set of flow rules bound to a network,
  with a chain of custody whose first link is signed by the network's controller and every other
  link by the holder before it.
\<close>

section \<open>The code\<close>

record custody =
  cu_to :: address
  cu_from :: address
  cu_signature :: bytes

record capability =
  cap_nwid :: u64
  cap_ts :: u64
  cap_id :: u32
  cap_maxCustodyChainLength :: u32
  cap_ruleCount :: u32
  cap_rules :: "rule list"
  cap_custody :: "custody list"

definition custody_zero :: custody where
  "custody_zero = \<lparr>cu_to = Address 0, cu_from = Address 0, cu_signature = replicate 96 0\<rparr>"

definition rule_zero :: rule where
  "rule_zero = \<lparr>r_t = 0, r_v = V_unset\<rparr>"

definition cap_zero :: capability where
  "cap_zero = \<lparr>cap_nwid = 0, cap_ts = 0, cap_id = 0, cap_maxCustodyChainLength = 0, cap_ruleCount = 0,
     cap_rules = replicate 64 rule_zero, cap_custody = replicate 7 custody_zero\<rparr>"

definition cap_new :: "u32 \<Rightarrow> u64 \<Rightarrow> u64 \<Rightarrow> u32 \<Rightarrow> rule list \<Rightarrow> u32 \<Rightarrow> capability res" where
  "cap_new i nwid ts mccl rules ruleCount =
     (let n = (if ruleCount < 64 then ruleCount else 64);
          c = cap_zero\<lparr>cap_nwid := nwid, cap_ts := ts, cap_id := i,
                cap_maxCustodyChainLength := (if mccl > 0 then if mccl < 7 then mccl else 7 else 1), cap_ruleCount := n\<rparr> in
      if n \<noteq> 0 then res_bind (memcpy (cap_rules c) 0 rules 0 (unat n)) (\<lambda>rs. Inr (c\<lparr>cap_rules := rs\<rparr>))
      else Inr c)"

fun cap_issuedTo_from :: "custody list \<Rightarrow> nat \<Rightarrow> nat \<Rightarrow> address \<Rightarrow> address res" where
  "cap_issuedTo_from cs 0 i i2 = Inr i2"
| "cap_issuedTo_from cs (Suc n) i i2 =
     res_bind (rd cs i) (\<lambda>e. if cu_to e = Address 0 then Inr i2 else cap_issuedTo_from cs n (i + 1) (cu_to e))"

definition cap_issuedTo :: "capability \<Rightarrow> address res" where
  "cap_issuedTo c = cap_issuedTo_from (cap_custody c) 7 0 (Address 0)"

function cap_serialize_custody :: "capability \<Rightarrow> nat \<Rightarrow> buf \<Rightarrow> buf res" where
  "cap_serialize_custody c i b =
     (if i < unat (cap_maxCustodyChainLength c) \<and> i < 7 then
        res_bind (rd (cap_custody c) i) (\<lambda>e.
        if cu_to e \<noteq> Address 0 then
          res_bind (ser_seq [addr_appendTo (cu_to e), addr_appendTo (cu_from e), ser_signature (cu_signature e)] b)
            (cap_serialize_custody c (i + 1))
        else buf_append_run 0 5 b)
      else buf_append_run 0 5 b)"
  by auto

termination cap_serialize_custody
  by (relation "measure (\<lambda>(c, i, b). 7 - i)") auto

declare cap_serialize_custody.simps [simp del]

definition cap_serialize :: "bool \<Rightarrow> capability \<Rightarrow> buf \<Rightarrow> buf res" where
  "cap_serialize forSign c =
     ser_seq
      [ser_when forSign ser_magic,
       buf_append (cap_nwid c),
       buf_append (cap_ts c),
       buf_append (cap_id c),
       buf_append (ucast (cap_ruleCount c) :: u16),
       serializeRules (cap_rules c) (cap_ruleCount c),
       buf_append (ucast (cap_maxCustodyChainLength c) :: u8),
       ser_when (\<not> forSign) (cap_serialize_custody c 0),
       buf_append (0 :: u16),
       ser_when forSign ser_magic]"

function cap_deserialize_custody :: "buf \<Rightarrow> nat \<Rightarrow> u32 \<Rightarrow> capability \<Rightarrow> (capability \<times> u32) res" where
  "cap_deserialize_custody b i p c =
     rd_addr b p (\<lambda>to p.
     if to = Address 0 then Inr (c, p)
     else if i \<ge> unat (cap_maxCustodyChainLength c) \<or> i \<ge> 7 then Inl SerializedOverflow
     else
       rd_addr b p (\<lambda>fr p.
       rd_signature b p (\<lambda>s p.
       res_bind (rd (cap_custody c) i) (\<lambda>e.
       res_bind (wr (cap_custody c) i
         \<lparr>cu_to = to, cu_from = fr, cu_signature = (case s of Some x \<Rightarrow> x | None \<Rightarrow> cu_signature e)\<rparr>) (\<lambda>cs.
       cap_deserialize_custody b (i + 1) p (c\<lparr>cap_custody := cs\<rparr>))))))"
  by auto

termination cap_deserialize_custody
  by (relation "measure (\<lambda>(b, i, p, c). 7 - i)") auto

declare cap_deserialize_custody.simps [simp del]

definition cap_deserialize :: "buf \<Rightarrow> u32 \<Rightarrow> (capability \<times> u32) res" where
  "cap_deserialize b startAt =
     rd_at b startAt (\<lambda>nwid p.
     rd_at b p (\<lambda>ts p.
     rd_at b p (\<lambda>i p.
     rd_at b p (\<lambda>rc p.
     if rc > (64 :: u16) then Inl SerializedOverflow
     else
       res_bind (deserializeRules b p (cap_rules cap_zero) 0 (ucast rc)) (\<lambda>(p, rules, ruleCount).
       rd_byte b p (\<lambda>mccl p.
       if mccl < 1 \<or> mccl > 7 then Inl SerializedOverflow
       else
         res_bind (cap_deserialize_custody b 0 p
           (cap_zero\<lparr>cap_nwid := nwid, cap_ts := ts, cap_id := i, cap_rules := rules, cap_ruleCount := ruleCount,
              cap_maxCustodyChainLength := ucast mccl\<rparr>)) (\<lambda>(c, p).
         rd_end b startAt p c)))))))"

text \<open>\<open>catch (...)\<close>; undefined behaviour is not an exception.\<close>

definition res_catch :: "'a res \<Rightarrow> 'a \<Rightarrow> 'a res" where
  "res_catch r d = (case r of Inl UndefinedBehaviour \<Rightarrow> r | Inl e \<Rightarrow> Inr d | Inr x \<Rightarrow> r)"

definition cap_put :: "nat \<Rightarrow> custody \<Rightarrow> capability \<Rightarrow> capability" where
  "cap_put i e c = c\<lparr>cap_custody := (cap_custody c)[i := e]\<rparr>"

text \<open>When signing throws, the link has its addresses already.\<close>

fun cap_sign_from :: "crypto \<Rightarrow> bytes \<Rightarrow> identity \<Rightarrow> address \<Rightarrow> nat \<Rightarrow> nat \<Rightarrow> capability \<Rightarrow> (bool \<times> capability) res" where
  "cap_sign_from C mem who to 0 i c = Inr (False, c)"
| "cap_sign_from C mem who to (Suc n) i c =
     res_bind (rd (cap_custody c) i) (\<lambda>e.
     if cu_to e = Address 0 then
       res_catch (res_bind (ser_bytes (cap_serialize True c) (take 5728 mem)) (\<lambda>m.
         let e1 = e\<lparr>cu_to := to, cu_from := id_address who\<rparr> in
         res_catch (res_bind (id_sign C who m) (\<lambda>s. Inr (True, cap_put i (e1\<lparr>cu_signature := s\<rparr>) c)))
           (False, cap_put i e1 c)))
         (False, c)
     else cap_sign_from C mem who to n (i + 1) c)"

definition cap_sign :: "crypto \<Rightarrow> bytes \<Rightarrow> identity \<Rightarrow> address \<Rightarrow> capability \<Rightarrow> (bool \<times> capability) res" where
  "cap_sign C mem who to c = cap_sign_from C mem who to (min (unat (cap_maxCustodyChainLength c)) 7) 0 c"

fun cap_verify_from ::
  "crypto \<Rightarrow> (address \<Rightarrow> identity) \<Rightarrow> u64 \<Rightarrow> custody list \<Rightarrow> bytes \<Rightarrow> nat \<Rightarrow> nat \<Rightarrow> (int \<times> address list) res" where
  "cap_verify_from C known nwid cs msg 0 c = Inr (0, [])"
| "cap_verify_from C known nwid cs msg (Suc n) c =
     res_bind (rd cs c) (\<lambda>e.
     let continue =
       (if id_valid (known (cu_from e)) then
          if \<not> id_verify C (known (cu_from e)) msg (cu_signature e) then Inr (- 1, [])
          else cap_verify_from C known nwid cs msg n (c + 1)
        else Inr (1, [cu_from e])) in
     if c = 0 then
       if cu_to e = Address 0 \<or> cu_from e = Address 0 \<or> cu_from e \<noteq> controllerFor nwid then Inr (- 1, []) else continue
     else if cu_to e = Address 0 then Inr (0, [])
     else res_bind (rd cs (c - 1)) (\<lambda>q.
       if cu_from e = Address 0 \<or> cu_from e \<noteq> cu_to q then Inr (- 1, []) else continue))"

definition cap_verify :: "crypto \<Rightarrow> (address \<Rightarrow> identity) \<Rightarrow> bytes \<Rightarrow> capability \<Rightarrow> (int \<times> address list) res" where
  "cap_verify C known mem c =
     (if cap_maxCustodyChainLength c < 1 \<or> cap_maxCustodyChainLength c > 7 then Inr (- 1, [])
      else res_catch (res_bind (ser_bytes (cap_serialize True c) (take 5728 mem)) (\<lambda>msg.
        cap_verify_from C known (cap_nwid c) (cap_custody c) msg (unat (cap_maxCustodyChainLength c)) 0))
        (- 1, []))"

section \<open>Well-formed capabilities and their chain\<close>

definition custody_ok :: "custody \<Rightarrow> bool" where
  "custody_ok e \<longleftrightarrow> addr_ok (cu_to e) \<and> addr_ok (cu_from e) \<and> length (cu_signature e) = 96"

definition cap_ok :: "capability \<Rightarrow> bool" where
  "cap_ok c \<longleftrightarrow>
     1 \<le> cap_maxCustodyChainLength c \<and> cap_maxCustodyChainLength c \<le> 7 \<and> cap_ruleCount c \<le> 64 \<and>
     length (cap_rules c) = 64 \<and> length (cap_custody c) = 7 \<and>
     (\<forall>r \<in> set (cap_rules c). rule_fits r) \<and> (\<forall>e \<in> set (cap_custody c). custody_ok e)"

definition cap_chain :: "capability \<Rightarrow> custody list" where
  "cap_chain c = takeWhile (\<lambda>e. cu_to e \<noteq> Address 0) (take (unat (cap_maxCustodyChainLength c)) (cap_custody c))"

text \<open>Every link is signed by the holder before it.\<close>

fun chain_ok :: "crypto \<Rightarrow> (address \<Rightarrow> identity) \<Rightarrow> bytes \<Rightarrow> address \<Rightarrow> custody list \<Rightarrow> bool" where
  "chain_ok C known msg holder [] = True"
| "chain_ok C known msg holder (e # es) =
     (holder \<noteq> Address 0 \<and> cu_from e = holder \<and> id_valid (known holder) \<and>
      id_verify C (known holder) msg (cu_signature e) \<and> chain_ok C known msg (cu_to e) es)"

section \<open>The binary form\<close>

definition cap_body :: "capability \<Rightarrow> bytes" where
  "cap_body c = word_bytes_be (cap_nwid c) @ word_bytes_be (cap_ts c) @ word_bytes_be (cap_id c) @
     word_bytes_be (ucast (cap_ruleCount c) :: u16) @
     rules_enc (map rule_norm (take (unat (cap_ruleCount c)) (cap_rules c))) @
     word_bytes_be (ucast (cap_maxCustodyChainLength c) :: u8)"

definition custody_enc :: "custody \<Rightarrow> bytes" where
  "custody_enc e = addr_bytes (cu_to e) @ addr_bytes (cu_from e) @ sig_enc (cu_signature e)"

definition chain_enc :: "custody list \<Rightarrow> bytes" where
  "chain_enc es = concat (map custody_enc es) @ addr_bytes (Address 0)"

lemma chain_enc_simps [simp]:
  "chain_enc [] = addr_bytes (Address 0)" "chain_enc (e # es) = custody_enc e @ chain_enc es"
  by (simp_all add: chain_enc_def)

definition cap_enc :: "capability \<Rightarrow> bytes" where
  "cap_enc c = cap_body c @ chain_enc (cap_chain c) @ word_bytes_be (0 :: u16)"

definition cap_msg :: "capability \<Rightarrow> bytes" where
  "cap_msg c = magic_enc @ cap_body c @ word_bytes_be (0 :: u16) @ magic_enc"

text \<open>What lies behind the used rules and links is zero, as after \<open>memset\<close>.\<close>

definition cap_wire_ok :: "capability \<Rightarrow> bool" where
  "cap_wire_ok c \<longleftrightarrow> cap_ok c \<and> (\<forall>r \<in> set (cap_rules c). rule_ok r) \<and>
     drop (unat (cap_ruleCount c)) (cap_rules c) = replicate (64 - unat (cap_ruleCount c)) rule_zero \<and>
     drop (length (cap_chain c)) (cap_custody c) = replicate (7 - length (cap_chain c)) custody_zero"

lemma cap_ok_nums:
  assumes "cap_ok c"
  shows "unat (cap_ruleCount c) \<le> 64" "1 \<le> unat (cap_maxCustodyChainLength c)" "unat (cap_maxCustodyChainLength c) \<le> 7"
  using assms by (simp_all add: cap_ok_def word_le_nat_alt)

lemma zero_addr_bytes: "addr_bytes (Address 0) = replicate 5 0"
  by (simp add: addr_bytes_def numeral_eq_Suc)

lemma appends_zero_addr: "appends (buf_append_run 0 5) (addr_bytes (Address 0))"
  using appends_run [of 5 0] by (simp add: zero_addr_bytes)

lemma appends_custody:
  assumes "cap_ok c"
  shows "i \<le> unat (cap_maxCustodyChainLength c) \<Longrightarrow> appends (cap_serialize_custody c i)
    (chain_enc (takeWhile (\<lambda>e. cu_to e \<noteq> Address 0) (drop i (take (unat (cap_maxCustodyChainLength c)) (cap_custody c)))))"
proof (induction "unat (cap_maxCustodyChainLength c) - i" arbitrary: i)
  case 0
  then have "cap_serialize_custody c i = buf_append_run 0 5"
    using cap_ok_nums [OF assms] by (intro ext) (subst cap_serialize_custody.simps, simp)
  with 0 show ?case by (simp add: appends_zero_addr)
next
  case (Suc k)
  let ?m = "unat (cap_maxCustodyChainLength c)" and ?e = "cap_custody c ! i"
  have i: "i < ?m" "i < 7" "i < length (cap_custody c)" and ok: "custody_ok ?e"
    using Suc.hyps(2) cap_ok_nums [OF assms] assms by (auto simp: cap_ok_def)
  have d: "drop i (take ?m (cap_custody c)) = ?e # drop (i + 1) (take ?m (cap_custody c))"
    using i Cons_nth_drop_Suc [of i "take ?m (cap_custody c)"] by simp
  show ?case
  proof (cases "cu_to ?e = Address 0")
    case True
    then have "cap_serialize_custody c i = buf_append_run 0 5"
      using i by (intro ext) (subst cap_serialize_custody.simps, simp)
    with True d show ?thesis by (simp add: appends_zero_addr)
  next
    case False
    have e: "cap_serialize_custody c i = (\<lambda>b. res_bind
        (ser_seq [addr_appendTo (cu_to ?e), addr_appendTo (cu_from ?e), ser_signature (cu_signature ?e)] b)
          (cap_serialize_custody c (i + 1)))"
      using i False by (intro ext) (subst cap_serialize_custody.simps, simp)
    have "appends (cap_serialize_custody c i)
        ((addr_bytes (cu_to ?e) @ addr_bytes (cu_from ?e) @ sig_enc (cu_signature ?e) @ []) @
          chain_enc (takeWhile (\<lambda>e. cu_to e \<noteq> Address 0) (drop (i + 1) (take ?m (cap_custody c)))))"
      unfolding e using Suc.hyps i ok by (intro wire_write) (simp_all add: custody_ok_def)
    then show ?thesis using False d by (simp add: custody_enc_def)
  qed
qed

lemma cap_serialize_appends:
  assumes "cap_ok c"
  shows "appends (cap_serialize forSign c) (if forSign then cap_msg c else cap_enc c)"
proof -
  have cust: "appends (cap_serialize_custody c 0) (chain_enc (cap_chain c))"
    using appends_custody [OF assms, of 0] by (simp add: cap_chain_def)
  have "appends (cap_serialize forSign c)
      ((if forSign then magic_enc else []) @ word_bytes_be (cap_nwid c) @ word_bytes_be (cap_ts c) @ word_bytes_be (cap_id c) @
       word_bytes_be (ucast (cap_ruleCount c) :: u16) @ rules_enc (map rule_norm (take (unat (cap_ruleCount c)) (cap_rules c))) @
       word_bytes_be (ucast (cap_maxCustodyChainLength c) :: u8) @ (if \<not> forSign then chain_enc (cap_chain c) else []) @
       word_bytes_be (0 :: u16) @ (if forSign then magic_enc else []) @ [])"
    unfolding cap_serialize_def using assms cap_ok_nums(1) [OF assms] by (intro wire_write cust) (simp_all add: cap_ok_def)
  then show ?thesis by (cases forSign) (simp_all add: cap_msg_def cap_enc_def cap_body_def)
qed

lemma length_cap_msg:
  assumes "cap_ok c"
  shows "length (cap_msg c) \<le> 1400"
proof -
  have "\<forall>r \<in> set (map rule_norm (take (unat (cap_ruleCount c)) (cap_rules c))). rule_ok r"
    using assms by (auto simp: cap_ok_def intro: rule_norm_ok dest: in_set_takeD)
  from length_rules_enc [OF this] cap_ok_nums(1) [OF assms] show ?thesis
    by (simp add: cap_msg_def cap_body_def)
qed

lemma cap_message:
  assumes "cap_ok c" "5728 \<le> length mem"
  shows "ser_bytes (cap_serialize True c) (take 5728 mem) = Inr (cap_msg c)"
  using cap_serialize_appends [OF assms(1), of True] length_cap_msg [OF assms(1)] assms(2)
  by (intro ser_bytes_take) simp_all

lemma custody_loop:
  assumes b: "buf_ok b"
  shows "has b p (chain_enc es @ r) \<Longrightarrow> i + length es \<le> unat (cap_maxCustodyChainLength c) \<Longrightarrow>
    unat (cap_maxCustodyChainLength c) \<le> 7 \<Longrightarrow> length (cap_custody c) = 7 \<Longrightarrow>
    \<forall>e \<in> set es. custody_ok e \<and> cu_to e \<noteq> Address 0 \<Longrightarrow>
    cap_deserialize_custody b i p c =
      Inr (c\<lparr>cap_custody := take i (cap_custody c) @ es @ drop (i + length es) (cap_custody c)\<rparr>,
           p + of_nat (length (chain_enc es))) \<and>
    has b (p + of_nat (length (chain_enc es))) r"
proof (induction es arbitrary: p i c)
  case Nil
  have h: "has b p (addr_bytes (Address 0) @ r)" using Nil.prems(1) by simp
  have "cap_deserialize_custody b i p c = Inr (c, p + 5)"
    unfolding cap_deserialize_custody.simps [of b i p c]
    by (rule rd_addr_law [OF b h]) (simp_all add: addr_ok_def)
  with has_append(2) [OF b h] show ?case by simp
next
  case (Cons e es)
  let ?c = "c\<lparr>cap_custody := (cap_custody c)[i := e]\<rparr>"
  have ok: "addr_ok (cu_to e)" "addr_ok (cu_from e)" "length (cu_signature e) = 96" "cu_to e \<noteq> Address 0" and i: "i < 7"
      "i < unat (cap_maxCustodyChainLength c)"
    using Cons.prems by (auto simp: custody_ok_def)
  have h: "has b p (addr_bytes (cu_to e) @ addr_bytes (cu_from e) @ sig_enc (cu_signature e) @ chain_enc es @ r)"
    using Cons.prems(1) by (simp add: custody_enc_def)
  have e: "\<lparr>cu_to = cu_to e, cu_from = cu_from e, cu_signature = cu_signature e\<rparr> = e" by simp
  have len: "of_nat (length (custody_enc e)) = (109 :: u32)" using ok by (simp add: custody_enc_def)
  have ng: "\<not> (i \<ge> unat (cap_maxCustodyChainLength c) \<or> i \<ge> 7)" using i by simp
  have step: "cap_deserialize_custody b i p c = cap_deserialize_custody b (i + 1) (p + 109) ?c \<and> has b (p + 109) (chain_enc es @ r)"
  proof
    show "has b (p + 109) (chain_enc es @ r)"
      using has_append(2) [OF b, of p "custody_enc e" "chain_enc es @ r"] Cons.prems(1) len by simp
    show "cap_deserialize_custody b i p c = cap_deserialize_custody b (i + 1) (p + 109) ?c"
      unfolding cap_deserialize_custody.simps [of b i p c]
      apply (rule rd_addr_law [OF b h ok(1)])
      apply (simp only: if_not_P [OF ok(4)] if_not_P [OF ng])
      apply (rule rd_addr_law [OF b], assumption, rule ok)
      apply (rule rd_signature_law [OF b], assumption, rule ok)
      using i Cons.prems(4) by (simp add: e add.assoc)
  qed
  have IH: "cap_deserialize_custody b (i + 1) (p + 109) ?c =
      Inr (?c\<lparr>cap_custody := take (i + 1) ((cap_custody c)[i := e]) @ es @ drop (i + 1 + length es) ((cap_custody c)[i := e])\<rparr>,
           p + 109 + of_nat (length (chain_enc es))) \<and>
    has b (p + 109 + of_nat (length (chain_enc es))) r"
    using Cons.IH [of "p + 109" "i + 1" ?c] step Cons.prems by simp
  show ?case
    using step IH i Cons.prems(4) len by (simp add: take_Suc_update algebra_simps)
qed

lemma chain_members:
  assumes "cap_ok c" "e \<in> set (cap_chain c)"
  shows "custody_ok e \<and> cu_to e \<noteq> Address 0"
  using assms by (auto simp: cap_chain_def cap_ok_def dest!: set_takeWhileD in_set_takeD)

lemma length_cap_chain: "cap_ok c \<Longrightarrow> length (cap_chain c) \<le> unat (cap_maxCustodyChainLength c)"
  using length_takeWhile_le [of _ "take (unat (cap_maxCustodyChainLength c)) (cap_custody c)"]
  by (auto simp: cap_chain_def cap_ok_def intro: order_trans)

lemma take_cap_chain: "take (length (cap_chain c)) (cap_custody c) = cap_chain c"
proof -
  have "take (length (takeWhile P xs)) xs = takeWhile P xs" for P and xs :: "custody list"
    by (metis append_eq_conv_conj takeWhile_dropWhile_id)
  from this [of _ "take (unat (cap_maxCustodyChainLength c)) (cap_custody c)"] show ?thesis
    by (metis cap_chain_def length_takeWhile_le length_take min.cobounded2 min.absorb1 order_trans take_take)
qed

lemma cap_deserialize_enc:
  assumes "cap_wire_ok c" "buf_ok b" "has b p (cap_enc c)"
  shows "cap_deserialize b p = Inr (c, of_nat (length (cap_enc c)))"
proof -
  let ?rc = "cap_ruleCount c" and ?m = "cap_maxCustodyChainLength c" and ?es = "cap_chain c"
  let ?rs = "take (unat ?rc) (cap_rules c)"
  let ?t = "word_bytes_be (0 :: u16) @ []"
  have ok: "cap_ok c" using assms(1) by (simp add: cap_wire_ok_def)
  note n = cap_ok_nums [OF ok]
  have lens: "length (cap_rules c) = 64" "length (cap_custody c) = 7" using ok by (simp_all add: cap_ok_def)
  have rok: "\<forall>r \<in> set ?rs. rule_ok r" using assms(1) by (auto simp: cap_wire_ok_def dest: in_set_takeD)
  have norm: "map rule_norm ?rs = ?rs" using rok by (intro map_idI rule_norm_id) blast
  have h: "has b p (word_bytes_be (cap_nwid c) @ word_bytes_be (cap_ts c) @ word_bytes_be (cap_id c) @
     word_bytes_be (ucast ?rc :: u16) @ rules_enc ?rs @ [ucast ?m] @ chain_enc ?es @ ?t)"
    using assms(3) by (simp add: cap_enc_def cap_body_def norm)
  have rc: "\<not> (ucast ?rc :: u16) > 64" "ucast (ucast ?rc :: u16) = ?rc"
    using n(1) by (simp_all add: word_less_nat_alt unsigned_ucast_eq take_bit_eq_mod word_unat_eq_iff unat_mod)
  have m: "\<not> ((ucast ?m :: u8) < 1 \<or> (ucast ?m :: u8) > 7)" "ucast (ucast ?m :: u8) = ?m"
    using n(2,3) by (simp_all add: word_less_nat_alt unsigned_ucast_eq take_bit_eq_mod word_unat_eq_iff unat_mod)
  have rules: "deserializeRules b q (cap_rules cap_zero) 0 ?rc = Inr (q + of_nat (length (rules_enc ?rs)), cap_rules c, ?rc) \<and>
      has b (q + of_nat (length (rules_enc ?rs))) ([ucast ?m] @ chain_enc ?es @ ?t)"
    if "has b q (rules_enc ?rs @ [ucast ?m] @ chain_enc ?es @ ?t)" for q
  proof -
    have "drop (unat ?rc) (cap_rules cap_zero) = drop (unat ?rc) (cap_rules c)"
      using assms(1) by (simp add: cap_wire_ok_def cap_zero_def)
    with deserializeRules_enc [OF assms(2) that rok, of 0 ?rc "cap_rules cap_zero"] n(1) lens show ?thesis
      by (simp add: cap_zero_def rule_zero_def)
  qed
  let ?c = "cap_zero\<lparr>cap_nwid := cap_nwid c, cap_ts := cap_ts c, cap_id := cap_id c, cap_rules := cap_rules c,
    cap_ruleCount := ?rc, cap_maxCustodyChainLength := ?m\<rparr>"
  have cust: "cap_deserialize_custody b 0 q ?c = Inr (c, q + of_nat (length (chain_enc ?es))) \<and>
      has b (q + of_nat (length (chain_enc ?es))) ?t"
    if "has b q (chain_enc ?es @ ?t)" for q
  proof -
    have z: "drop (length ?es) (cap_custody cap_zero) = drop (length ?es) (cap_custody c)"
      using assms(1) by (simp add: cap_wire_ok_def cap_zero_def)
    have "?es @ drop (length ?es) (cap_custody c) = cap_custody c"
      using append_take_drop_id [of "length ?es" "cap_custody c"] by (simp add: take_cap_chain)
    with z custody_loop [OF assms(2) that, of 0 ?c] chain_members [OF ok] length_cap_chain [OF ok] n(3) show ?thesis
      by (simp add: cap_zero_def)
  qed
  show ?thesis
    unfolding cap_deserialize_def
    apply (rule rd_at_64 [OF assms(2) h])
    apply (rule rd_at_64 [OF assms(2)], assumption)
    apply (rule rd_at_32 [OF assms(2)], assumption)
    apply (rule rd_at_16 [OF assms(2)], assumption)
    apply (drule rules, elim conjE)
    apply (simp only: if_not_P [OF rc(1)] rc(2) res_bind_simps prod.case)
    apply (rule rd_byte_law [OF assms(2)], assumption)
    apply (drule cust, elim conjE)
    apply (simp only: if_not_P [OF m(1)] m(2) res_bind_simps prod.case)
    apply (rule rd_end_law [OF assms(2)], assumption)
    by (simp add: cap_enc_def cap_body_def norm algebra_simps)
qed

interpretation cap_wire: wire_format cap_wire_ok cap_enc "cap_serialize False" cap_deserialize
proof unfold_locales
  fix c b p
  show "appends (cap_serialize False c) (cap_enc c)" if "cap_wire_ok c"
    using cap_serialize_appends [of c False] that by (simp add: cap_wire_ok_def)
  show "cap_deserialize b p = Inr (c, of_nat (length (cap_enc c)))"
    if "cap_wire_ok c" "buf_ok b" "has b p (cap_enc c)"
    using that by (rule cap_deserialize_enc)
qed

lemma custody_safe:
  assumes b: "buf_ok b"
  shows "cap_ok c \<Longrightarrow> pos_ok p \<Longrightarrow> res_all (\<lambda>(c', q). cap_ok c' \<and> pos_ok q) (cap_deserialize_custody b i p c)"
proof (induction "7 - i" arbitrary: i p c)
  case 0
  show ?case
    unfolding cap_deserialize_custody.simps [of b i p c]
    using 0 by (intro rd_addr_safe [OF b]) auto
next
  case (Suc k)
  let ?Q = "\<lambda>(c', q). cap_ok c' \<and> pos_ok q"
  have cont: "res_all ?Q (res_bind (rd (cap_custody c) i) (\<lambda>e.
       res_bind (wr (cap_custody c) i
         \<lparr>cu_to = to, cu_from = fr, cu_signature = (case s of Some x \<Rightarrow> x | None \<Rightarrow> cu_signature e)\<rparr>) (\<lambda>cs.
       cap_deserialize_custody b (i + 1) q (c\<lparr>cap_custody := cs\<rparr>))))"
    if "addr_ok to" "addr_ok fr" "\<forall>x. s = Some x \<longrightarrow> length x = 96" "pos_ok q" for to fr s q
  proof -
    let ?e = "\<lparr>cu_to = to, cu_from = fr, cu_signature = (case s of Some x \<Rightarrow> x | None \<Rightarrow> cu_signature (cap_custody c ! i))\<rparr>"
    have i: "i < length (cap_custody c)" using Suc by (simp add: cap_ok_def)
    then have "custody_ok (cap_custody c ! i)" using Suc.prems(1) by (simp add: cap_ok_def)
    then have "custody_ok ?e" using that by (auto simp: custody_ok_def split: option.split)
    then have "cap_ok (c\<lparr>cap_custody := (cap_custody c)[i := ?e]\<rparr>)"
      using Suc.prems(1) by (auto simp: cap_ok_def dest: set_update_subset_insert [THEN subsetD])
    with Suc.hyps(1) [of "i + 1"] Suc.hyps(2) that(4) i show ?thesis by simp
  qed
  show ?case
    unfolding cap_deserialize_custody.simps [of b i p c]
    using Suc.prems by (intro rd_addr_safe rd_signature_safe if_safe Inl_safe b cont) auto
qed

lemma rule_fits_zero: "rule_fits rule_zero"
  by (simp add: rule_fits_def rule_zero_def rule_type_def type_member_def)

lemma cap_deserialize_safe:
  assumes b: "buf_ok b" and p: "pos_ok p"
  shows "res_all (\<lambda>(c, n). cap_ok c) (cap_deserialize b p)"
proof -
  have rules: "res_all (\<lambda>(q, rs, n). pos_ok q \<and> length rs = 64 \<and> (\<forall>x \<in> set rs. rule_fits x) \<and> n \<le> 64)
      (deserializeRules b q (cap_rules cap_zero) 0 (ucast rc))" if "pos_ok q" "\<not> rc > (64 :: u16)" for q rc
  proof -
    have "unat (ucast rc :: u32) \<le> 64"
      using that(2) by (simp add: not_less word_le_nat_alt unsigned_ucast_eq take_bit_eq_mod unat_mod)
    then show ?thesis
      by (intro res_all_mono [OF deserializeRules_safe [OF b that(1), of 0 "ucast rc" "cap_rules cap_zero"]])
        (auto simp: cap_zero_def rule_fits_zero word_le_nat_alt)
  qed
  have ok: "cap_ok (cap_zero\<lparr>cap_nwid := nwid, cap_ts := ts, cap_id := i, cap_rules := rs, cap_ruleCount := n,
      cap_maxCustodyChainLength := ucast m\<rparr>)"
    if "length rs = 64" "\<forall>x \<in> set rs. rule_fits x" "n \<le> 64" "\<not> (m < 1 \<or> m > (7 :: u8))" for nwid ts i rs n m
  proof -
    have "1 \<le> unat m" "unat m \<le> 7" using that(4) by (auto simp: not_less word_le_nat_alt Suc_le_eq unat_gt_0)
    then have "unat (ucast m :: u32) \<le> 7" "1 \<le> unat (ucast m :: u32)"
      by (simp_all add: unsigned_ucast_eq take_bit_eq_mod unat_mod)
    with that(1-3) show ?thesis
      by (simp add: cap_ok_def cap_zero_def custody_ok_def custody_zero_def addr_ok_def word_le_nat_alt)
  qed
  have fin: "res_all (\<lambda>(c, n). cap_ok c) (res_bind (cap_deserialize_custody b 0 q c) (\<lambda>(c, p'). rd_end b p p' c))"
    if "cap_ok c" "pos_ok q" for c q
    by (rule bind_safe [OF custody_safe [OF b that]]) (auto intro: rd_end_safe [OF b])
  show ?thesis
    unfolding cap_deserialize_def
    apply (intro rd_at_safe if_safe b Inl_safe, simp)
    apply (rule bind_safe [OF rules], assumption+)
    apply (clarsimp simp only: prod.case)
    apply (intro rd_byte_safe if_safe b Inl_safe fin ok, simp_all)
    done
qed

section \<open>Custody\<close>

lemma verify_links:
  assumes "length cs = 7"
  shows "0 < i \<Longrightarrow> i + n \<le> 7 \<Longrightarrow> cu_to (cs ! (i - 1)) \<noteq> Address 0 \<Longrightarrow>
    \<exists>r ws. cap_verify_from C known nwid cs msg n i = Inr (r, ws) \<and> (r = 1 \<longrightarrow> length ws = 1) \<and> (r \<noteq> 1 \<longrightarrow> ws = []) \<and>
      r \<in> {- 1, 0, 1} \<and>
      (r = 0 \<longleftrightarrow> chain_ok C known msg (cu_to (cs ! (i - 1))) (takeWhile (\<lambda>e. cu_to e \<noteq> Address 0) (take n (drop i cs))))"
proof (induction n arbitrary: i)
  case 0
  then show ?case by simp
next
  case (Suc n)
  let ?e = "cs ! i"
  have i: "i < length cs" "i - 1 < length cs" using Suc.prems assms by simp_all
  have d: "take (Suc n) (drop i cs) = ?e # take n (drop (i + 1) cs)"
    using i Cons_nth_drop_Suc [of i cs] by (metis Suc_eq_plus1 take_Suc_Cons)
  show ?case
  proof (cases "cu_to ?e = Address 0")
    case True
    then show ?thesis unfolding d using i Suc.prems(1) by (simp add: Let_def)
  next
    case False
    from Suc.IH [of "i + 1"] False Suc.prems obtain r ws where
      IH: "cap_verify_from C known nwid cs msg n (i + 1) = Inr (r, ws)" "r = 1 \<longrightarrow> length ws = 1" "r \<noteq> 1 \<longrightarrow> ws = []"
        "r \<in> {- 1, 0, 1}"
        "r = 0 \<longleftrightarrow> chain_ok C known msg (cu_to ?e) (takeWhile (\<lambda>e. cu_to e \<noteq> Address 0) (take n (drop (i + 1) cs)))"
      by auto
    show ?thesis
      unfolding d using i Suc.prems(1,3) False IH by (auto simp: Let_def)
  qed
qed

lemma verify_chain:
  assumes "cap_ok c" "5728 \<le> length mem"
  shows "\<exists>r ws. cap_verify C known mem c = Inr (r, ws) \<and> (r = 1 \<longrightarrow> length ws = 1) \<and> (r \<noteq> 1 \<longrightarrow> ws = []) \<and> r \<in> {- 1, 0, 1} \<and>
    (r = 0 \<longleftrightarrow> cap_chain c \<noteq> [] \<and> chain_ok C known (cap_msg c) (controllerFor (cap_nwid c)) (cap_chain c))"
proof -
  let ?cs = "cap_custody c" and ?m = "unat (cap_maxCustodyChainLength c)"
  note n = cap_ok_nums [OF assms(1)]
  have l: "length ?cs = 7" using assms(1) by (simp add: cap_ok_def)
  obtain k where k: "?m = Suc k" "k \<le> 6" using n(2,3) by (cases ?m) auto
  obtain e es where cs: "?cs = e # es" using l by (cases ?cs) auto
  have hd: "?cs ! 0 = e" using cs by simp
  have chain: "cap_chain c = (if cu_to e \<noteq> Address 0 then e # takeWhile (\<lambda>e. cu_to e \<noteq> Address 0) (take k (drop 1 ?cs)) else [])"
    by (simp add: cap_chain_def cs k)
  have v: "cap_verify C known mem c = res_catch (cap_verify_from C known (cap_nwid c) ?cs (cap_msg c) (Suc k) 0) (- 1, [])"
    using assms(1) k cap_message [OF assms] by (auto simp: cap_verify_def cap_ok_def not_less)
  show ?thesis
  proof (cases "cu_to e = Address 0")
    case True
    then show ?thesis unfolding v chain using l hd by (simp add: Let_def res_catch_def)
  next
    case False
    from verify_links [OF l, of 1 k C known "cap_nwid c" "cap_msg c"] False hd k(2) obtain r ws where
      IH: "cap_verify_from C known (cap_nwid c) ?cs (cap_msg c) k 1 = Inr (r, ws)" "r = 1 \<longrightarrow> length ws = 1" "r \<noteq> 1 \<longrightarrow> ws = []"
        "r \<in> {- 1, 0, 1}"
        "r = 0 \<longleftrightarrow> chain_ok C known (cap_msg c) (cu_to e) (takeWhile (\<lambda>e. cu_to e \<noteq> Address 0) (take k (drop 1 ?cs)))"
      by auto
    show ?thesis
      unfolding v chain using l hd False IH by (auto simp: Let_def res_catch_def)
  qed
qed

text \<open>Who holds the capability, and therefore may sign the next link.\<close>

definition cap_holder :: "capability \<Rightarrow> address" where
  "cap_holder c = (if cap_chain c = [] then controllerFor (cap_nwid c) else cu_to (last (cap_chain c)))"

lemma chain_ok_snoc:
  "chain_ok C known msg h (es @ [e]) \<longleftrightarrow> chain_ok C known msg h es \<and>
     chain_ok C known msg (if es = [] then h else cu_to (last es)) [e]"
  by (induction es arbitrary: h) auto

lemma cap_custody_split:
  assumes "cap_wire_ok c"
  shows "cap_custody c = cap_chain c @ replicate (7 - length (cap_chain c)) custody_zero"
  using assms append_take_drop_id [of "length (cap_chain c)" "cap_custody c"]
  by (simp add: cap_wire_ok_def take_cap_chain)

lemma issuedTo_last:
  "i + n \<le> length cs \<Longrightarrow> cap_issuedTo_from cs n i a =
     Inr (let ch = takeWhile (\<lambda>e. cu_to e \<noteq> Address 0) (take n (drop i cs)) in if ch = [] then a else cu_to (last ch))"
proof (induction n arbitrary: i a)
  case (Suc n)
  have d: "take (Suc n) (drop i cs) = cs ! i # take n (drop (i + 1) cs)"
    using Suc.prems Cons_nth_drop_Suc [of i cs] by (metis Suc_eq_plus1 Suc_le_lessD add_Suc_right le_add1 order_trans take_Suc_Cons not_less_eq_eq)
  show ?case unfolding d using Suc.prems Suc.IH [of "i + 1"] by (auto simp: Let_def)
qed simp

lemma sign_next:
  assumes "cap_ok c" "5728 \<le> length mem" "id_sign C who (cap_msg c) = Inr s"
  shows "k < n \<Longrightarrow> i + k < 7 \<Longrightarrow> \<forall>j < k. cu_to (cap_custody c ! (i + j)) \<noteq> Address 0 \<Longrightarrow>
    cu_to (cap_custody c ! (i + k)) = Address 0 \<Longrightarrow>
    cap_sign_from C mem who to n i c =
      Inr (True, cap_put (i + k) \<lparr>cu_to = to, cu_from = id_address who, cu_signature = s\<rparr> c)"
proof (induction k arbitrary: n i)
  case 0
  obtain n' where n: "n = Suc n'" using 0 by (cases n) auto
  have l: "length (cap_custody c) = 7" using assms(1) by (simp add: cap_ok_def)
  have e: "e\<lparr>cu_to := to, cu_from := id_address who, cu_signature := s\<rparr> =
      \<lparr>cu_to = to, cu_from = id_address who, cu_signature = s\<rparr>" for e :: custody by (cases e) simp
  show ?case
    using 0 l assms(3) cap_message [OF assms(1,2)] by (simp add: n Let_def res_catch_def e)
next
  case (Suc k)
  obtain n' where n: "n = Suc n'" using Suc.prems by (cases n) auto
  have l: "length (cap_custody c) = 7" using assms(1) by (simp add: cap_ok_def)
  have "cu_to (cap_custody c ! i) \<noteq> Address 0" using Suc.prems(3) by (metis add.right_neutral zero_less_Suc)
  moreover have "cap_sign_from C mem who to n' (i + 1) c =
      Inr (True, cap_put (i + 1 + k) \<lparr>cu_to = to, cu_from = id_address who, cu_signature = s\<rparr> c)"
  proof (rule Suc.IH)
    show "\<forall>j < k. cu_to (cap_custody c ! (i + 1 + j)) \<noteq> Address 0"
      using Suc.prems(3) by (metis Suc_less_eq add.assoc add.commute plus_1_eq_Suc)
  qed (use Suc.prems n in simp_all)
  ultimately show ?case using Suc.prems l by (simp add: n)
qed

lemma sign_none:
  "length (cap_custody c) = 7 \<Longrightarrow> i + n \<le> 7 \<Longrightarrow> \<forall>j < n. cu_to (cap_custody c ! (i + j)) \<noteq> Address 0 \<Longrightarrow>
    cap_sign_from C mem who to n i c = Inr (False, c)"
proof (induction n arbitrary: i)
  case (Suc n)
  have "cu_to (cap_custody c ! i) \<noteq> Address 0" using Suc.prems(3) by (metis add.right_neutral zero_less_Suc)
  moreover have "cap_sign_from C mem who to n (i + 1) c = Inr (False, c)"
  proof (rule Suc.IH)
    show "\<forall>j < n. cu_to (cap_custody c ! (i + 1 + j)) \<noteq> Address 0"
      using Suc.prems(3) by (metis Suc_less_eq add.assoc add.commute plus_1_eq_Suc)
  qed (use Suc.prems in simp_all)
  ultimately show ?case using Suc.prems by simp
qed simp

lemma sign_full:
  assumes "cap_wire_ok c" "\<not> length (cap_chain c) < unat (cap_maxCustodyChainLength c)"
  shows "cap_sign C mem who to c = Inr (False, c)"
proof -
  let ?m = "unat (cap_maxCustodyChainLength c)"
  have ok: "cap_ok c" using assms(1) by (simp add: cap_wire_ok_def)
  have m: "?m = length (cap_chain c)" "?m \<le> 7" using assms(2) length_cap_chain [OF ok] cap_ok_nums [OF ok] by simp_all
  have "cu_to (cap_custody c ! j) \<noteq> Address 0" if "j < ?m" for j
    using cap_custody_split [OF assms(1)] chain_members [OF ok, of "cap_chain c ! j"] that m(1)
    by (metis nth_append nth_mem)
  then show ?thesis
    using sign_none [of c 0 ?m] ok m(2) by (simp add: cap_sign_def cap_ok_def)
qed

lemma chain_extended:
  assumes "cap_wire_ok c" "length (cap_chain c) < unat (cap_maxCustodyChainLength c)" "custody_ok e" "cu_to e \<noteq> Address 0"
  shows "cap_chain (cap_put (length (cap_chain c)) e c) = cap_chain c @ [e]"
    and "cap_wire_ok (cap_put (length (cap_chain c)) e c)"
    and "cap_issuedTo (cap_put (length (cap_chain c)) e c) = Inr (cu_to e)"
proof -
  let ?ch = "cap_chain c" and ?m = "unat (cap_maxCustodyChainLength c)"
  let ?c = "cap_put (length ?ch) e c" and ?P = "\<lambda>e. cu_to e \<noteq> Address 0"
  have ok: "cap_ok c" using assms(1) by (simp add: cap_wire_ok_def)
  note n = cap_ok_nums [OF ok]
  have lt: "length ?ch < 7" using assms(2) n(3) by simp
  obtain k where k: "7 - length ?ch = Suc k" "k = 6 - length ?ch" using lt by (cases "7 - length ?ch") auto
  have cs: "cap_custody ?c = ?ch @ e # replicate k custody_zero"
    using cap_custody_split [OF assms(1)] k by (simp add: cap_put_def list_update_append)
  have all: "\<forall>x \<in> set ?ch. ?P x" using chain_members [OF ok] by blast
  obtain j where j: "?m - length ?ch = Suc j" using assms(2) by (cases "?m - length ?ch") auto
  have tk: "take ?m (cap_custody ?c) = ?ch @ e # replicate (min j k) custody_zero"
    using assms(2) j by (simp add: cs take_Cons')
  have tw: "takeWhile ?P (?ch @ e # replicate r custody_zero) = ?ch @ [e]" for r
    using all assms(4) by (cases r) (simp_all add: takeWhile_append custody_zero_def)
  show ch: "cap_chain ?c = ?ch @ [e]"
    unfolding cap_chain_def [of ?c] using tk tw by (simp add: cap_put_def)
  have okc: "cap_ok ?c"
    using ok assms(3) by (auto simp: cap_ok_def cap_put_def dest: set_update_subset_insert [THEN subsetD])
  show "cap_wire_ok ?c"
    using assms(1) okc k unfolding cap_wire_ok_def ch cs by (simp add: cap_put_def)
  show "cap_issuedTo ?c = Inr (cu_to e)"
  proof -
    have l: "length (cap_custody ?c) = 7" using okc by (simp add: cap_ok_def)
    then have "take 7 (drop 0 (cap_custody ?c)) = ?ch @ e # replicate k custody_zero"
      using cs by (metis drop0 order_refl take_all)
    with issuedTo_last [of 0 7 "cap_custody ?c" "Address 0"] l tw show ?thesis
      unfolding cap_issuedTo_def by (simp add: Let_def)
  qed
qed

section \<open>Properties\<close>

definition cap_sample :: capability where
  "cap_sample = cap_zero\<lparr>cap_nwid := 0x8056c2e21c000001, cap_ts := 1000, cap_id := 5, cap_maxCustodyChainLength := 2,
     cap_ruleCount := 1, cap_rules := \<lparr>r_t = MATCH_VLAN_ID, r_v = V_vlanId 7\<rparr> # replicate 63 rule_zero\<rparr>"

lemma rule_zero_ok: "rule_ok rule_zero"
  by (simp add: rule_ok_def rule_zero_def rule_type_def type_member_def)

lemma cap_sample_ok: "cap_chain cap_sample = []" "cap_wire_ok cap_sample" "cap_ok cap_sample"
proof -
  show c: "cap_chain cap_sample = []"
    by (simp add: cap_chain_def cap_sample_def cap_zero_def takeWhile_eq_Nil_iff custody_zero_def)
  have r: "rule_ok \<lparr>r_t = MATCH_VLAN_ID, r_v = V_vlanId 7\<rparr>" by (simp add: rule_ok_def rule_type_def type_member_def)
  show ok: "cap_ok cap_sample"
    using rule_ok_fits [OF r] by (simp add: cap_ok_def cap_sample_def cap_zero_def rule_fits_zero custody_ok_def custody_zero_def addr_ok_def)
  show "cap_wire_ok cap_sample"
    using r ok c by (simp add: cap_wire_ok_def cap_sample_def cap_zero_def rule_zero_ok)
qed

text \<open>
  C15. \<open>verify\<close> answers 0 exactly when the chain of custody is not empty, starts at the controller of
  the network, and every link is signed over the capability's content by the holder before it, whose
  identity is known; it always answers 0, 1 or -1, and asks for one identity when it answers 1.
\<close>

theorem cap_verify_custody:
  assumes "cap_ok c" "5728 \<le> length mem"
  shows "\<exists>r ws. cap_verify C known mem c = Inr (r, ws) \<and> r \<in> {- 1, 0, 1} \<and> length ws = (if r = 1 then 1 else 0) \<and>
    (r = 0 \<longleftrightarrow> cap_chain c \<noteq> [] \<and> chain_ok C known (cap_msg c) (controllerFor (cap_nwid c)) (cap_chain c))"
  using verify_chain [OF assms, of C known] by auto

theorem cap_verify_custody_witness:
  "\<exists>ws r. cap_verify toy_crypto (\<lambda>a. id_sample) (replicate 5728 0) cap_sample = Inr (r, ws) \<and> r \<noteq> 0"
proof -
  from cap_verify_custody [OF cap_sample_ok(3), of "replicate 5728 0" toy_crypto "\<lambda>a. id_sample"] cap_sample_ok(1)
  show ?thesis by auto
qed

text \<open>
  C26. Delegation: when the chain of a capability is valid (or empty), its holder can sign it over to
  any node as long as the maximum chain length is not reached; the result verifies and is issued to
  that node.  When the chain is full, \<open>sign\<close> returns false and changes nothing.
\<close>

theorem cap_sign_delegates:
  assumes "cap_wire_ok c" "5728 \<le> length mem" "chain_ok C known (cap_msg c) (controllerFor (cap_nwid c)) (cap_chain c)"
    and "id_address who = cap_holder c" "cap_holder c \<noteq> Address 0" "id_valid who" "id_hasPrivate who" "signs_for C who"
    and "known (id_address who) = who" "addr_ok to" "to \<noteq> Address 0"
  shows "if length (cap_chain c) < unat (cap_maxCustodyChainLength c)
    then \<exists>c'. cap_sign C mem who to c = Inr (True, c') \<and> cap_verify C known mem c' = Inr (0, []) \<and>
      cap_issuedTo c' = Inr to \<and> cap_holder c' = to \<and> cap_msg c' = cap_msg c \<and> cap_wire_ok c'
    else cap_sign C mem who to c = Inr (False, c)"
proof (cases "length (cap_chain c) < unat (cap_maxCustodyChainLength c)")
  case False
  then show ?thesis using sign_full [OF assms(1)] by simp
next
  case room: True
  let ?k = "length (cap_chain c)"
  have ok: "cap_ok c" using assms(1) by (simp add: cap_wire_ok_def)
  note n = cap_ok_nums [OF ok]
  obtain key where k: "id_privateKey who = Some key" using assms(7) by (auto simp: id_hasPrivate_def)
  define s where "s = cr_sign C key (id_publicKey who) (cap_msg c)"
  have s: "id_sign C who (cap_msg c) = Inr s" "length s = 96" "cr_verify C (id_publicKey who) (cap_msg c) s"
    using assms(8) k by (simp_all add: id_sign_def s_def signs_for_def)
  define e where "e = \<lparr>cu_to = to, cu_from = id_address who, cu_signature = s\<rparr>"
  have "addr_ok (cap_holder c)"
    using chain_members [OF ok, of "last (cap_chain c)"] by (simp add: cap_holder_def custody_ok_def controllerFor_def)
  then have e: "custody_ok e" "cu_to e \<noteq> Address 0" using assms(4,10,11) s(2) by (simp_all add: e_def custody_ok_def)
  note x = chain_extended [OF assms(1) room e]
  let ?c = "cap_put ?k e c"
  have cs: "cap_custody c ! j = (if j < ?k then cap_chain c ! j else custody_zero)" if "j < 7" for j
    using cap_custody_split [OF assms(1)] that by (metis diff_less_mono length_append length_replicate not_less nth_append nth_replicate)
  have "cap_sign C mem who to c = Inr (True, ?c)"
    using sign_next [OF ok assms(2) s(1), of ?k "min (unat (cap_maxCustodyChainLength c)) 7" 0 to] room n(3) chain_members [OF ok] cs
    by (auto simp: cap_sign_def e_def custody_zero_def)
  moreover have msg: "cap_msg ?c = cap_msg c" "cap_nwid ?c = cap_nwid c" by (simp_all add: cap_msg_def cap_body_def cap_put_def)
  moreover have "cap_holder ?c = to" using x(1) by (simp add: cap_holder_def e_def)
  moreover have "cap_verify C known mem ?c = Inr (0, [])"
  proof -
    have "chain_ok C known (cap_msg ?c) (controllerFor (cap_nwid ?c)) (cap_chain ?c)"
      unfolding x(1) chain_ok_snoc msg using assms(3,5,9) s(3) assms(4,6)
      by (simp add: e_def cap_holder_def id_verify_def id_valid_def split: if_splits)
    with verify_chain [of ?c mem C known] x assms(2) show ?thesis by (auto simp: cap_wire_ok_def)
  qed
  ultimately show ?thesis using x room by (auto simp: e_def)
qed

theorem cap_sign_delegates_witness:
  "\<exists>c'. cap_sign toy_crypto (replicate 5728 0) id_sample (Address 0x1122334455) cap_sample = Inr (True, c') \<and>
     cap_verify toy_crypto (\<lambda>a. id_sample) (replicate 5728 0) c' = Inr (0, []) \<and> cap_issuedTo c' = Inr (Address 0x1122334455)"
proof -
  have "id_address id_sample = cap_holder cap_sample" "cap_holder cap_sample \<noteq> Address 0"
    using cap_sample_ok(1) by (simp_all add: cap_holder_def cap_sample_def id_sample_def controllerFor_def addr_new_def)
  moreover have "id_valid id_sample" "id_hasPrivate id_sample"
    by (simp_all add: id_valid_def id_sample_def id_hasPrivate_def)
  ultimately show ?thesis
    using cap_sign_delegates [OF cap_sample_ok(2) _ _ _ _ _ _ toy_signs_for,
        of "replicate 5728 0" "\<lambda>a. id_sample" id_sample "Address 0x1122334455"] cap_sample_ok(1)
    by (auto simp: addr_ok_def cap_sample_def)
qed

text \<open>
  C27. A capability with its rules and its chain survives \<open>serialize\<close> and \<open>deserialize\<close>.  From an
  arbitrary buffer the parser throws or yields a capability that is safe to use: counts within the
  arrays and every rule holding the union member of its type.  A rule of a type this version does
  not know is skipped by its length, whatever it holds.
\<close>

theorem cap_wire_roundtrip:
  assumes "cap_wire_ok c" "buf_ok b" "unat (b_len b) + length (cap_enc c) \<le> b_cap b"
    and "buf_ok b0" "pos_ok p"
    and "has b0 q ([t] @ [of_nat (length field)] @ field @ r)" "type_member (t AND 0x3f) = M_none" "length field < 256"
      "rc < mx" "unat rc < length arr"
  shows "(\<exists>b'. cap_serialize False c b = Inr b' \<and> cap_deserialize b' (b_len b) = Inr (c, b_len b' - b_len b)) \<and>
    res_all (\<lambda>(c, n). cap_ok c) (cap_deserialize b0 p) \<and>
    deserializeRules b0 q arr rc mx =
      deserializeRules b0 (q + 2 + of_nat (length field)) (arr[unat rc := (arr ! unat rc)\<lparr>r_t := t\<rparr>]) (rc + 1) mx"
  using cap_wire.roundtrip [OF assms(1-3)] cap_deserialize_safe [OF assms(4,5)] deserializeRules_unknown [OF assms(4,6-10)]
  by blast

theorem cap_wire_roundtrip_witness:
  "\<exists>b'. cap_serialize False cap_sample (buf_new (replicate 300 0)) = Inr b' \<and> cap_deserialize b' 0 = Inr (cap_sample, b_len b')"
proof -
  let ?b = "buf_new (replicate 300 0)" and ?d = "\<lparr>b_data = [63, 1, 9], b_len = 3\<rparr>"
  have b: "buf_ok ?b" "b_len ?b = 0" "b_cap ?b = 300" "buf_ok ?d" by (simp_all add: buf_ok_def buf_new_def b_cap_def)
  have l: "length (cap_enc cap_sample) \<le> 300"
    using cap_sample_ok(1)
    by (simp add: cap_enc_def cap_body_def cap_sample_def rule_norm_def rule_type_def type_member_def rule_enc_def)
  have h: "has ?d 0 ([63] @ [of_nat (length [9 :: u8])] @ [9] @ [])" by (simp add: has_def b_content_def)
  have m: "type_member (63 AND 0x3f) = M_none" by (simp add: type_member_def)
  from cap_wire_roundtrip [OF cap_sample_ok(2) b(1) _ b(4) _ h m, of 0 0 1 "[rule_zero]"] b l show ?thesis
    by (auto simp: pos_ok_def)
qed

end
