(* ===== verification/Network_Config.thy ===== *)
theory Network_Config
  imports Zt_Capability Zt_Hashtable Inet_Laws
begin

text \<open>
  The network configuration that a controller issues to a member (node/NetworkConfig.hpp): its
  fields, the queries on its flags, capabilities and tags, and the specialists, devices with a
  special role on the network, of which each entry holds an address in its low forty bits and the
  roles above them.
\<close>

section \<open>The record\<close>

record route =
  rt_target :: inet
  rt_via :: inet
  rt_flags :: u16
  rt_metric :: u16

record netconf =
  nc_networkId :: u64
  nc_timestamp :: u64
  nc_credentialTimeMaxDelta :: u64
  nc_revision :: u64
  nc_issuedTo :: address
  nc_remoteTraceTarget :: address
  nc_flags :: u64
  nc_remoteTraceLevel :: u32
  nc_mtu :: u32
  nc_multicastLimit :: u32
  nc_specialistCount :: u32
  nc_routeCount :: u32
  nc_staticIpCount :: u32
  nc_ruleCount :: u32
  nc_capabilityCount :: u32
  nc_tagCount :: u32
  nc_cooCount :: u32
  nc_specialists :: "u64 list"
  nc_routes :: "route list"
  nc_staticIps :: "inet list"
  nc_rules :: "rule list"
  nc_capabilities :: "capability list"
  nc_tags :: "tag list"
  nc_coos :: "coo list"
  nc_type :: u32
  nc_name :: bytes
  nc_com :: com

definition route_zero :: route where
  "route_zero = \<lparr>rt_target = inet_nil, rt_via = inet_nil, rt_flags = 0, rt_metric = 0\<rparr>"

definition netconf_zero :: netconf where
  "netconf_zero = \<lparr>nc_networkId = 0, nc_timestamp = 0, nc_credentialTimeMaxDelta = 0, nc_revision = 0,
     nc_issuedTo = Address 0, nc_remoteTraceTarget = Address 0, nc_flags = 0, nc_remoteTraceLevel = 0, nc_mtu = 0,
     nc_multicastLimit = 0, nc_specialistCount = 0, nc_routeCount = 0, nc_staticIpCount = 0, nc_ruleCount = 0,
     nc_capabilityCount = 0, nc_tagCount = 0, nc_cooCount = 0, nc_specialists = replicate 256 0,
     nc_routes = replicate 32 route_zero, nc_staticIps = replicate 16 inet_nil, nc_rules = replicate 1024 rule_zero,
     nc_capabilities = replicate 128 cap_zero, nc_tags = replicate 128 tag_zero, nc_coos = replicate 4 coo_zero,
     nc_type = 0, nc_name = replicate 128 0, nc_com = com_empty\<rparr>"

definition nc_enableBroadcast :: "netconf \<Rightarrow> bool" where
  "nc_enableBroadcast nc \<longleftrightarrow> nc_flags nc AND 0x2 \<noteq> 0"

definition nc_ndpEmulation :: "netconf \<Rightarrow> bool" where
  "nc_ndpEmulation nc \<longleftrightarrow> nc_flags nc AND 0x4 \<noteq> 0"

definition nc_disableCompression :: "netconf \<Rightarrow> bool" where
  "nc_disableCompression nc \<longleftrightarrow> nc_flags nc AND 0x10 \<noteq> 0"

definition nc_isPublic :: "netconf \<Rightarrow> bool" where
  "nc_isPublic nc \<longleftrightarrow> nc_type nc = 1"

definition nc_isPrivate :: "netconf \<Rightarrow> bool" where
  "nc_isPrivate nc \<longleftrightarrow> nc_type nc = 0"

definition nc_valid :: "netconf \<Rightarrow> bool" where
  "nc_valid nc \<longleftrightarrow> nc_networkId nc \<noteq> 0"

section \<open>Specialists\<close>

definition ACTIVE_BRIDGE :: u64 where "ACTIVE_BRIDGE = 0x0000020000000000"

definition ANCHOR :: u64 where "ANCHOR = 0x0000040000000000"

definition MULTICAST_REPLICATOR :: u64 where "MULTICAST_REPLICATOR = 0x0000080000000000"

text \<open>\<open>Address::operator==(const uint64_t &)\<close> compares the low forty bits.\<close>

definition addr_eq_int :: "address \<Rightarrow> u64 \<Rightarrow> bool" where
  "addr_eq_int a x \<longleftrightarrow> addr_toInt a = x AND 0xffffffffff"

text \<open>The loops over the used entries: collecting, storing in an array, searching.\<close>

fun spec_collect :: "u64 \<Rightarrow> u64 list \<Rightarrow> nat \<Rightarrow> nat \<Rightarrow> address list res" where
  "spec_collect role xs 0 i = Inr []"
| "spec_collect role xs (Suc n) i =
     res_bind (rd xs i) (\<lambda>x.
     res_bind (spec_collect role xs n (i + 1)) (\<lambda>r. Inr (if x AND role \<noteq> 0 then addr_new x # r else r)))"

fun spec_store :: "u64 \<Rightarrow> u64 list \<Rightarrow> nat \<Rightarrow> nat \<Rightarrow> address list \<Rightarrow> u32 \<Rightarrow> (u32 \<times> address list) res" where
  "spec_store role xs 0 i ab c = Inr (c, ab)"
| "spec_store role xs (Suc n) i ab c =
     res_bind (rd xs i) (\<lambda>x.
     if x AND role \<noteq> 0 then
       res_bind (wr ab (unat c) (addr_new x)) (\<lambda>ab. spec_store role xs n (i + 1) ab (c + 1))
     else spec_store role xs n (i + 1) ab c)"

fun spec_search :: "u64 \<Rightarrow> address \<Rightarrow> u64 list \<Rightarrow> nat \<Rightarrow> nat \<Rightarrow> bool res" where
  "spec_search role a xs 0 i = Inr False"
| "spec_search role a xs (Suc n) i =
     res_bind (rd xs i) (\<lambda>x.
     if x AND role \<noteq> 0 \<and> addr_eq_int a x then Inr True else spec_search role a xs n (i + 1))"

definition nc_activeBridges :: "netconf \<Rightarrow> address list res" where
  "nc_activeBridges nc = spec_collect ACTIVE_BRIDGE (nc_specialists nc) (unat (nc_specialistCount nc)) 0"

definition nc_activeBridges_array :: "netconf \<Rightarrow> address list \<Rightarrow> (u32 \<times> address list) res" where
  "nc_activeBridges_array nc ab = spec_store ACTIVE_BRIDGE (nc_specialists nc) (unat (nc_specialistCount nc)) 0 ab 0"

definition nc_isActiveBridge :: "netconf \<Rightarrow> address \<Rightarrow> bool res" where
  "nc_isActiveBridge nc a = spec_search ACTIVE_BRIDGE a (nc_specialists nc) (unat (nc_specialistCount nc)) 0"

definition nc_anchors :: "netconf \<Rightarrow> address list res" where
  "nc_anchors nc = spec_collect ANCHOR (nc_specialists nc) (unat (nc_specialistCount nc)) 0"

definition nc_multicastReplicators :: "netconf \<Rightarrow> address list res" where
  "nc_multicastReplicators nc = spec_collect MULTICAST_REPLICATOR (nc_specialists nc) (unat (nc_specialistCount nc)) 0"

definition nc_multicastReplicators_array :: "netconf \<Rightarrow> address list \<Rightarrow> (u32 \<times> address list) res" where
  "nc_multicastReplicators_array nc mr =
     spec_store MULTICAST_REPLICATOR (nc_specialists nc) (unat (nc_specialistCount nc)) 0 mr 0"

definition nc_isMulticastReplicator :: "netconf \<Rightarrow> address \<Rightarrow> bool res" where
  "nc_isMulticastReplicator nc a =
     spec_search MULTICAST_REPLICATOR a (nc_specialists nc) (unat (nc_specialistCount nc)) 0"

definition nc_alwaysContactAddresses :: "netconf \<Rightarrow> address list res" where
  "nc_alwaysContactAddresses nc =
     spec_collect (ANCHOR OR MULTICAST_REPLICATOR) (nc_specialists nc) (unat (nc_specialistCount nc)) 0"

definition nc_alwaysContactAddresses_array :: "netconf \<Rightarrow> address list \<Rightarrow> (u32 \<times> address list) res" where
  "nc_alwaysContactAddresses_array nc ac =
     spec_store (ANCHOR OR MULTICAST_REPLICATOR) (nc_specialists nc) (unat (nc_specialistCount nc)) 0 ac 0"

fun spec_table ::
  "u64 \<Rightarrow> u64 list \<Rightarrow> nat \<Rightarrow> nat \<Rightarrow> bool \<Rightarrow> (address, inet list) hashtable \<Rightarrow> (address, inet list) hashtable res" where
  "spec_table role xs 0 i avail a = Inr a"
| "spec_table role xs (Suc n) i avail a =
     res_bind (rd xs i) (\<lambda>x.
     spec_table role xs n (i + 1) avail
       (if x AND role \<noteq> 0 then snd (ht_ref addr_hashCode avail [] (addr_new x) a) else a))"

definition nc_alwaysContactAddresses_table ::
  "netconf \<Rightarrow> bool \<Rightarrow> (address, inet list) hashtable \<Rightarrow> (address, inet list) hashtable res" where
  "nc_alwaysContactAddresses_table nc avail a =
     spec_table (ANCHOR OR MULTICAST_REPLICATOR) (nc_specialists nc) (unat (nc_specialistCount nc)) 0 avail a"

definition nc_permitsBridging :: "netconf \<Rightarrow> address \<Rightarrow> bool res" where
  "nc_permitsBridging nc fromPeer = spec_search ACTIVE_BRIDGE fromPeer (nc_specialists nc) (unat (nc_specialistCount nc)) 0"

fun spec_index :: "u64 \<Rightarrow> u64 list \<Rightarrow> nat \<Rightarrow> nat \<Rightarrow> nat option res" where
  "spec_index aint xs 0 i = Inr None"
| "spec_index aint xs (Suc n) i =
     res_bind (rd xs i) (\<lambda>x. if x AND 0xffffffffff = aint then Inr (Some i) else spec_index aint xs n (i + 1))"

definition nc_addSpecialist :: "address \<Rightarrow> u64 \<Rightarrow> netconf \<Rightarrow> (bool \<times> netconf) res" where
  "nc_addSpecialist a f nc =
     res_bind (spec_index (addr_toInt a) (nc_specialists nc) (unat (nc_specialistCount nc)) 0) (\<lambda>r.
     case r of
       Some i \<Rightarrow> Inr (True, nc\<lparr>nc_specialists := (nc_specialists nc)[i := nc_specialists nc ! i OR f]\<rparr>)
     | None \<Rightarrow>
         if nc_specialistCount nc < 256 then
           res_bind (wr (nc_specialists nc) (unat (nc_specialistCount nc)) (f OR addr_toInt a)) (\<lambda>xs.
           Inr (True, nc\<lparr>nc_specialists := xs, nc_specialistCount := nc_specialistCount nc + 1\<rparr>))
         else Inr (False, nc))"

section \<open>Lookup of local credentials\<close>

fun nc_find :: "('a \<Rightarrow> u32) \<Rightarrow> u32 \<Rightarrow> 'a list \<Rightarrow> nat \<Rightarrow> nat \<Rightarrow> 'a option res" where
  "nc_find idf k xs 0 i = Inr None"
| "nc_find idf k xs (Suc n) i =
     res_bind (rd xs i) (\<lambda>x. if idf x = k then Inr (Some x) else nc_find idf k xs n (i + 1))"

definition nc_capability :: "netconf \<Rightarrow> u32 \<Rightarrow> capability option res" where
  "nc_capability nc k = nc_find cap_id k (nc_capabilities nc) (unat (nc_capabilityCount nc)) 0"

definition nc_tag :: "netconf \<Rightarrow> u32 \<Rightarrow> tag option res" where
  "nc_tag nc k = nc_find tag_id k (nc_tags nc) (unat (nc_tagCount nc)) 0"

section \<open>The loops as list functions\<close>

lemma take_drop_Suc: "i < length xs \<Longrightarrow> take (Suc n) (drop i xs) = xs ! i # take n (drop (i + 1) xs)"
  by (metis Cons_nth_drop_Suc Suc_eq_plus1 take_Suc_Cons)

lemma spec_collect_eq:
  "i + n \<le> length xs \<Longrightarrow>
    spec_collect role xs n i = Inr (map addr_new (filter (\<lambda>x. x AND role \<noteq> 0) (take n (drop i xs))))"
  by (induction n arbitrary: i) (simp_all add: take_drop_Suc del: take_Suc_Cons)

lemma spec_search_eq:
  "i + n \<le> length xs \<Longrightarrow>
    spec_search role a xs n i = Inr (\<exists>x \<in> set (take n (drop i xs)). x AND role \<noteq> 0 \<and> addr_eq_int a x)"
  by (induction n arbitrary: i) (auto simp: take_drop_Suc simp del: take_Suc_Cons)

lemma spec_store_eq:
  "i + n \<le> length xs \<Longrightarrow> unat c + n \<le> length ab \<Longrightarrow> length ab < 2 ^ 32 \<Longrightarrow>
    \<exists>ab'. spec_store role xs n i ab c = Inr (c + of_nat (length (filter (\<lambda>x. x AND role \<noteq> 0) (take n (drop i xs)))), ab') \<and>
      length ab' = length ab \<and>
      take (unat c + length (filter (\<lambda>x. x AND role \<noteq> 0) (take n (drop i xs)))) ab' =
        take (unat c) ab @ map addr_new (filter (\<lambda>x. x AND role \<noteq> 0) (take n (drop i xs)))"
proof (induction n arbitrary: i c ab)
  case 0
  then show ?case by simp
next
  case (Suc n)
  have i: "i < length xs" using Suc.prems by simp
  show ?case
  proof (cases "xs ! i AND role = 0")
    case True
    with Suc.IH [of "i + 1" c ab] Suc.prems i show ?thesis by (simp add: take_drop_Suc del: take_Suc_Cons)
  next
    case False
    have c: "unat (c + 1) = unat c + 1" using Suc.prems by (subst unat_add_nowrap) simp_all
    from Suc.IH [of "i + 1" "c + 1" "ab[unat c := addr_new (xs ! i)]"] Suc.prems c obtain ab' where
      "spec_store role xs n (i + 1) (ab[unat c := addr_new (xs ! i)]) (c + 1) =
         Inr (c + 1 + of_nat (length (filter (\<lambda>x. x AND role \<noteq> 0) (take n (drop (i + 1) xs)))), ab')"
      "length ab' = length ab"
      "take (unat c + 1 + length (filter (\<lambda>x. x AND role \<noteq> 0) (take n (drop (i + 1) xs)))) ab' =
         take (unat c + 1) (ab[unat c := addr_new (xs ! i)]) @
         map addr_new (filter (\<lambda>x. x AND role \<noteq> 0) (take n (drop (i + 1) xs)))"
      by auto
    with False i Suc.prems show ?thesis
      by (simp add: take_drop_Suc take_Suc_update add.assoc del: take_Suc_Cons)
  qed
qed

lemma spec_index_eq:
  "i + n \<le> length xs \<Longrightarrow>
    (\<exists>j. spec_index aint xs n i = Inr (Some j) \<and> i \<le> j \<and> j < i + n \<and> xs ! j AND 0xffffffffff = aint) \<or>
    spec_index aint xs n i = Inr None \<and> (\<forall>j. i \<le> j \<and> j < i + n \<longrightarrow> xs ! j AND 0xffffffffff \<noteq> aint)"
proof (induction n arbitrary: i)
  case (Suc n)
  show ?case
  proof (cases "xs ! i AND 0xffffffffff = aint")
    case True
    then show ?thesis using Suc.prems by auto
  next
    case False
    from Suc.IH [of "i + 1"] Suc.prems False show ?thesis
      by (auto simp: Suc_le_eq) (metis le_neq_implies_less)
  qed
qed auto

lemma spec_table_eq:
  "i + n \<le> length xs \<Longrightarrow> ht_ok addr_hashCode h \<Longrightarrow>
    \<exists>h'. spec_table role xs n i avail h = Inr h' \<and> ht_ok addr_hashCode h' \<and>
      ht_get addr_hashCode h' = (\<lambda>k. case ht_get addr_hashCode h k of Some v \<Rightarrow> Some v
        | None \<Rightarrow> if k \<in> addr_new ` {x \<in> set (take n (drop i xs)). x AND role \<noteq> 0} then Some [] else None)"
proof (induction n arbitrary: i h)
  case 0
  then show ?case by (auto split: option.splits)
next
  case (Suc n)
  have i: "i < length xs" "i + 1 + n \<le> length xs" using Suc.prems by simp_all
  let ?x = "xs ! i"
  let ?h = "if ?x AND role \<noteq> 0 then snd (ht_ref addr_hashCode avail [] (addr_new ?x) h) else h"
  obtain d hr where hr: "ht_ref addr_hashCode avail [] (addr_new ?x) h = (d, hr)" by fastforce
  note ref = ht_ref_law [OF Suc.prems(2), where avail = avail and ?v0.0 = "[]" and k = "addr_new ?x", unfolded hr]
  have ok: "ht_ok addr_hashCode ?h" using ref Suc.prems(2) by (simp add: hr)
  have get: "ht_get addr_hashCode ?h = (\<lambda>k. case ht_get addr_hashCode h k of Some v \<Rightarrow> Some v
      | None \<Rightarrow> if k = addr_new ?x \<and> ?x AND role \<noteq> 0 then Some [] else None)"
    using ref by (auto simp: hr fun_eq_iff split: option.splits)
  from Suc.IH [OF i(2) ok] obtain h' where h': "spec_table role xs n (i + 1) avail ?h = Inr h'" "ht_ok addr_hashCode h'"
    "ht_get addr_hashCode h' = (\<lambda>k. case ht_get addr_hashCode ?h k of Some v \<Rightarrow> Some v
        | None \<Rightarrow> if k \<in> addr_new ` {x \<in> set (take n (drop (i + 1) xs)). x AND role \<noteq> 0} then Some [] else None)" by blast
  have "spec_table role xs (Suc n) i avail h = Inr h'" using h'(1) i by simp
  moreover have "ht_get addr_hashCode h' = (\<lambda>k. case ht_get addr_hashCode h k of Some v \<Rightarrow> Some v
        | None \<Rightarrow> if k \<in> addr_new ` {x \<in> set (take (Suc n) (drop i xs)). x AND role \<noteq> 0} then Some [] else None)"
    unfolding h'(3) get take_drop_Suc [OF i(1)] by (auto simp: fun_eq_iff image_iff split: option.splits)
  ultimately show ?case using h'(2) by blast
qed

section \<open>The invariant\<close>

definition nc_used :: "netconf \<Rightarrow> u64 list" where
  "nc_used nc = take (unat (nc_specialistCount nc)) (nc_specialists nc)"

text \<open>Every device has at most one entry.\<close>

definition nc_spec_ok :: "netconf \<Rightarrow> bool" where
  "nc_spec_ok nc \<longleftrightarrow> nc_specialistCount nc \<le> 256 \<and> length (nc_specialists nc) = 256 \<and>
     distinct (map (\<lambda>x. x AND 0xffffffffff) (nc_used nc))"

lemma nc_zero_spec_ok: "nc_spec_ok netconf_zero"
  by (simp add: nc_spec_ok_def netconf_zero_def nc_used_def)

lemma length_nc_used: "nc_spec_ok nc \<Longrightarrow> length (nc_used nc) = unat (nc_specialistCount nc)"
  by (simp add: nc_spec_ok_def nc_used_def word_le_nat_alt)

definition has_role :: "u64 list \<Rightarrow> u64 \<Rightarrow> address \<Rightarrow> bool" where
  "has_role xs role a \<longleftrightarrow> (\<exists>x \<in> set xs. x AND role \<noteq> 0 \<and> addr_eq_int a x)"

lemma nc_queries:
  assumes "nc_spec_ok nc"
  shows "spec_search role a (nc_specialists nc) (unat (nc_specialistCount nc)) 0 = Inr (has_role (nc_used nc) role a)"
    and "spec_collect role (nc_specialists nc) (unat (nc_specialistCount nc)) 0 =
      Inr (map addr_new (filter (\<lambda>x. x AND role \<noteq> 0) (nc_used nc)))"
  using assms by (simp_all add: spec_search_eq spec_collect_eq has_role_def nc_used_def nc_spec_ok_def word_le_nat_alt)

lemma nc_collect_role:
  assumes "addr_ok a"
  shows "a \<in> set (map addr_new (filter (\<lambda>x. x AND role \<noteq> 0) xs)) \<longleftrightarrow> has_role xs role a"
  by (cases a) (auto simp: has_role_def addr_eq_int_def addr_new_def)

lemma nc_forms:
  assumes "nc_spec_ok nc" "length ab = 256"
  shows "\<exists>bs ab'. spec_collect role (nc_specialists nc) (unat (nc_specialistCount nc)) 0 = Inr bs \<and>
    spec_store role (nc_specialists nc) (unat (nc_specialistCount nc)) 0 ab 0 = Inr (of_nat (length bs), ab') \<and>
    take (length bs) ab' = bs \<and> set bs = addr_new ` {x \<in> set (nc_used nc). x AND role \<noteq> 0} \<and>
    (\<forall>b. addr_ok b \<longrightarrow> (b \<in> set bs \<longleftrightarrow> has_role (nc_used nc) role b))"
proof -
  let ?bs = "map addr_new (filter (\<lambda>x. x AND role \<noteq> 0) (nc_used nc))"
  have n: "unat (nc_specialistCount nc) \<le> 256" "length (nc_specialists nc) = 256"
    using assms(1) by (simp_all add: nc_spec_ok_def word_le_nat_alt)
  obtain ab' where "spec_store role (nc_specialists nc) (unat (nc_specialistCount nc)) 0 ab 0 = Inr (of_nat (length ?bs), ab')"
    "take (length ?bs) ab' = ?bs"
    using spec_store_eq [of 0 "unat (nc_specialistCount nc)" "nc_specialists nc" 0 ab role] n assms(2)
    by (auto simp: nc_used_def)
  moreover have "set ?bs = addr_new ` {x \<in> set (nc_used nc). x AND role \<noteq> 0}" by simp
  ultimately show ?thesis using nc_queries(2) [OF assms(1), of role] nc_collect_role by blast
qed

lemma has_role_or: "has_role xs (r OR s) b \<longleftrightarrow> has_role xs r b \<or> has_role xs s b"
  by (auto simp: has_role_def bit.conj_disj_distrib or_eq_0_iff)

text \<open>Roles are flags above the address, so that merging flags never touches it.\<close>

lemma or_flags:
  fixes x f role :: u64
  assumes "f AND 0xffffffffff = 0"
  shows "(x OR f) AND 0xffffffffff = x AND 0xffffffffff"
    and "(x OR f) AND role \<noteq> 0 \<longleftrightarrow> x AND role \<noteq> 0 \<or> f AND role \<noteq> 0"
  using assms by (simp_all add: bit.conj_disj_distrib2 or_eq_0_iff)

lemma map_update_same: "f v = f (xs ! i) \<Longrightarrow> map f (xs[i := v]) = map f xs"
  by (metis list_update_id map_update)

lemma ex_nth_split: "j < length xs \<Longrightarrow> (\<exists>x \<in> set xs. Q x) \<longleftrightarrow> Q (xs ! j) \<or> (\<exists>i < length xs. i \<noteq> j \<and> Q (xs ! i))"
  by (metis in_set_conv_nth)

lemma has_role_split:
  "j < length xs \<Longrightarrow> has_role xs role b \<longleftrightarrow>
     (xs ! j AND role \<noteq> 0 \<and> addr_eq_int b (xs ! j)) \<or> (\<exists>i < length xs. i \<noteq> j \<and> xs ! i AND role \<noteq> 0 \<and> addr_eq_int b (xs ! i))"
  unfolding has_role_def by (rule ex_nth_split)

lemma has_role_update:
  "j < length xs \<Longrightarrow> has_role (xs[j := v]) role b \<longleftrightarrow>
     (v AND role \<noteq> 0 \<and> addr_eq_int b v) \<or> (\<exists>i < length xs. i \<noteq> j \<and> xs ! i AND role \<noteq> 0 \<and> addr_eq_int b (xs ! i))"
  by (subst has_role_split [of j]) (simp_all cong: conj_cong)

lemma nc_add_used:
  assumes ok: "nc_spec_ok nc" and a: "addr_ok a" and f: "f AND 0xffffffffff = 0"
  shows "\<exists>r nc'. nc_addSpecialist a f nc = Inr (r, nc') \<and> nc_spec_ok nc' \<and>
    (if r then \<forall>role b. role AND 0xffffffffff = 0 \<longrightarrow>
        has_role (nc_used nc') role b = (b = a \<and> f AND role \<noteq> 0 \<or> has_role (nc_used nc) role b)
     else nc' = nc \<and> nc_specialistCount nc = 256 \<and> (\<forall>x \<in> set (nc_used nc). \<not> addr_eq_int a x))"
proof -
  let ?xs = "nc_specialists nc" and ?n = "unat (nc_specialistCount nc)"
  have n: "?n \<le> 256" "length ?xs = 256" using ok by (simp_all add: nc_spec_ok_def word_le_nat_alt)
  have am: "addr_toInt a AND 0xffffffffff = addr_toInt a" using a by (simp add: addr_ok_take and_mask40)
  from spec_index_eq [of 0 ?n ?xs "addr_toInt a"] n
  consider (found) j where "spec_index (addr_toInt a) ?xs ?n 0 = Inr (Some j)" "j < ?n" "?xs ! j AND 0xffffffffff = addr_toInt a"
    | (absent) "spec_index (addr_toInt a) ?xs ?n 0 = Inr None" "\<forall>j < ?n. ?xs ! j AND 0xffffffffff \<noteq> addr_toInt a"
    by auto
  then show ?thesis
  proof cases
    case found
    let ?v = "?xs ! j OR f"
    let ?nc = "nc\<lparr>nc_specialists := ?xs[j := ?v]\<rparr>"
    have u: "nc_used ?nc = (nc_used nc)[j := ?v]" "j < length (nc_used nc)" "nc_used nc ! j = ?xs ! j"
      using found(2) n by (simp_all add: nc_used_def take_update_swap)
    have ok': "nc_spec_ok ?nc"
      using ok u(2,3) or_flags(1) [OF f] unfolding nc_spec_ok_def u(1) by (simp add: map_update_same)
    have role: "has_role (nc_used ?nc) role b = (b = a \<and> f AND role \<noteq> 0 \<or> has_role (nc_used nc) role b)" for role b
    proof -
      have e: "addr_eq_int b ?v \<longleftrightarrow> b = a" "addr_eq_int b (?xs ! j) \<longleftrightarrow> b = a"
        using found(3) or_flags(1) [OF f, of "?xs ! j"] by (auto simp: addr_eq_int_def intro: address.expand)
      show ?thesis
        unfolding u(1) has_role_update [OF u(2)] has_role_split [OF u(2)] u(3) e or_flags(2) [OF f] by blast
    qed
    have add: "nc_addSpecialist a f nc = Inr (True, ?nc)" using found(1) by (simp add: nc_addSpecialist_def)
    show ?thesis by (intro exI [of _ True] exI [of _ ?nc]) (simp add: add ok' role)
  next
    case absent
    have ab: "\<forall>x \<in> set (nc_used nc). x AND 0xffffffffff \<noteq> addr_toInt a"
      using absent(2) n by (auto simp: nc_used_def in_set_conv_nth)
    show ?thesis
    proof (cases "nc_specialistCount nc < 256")
      case False
      then have "nc_specialistCount nc = 256" using ok by (simp add: nc_spec_ok_def)
      with absent(1) ok ab show ?thesis
        by (intro exI [of _ False] exI [of _ nc]) (auto simp: nc_addSpecialist_def addr_eq_int_def)
    next
      case True
      let ?v = "f OR addr_toInt a"
      let ?nc = "nc\<lparr>nc_specialists := ?xs[?n := ?v], nc_specialistCount := nc_specialistCount nc + 1\<rparr>"
      have lt: "?n < 256" "unat (nc_specialistCount nc + 1) = ?n + 1"
        using True by (simp_all add: word_less_nat_alt) (subst unat_add_nowrap; simp)
      have add: "nc_addSpecialist a f nc = Inr (True, ?nc)"
        using absent(1) True lt n by (simp add: nc_addSpecialist_def)
      have u: "nc_used ?nc = nc_used nc @ [?v]" using lt n by (simp add: nc_used_def take_Suc_update)
      have v: "?v AND 0xffffffffff = addr_toInt a" using f am by (simp add: bit.conj_disj_distrib2)
      have ok': "nc_spec_ok ?nc"
        using ok ab v lt unfolding nc_spec_ok_def u by (auto simp: word_le_nat_alt)
      have role: "has_role (nc_used ?nc) role b = (b = a \<and> f AND role \<noteq> 0 \<or> has_role (nc_used nc) role b)"
        if "role AND 0xffffffffff = 0" for role b
      proof -
        have "(addr_toInt a AND 0xffffffffff) AND role = addr_toInt a AND (role AND 0xffffffffff)"
          by (simp only: ac_simps)
        then have "addr_toInt a AND role = 0" unfolding am that by simp
        then have "?v AND role \<noteq> 0 \<longleftrightarrow> f AND role \<noteq> 0" by (simp add: bit.conj_disj_distrib2)
        moreover have "addr_eq_int b ?v \<longleftrightarrow> b = a" using v by (auto simp: addr_eq_int_def intro: address.expand)
        ultimately show ?thesis unfolding u by (auto simp: has_role_def)
      qed
      show ?thesis by (intro exI [of _ True] exI [of _ ?nc]) (simp add: add ok' role)
    qed
  qed
qed

section \<open>Property\<close>

lemma role_bits:
  "ACTIVE_BRIDGE AND 0xffffffffff = 0" "ANCHOR AND 0xffffffffff = 0" "MULTICAST_REPLICATOR AND 0xffffffffff = 0"
  by (simp_all add: ACTIVE_BRIDGE_def ANCHOR_def MULTICAST_REPLICATOR_def)

lemma nc_query_forms:
  assumes ok: "nc_spec_ok nc" and b: "addr_ok b" and ab: "length ab = 256" and h: "ht_ok addr_hashCode h"
  shows "\<exists>br an mr ac br' mr' ac' h'.
    nc_activeBridges nc = Inr br \<and> nc_anchors nc = Inr an \<and> nc_multicastReplicators nc = Inr mr \<and>
    nc_alwaysContactAddresses nc = Inr ac \<and>
    nc_isActiveBridge nc b = Inr (b \<in> set br) \<and> nc_permitsBridging nc b = Inr (b \<in> set br) \<and>
    nc_isMulticastReplicator nc b = Inr (b \<in> set mr) \<and> (b \<in> set ac \<longleftrightarrow> b \<in> set an \<or> b \<in> set mr) \<and>
    nc_activeBridges_array nc ab = Inr (of_nat (length br), br') \<and> take (length br) br' = br \<and>
    nc_multicastReplicators_array nc ab = Inr (of_nat (length mr), mr') \<and> take (length mr) mr' = mr \<and>
    nc_alwaysContactAddresses_array nc ab = Inr (of_nat (length ac), ac') \<and> take (length ac) ac' = ac \<and>
    nc_alwaysContactAddresses_table nc avail h = Inr h' \<and>
    ht_get addr_hashCode h' = (\<lambda>k. case ht_get addr_hashCode h k of Some v \<Rightarrow> Some v
      | None \<Rightarrow> if k \<in> set ac then Some [] else None)"
proof -
  note forms = nc_forms [OF ok ab]
  obtain br br' where br: "nc_activeBridges nc = Inr br" "nc_activeBridges_array nc ab = Inr (of_nat (length br), br')"
    "take (length br) br' = br" "b \<in> set br \<longleftrightarrow> has_role (nc_used nc) ACTIVE_BRIDGE b"
    using forms [of ACTIVE_BRIDGE] b unfolding nc_activeBridges_def nc_activeBridges_array_def by blast
  obtain mr mr' where mr: "nc_multicastReplicators nc = Inr mr" "nc_multicastReplicators_array nc ab = Inr (of_nat (length mr), mr')"
    "take (length mr) mr' = mr" "b \<in> set mr \<longleftrightarrow> has_role (nc_used nc) MULTICAST_REPLICATOR b"
    using forms [of MULTICAST_REPLICATOR] b unfolding nc_multicastReplicators_def nc_multicastReplicators_array_def by blast
  obtain ac ac' where ac: "nc_alwaysContactAddresses nc = Inr ac" "nc_alwaysContactAddresses_array nc ab = Inr (of_nat (length ac), ac')"
    "take (length ac) ac' = ac" "set ac = addr_new ` {x \<in> set (nc_used nc). x AND (ANCHOR OR MULTICAST_REPLICATOR) \<noteq> 0}"
    "b \<in> set ac \<longleftrightarrow> has_role (nc_used nc) ANCHOR b \<or> has_role (nc_used nc) MULTICAST_REPLICATOR b"
    using forms [of "ANCHOR OR MULTICAST_REPLICATOR"] b
    unfolding nc_alwaysContactAddresses_def nc_alwaysContactAddresses_array_def has_role_or by blast
  obtain an where an: "nc_anchors nc = Inr an" "b \<in> set an \<longleftrightarrow> has_role (nc_used nc) ANCHOR b"
    using forms [of ANCHOR] b unfolding nc_anchors_def by blast
  have n: "0 + unat (nc_specialistCount nc) \<le> length (nc_specialists nc)"
    using ok by (simp add: nc_spec_ok_def word_le_nat_alt)
  obtain h' where h': "nc_alwaysContactAddresses_table nc avail h = Inr h'"
    "ht_get addr_hashCode h' = (\<lambda>k. case ht_get addr_hashCode h k of Some v \<Rightarrow> Some v
      | None \<Rightarrow> if k \<in> set ac then Some [] else None)"
    using spec_table_eq [OF n h, of "ANCHOR OR MULTICAST_REPLICATOR" avail, unfolded drop_0]
    unfolding nc_alwaysContactAddresses_table_def ac(4) nc_used_def by blast
  have "nc_isActiveBridge nc b = Inr (b \<in> set br)" "nc_permitsBridging nc b = Inr (b \<in> set br)"
    "nc_isMulticastReplicator nc b = Inr (b \<in> set mr)" "b \<in> set ac \<longleftrightarrow> b \<in> set an \<or> b \<in> set mr"
    using nc_queries(1) [OF ok] br(4) mr(4) ac(5) an(2)
    by (simp_all add: nc_isActiveBridge_def nc_permitsBridging_def nc_isMulticastReplicator_def)
  then show ?thesis using br(1-3) mr(1-3) ac(1-3) an(1) h' by blast
qed

lemma nc_add_roles:
  assumes ok: "nc_spec_ok nc" and a: "addr_ok a" and b: "addr_ok b" and f: "f AND 0xffffffffff = 0"
  shows "\<exists>r nc'. nc_addSpecialist a f nc = Inr (r, nc') \<and> nc_spec_ok nc' \<and>
    (if r then
       nc_isActiveBridge nc' b = Inr (b = a \<and> f AND ACTIVE_BRIDGE \<noteq> 0 \<or> nc_isActiveBridge nc b = Inr True) \<and>
       nc_isMulticastReplicator nc' b =
         Inr (b = a \<and> f AND MULTICAST_REPLICATOR \<noteq> 0 \<or> nc_isMulticastReplicator nc b = Inr True) \<and>
       (\<exists>an an'. nc_anchors nc = Inr an \<and> nc_anchors nc' = Inr an' \<and>
          (b \<in> set an' \<longleftrightarrow> b = a \<and> f AND ANCHOR \<noteq> 0 \<or> b \<in> set an))
     else nc' = nc \<and> nc_specialistCount nc = 256 \<and> (\<forall>x \<in> set (nc_specialists nc). \<not> addr_eq_int a x))"
proof -
  obtain r nc' where add: "nc_addSpecialist a f nc = Inr (r, nc')" "nc_spec_ok nc'"
    "if r then \<forall>role b. role AND 0xffffffffff = 0 \<longrightarrow>
        has_role (nc_used nc') role b = (b = a \<and> f AND role \<noteq> 0 \<or> has_role (nc_used nc) role b)
     else nc' = nc \<and> nc_specialistCount nc = 256 \<and> (\<forall>x \<in> set (nc_used nc). \<not> addr_eq_int a x)"
    using nc_add_used [OF ok a f] by blast
  have full: "nc_used nc = nc_specialists nc" if "nc_specialistCount nc = 256"
    using that ok by (simp add: nc_used_def nc_spec_ok_def)
  have an: "\<exists>an. nc_anchors c = Inr an \<and> (b \<in> set an \<longleftrightarrow> has_role (nc_used c) ANCHOR b)" if "nc_spec_ok c" for c
    using nc_queries(2) [OF that, of ANCHOR] nc_collect_role [OF b, of ANCHOR] unfolding nc_anchors_def by blast
  from an [OF ok] an [OF add(2)] add role_bits full show ?thesis
    by (auto simp: nc_isActiveBridge_def nc_isMulticastReplicator_def nc_queries(1) [OF ok] nc_queries(1) [OF add(2)]
        split: if_splits)
qed

text \<open>
  C25. \<open>addSpecialist\<close> keeps one entry per device and gives a device exactly the roles asked for
  (active bridge, anchor, multicast replicator), on top of those it had, and no other device any
  role; it returns false, changing nothing, only when the table is full and does not have the device.
  The forms of a query agree: the searches \<open>isActiveBridge\<close>, \<open>permitsBridging\<close> and
  \<open>isMulticastReplicator\<close> find the members of the lists, the arrays hold the lists, the addresses to
  contact always are the anchors and the multicast replicators, and the hash table form adds an empty
  entry for each of them that has none.
\<close>

theorem nc_specialist_roles:
  assumes "nc_spec_ok nc" "addr_ok a" "addr_ok b" "f AND 0xffffffffff = 0" "length ab = 256" "ht_ok addr_hashCode h"
  shows "(\<exists>r nc'. nc_addSpecialist a f nc = Inr (r, nc') \<and> nc_spec_ok nc' \<and>
    (if r then
       nc_isActiveBridge nc' b = Inr (b = a \<and> f AND ACTIVE_BRIDGE \<noteq> 0 \<or> nc_isActiveBridge nc b = Inr True) \<and>
       nc_isMulticastReplicator nc' b =
         Inr (b = a \<and> f AND MULTICAST_REPLICATOR \<noteq> 0 \<or> nc_isMulticastReplicator nc b = Inr True) \<and>
       (\<exists>an an'. nc_anchors nc = Inr an \<and> nc_anchors nc' = Inr an' \<and>
          (b \<in> set an' \<longleftrightarrow> b = a \<and> f AND ANCHOR \<noteq> 0 \<or> b \<in> set an))
     else nc' = nc \<and> nc_specialistCount nc = 256 \<and> (\<forall>x \<in> set (nc_specialists nc). \<not> addr_eq_int a x))) \<and>
   (\<exists>br an mr ac br' mr' ac' h'.
    nc_activeBridges nc = Inr br \<and> nc_anchors nc = Inr an \<and> nc_multicastReplicators nc = Inr mr \<and>
    nc_alwaysContactAddresses nc = Inr ac \<and>
    nc_isActiveBridge nc b = Inr (b \<in> set br) \<and> nc_permitsBridging nc b = Inr (b \<in> set br) \<and>
    nc_isMulticastReplicator nc b = Inr (b \<in> set mr) \<and> (b \<in> set ac \<longleftrightarrow> b \<in> set an \<or> b \<in> set mr) \<and>
    nc_activeBridges_array nc ab = Inr (of_nat (length br), br') \<and> take (length br) br' = br \<and>
    nc_multicastReplicators_array nc ab = Inr (of_nat (length mr), mr') \<and> take (length mr) mr' = mr \<and>
    nc_alwaysContactAddresses_array nc ab = Inr (of_nat (length ac), ac') \<and> take (length ac) ac' = ac \<and>
    nc_alwaysContactAddresses_table nc avail h = Inr h' \<and>
    ht_get addr_hashCode h' = (\<lambda>k. case ht_get addr_hashCode h k of Some v \<Rightarrow> Some v
      | None \<Rightarrow> if k \<in> set ac then Some [] else None))"
  using nc_add_roles [OF assms(1-4)] nc_query_forms [OF assms(1,3,5,6), of avail] by (rule conjI)

theorem nc_specialist_roles_witness:
  "\<exists>nc' an. nc_addSpecialist (Address 0x1122334455) (ACTIVE_BRIDGE OR ANCHOR) netconf_zero = Inr (True, nc') \<and>
     nc_isActiveBridge nc' (Address 0x1122334455) = Inr True \<and>
     nc_isMulticastReplicator nc' (Address 0x1122334455) = Inr False \<and>
     nc_anchors nc' = Inr an \<and> Address 0x1122334455 \<in> set an"
proof -
  let ?a = "Address 0x1122334455" and ?f = "ACTIVE_BRIDGE OR ANCHOR"
  obtain h :: "(address, inet list) hashtable" where h: "ht_new True 4 = Inr h"
    by (auto simp: ht_new_def malloc_ok_def)
  have "ht_ok addr_hashCode h" using ht_new_ok [OF h, where hc = addr_hashCode] by simp
  moreover have "?f AND 0xffffffffff = 0" "?f AND ACTIVE_BRIDGE \<noteq> 0" "?f AND ANCHOR \<noteq> 0" "?f AND MULTICAST_REPLICATOR = 0"
    by (simp_all add: ACTIVE_BRIDGE_def ANCHOR_def MULTICAST_REPLICATOR_def)
  moreover have "nc_specialistCount netconf_zero = 0" "nc_isMulticastReplicator netconf_zero ?a = Inr False"
    by (simp_all add: netconf_zero_def nc_isMulticastReplicator_def)
  ultimately show ?thesis
    using nc_specialist_roles [OF nc_zero_spec_ok, of ?a ?a ?f "replicate 256 (Address 0)" h True]
    by (auto simp: addr_ok_def split: if_splits)
qed

end
