(* ===== verification/Zt_Membership.thy ===== *)
theory Zt_Membership
  imports Network_Config
begin

text \<open>
  What a node knows about another member of a network (node/Membership.hpp, node/Membership.cpp):
  its certificate of membership, its tags, capabilities and certificates of ownership, and the
  revocations received.  The four hash tables are those of \<open>Zt_Hashtable\<close>.  The environment of a
  check, the signature scheme, the identities that the topology knows, the stack memory under a
  local buffer and whether an allocation succeeds, is the record \<open>env\<close>.
\<close>

section \<open>The code\<close>

record env =
  e_crypto :: crypto
  e_known :: "address \<Rightarrow> identity"
  e_mem :: bytes
  e_alloc :: bool

datatype add_result = ADD_REJECTED | ADD_ACCEPTED_NEW | ADD_ACCEPTED_REDUNDANT | ADD_DEFERRED_FOR_WHOIS

record membership =
  m_lastUpdatedMulticast :: u64
  m_lastPushedCom :: u64
  m_comRevocationThreshold :: u64
  m_com :: com
  m_revocations :: "(u64, u64) hashtable"
  m_remoteTags :: "(u32, tag) hashtable"
  m_remoteCaps :: "(u32, capability) hashtable"
  m_remoteCoos :: "(u32, coo) hashtable"
  m_pushedTag :: "u64 list"
  m_pushedCap :: "u64 list"
  m_pushedCoo :: "u64 list"

definition mem_resetPushState :: "membership \<Rightarrow> membership" where
  "mem_resetPushState m = m\<lparr>m_lastPushedCom := 0, m_pushedTag := replicate 128 0, m_pushedCap := replicate 128 0,
     m_pushedCoo := replicate 4 0\<rparr>"

definition mem_new :: "bool \<Rightarrow> membership res" where
  "mem_new alloc =
     res_bind (ht_new alloc 4) (\<lambda>rv.
     res_bind (ht_new alloc 4) (\<lambda>tg.
     res_bind (ht_new alloc 4) (\<lambda>cp.
     res_bind (ht_new alloc 4) (\<lambda>co.
     Inr (mem_resetPushState \<lparr>m_lastUpdatedMulticast = 0, m_lastPushedCom = 0, m_comRevocationThreshold = 0,
       m_com = com_empty, m_revocations = rv, m_remoteTags = tg, m_remoteCaps = cp, m_remoteCoos = co,
       m_pushedTag = [], m_pushedCap = [], m_pushedCoo = []\<rparr>)))))"

definition mem_multicastLikeGate :: "u64 \<Rightarrow> membership \<Rightarrow> (bool \<times> membership) res" where
  "mem_multicastLikeGate now m =
     res_bind (i64_sub now (m_lastUpdatedMulticast m)) (\<lambda>d.
     if sint d \<ge> 120000 then Inr (True, m\<lparr>m_lastUpdatedMulticast := now\<rparr>) else Inr (False, m))"

definition mem_isAllowedOnNetwork :: "netconf \<Rightarrow> membership \<Rightarrow> bool res" where
  "mem_isAllowedOnNetwork nc m =
     (if nc_isPublic nc then Inr True
      else res_bind (com_timestamp (m_com m)) (\<lambda>ts.
        if sint ts \<le> sint (m_comRevocationThreshold m) then Inr False
        else com_agreesWith (nc_com nc) (m_com m)))"

definition mem_recentlyAssociated :: "u64 \<Rightarrow> membership \<Rightarrow> bool res" where
  "mem_recentlyAssociated now m =
     (if com_valid (m_com m) then
        res_bind (com_timestamp (m_com m)) (\<lambda>ts. res_bind (i64_sub now ts) (\<lambda>d. Inr (sint d < 500000)))
      else Inr False)"

definition credentialKey :: "credential_type \<Rightarrow> u32 \<Rightarrow> u64" where
  "credentialKey t i = push_bit 32 (ucast (credential_code t)) OR ucast i"

definition isCredentialTimestampValid ::
  "(u64, u64) hashtable \<Rightarrow> netconf \<Rightarrow> credential_type \<Rightarrow> u32 \<Rightarrow> u64 \<Rightarrow> bool res" where
  "isCredentialTimestampValid revs nc t i ts =
     res_bind (if sint ts \<ge> sint (nc_timestamp nc) then i64_sub ts (nc_timestamp nc) else i64_sub (nc_timestamp nc) ts) (\<lambda>d.
     Inr (if sint d \<le> sint (nc_credentialTimeMaxDelta nc) then
            case ht_get hc_u64 revs (credentialKey t i) of None \<Rightarrow> True | Some threshold \<Rightarrow> sint ts > sint threshold
          else False))"

definition tag_current :: "membership \<Rightarrow> netconf \<Rightarrow> tag \<Rightarrow> bool res" where
  "tag_current m nc t = isCredentialTimestampValid (m_revocations m) nc CredTag (tag_id t) (tag_ts t)"

definition cap_current :: "membership \<Rightarrow> netconf \<Rightarrow> capability \<Rightarrow> bool res" where
  "cap_current m nc c = isCredentialTimestampValid (m_revocations m) nc CredCapability (cap_id c) (cap_ts c)"

definition coo_current :: "membership \<Rightarrow> netconf \<Rightarrow> coo \<Rightarrow> bool res" where
  "coo_current m nc c = isCredentialTimestampValid (m_revocations m) nc CredCoo (coo_id c) (coo_ts c)"

definition mem_getTag :: "netconf \<Rightarrow> u32 \<Rightarrow> membership \<Rightarrow> tag option res" where
  "mem_getTag nc i m =
     (case ht_get hc_u32 (m_remoteTags m) i of
        None \<Rightarrow> Inr None
      | Some t \<Rightarrow> res_bind (tag_current m nc t) (\<lambda>v. Inr (if v then Some t else None)))"

text \<open>The entries in the order in which the table's iterator returns them.\<close>

definition ht_sequence :: "('k, 'v) hashtable \<Rightarrow> ('k \<times> 'v) list" where
  "ht_sequence h = ht_collect h (length (concat (ht_t h))) (ht_iterator h)"

fun coo_search :: "(coo \<Rightarrow> bool res) \<Rightarrow> (coo \<Rightarrow> bool res) \<Rightarrow> (u32 \<times> coo) list \<Rightarrow> bool res" where
  "coo_search valid owns [] = Inr False"
| "coo_search valid owns ((k, v) # es) =
     res_bind (valid v) (\<lambda>ok.
     if ok then res_bind (owns v) (\<lambda>ow. if ow then Inr True else coo_search valid owns es)
     else coo_search valid owns es)"

definition mem_hasCertificateOfOwnershipFor_inet :: "netconf \<Rightarrow> inet \<Rightarrow> membership \<Rightarrow> bool res" where
  "mem_hasCertificateOfOwnershipFor_inet nc r m =
     coo_search (coo_current m nc) (\<lambda>c. coo_owns_inet c r) (ht_sequence (m_remoteCoos m))"

definition mem_hasCertificateOfOwnershipFor_mac :: "netconf \<Rightarrow> mac \<Rightarrow> membership \<Rightarrow> bool res" where
  "mem_hasCertificateOfOwnershipFor_mac nc r m =
     coo_search (coo_current m nc) (\<lambda>c. coo_owns_mac c r) (ht_sequence (m_remoteCoos m))"

text \<open>\<open>CapabilityIterator::next\<close>: the next capability that is valid, with the entries behind it.\<close>

fun mem_cap_next :: "(capability \<Rightarrow> bool res) \<Rightarrow> (u32 \<times> capability) list \<Rightarrow> (capability \<times> (u32 \<times> capability) list) option res" where
  "mem_cap_next valid [] = Inr None"
| "mem_cap_next valid ((k, v) # es) =
     res_bind (valid v) (\<lambda>ok. if ok then Inr (Some (v, es)) else mem_cap_next valid es)"

subsection \<open>Adding credentials\<close>

definition mem_addCredential_com :: "env \<Rightarrow> com \<Rightarrow> membership \<Rightarrow> (add_result \<times> membership \<times> address list) res" where
  "mem_addCredential_com e c m =
     res_bind (com_timestamp c) (\<lambda>newts.
     if sint newts \<le> sint (m_comRevocationThreshold m) then Inr (ADD_REJECTED, m, [])
     else res_bind (com_timestamp (m_com m)) (\<lambda>oldts.
       if sint newts < sint oldts then Inr (ADD_REJECTED, m, [])
       else res_bind (if newts = oldts then com_eq (m_com m) c else Inr False) (\<lambda>same.
         if same then Inr (ADD_ACCEPTED_REDUNDANT, m, [])
         else res_bind (com_verify (e_crypto e) (e_known e) c) (\<lambda>(r, ws).
           Inr (if r = 0 then (ADD_ACCEPTED_NEW, m\<lparr>m_com := c\<rparr>, ws)
                else if r = 1 then (ADD_DEFERRED_FOR_WHOIS, m, ws)
                else (ADD_REJECTED, m, ws))))))"

text \<open>
  \<open>_addCredImpl\<close> over the credential class: its id, its timestamp, its verification and its
  default value.  \<open>operator==\<close> of the three classes compares the raw memory of two objects.  The
  constructors zero an object before its fields are set, so that bytes no field uses are zero, and the
  model compares the fields.  (Were such bytes to differ nevertheless, the code would verify the
  credential again and store it over its equal, answering new instead of redundant.)
\<close>

definition addCredImpl ::
  "('c \<Rightarrow> u32) \<Rightarrow> ('c \<Rightarrow> u64) \<Rightarrow> ('c \<Rightarrow> (int \<times> address list) res) \<Rightarrow> 'c \<Rightarrow> credential_type \<Rightarrow> bool \<Rightarrow>
    (u32, 'c) hashtable \<Rightarrow> (u64, u64) hashtable \<Rightarrow> 'c \<Rightarrow> (add_result \<times> (u32, 'c) hashtable \<times> address list) res" where
  "addCredImpl idf tsf verify dflt ty alloc creds revs c =
     (let rc = ht_get hc_u32 creds (idf c) in
      if (case rc of None \<Rightarrow> False | Some r \<Rightarrow> sint (tsf r) > sint (tsf c)) then Inr (ADD_REJECTED, creds, [])
      else if rc = Some c then Inr (ADD_ACCEPTED_REDUNDANT, creds, [])
      else if (case ht_get hc_u64 revs (credentialKey ty (idf c)) of None \<Rightarrow> False | Some rt \<Rightarrow> sint rt \<ge> sint (tsf c))
      then Inr (ADD_REJECTED, creds, [])
      else res_bind (verify c) (\<lambda>(r, ws).
        Inr (if r = 0 then
               let creds1 = (if rc = None then snd (ht_ref hc_u32 alloc dflt (idf c) creds) else creds)
               in (ADD_ACCEPTED_NEW, ht_set hc_u32 alloc (idf c) c creds1, ws)
             else if r = 1 then (ADD_DEFERRED_FOR_WHOIS, creds, ws)
             else (ADD_REJECTED, creds, ws))))"

definition mem_addCredential_tag :: "env \<Rightarrow> tag \<Rightarrow> membership \<Rightarrow> (add_result \<times> membership \<times> address list) res" where
  "mem_addCredential_tag e t m =
     res_bind (addCredImpl tag_id tag_ts (tag_verify (e_crypto e) (e_known e) (e_mem e)) tag_zero CredTag (e_alloc e)
       (m_remoteTags m) (m_revocations m) t) (\<lambda>(r, h, ws). Inr (r, m\<lparr>m_remoteTags := h\<rparr>, ws))"

definition mem_addCredential_cap :: "env \<Rightarrow> capability \<Rightarrow> membership \<Rightarrow> (add_result \<times> membership \<times> address list) res" where
  "mem_addCredential_cap e c m =
     res_bind (addCredImpl cap_id cap_ts (cap_verify (e_crypto e) (e_known e) (e_mem e)) cap_zero CredCapability (e_alloc e)
       (m_remoteCaps m) (m_revocations m) c) (\<lambda>(r, h, ws). Inr (r, m\<lparr>m_remoteCaps := h\<rparr>, ws))"

definition mem_addCredential_coo :: "env \<Rightarrow> coo \<Rightarrow> membership \<Rightarrow> (add_result \<times> membership \<times> address list) res" where
  "mem_addCredential_coo e c m =
     res_bind (addCredImpl coo_id coo_ts (coo_verify (e_crypto e) (e_known e) (e_mem e)) coo_zero CredCoo (e_alloc e)
       (m_remoteCoos m) (m_revocations m) c) (\<lambda>(r, h, ws). Inr (r, m\<lparr>m_remoteCoos := h\<rparr>, ws))"

text \<open>The credential types that a revocation can name.\<close>

definition rev_target_type :: "u8 \<Rightarrow> credential_type option" where
  "rev_target_type t =
     (if t = 1 then Some CredCom else if t = 2 then Some CredCapability else if t = 3 then Some CredTag
      else if t = 4 then Some CredCoo else None)"

definition mem_revoke :: "env \<Rightarrow> credential_type \<Rightarrow> revocation \<Rightarrow> membership \<Rightarrow> add_result \<times> membership" where
  "mem_revoke e ct r m =
     (let key = credentialKey ct (rev_credentialId r);
          (rt, revs) = ht_ref hc_u64 (e_alloc e) 0 key (m_revocations m) in
      if sint rt < sint (rev_threshold r) then
        (ADD_ACCEPTED_NEW, m\<lparr>m_revocations := ht_set hc_u64 (e_alloc e) key (rev_threshold r) revs,
           m_comRevocationThreshold := rev_threshold r\<rparr>)
      else (ADD_ACCEPTED_REDUNDANT, m\<lparr>m_revocations := revs\<rparr>))"

definition mem_addCredential_rev :: "env \<Rightarrow> revocation \<Rightarrow> membership \<Rightarrow> (add_result \<times> membership \<times> address list) res" where
  "mem_addCredential_rev e r m =
     res_bind (rev_verify (e_crypto e) (e_known e) (e_mem e) r) (\<lambda>(v, ws).
     Inr (if v = 0 then
            case rev_target_type (rev_type r) of
              Some CredCom \<Rightarrow>
                if sint (rev_threshold r) > sint (m_comRevocationThreshold m)
                then (ADD_ACCEPTED_NEW, m\<lparr>m_comRevocationThreshold := rev_threshold r\<rparr>, ws)
                else (ADD_ACCEPTED_REDUNDANT, m, ws)
            | Some ct \<Rightarrow> let (res, m') = mem_revoke e ct r m in (res, m', ws)
            | None \<Rightarrow> (ADD_REJECTED, m, ws)
          else if v = 1 then (ADD_DEFERRED_FOR_WHOIS, m, ws)
          else (ADD_REJECTED, m, ws)))"

subsection \<open>Cleaning\<close>

text \<open>
  The iterator has moved on before its entry is erased.  \<open>None\<close> is a loop that has not ended within
  \<open>n\<close> steps; \<open>cleanCredImpl\<close> allows one step more than the table has entries, and \<open>cleanCredImpl_law\<close>
  shows that it then ends.
\<close>

fun clean_loop ::
  "('v \<Rightarrow> bool res) \<Rightarrow> nat \<Rightarrow> (u32, 'v) hashtable \<Rightarrow> (u32, 'v) ht_iter \<Rightarrow> (u32, 'v) hashtable res option" where
  "clean_loop valid 0 h it = None"
| "clean_loop valid (Suc n) h it =
     (case ht_next h it of
        None \<Rightarrow> Some (Inr h)
      | Some ((k, v), it') \<Rightarrow>
          (case valid v of
             Inl e \<Rightarrow> Some (Inl e)
           | Inr ok \<Rightarrow> clean_loop valid n (if ok then h else snd (ht_erase hc_u32 k h)) it'))"

definition cleanCredImpl :: "('v \<Rightarrow> bool res) \<Rightarrow> (u32, 'v) hashtable \<Rightarrow> (u32, 'v) hashtable res option" where
  "cleanCredImpl valid h = clean_loop valid (length (concat (ht_t h)) + 1) h (ht_iterator h)"

definition opt_bind :: "'a res option \<Rightarrow> ('a \<Rightarrow> 'b res option) \<Rightarrow> 'b res option" where
  "opt_bind x f = (case x of None \<Rightarrow> None | Some (Inl e) \<Rightarrow> Some (Inl e) | Some (Inr y) \<Rightarrow> f y)"

definition mem_clean :: "netconf \<Rightarrow> membership \<Rightarrow> membership res option" where
  "mem_clean nc m =
     opt_bind (cleanCredImpl (tag_current m nc) (m_remoteTags m)) (\<lambda>tg.
     opt_bind (cleanCredImpl (cap_current m nc) (m_remoteCaps m)) (\<lambda>cp.
     opt_bind (cleanCredImpl (coo_current m nc) (m_remoteCoos m)) (\<lambda>co.
     Some (Inr (m\<lparr>m_remoteTags := tg, m_remoteCaps := cp, m_remoteCoos := co\<rparr>)))))"

end
