(* ===== verification/Zt_Credential_Laws.thy ===== *)
theory Zt_Credential_Laws
  imports Zt_Credentials
begin

text \<open>
  The properties of tags, certificates of ownership and revocations: wire formats and robustness
  of their parsers, signatures, what a certificate of ownership owns, and the one parser that
  accepts more than its object can hold.
\<close>

section \<open>Ownership\<close>

lemma coo_owns_from_iff:
  assumes "coo_ok c"
  shows "coo_owns_from c t v i =
    Inr (\<exists>j. i \<le> j \<and> j < unat (coo_thingCount c) \<and> coo_thingTypes c ! j = t \<and>
       take (length v) (coo_thingValues c ! j) = v)"
  using assms
proof (induction c t v i rule: coo_owns_from.induct)
  case (1 c t v i)
  show ?case
  proof (cases "i < unat (coo_thingCount c)")
    case False
    then show ?thesis by (auto simp: coo_owns_from.simps [of c t v i])
  next
    case True
    let ?P = "\<lambda>j. coo_thingTypes c ! j = t \<and> take (length v) (coo_thingValues c ! j) = v"
    have l: "i < length (coo_thingTypes c)" "i < length (coo_thingValues c)"
      using True "1.prems" by (auto simp: coo_ok_def coo_shape_def)
    have split: "(\<exists>j. i \<le> j \<and> j < unat (coo_thingCount c) \<and> ?P j) \<longleftrightarrow>
        ?P i \<or> (\<exists>j. i + 1 \<le> j \<and> j < unat (coo_thingCount c) \<and> ?P j)"
      using True by (metis Suc_eq_plus1 Suc_leD Suc_leI le_neq_implies_less order_refl)
    show ?thesis
      unfolding split coo_owns_from.simps [of c t v i]
      using True l "1.IH"(1) [OF True] "1.IH"(2) [OF True] "1.prems" by auto
  qed
qed

text \<open>The thing types and the length of their values.\<close>

definition thing_ok :: "u8 \<Rightarrow> bytes \<Rightarrow> bool" where
  "thing_ok t v \<longleftrightarrow> t = 1 \<and> length v = 6 \<or> t = 2 \<and> length v = 4 \<or> t = 3 \<and> length v = 16"

lemma coo_put_owns:
  assumes "coo_ok c" "coo_thingCount c < 16" "thing_ok t v" "thing_ok t' v'"
  shows "\<exists>c'. coo_put t v c = Inr c' \<and> coo_ok c' \<and>
    coo_owns_from c' t' v' 0 = Inr (t' = t \<and> v' = v \<or> coo_owns_from c t' v' 0 = Inr True)"
proof -
  let ?n = "unat (coo_thingCount c)"
  have n: "?n < 16" "unat (coo_thingCount c + 1) = ?n + 1"
    using assms(2) by (simp_all add: word_less_nat_alt) (subst unat_add_nowrap; simp)
  have sh: "length (coo_thingTypes c) = 16" "length (coo_thingValues c) = 16" "length (coo_thingValues c ! ?n) = 16"
    using assms(1) n(1) by (auto simp: coo_ok_def coo_shape_def)
  have v: "length v \<le> 16" using assms(3) by (auto simp: thing_ok_def)
  let ?w = "v @ drop (length v) (coo_thingValues c ! ?n)"
  let ?c = "c\<lparr>coo_thingTypes := (coo_thingTypes c)[?n := t], coo_thingValues := (coo_thingValues c)[?n := ?w],
      coo_thingCount := coo_thingCount c + 1\<rparr>"
  have put: "coo_put t v c = Inr ?c"
    using n sh v by (simp add: coo_put_def Let_def memcpy_ok)
  have ok: "coo_ok ?c"
    using assms(1) n sh v by (auto simp: coo_ok_def coo_shape_def dest!: set_update_subset_insert [THEN subsetD])
  have last: "take (length v') ?w = v' \<longleftrightarrow> v' = v" if "t' = t"
    using that assms(3,4) by (auto simp: thing_ok_def)
  have "(\<exists>j < ?n + 1. (coo_thingTypes c)[?n := t] ! j = t' \<and> take (length v') ((coo_thingValues c)[?n := ?w] ! j) = v') \<longleftrightarrow>
      (t' = t \<and> v' = v) \<or> (\<exists>j < ?n. coo_thingTypes c ! j = t' \<and> take (length v') (coo_thingValues c ! j) = v')"
  proof -
    let ?P = "\<lambda>j. (coo_thingTypes c)[?n := t] ! j = t' \<and> take (length v') ((coo_thingValues c)[?n := ?w] ! j) = v'"
    have ex: "(\<exists>j < ?n + 1. ?P j) \<longleftrightarrow> ?P ?n \<or> (\<exists>j < ?n. ?P j)"
      by (auto simp: less_Suc_eq)
    have pn: "?P ?n \<longleftrightarrow> t' = t \<and> v' = v"
      using last n sh by auto
    have pj: "(\<exists>j < ?n. ?P j) \<longleftrightarrow> (\<exists>j < ?n. coo_thingTypes c ! j = t' \<and> take (length v') (coo_thingValues c ! j) = v')"
      by auto
    show ?thesis unfolding ex pn pj by (rule refl)
  qed
  with put ok n coo_owns_from_iff [OF assms(1)] coo_owns_from_iff [OF ok] show ?thesis by auto
qed

definition same_ip :: "inet \<Rightarrow> inet \<Rightarrow> bool" where
  "same_ip a b \<longleftrightarrow>
     ss_family a = AF_INET \<and> ss_family b = AF_INET \<and> sin_addr a = sin_addr b \<or>
     ss_family a = AF_INET6 \<and> ss_family b = AF_INET6 \<and> sin6_addr a = sin6_addr b"

lemma mac_bytes_inj: "mac_ok m \<Longrightarrow> mac_ok m' \<Longrightarrow> mac_bytes m = mac_bytes m' \<longleftrightarrow> m = m'"
  using mac_roundtrip [of m "[]"] mac_roundtrip [of m' "[]"] by (metis sum.inject(2))

lemma le_bytes_inj: "le_bytes (x::u32) = le_bytes y \<longleftrightarrow> x = y"
proof
  assume "le_bytes x = le_bytes y"
  then have "(le_word (le_bytes x) :: u32) = le_word (le_bytes y)" by simp
  then show "x = y" by (simp add: le_word_le_bytes)
qed simp

section \<open>The parser that accepts too many things\<close>

lemma coo_things_beyond: "16 \<le> i \<Longrightarrow> coo_deserialize_things b n i p c = Inr (c, p)"
  by (induction n arbitrary: i) simp_all

lemma coo_things_split:
  "coo_deserialize_things b (m + n) i p c =
     res_bind (coo_deserialize_things b m i p c) (\<lambda>(c', q). coo_deserialize_things b n (i + m) q c')"
proof (induction m arbitrary: i p c)
  case 0
  then show ?case by simp
next
  case (Suc m)
  show ?case
  proof (cases "i < 16")
    case True
    show ?thesis
      using True Suc.IH by (simp add: rd_byte_def rd_field_def res_bind_assoc)
  next
    case False
    then show ?thesis using Suc.IH by simp
  qed
qed

text \<open>The encoding of a certificate with another number in the count field.\<close>

definition coo_enc_count :: "u16 \<Rightarrow> coo \<Rightarrow> bytes" where
  "coo_enc_count n c =
     word_bytes_be (coo_networkId c) @ word_bytes_be (coo_ts c) @ word_bytes_be (coo_flags c) @
     word_bytes_be (coo_id c) @ word_bytes_be n @ things_enc (coo_things c) @ addr_bytes (coo_issuedTo c) @
     addr_bytes (coo_signedBy c) @ sig_enc (coo_signature c) @ word_bytes_be (0 :: u16)"

lemma coo_deserialize_overlong:
  assumes c: "coo_ok c" "coo_thingCount c = 16" and n: "16 < unat n" and b: "buf_ok b" "has b p (coo_enc_count n c)"
  shows "\<exists>k. coo_deserialize b p = Inr (c\<lparr>coo_thingCount := n\<rparr>, k)"
proof -
  let ?t = "addr_bytes (coo_issuedTo c) @ addr_bytes (coo_signedBy c) @ sig_enc (coo_signature c) @ word_bytes_be (0 :: u16) @ []"
  let ?ts = "coo_things c"
  have h: "has b p (word_bytes_be (coo_networkId c) @ word_bytes_be (coo_ts c) @ word_bytes_be (coo_flags c) @
     word_bytes_be (coo_id c) @ word_bytes_be n @ things_enc ?ts @ ?t)"
    using b(2) by (simp add: coo_enc_count_def)
  have ok: "addr_ok (coo_issuedTo c)" "addr_ok (coo_signedBy c)" "length (coo_signature c) = 96"
    "length (coo_thingTypes c) = 16" "length (coo_thingValues c) = 16"
    using c(1) by (simp_all add: coo_ok_def coo_shape_def)
  have len: "length ?ts = 16" using length_coo_things [OF c(1)] c(2) by simp
  have vs: "\<forall>x \<in> set ?ts. length (snd x) = 16"
    using coo_thing_length c(1) by (auto simp: coo_ok_def)
  have ft: "map fst ?ts = coo_thingTypes c" "map snd ?ts = coo_thingValues c"
    using ok c(2) by (simp_all add: coo_things_def)
  let ?c = "coo_zero\<lparr>coo_networkId := coo_networkId c, coo_ts := coo_ts c, coo_flags := coo_flags c, coo_id := coo_id c,
      coo_thingCount := n\<rparr>"
  let ?c1 = "?c\<lparr>coo_thingTypes := coo_thingTypes c, coo_thingValues := coo_thingValues c\<rparr>"
  have loop: "coo_deserialize_things b (unat n) 0 q ?c = Inr (?c1, q + of_nat (17 * 16)) \<and> has b (q + of_nat (17 * 16)) ?t"
    if "has b q (things_enc ?ts @ ?t)" for q
  proof -
    have "coo_deserialize_things b 16 0 q ?c = Inr (?c1, q + of_nat (17 * 16)) \<and> has b (q + of_nat (17 * 16)) ?t"
      using coo_loop_enc [OF b(1) that, of 0 ?c] vs len by (simp add: ft coo_zero_def)
    moreover have "unat n = 16 + (unat n - 16)" using n by simp
    ultimately show ?thesis
      using coo_things_split [of b 16 "unat n - 16" 0 q ?c] by (simp add: coo_things_beyond)
  qed
  have fin: "?c1\<lparr>coo_issuedTo := coo_issuedTo c, coo_signedBy := coo_signedBy c, coo_signature := coo_signature c\<rparr> =
      c\<lparr>coo_thingCount := n\<rparr>"
    by (cases c) (simp add: coo_zero_def)
  let ?q = "p + 8 + 8 + 8 + 4 + 2 + of_nat (17 * 16) + 5 + 5 + 99 + 2"
  have "coo_deserialize b p = Inr (c\<lparr>coo_thingCount := n\<rparr>, ?q - p)"
    unfolding coo_deserialize_def
    apply (rule rd_at_64 [OF b(1) h])
    apply (rule rd_at_64 [OF b(1)], assumption)
    apply (rule rd_at_64 [OF b(1)], assumption)
    apply (rule rd_at_32 [OF b(1)], assumption)
    apply (rule rd_at_16 [OF b(1)], assumption)
    apply (drule loop, elim conjE)
    apply (simp only: res_bind_simps prod.case)
    apply (rule rd_addr_law [OF b(1)], assumption, rule ok)
    apply (rule rd_addr_law [OF b(1)], assumption, rule ok)
    apply (rule rd_signature_law [OF b(1)], assumption, rule ok)
    apply (rule rd_end_law [OF b(1)], assumption)
    using fin by simp
  then show ?thesis by blast
qed

lemma coo_serialize_things_overrun:
  assumes "coo_shape c" "16 < unat (coo_thingCount c)"
  shows "i + k = 16 \<Longrightarrow> buf_ok b \<Longrightarrow> unat (b_len b) + 17 * k \<le> b_cap b \<Longrightarrow>
    coo_serialize_things c (unat (coo_thingCount c) - i) i b = Inl UndefinedBehaviour"
proof (induction k arbitrary: i b)
  case 0
  obtain m where m: "unat (coo_thingCount c) - 16 = Suc m" using assms(2) by (cases "unat (coo_thingCount c) - 16") auto
  have "\<not> i < length (coo_thingTypes c)" "i = 16" using assms(1) 0 by (simp_all add: coo_shape_def)
  then show ?case using m by simp
next
  case (Suc k)
  let ?t = "coo_thingTypes c ! i" and ?v = "coo_thingValues c ! i"
  have i: "i < 16" "i < length (coo_thingTypes c)" "i < length (coo_thingValues c)" "length ?v = 16"
    using assms(1) Suc.prems(1) by (auto simp: coo_shape_def)
  obtain m where m: "unat (coo_thingCount c) - i = Suc m" "m = unat (coo_thingCount c) - (i + 1)"
    using assms(2) i by (cases "unat (coo_thingCount c) - i") auto
  have a: "appends (\<lambda>b. res_bind (buf_append ?t b) (buf_append_bytes ?v 16)) (word_bytes_be ?t @ ?v)"
    using i by (intro wire_write) simp_all
  from appendsD [OF a Suc.prems(2)] Suc.prems(3) i obtain b' where
    b': "res_bind (buf_append ?t b) (buf_append_bytes ?v 16) = Inr b'" "buf_ok b'" "b_cap b' = b_cap b"
      "b_content b' = b_content b @ word_bytes_be ?t @ ?v"
    by auto
  have len: "unat (b_len b') = unat (b_len b) + 17"
    using arg_cong [OF b'(4), of length] Suc.prems(2) b'(2) i by simp
  from b'(1) obtain b1 where b1: "buf_append ?t b = Inr b1" "buf_append_bytes ?v 16 b1 = Inr b'"
    by (auto simp: res_bind_Inr_iff)
  have "coo_serialize_things c (unat (coo_thingCount c) - i) i b = coo_serialize_things c m (i + 1) b'"
    using i m b1 by simp
  also have "\<dots> = Inl UndefinedBehaviour"
    unfolding m(2) using Suc.prems len b' by (intro Suc.IH) simp_all
  finally show ?case .
qed

lemma ser_seq_append: "ser_seq (fs @ gs) = (\<lambda>b. res_bind (ser_seq fs b) (ser_seq gs))"
  by (induction fs) (simp_all add: res_bind_assoc)

lemma coo_verify_overrun:
  assumes c: "coo_shape c" "16 < unat (coo_thingCount c)" and mem: "480 \<le> length mem"
    and s: "coo_signedBy c = controllerFor (coo_networkId c)" "coo_signedBy c \<noteq> Address 0" "id_valid (known (coo_signedBy c))"
  shows "coo_verify C known mem c = Inl UndefinedBehaviour"
proof -
  let ?pre = "[ser_when True ser_magic, buf_append (coo_networkId c), buf_append (coo_ts c), buf_append (coo_flags c),
       buf_append (coo_id c), buf_append (coo_thingCount c)]"
  let ?b = "buf_new (take 480 mem)"
  have b: "buf_ok ?b" "b_cap ?b = 480" "unat (b_len ?b) = 0" "b_content ?b = []"
    using mem by (simp_all add: buf_ok_def b_cap_def buf_new_def b_content_def)
  have a: "appends (ser_seq ?pre) ((if True then magic_enc else []) @ word_bytes_be (coo_networkId c) @
      word_bytes_be (coo_ts c) @ word_bytes_be (coo_flags c) @ word_bytes_be (coo_id c) @ word_bytes_be (coo_thingCount c) @ [])"
    by (intro wire_write)
  from appendsD [OF a b(1)] b(2,3) obtain b' where b': "ser_seq ?pre ?b = Inr b'" "buf_ok b'" "b_cap b' = 480"
      "b_content b' = b_content ?b @ (if True then magic_enc else []) @ word_bytes_be (coo_networkId c) @
      word_bytes_be (coo_ts c) @ word_bytes_be (coo_flags c) @ word_bytes_be (coo_id c) @ word_bytes_be (coo_thingCount c) @ []"
    by auto
  have len: "unat (b_len b') = 38"
    using arg_cong [OF b'(4), of length] b'(2) b(4) by simp
  have over: "coo_serialize_things c (unat (coo_thingCount c)) 0 b' = Inl UndefinedBehaviour"
    using coo_serialize_things_overrun [OF c, of 0 16 b', OF _ b'(2)] b'(3) len by simp
  have "coo_serialize True c = ser_seq (?pre @ coo_serialize_things c (unat (coo_thingCount c)) 0 #
      [addr_appendTo (coo_issuedTo c), addr_appendTo (coo_signedBy c),
       ser_when (\<not> True) (ser_signature (coo_signature c)), buf_append (0 :: u16), ser_when True ser_magic])"
    unfolding coo_serialize_def by (simp only: append.simps)
  then have "coo_serialize True c ?b = Inl UndefinedBehaviour"
    unfolding ser_seq_append by (simp only: b'(1) res_bind_simps) (simp only: ser_seq.simps over res_bind_simps)
  then show ?thesis
    using s by (simp add: coo_verify_def ser_bytes_def cred_verify_def)
qed

section \<open>Properties\<close>

definition tag_sample :: tag where
  "tag_sample = tag_new (replicate 96 0) 0x8056c2e21c000001 1000 (Address 0x1122334455) 7 9"

definition rev_sample :: revocation where
  "rev_sample = \<lparr>rev_id = 1, rev_credentialId = 7, rev_networkId = 0x8056c2e21c000001, rev_threshold = 2000, rev_flags = 1,
     rev_target = Address 0x1122334455, rev_signedBy = Address 0, rev_type = 2, rev_signature = replicate 96 0\<rparr>"

definition coo_sample :: coo where
  "coo_sample = coo_zero\<lparr>coo_networkId := 0x8056c2e21c000001, coo_ts := 1000, coo_issuedTo := Address 0x1122334455\<rparr>"

lemma samples_ok: "tag_ok tag_sample" "rev_ok rev_sample" "coo_ok coo_sample" "coo_wire_ok coo_sample"
  by (simp_all add: tag_ok_def tag_sample_def tag_new_def tag_zero_def rev_ok_def rev_sample_def coo_ok_def coo_wire_ok_def
      coo_shape_def coo_sample_def coo_zero_def addr_ok_def)

text \<open>
  C32. Tags, revocations and certificates of ownership survive \<open>serialize\<close> and \<open>deserialize\<close>
  unchanged, each parser reporting the number of bytes its serializer wrote.  From an arbitrary
  buffer, a parser throws or yields an object whose arrays and signature have their full lengths:
  it makes no undefined access.
\<close>

theorem credentials_wire:
  assumes "tag_ok t" "rev_ok r" "coo_wire_ok c" "buf_ok b"
    and "unat (b_len b) + length (tag_enc t) \<le> b_cap b" "unat (b_len b) + length (rev_enc r) \<le> b_cap b"
      "unat (b_len b) + length (coo_enc c) \<le> b_cap b"
    and "buf_ok b0" "pos_ok p"
  shows "(\<exists>b'. tag_serialize False t b = Inr b' \<and> tag_deserialize b' (b_len b) = Inr (t, b_len b' - b_len b)) \<and>
    (\<exists>b'. rev_serialize False r b = Inr b' \<and> rev_deserialize b' (b_len b) = Inr (r, b_len b' - b_len b)) \<and>
    (\<exists>b'. coo_serialize False c b = Inr b' \<and> coo_deserialize b' (b_len b) = Inr (c, b_len b' - b_len b)) \<and>
    res_all (\<lambda>(t, n). tag_ok t) (tag_deserialize b0 p) \<and>
    res_all (\<lambda>(r, n). rev_ok r) (rev_deserialize b0 p) \<and>
    res_all (\<lambda>(c, n). coo_shape c) (coo_deserialize b0 p)"
  using tag_wire.roundtrip [OF assms(1,4,5)] rev_wire.roundtrip [OF assms(2,4,6)] coo_wire.roundtrip [OF assms(3,4,7)]
    tag_deserialize_safe [OF assms(8,9)] rev_deserialize_safe [OF assms(8,9)] coo_deserialize_safe [OF assms(8,9)]
  by blast

theorem credentials_wire_witness:
  "\<exists>b'. tag_serialize False tag_sample (buf_new (replicate 300 0)) = Inr b' \<and>
     tag_deserialize b' 0 = Inr (tag_sample, b_len b')"
proof -
  let ?b = "buf_new (replicate 300 0)"
  have b: "buf_ok ?b" "b_len ?b = 0" "b_cap ?b = 300" by (simp_all add: buf_ok_def buf_new_def b_cap_def)
  have "length (tag_enc tag_sample) \<le> 300" "length (rev_enc rev_sample) \<le> 300" "length (coo_enc coo_sample) \<le> 300"
    using length_tag_msg length_rev_msg
    by (simp_all add: tag_enc_def tag_body_def tag_sample_def tag_new_def rev_enc_def rev_body_def rev_sample_def
        coo_enc_def coo_body_def coo_head_def coo_sample_def coo_zero_def coo_things_def things_enc_def)
  with credentials_wire [OF samples_ok(1,2,4) b(1) _ _ _ b(1), of 0] b show ?thesis
    by (auto simp: pos_ok_def)
qed

text \<open>
  C31. A tag, revocation or certificate of ownership signed by the controller of its network is
  accepted by every node that knows the controller; conversely \<open>verify\<close> answers 0 only for the
  controller's own signature on this very content, and it always answers 0, 1 or -1, asking the
  roots for the signer exactly when the answer is 1.
\<close>

theorem credentials_signed:
  assumes "tag_ok t" "rev_ok r" "coo_ok c" "480 \<le> length mem"
    and "tag_networkId t = nwid" "rev_networkId r = nwid" "coo_networkId c = nwid"
    and "id_address i = controllerFor nwid" "id_valid i" "id_hasPrivate i" "signs_for C i" "known (id_address i) = i"
  shows "(\<exists>t'. tag_sign C mem i t = Inr (True, t') \<and> tag_verify C known mem t' = Inr (0, [])) \<and>
    (\<exists>r'. rev_sign C mem i r = Inr (True, r') \<and> rev_verify C known mem r' = Inr (0, [])) \<and>
    (\<exists>c'. coo_sign C mem i c = Inr (True, c') \<and> coo_verify C known mem c' = Inr (0, [])) \<and>
    (\<forall>other. \<exists>a ws. tag_verify C other mem t = Inr (a, ws) \<and> ws = (if a = 1 then [tag_signedBy t] else []) \<and>
       (a = 0 \<longrightarrow> tag_signedBy t = controllerFor nwid \<and>
          id_verify C (other (controllerFor nwid)) (tag_msg t) (tag_signature t))) \<and>
    (\<forall>other. \<exists>a ws. rev_verify C other mem r = Inr (a, ws) \<and> ws = (if a = 1 then [rev_signedBy r] else []) \<and>
       (a = 0 \<longrightarrow> rev_signedBy r = controllerFor nwid \<and>
          id_verify C (other (controllerFor nwid)) (rev_msg r) (rev_signature r))) \<and>
    (\<forall>other. \<exists>a ws. coo_verify C other mem c = Inr (a, ws) \<and> ws = (if a = 1 then [coo_signedBy c] else []) \<and>
       (a = 0 \<longrightarrow> coo_signedBy c = controllerFor nwid \<and>
          id_verify C (other (controllerFor nwid)) (coo_msg c) (coo_signature c)))"
proof (intro conjI allI)
  note ctl = assms(9-12)
  show "\<exists>t'. tag_sign C mem i t = Inr (True, t') \<and> tag_verify C known mem t' = Inr (0, [])"
    using tag_signed.sign_then_verify [OF assms(1,4) _ ctl(1-3), of known] ctl(4) assms(5,8) by auto
  show "\<exists>r'. rev_sign C mem i r = Inr (True, r') \<and> rev_verify C known mem r' = Inr (0, [])"
    using rev_signed.sign_then_verify [OF assms(2,4) _ ctl(1-3), of known] ctl(4) assms(6,8) by auto
  show "\<exists>c'. coo_sign C mem i c = Inr (True, c') \<and> coo_verify C known mem c' = Inr (0, [])"
    using coo_signed.sign_then_verify [OF assms(3,4) _ ctl(1-3), of known] ctl(4) assms(7,8) by auto
  fix other
  show "\<exists>a ws. tag_verify C other mem t = Inr (a, ws) \<and> ws = (if a = 1 then [tag_signedBy t] else []) \<and>
       (a = 0 \<longrightarrow> tag_signedBy t = controllerFor nwid \<and> id_verify C (other (controllerFor nwid)) (tag_msg t) (tag_signature t))"
    using tag_signed.verify_total [OF assms(1,4), of C other] tag_signed.verify_genuine [OF assms(1,4), of C other] assms(5)
    by metis
  show "\<exists>a ws. rev_verify C other mem r = Inr (a, ws) \<and> ws = (if a = 1 then [rev_signedBy r] else []) \<and>
       (a = 0 \<longrightarrow> rev_signedBy r = controllerFor nwid \<and> id_verify C (other (controllerFor nwid)) (rev_msg r) (rev_signature r))"
    using rev_signed.verify_total [OF assms(2,4), of C other] rev_signed.verify_genuine [OF assms(2,4), of C other] assms(6)
    by metis
  show "\<exists>a ws. coo_verify C other mem c = Inr (a, ws) \<and> ws = (if a = 1 then [coo_signedBy c] else []) \<and>
       (a = 0 \<longrightarrow> coo_signedBy c = controllerFor nwid \<and> id_verify C (other (controllerFor nwid)) (coo_msg c) (coo_signature c))"
    using coo_signed.verify_total [OF assms(3,4), of C other] coo_signed.verify_genuine [OF assms(3,4), of C other] assms(7)
    by metis
qed

theorem credentials_signed_witness:
  "\<exists>t'. tag_sign toy_crypto (replicate 480 0) id_sample tag_sample = Inr (True, t') \<and>
     tag_verify toy_crypto (\<lambda>a. id_sample) (replicate 480 0) t' = Inr (0, [])"
proof -
  have "id_address id_sample = controllerFor 0x8056c2e21c000001"
    by (simp add: id_sample_def controllerFor_def addr_new_def)
  moreover have "id_valid id_sample" "id_hasPrivate id_sample"
    by (simp_all add: id_valid_def id_sample_def id_hasPrivate_def)
  ultimately show ?thesis
    using credentials_signed [OF samples_ok(1-3) _ _ _ _ _ _ _ toy_signs_for,
      of "replicate 480 0" "0x8056c2e21c000001" id_sample "\<lambda>a. id_sample"]
    by (simp add: tag_sample_def tag_new_def rev_sample_def coo_sample_def)
qed

text \<open>
  C33. A certificate of ownership with room owns, after \<open>addThing\<close>, exactly what it owned before and
  the new address: Ethernet and Internet addresses are told apart, IPv4 from IPv6 too, and a full
  certificate is left as it is.
\<close>

theorem coo_addThing_owns:
  assumes "coo_ok c" "mac_ok m" "mac_ok m'" "inet_ok a" "inet_ok a'" "ss_family a \<in> {AF_INET, AF_INET6}"
  shows "\<exists>cm ca. coo_addThing_mac m c = Inr cm \<and> coo_addThing_inet a c = Inr ca \<and> coo_ok cm \<and> coo_ok ca \<and>
    (if coo_thingCount c \<ge> 16 then cm = c \<and> ca = c
     else (coo_owns_mac cm m' = Inr (m' = m \<or> coo_owns_mac c m' = Inr True) \<and>
       coo_owns_inet cm a' = coo_owns_inet c a' \<and>
       coo_owns_inet ca a' = Inr (same_ip a a' \<or> coo_owns_inet c a' = Inr True) \<and>
       coo_owns_mac ca m' = coo_owns_mac c m'))"
proof (cases "coo_thingCount c \<ge> 16")
  case True
  then show ?thesis using assms(1) by (simp add: coo_addThing_mac_def coo_addThing_inet_def)
next
  case False
  then have room: "coo_thingCount c < 16" by (simp add: not_le)
  define t v where "t = (if ss_family a = AF_INET then 2 else 3 :: u8)"
    and "v = (if ss_family a = AF_INET then le_bytes (sin_addr a) else sin6_addr a)"
  define t' v' where "t' = (if ss_family a' = AF_INET then 2 else 3 :: u8)"
    and "v' = (if ss_family a' = AF_INET then le_bytes (sin_addr a') else sin6_addr a')"
  have ok: "thing_ok 1 (mac_bytes m)" "thing_ok 1 (mac_bytes m')" "thing_ok t v" "thing_ok t' v'"
    using assms(4,5) by (simp_all add: thing_ok_def t_def v_def t'_def v'_def inet_ok_def)
  have fam: "AF_INET \<noteq> AF_INET6" by (simp add: AF_INET_def AF_INET6_def)
  have own: "coo_owns_inet d a' = (if ss_family a' \<in> {AF_INET, AF_INET6} then coo_owns_from d t' v' 0 else Inr False)" for d
    using fam by (simp add: coo_owns_inet_def t'_def v'_def)
  have ip: "t' = t \<and> v' = v \<longleftrightarrow> same_ip a a'" if "ss_family a' \<in> {AF_INET, AF_INET6}"
    using that assms(6) fam by (auto simp: same_ip_def t_def t'_def v_def v'_def le_bytes_inj)
  have tt: "t \<noteq> 1" "t' \<noteq> 1" by (simp_all add: t_def t'_def)
  obtain cm where cm: "coo_addThing_mac m c = Inr cm" "coo_put 1 (mac_bytes m) c = Inr cm"
    using coo_put_owns [OF assms(1) room ok(1,2)] False by (auto simp: coo_addThing_mac_def)
  obtain ca where ca: "coo_addThing_inet a c = Inr ca" "coo_put t v c = Inr ca"
    using coo_put_owns [OF assms(1) room ok(3,2)] False assms(6) fam by (auto simp: coo_addThing_inet_def t_def v_def)
  have bool: "(\<exists>x. coo_owns_from c s w 0 = Inr x)" for s w using coo_owns_from_iff [OF assms(1)] by blast
  note P = coo_put_owns [OF assms(1) room]
  have mm: "coo_ok cm" "coo_owns_from cm 1 (mac_bytes m') 0 = Inr (m' = m \<or> coo_owns_from c 1 (mac_bytes m') 0 = Inr True)"
    using P [OF ok(1,2)] cm(2) mac_bytes_inj [OF assms(3,2)] by auto
  have mi: "coo_owns_from cm t' v' 0 = coo_owns_from c t' v' 0"
    using P [OF ok(1,4)] cm(2) tt bool [of t' v'] by auto
  have ii: "coo_ok ca" "coo_owns_from ca t' v' 0 = Inr (t' = t \<and> v' = v \<or> coo_owns_from c t' v' 0 = Inr True)"
    using P [OF ok(3,4)] ca(2) by auto
  have im: "coo_owns_from ca 1 (mac_bytes m') 0 = coo_owns_from c 1 (mac_bytes m') 0"
    using P [OF ok(3,2)] ca(2) tt bool [of 1 "mac_bytes m'"] by auto
  have nip: "\<not> same_ip a a'" if "ss_family a' \<notin> {AF_INET, AF_INET6}" using that by (auto simp: same_ip_def)
  show ?thesis
    using cm(1) ca(1) mm mi ii im ip nip False by (auto simp: own coo_owns_mac_def)
qed

theorem coo_addThing_owns_witness:
  "\<exists>cm. coo_addThing_mac (MAC 0x112233445566) coo_sample = Inr cm \<and> coo_owns_mac cm (MAC 0x112233445566) = Inr True"
  using coo_addThing_owns [OF samples_ok(3), of "MAC 0x112233445566" "MAC 0x112233445566"
      "inet_nil\<lparr>ss_family := AF_INET\<rparr>" "inet_nil\<lparr>ss_family := AF_INET\<rparr>"]
  by (auto simp: coo_sample_def coo_zero_def mac_ok_def inet_ok_def inet_nil_def)

text \<open>
  C34. \<open>CertificateOfOwnership::deserialize\<close> stores the number of things it read from the wire even
  when it is larger than the sixteen it keeps, so that \<open>verify\<close>, which serializes the certificate
  again before it looks at the signature, reads past the arrays.
\<close>

theorem coo_overread:
  assumes "coo_ok c" "coo_thingCount c = 16" "16 < unat n" "buf_ok b" "has b p (coo_enc_count n c)" "480 \<le> length mem"
    and "coo_signedBy c = controllerFor (coo_networkId c)" "coo_signedBy c \<noteq> Address 0" "id_valid (known (coo_signedBy c))"
  shows "\<exists>c' k. coo_deserialize b p = Inr (c', k) \<and> coo_verify C known mem c' = Inl UndefinedBehaviour"
proof -
  have "coo_shape (c\<lparr>coo_thingCount := n\<rparr>)" using assms(1) by (simp add: coo_ok_def coo_shape_def)
  with coo_deserialize_overlong [OF assms(1-5)] coo_verify_overrun [of "c\<lparr>coo_thingCount := n\<rparr>" mem known C] assms
  show ?thesis by auto
qed

theorem coo_overread_witness:
  "\<exists>b c' k. coo_deserialize b 0 = Inr (c', k) \<and>
     coo_verify toy_crypto (\<lambda>a. id_sample) (replicate 480 0) c' = Inl UndefinedBehaviour"
proof -
  let ?c = "coo_sample\<lparr>coo_thingCount := 16, coo_signedBy := Address 0x8056c2e21c\<rparr>"
  let ?b = "buf_new (replicate 600 0)"
  have b: "buf_ok ?b" "b_len ?b = 0" "b_cap ?b = 600" by (simp_all add: buf_ok_def buf_new_def b_cap_def)
  have ok: "coo_ok ?c" by (simp add: coo_ok_def coo_shape_def coo_sample_def coo_zero_def addr_ok_def)
  have vs: "\<forall>x \<in> set (coo_things ?c). length (snd x) = 16" "length (coo_things ?c) = 16"
    using coo_thing_length [of ?c] length_coo_things [OF ok] ok by (simp_all add: coo_ok_def)
  have l: "length (coo_enc_count 17 ?c) = 30 + 17 * 16 + 10 + 99 + 2"
    using length_things_enc [OF vs(1)] vs(2) by (simp add: coo_enc_count_def coo_sample_def coo_zero_def)
  have "appends (buf_append_bytes (coo_enc_count 17 ?c) (of_nat (length (coo_enc_count 17 ?c)))) (coo_enc_count 17 ?c)"
    using l by (intro wire_write) simp_all
  from appendsD [OF this b(1)] b l obtain b' where b': "buf_ok b'" "b_content b' = b_content ?b @ coo_enc_count 17 ?c"
    by auto
  have "has b' 0 (coo_enc_count 17 ?c)" using has_appended(1) [OF b(1) b'] b(2) by simp
  moreover have "controllerFor 0x8056c2e21c000001 = Address 0x8056c2e21c" by (simp add: controllerFor_def addr_new_def)
  moreover have "id_valid id_sample" by (simp add: id_valid_def id_sample_def)
  ultimately show ?thesis
    using coo_overread [OF ok _ _ b'(1), of 17 0 "replicate 480 0" "\<lambda>a. id_sample" toy_crypto]
    by (simp add: coo_sample_def) blast
qed

end
