(* ===== verification/Membership_Laws.thy ===== *)
theory Membership_Laws
  imports Zt_Membership Zt_Credential_Laws
begin

text \<open>
  The properties of a membership: which credentials it ever holds, that revocations are permanent,
  that cleaning ends and keeps exactly the valid credentials, and how revoking another credential
  can lift the revocation of a certificate of membership.
\<close>

section \<open>Cleaning a table while iterating over it\<close>

definition it_ok :: "('k, 'v) hashtable \<Rightarrow> ('k, 'v) ht_iter \<Rightarrow> bool" where
  "it_ok h it \<longleftrightarrow> it_idx it < length (ht_t h) \<and> (\<exists>pre. ht_t h ! it_idx it = pre @ it_b it)"

lemma it_ok_start: "ht_ok hc h \<Longrightarrow> it_ok h (ht_iterator h)"
  by (auto simp: it_ok_def ht_iterator_def ht_ok_def word_gt_0 unat_gt_0)

lemma ht_left_start: "ht_ok hc h \<Longrightarrow> ht_left h (ht_iterator h) = concat (ht_t h)"
  by (cases "ht_t h") (auto simp: ht_left_def ht_iterator_def ht_ok_def word_gt_0 simp flip: unat_eq_0)

lemma ht_next_at:
  assumes "length (ht_t h) = unat (ht_bc h)"
  shows "it_ok h it \<Longrightarrow> ht_next h it = Some (e, it') \<Longrightarrow>
    it_idx it' < length (ht_t h) \<and> (\<exists>pre. ht_t h ! it_idx it' = pre @ e # it_b it')"
  using assms
proof (induction h it rule: ht_next.induct)
  case (1 h it)
  show ?case
  proof (cases "it_b it")
    case (Cons x b)
    then have "ht_next h it = Some (x, it\<lparr>it_b := b\<rparr>)" by (simp add: ht_next.simps)
    with "1.prems" Cons show ?thesis by (auto simp: it_ok_def)
  next
    case Nil
    show ?thesis
    proof (cases "it_idx it + 1 \<ge> unat (ht_bc h)")
      case True
      then have "ht_next h it = None" using Nil by (simp add: ht_next.simps)
      with "1.prems"(2) show ?thesis by simp
    next
      case False
      let ?it = "\<lparr>it_idx = it_idx it + 1, it_b = ht_t h ! (it_idx it + 1)\<rparr>"
      have "ht_next h it = ht_next h ?it" using Nil False by (subst ht_next.simps) simp
      moreover have "it_ok h ?it" using False "1.prems"(3) by (auto simp: it_ok_def)
      ultimately show ?thesis using "1.IH" [OF Nil False] "1.prems" by simp
    qed
  qed
qed

lemma bucket_del_at: "k \<notin> fst ` set pre \<Longrightarrow> bucket_del k (pre @ (k, v) # rest) = Some (pre @ rest)"
  by (induction pre) auto

lemma placed_bucket: "ht_ok hc h \<Longrightarrow> i < length (ht_t h) \<Longrightarrow> e \<in> set (ht_t h ! i) \<Longrightarrow> ht_idx hc (ht_bc h) (fst e) = i"
  by (auto simp: ht_ok_def ht_placed_def)

lemma erase_behind:
  assumes ok: "ht_ok hc h" and i: "it_idx it < length (ht_t h)" and b: "ht_t h ! it_idx it = pre @ (k, v) # it_b it"
  shows "ht_left (snd (ht_erase hc k h)) it = ht_left h it" and "it_ok (snd (ht_erase hc k h)) it"
proof -
  have idx: "ht_idx hc (ht_bc h) k = it_idx it"
    using placed_bucket [OF ok i, of "(k, v)"] b by simp
  have "distinct (map fst (ht_t h ! it_idx it))"
    using ok i by (simp add: ht_ok_def map_concat distinct_concat_iff)
  then have "k \<notin> fst ` set pre" unfolding b by simp
  then have "snd (ht_erase hc k h) = h\<lparr>ht_t := (ht_t h)[it_idx it := pre @ it_b it], ht_s := ht_s h - 1\<rparr>"
    by (simp add: ht_erase_def idx b bucket_del_at)
  with i show "ht_left (snd (ht_erase hc k h)) it = ht_left h it" "it_ok (snd (ht_erase hc k h)) it"
    by (auto simp: ht_left_def it_ok_def)
qed

lemma clean_loop_law:
  assumes "ht_ok hc_u32 h" "it_ok h it" "\<forall>e \<in> set (ht_left h it). \<exists>ok. valid (snd e) = Inr ok"
    and "length (ht_left h it) < n" "\<forall>e \<in> set (ht_left h it). ht_get hc_u32 h (fst e) = Some (snd e)"
    and "distinct (map fst (ht_left h it))"
  shows "\<exists>h'. clean_loop valid n h it = Some (Inr h') \<and> ht_ok hc_u32 h' \<and>
    ht_get hc_u32 h' = (\<lambda>k. if k \<in> fst ` {e \<in> set (ht_left h it). valid (snd e) = Inr False} then None else ht_get hc_u32 h k)"
  using assms
proof (induction n arbitrary: h it)
  case 0
  then show ?case by simp
next
  case (Suc n)
  have len: "length (ht_t h) = unat (ht_bc h)" using Suc.prems(1) by (simp add: ht_ok_def)
  show ?case
  proof (cases "ht_next h it")
    case None
    then show ?thesis using Suc.prems(1) ht_next_left [OF len, of it] by simp
  next
    case (Some x)
    obtain k v it' where x: "x = ((k, v), it')" by (cases x) auto
    have left: "ht_left h it = (k, v) # ht_left h it'" using ht_next_left [OF len, of it] Some x by simp
    obtain pre where at: "it_idx it' < length (ht_t h)" "ht_t h ! it_idx it' = pre @ (k, v) # it_b it'"
      using ht_next_at [OF len Suc.prems(2)] Some x by blast
    obtain ok where ok: "valid v = Inr ok" using Suc.prems(3) left by auto
    let ?h = "if ok then h else snd (ht_erase hc_u32 k h)"
    have step: "clean_loop valid (Suc n) h it = clean_loop valid n ?h it'" using Some x ok by simp
    have l: "ht_left ?h it' = ht_left h it'" "it_ok ?h it'" "ht_ok hc_u32 ?h"
      "ht_get hc_u32 ?h = (if ok then ht_get hc_u32 h else (ht_get hc_u32 h)(k := None))"
      using erase_behind [OF Suc.prems(1) at] at Suc.prems(1) ht_erase_law [OF Suc.prems(1), of k]
      by (auto simp: it_ok_def)
    have k: "k \<notin> fst ` set (ht_left h it')" using Suc.prems(6) left by simp
    have "\<exists>h'. clean_loop valid n ?h it' = Some (Inr h') \<and> ht_ok hc_u32 h' \<and>
      ht_get hc_u32 h' = (\<lambda>k. if k \<in> fst ` {e \<in> set (ht_left ?h it'). valid (snd e) = Inr False} then None else ht_get hc_u32 ?h k)"
      using Suc.prems left l k by (intro Suc.IH) auto
    then obtain h' where h': "clean_loop valid n ?h it' = Some (Inr h')" "ht_ok hc_u32 h'"
      "ht_get hc_u32 h' = (\<lambda>k. if k \<in> fst ` {e \<in> set (ht_left h it'). valid (snd e) = Inr False} then None else ht_get hc_u32 ?h k)"
      unfolding l(1) by blast
    have "ht_get hc_u32 h' j =
        (if j \<in> fst ` {e \<in> set (ht_left h it). valid (snd e) = Inr False} then None else ht_get hc_u32 h j)" for j
      unfolding h'(3) l(4) left using ok by (cases ok) (auto simp: image_iff)
    with h'(1,2) step show ?thesis by auto
  qed
qed

lemma cleanCredImpl_law:
  assumes ok: "ht_ok hc_u32 h" and v: "\<forall>k x. ht_get hc_u32 h k = Some x \<longrightarrow> (\<exists>r. valid x = Inr r)"
  shows "\<exists>h'. cleanCredImpl valid h = Some (Inr h') \<and> ht_ok hc_u32 h' \<and>
    ht_get hc_u32 h' = (\<lambda>k. case ht_get hc_u32 h k of None \<Rightarrow> None | Some x \<Rightarrow> if valid x = Inr True then Some x else None)"
proof -
  note left = ht_left_start [OF ok]
  have d: "distinct (map fst (concat (ht_t h)))" using ok by (simp add: ht_ok_def)
  have g: "ht_get hc_u32 h k = Some x \<longleftrightarrow> (k, x) \<in> set (concat (ht_t h))" for k x
    using ht_get_map_of [OF ok, of k] map_of_eq_Some_iff [OF d] by simp
  have vv: "\<forall>e \<in> set (concat (ht_t h)). \<exists>ok. valid (snd e) = Inr ok"
    using g v by (metis prod.collapse)
  have gg: "\<forall>e \<in> set (concat (ht_t h)). ht_get hc_u32 h (fst e) = Some (snd e)"
    using g by (metis prod.collapse)
  obtain h' where h': "cleanCredImpl valid h = Some (Inr h')" "ht_ok hc_u32 h'"
    "ht_get hc_u32 h' = (\<lambda>k. if k \<in> fst ` {e \<in> set (concat (ht_t h)). valid (snd e) = Inr False} then None else ht_get hc_u32 h k)"
    using clean_loop_law [OF ok it_ok_start [OF ok], unfolded left, OF vv less_add_one gg d]
    unfolding cleanCredImpl_def by blast
  have "ht_get hc_u32 h' k = (case ht_get hc_u32 h k of None \<Rightarrow> None | Some x \<Rightarrow> if valid x = Inr True then Some x else None)" for k
  proof (cases "ht_get hc_u32 h k")
    case None
    then show ?thesis unfolding h'(3) by simp
  next
    case (Some x)
    have "k \<in> fst ` {e \<in> set (concat (ht_t h)). valid (snd e) = Inr False} \<longleftrightarrow> valid x = Inr False"
    proof
      assume "k \<in> fst ` {e \<in> set (concat (ht_t h)). valid (snd e) = Inr False}"
      then obtain y where "(k, y) \<in> set (concat (ht_t h))" "valid y = Inr False"
        by (auto simp del: set_concat)
      with g Some show "valid x = Inr False" by (metis option.inject)
    next
      assume "valid x = Inr False"
      with g [of k x] Some show "k \<in> fst ` {e \<in> set (concat (ht_t h)). valid (snd e) = Inr False}"
        by (metis (mono_tags, lifting) fst_conv image_eqI mem_Collect_eq snd_conv)
    qed
    moreover obtain r where "valid x = Inr r" using v Some by blast
    ultimately show ?thesis unfolding h'(3) Some by (cases r) auto
  qed
  with h'(1,2) show ?thesis by auto
qed

section \<open>One credential table\<close>

text \<open>
  The contract behind the three tables of credentials: a class of credentials with an id, a
  timestamp and a verification that always answers.
\<close>

locale credential_store =
  fixes wf :: "'c \<Rightarrow> bool"
    and idf :: "'c \<Rightarrow> u32"
    and tsf :: "'c \<Rightarrow> u64"
    and dflt :: 'c
    and ty :: credential_type
    and verify :: "env \<Rightarrow> 'c \<Rightarrow> (int \<times> address list) res"
  assumes verify_answers: "wf c \<Longrightarrow> 5728 \<le> length (e_mem e) \<Longrightarrow> \<exists>r ws. verify e c = Inr (r, ws)"
begin

text \<open>A credential is stored only when it verifies, is not older than the one stored and not revoked.\<close>

lemma add_law:
  assumes ok: "ht_ok hc_u32 creds" and c: "wf c" and e: "5728 \<le> length (e_mem e)"
  shows "\<exists>res h ws. addCredImpl idf tsf (verify e) dflt ty alloc creds revs c = Inr (res, h, ws) \<and> ht_ok hc_u32 h \<and>
    (if res = ADD_ACCEPTED_NEW then
       ht_get hc_u32 h = (ht_get hc_u32 creds)(idf c \<mapsto> c) \<and> verify e c = Inr (0, ws) \<and>
       (\<forall>old. ht_get hc_u32 creds (idf c) = Some old \<longrightarrow> sint (tsf old) \<le> sint (tsf c)) \<and>
       (\<forall>rt. ht_get hc_u64 revs (credentialKey ty (idf c)) = Some rt \<longrightarrow> sint rt < sint (tsf c))
     else h = creds)"
proof -
  obtain r ws where v: "verify e c = Inr (r, ws)" using verify_answers [OF c e] by blast
  let ?creds = "if ht_get hc_u32 creds (idf c) = None then snd (ht_ref hc_u32 alloc dflt (idf c) creds) else creds"
  obtain d hr where hr: "ht_ref hc_u32 alloc dflt (idf c) creds = (d, hr)" by (cases "ht_ref hc_u32 alloc dflt (idf c) creds")
  then have "ht_ok hc_u32 hr" "ht_get hc_u32 hr = (ht_get hc_u32 creds)(idf c \<mapsto> d)"
    using ht_ref_law [OF ok, where avail = alloc and ?v0.0 = dflt and k = "idf c"] by simp_all
  then have ok1: "ht_ok hc_u32 ?creds" and get1: "(ht_get hc_u32 ?creds)(idf c \<mapsto> c) = (ht_get hc_u32 creds)(idf c \<mapsto> c)"
    using ok hr by simp_all
  note set = ht_set_law [OF ok1, of alloc "idf c" c, unfolded get1]
  show ?thesis
    using v ok set by (auto simp: addCredImpl_def Let_def not_less not_le split: option.splits)
qed

end

interpretation tags: credential_store tag_ok tag_id tag_ts tag_zero CredTag
  "\<lambda>e. tag_verify (e_crypto e) (e_known e) (e_mem e)"
proof unfold_locales
  fix c e
  assume "tag_ok c" "5728 \<le> length (e_mem e)"
  then show "\<exists>r ws. tag_verify (e_crypto e) (e_known e) (e_mem e) c = Inr (r, ws)"
    using tag_signed.verify_total [of c "e_mem e" "e_crypto e" "e_known e"] by auto
qed

interpretation caps: credential_store cap_ok cap_id cap_ts cap_zero CredCapability
  "\<lambda>e. cap_verify (e_crypto e) (e_known e) (e_mem e)"
  by unfold_locales (use verify_chain in blast)

interpretation coos: credential_store coo_ok coo_id coo_ts coo_zero CredCoo
  "\<lambda>e. coo_verify (e_crypto e) (e_known e) (e_mem e)"
proof unfold_locales
  fix c e
  assume "coo_ok c" "5728 \<le> length (e_mem e)"
  then show "\<exists>r ws. coo_verify (e_crypto e) (e_known e) (e_mem e) c = Inr (r, ws)"
    using coo_signed.verify_total [of c "e_mem e" "e_crypto e" "e_known e"] by auto
qed

section \<open>Histories\<close>

datatype mem_event =
  EvCom env com | EvTag env tag | EvCap env capability | EvCoo env coo | EvRev env revocation |
  EvClean netconf | EvGate u64 | EvReset

inductive mem_step :: "mem_event \<Rightarrow> membership \<Rightarrow> membership \<Rightarrow> bool" where
  add_com: "mem_addCredential_com e c m = Inr (r, m', ws) \<Longrightarrow> mem_step (EvCom e c) m m'"
| add_tag: "mem_addCredential_tag e t m = Inr (r, m', ws) \<Longrightarrow> mem_step (EvTag e t) m m'"
| add_cap: "mem_addCredential_cap e cp m = Inr (r, m', ws) \<Longrightarrow> mem_step (EvCap e cp) m m'"
| add_coo: "mem_addCredential_coo e co m = Inr (r, m', ws) \<Longrightarrow> mem_step (EvCoo e co) m m'"
| add_rev: "mem_addCredential_rev e rv m = Inr (r, m', ws) \<Longrightarrow> mem_step (EvRev e rv) m m'"
| clean: "mem_clean nc m = Some (Inr m') \<Longrightarrow> mem_step (EvClean nc) m m'"
| gate: "mem_multicastLikeGate now m = Inr (b, m') \<Longrightarrow> mem_step (EvGate now) m m'"
| reset: "mem_step EvReset m (mem_resetPushState m)"

text \<open>What parsing delivers, checked in one of the environments \<open>E\<close>.\<close>

fun ev_ok :: "env set \<Rightarrow> mem_event \<Rightarrow> bool" where
  "ev_ok E (EvCom e c) \<longleftrightarrow> e \<in> E"
| "ev_ok E (EvTag e t) \<longleftrightarrow> e \<in> E \<and> 5728 \<le> length (e_mem e) \<and> tag_ok t"
| "ev_ok E (EvCap e c) \<longleftrightarrow> e \<in> E \<and> 5728 \<le> length (e_mem e) \<and> cap_ok c"
| "ev_ok E (EvCoo e c) \<longleftrightarrow> e \<in> E \<and> 5728 \<le> length (e_mem e) \<and> coo_ok c"
| "ev_ok E _ \<longleftrightarrow> True"

inductive mem_reach :: "env set \<Rightarrow> membership \<Rightarrow> membership \<Rightarrow> bool" for E m0 where
  start: "mem_reach E m0 m0"
| step: "mem_reach E m0 m \<Longrightarrow> mem_step ev m m' \<Longrightarrow> ev_ok E ev \<Longrightarrow> mem_reach E m0 m'"

inductive_cases mem_stepE: "mem_step ev m m'"

definition stored_ok :: "('c \<Rightarrow> bool) \<Rightarrow> ('c \<Rightarrow> u32) \<Rightarrow> (env \<Rightarrow> 'c \<Rightarrow> (int \<times> address list) res) \<Rightarrow> env set \<Rightarrow> (u32, 'c) hashtable \<Rightarrow> bool" where
  "stored_ok good idf verify E h \<longleftrightarrow> ht_ok hc_u32 h \<and>
     (\<forall>k c. ht_get hc_u32 h k = Some c \<longrightarrow> idf c = k \<and> good c \<and> (\<exists>e \<in> E. \<exists>ws. verify e c = Inr (0, ws)))"

definition mem_inv :: "env set \<Rightarrow> membership \<Rightarrow> bool" where
  "mem_inv E m \<longleftrightarrow>
     stored_ok tag_ok tag_id (\<lambda>e. tag_verify (e_crypto e) (e_known e) (e_mem e)) E (m_remoteTags m) \<and>
     stored_ok cap_ok cap_id (\<lambda>e. cap_verify (e_crypto e) (e_known e) (e_mem e)) E (m_remoteCaps m) \<and>
     stored_ok coo_ok coo_id (\<lambda>e. coo_verify (e_crypto e) (e_known e) (e_mem e)) E (m_remoteCoos m) \<and>
     ht_ok hc_u64 (m_revocations m) \<and>
     (m_com m = com_empty \<or> (\<exists>e \<in> E. \<exists>ws. com_verify (e_crypto e) (e_known e) (m_com m) = Inr (0, ws)))"

context credential_store
begin

lemma add_stored:
  assumes "stored_ok wf idf verify E creds" "wf c" "e \<in> E" "5728 \<le> length (e_mem e)"
    and "addCredImpl idf tsf (verify e) dflt ty alloc creds revs c = Inr (res, h, ws)"
  shows "stored_ok wf idf verify E h"
proof -
  have ok: "ht_ok hc_u32 creds" using assms(1) by (simp add: stored_ok_def)
  from add_law [OF ok assms(2,4), of alloc revs] assms(5) have
    "ht_ok hc_u32 h" "if res = ADD_ACCEPTED_NEW then ht_get hc_u32 h = (ht_get hc_u32 creds)(idf c \<mapsto> c) \<and> verify e c = Inr (0, ws) else h = creds"
    by auto
  with assms(1-3) show ?thesis by (cases "res = ADD_ACCEPTED_NEW") (auto simp: stored_ok_def)
qed

end

lemma clean_loop_sub:
  "ht_ok hc_u32 h \<Longrightarrow> clean_loop valid n h it = Some (Inr h') \<Longrightarrow>
    ht_ok hc_u32 h' \<and> (\<forall>k x. ht_get hc_u32 h' k = Some x \<longrightarrow> ht_get hc_u32 h k = Some x)"
proof (induction n arbitrary: h it)
  case (Suc n)
  show ?case
  proof (cases "ht_next h it")
    case None
    then show ?thesis using Suc.prems by simp
  next
    case (Some x)
    obtain k v it' where x: "x = ((k, v), it')" by (cases x) auto
    from Suc.prems(2) Some x obtain ok where
      "clean_loop valid n (if ok then h else snd (ht_erase hc_u32 k h)) it' = Some (Inr h')"
      by (auto split: sum.splits)
    note IH = Suc.IH [OF _ this]
    show ?thesis
    proof (cases ok)
      case True
      with IH Suc.prems(1) show ?thesis by simp
    next
      case False
      with IH ht_erase_law [OF Suc.prems(1), of k] show ?thesis
        by (simp add: fun_upd_def) (metis option.distinct(1))
    qed
  qed
qed simp

lemma clean_stored: "stored_ok good idf verify E h \<Longrightarrow> cleanCredImpl valid h = Some (Inr h') \<Longrightarrow> stored_ok good idf verify E h'"
  unfolding cleanCredImpl_def stored_ok_def using clean_loop_sub [of h valid] by blast

lemma opt_bind_Inr: "opt_bind x f = Some (Inr z) \<longleftrightarrow> (\<exists>y. x = Some (Inr y) \<and> f y = Some (Inr z))"
  by (auto simp: opt_bind_def split: option.splits sum.splits)

text \<open>What a verified revocation of a tag, capability or certificate of ownership does.\<close>

lemma mem_revoke_law:
  assumes "ht_ok hc_u64 (m_revocations m)" "mem_revoke e ct r m = (res, m')"
  defines "key \<equiv> credentialKey ct (rev_credentialId r)"
  defines "old \<equiv> (case ht_get hc_u64 (m_revocations m) key of None \<Rightarrow> 0 | Some th \<Rightarrow> th)"
  shows "ht_ok hc_u64 (m_revocations m')"
    and "ht_get hc_u64 (m_revocations m') = (ht_get hc_u64 (m_revocations m))(key \<mapsto> if sint old < sint (rev_threshold r) then rev_threshold r else old)"
    and "m' = m\<lparr>m_revocations := m_revocations m', m_comRevocationThreshold := m_comRevocationThreshold m'\<rparr>"
    and "sint old < sint (rev_threshold r) \<Longrightarrow> res = ADD_ACCEPTED_NEW \<and> m_comRevocationThreshold m' = rev_threshold r"
proof -
  obtain rt revs where x: "ht_ref hc_u64 (e_alloc e) 0 key (m_revocations m) = (rt, revs)" by fastforce
  then have rt: "rt = old" "ht_ok hc_u64 revs" "ht_get hc_u64 revs = (ht_get hc_u64 (m_revocations m))(key \<mapsto> rt)"
    using ht_ref_law [OF assms(1), where avail = "e_alloc e" and ?v0.0 = 0 and k = key] by (simp_all add: old_def)
  note st = ht_set_law [OF rt(2), of "e_alloc e" key "rev_threshold r"]
  show "ht_ok hc_u64 (m_revocations m')"
    "ht_get hc_u64 (m_revocations m') = (ht_get hc_u64 (m_revocations m))(key \<mapsto> if sint old < sint (rev_threshold r) then rev_threshold r else old)"
    "m' = m\<lparr>m_revocations := m_revocations m', m_comRevocationThreshold := m_comRevocationThreshold m'\<rparr>"
    "sint old < sint (rev_threshold r) \<Longrightarrow> res = ADD_ACCEPTED_NEW \<and> m_comRevocationThreshold m' = rev_threshold r"
    using assms(2) x rt st by (auto simp: mem_revoke_def Let_def key_def split: if_splits)
qed

lemma mem_revoke_cases:
  assumes "mem_addCredential_rev e r m = Inr (res, m', ws)"
  shows "m' = m \<or> m' = m\<lparr>m_comRevocationThreshold := rev_threshold r\<rparr> \<or> (\<exists>ct. mem_revoke e ct r m = (res, m'))"
  using assms by (auto simp: mem_addCredential_rev_def res_bind_Inr_iff split: if_splits option.splits credential_type.splits prod.splits)

lemma mem_inv_step:
  assumes inv: "mem_inv E m" and st: "mem_step ev m m'" and ok: "ev_ok E ev"
  shows "mem_inv E m'"
  using st
proof (cases rule: mem_step.cases)
  case (add_com e c r ws)
  with inv ok show ?thesis
    by (auto simp: mem_addCredential_com_def mem_inv_def res_bind_Inr_iff split: if_splits prod.splits)
next
  case (add_tag e t r ws)
  with inv ok show ?thesis
    by (auto simp: mem_addCredential_tag_def mem_inv_def res_bind_Inr_iff intro: tags.add_stored split: prod.splits)
next
  case (add_cap e c r ws)
  with inv ok show ?thesis
    by (auto simp: mem_addCredential_cap_def mem_inv_def res_bind_Inr_iff intro: caps.add_stored split: prod.splits)
next
  case (add_coo e c r ws)
  with inv ok show ?thesis
    by (auto simp: mem_addCredential_coo_def mem_inv_def res_bind_Inr_iff intro: coos.add_stored split: prod.splits)
next
  case (add_rev e rv r ws)
  from mem_revoke_cases [OF add_rev(2)] show ?thesis
  proof (elim disjE exE)
    fix ct assume "mem_revoke e ct rv m = (r, m')"
    moreover have "ht_ok hc_u64 (m_revocations m)" using inv by (simp add: mem_inv_def)
    ultimately have m': "ht_ok hc_u64 (m_revocations m')"
      "m' = m\<lparr>m_revocations := m_revocations m', m_comRevocationThreshold := m_comRevocationThreshold m'\<rparr>"
      using mem_revoke_law by blast+
    show ?thesis using inv m'(1) by (subst m'(2)) (simp add: mem_inv_def)
  qed (use inv in \<open>simp_all add: mem_inv_def\<close>)
next
  case (clean nc)
  with inv show ?thesis
    by (auto simp: mem_clean_def mem_inv_def opt_bind_Inr intro: clean_stored)
next
  case (gate now b)
  with inv show ?thesis
    by (auto simp: mem_multicastLikeGate_def mem_inv_def res_bind_Inr_iff split: if_splits)
next
  case reset
  with inv show ?thesis by (simp add: mem_resetPushState_def mem_inv_def)
qed

lemma mem_inv_reach: "mem_reach E m0 m \<Longrightarrow> mem_inv E m0 \<Longrightarrow> mem_inv E m"
  by (induction rule: mem_reach.induct) (auto intro: mem_inv_step)

lemma mem_new_inv:
  assumes "mem_new alloc = Inr m"
  shows "mem_inv E m"
proof -
  have n: "ht_ok hc h \<and> ht_get hc h = Map.empty" if "ht_new alloc 4 = Inr h" for h :: "('k, 'v) hashtable" and hc
    using ht_new_ok [OF that] by simp
  obtain rv tg cp co where h: "ht_new alloc 4 = Inr (rv :: (u64, u64) hashtable)" "ht_new alloc 4 = Inr (tg :: (u32, tag) hashtable)"
    "ht_new alloc 4 = Inr (cp :: (u32, capability) hashtable)" "ht_new alloc 4 = Inr (co :: (u32, coo) hashtable)"
    "m = mem_resetPushState \<lparr>m_lastUpdatedMulticast = 0, m_lastPushedCom = 0, m_comRevocationThreshold = 0,
       m_com = com_empty, m_revocations = rv, m_remoteTags = tg, m_remoteCaps = cp, m_remoteCoos = co,
       m_pushedTag = [], m_pushedCap = [], m_pushedCoo = []\<rparr>"
    using assms by (auto simp: mem_new_def res_bind_Inr_iff)
  show ?thesis
    using n [OF h(1), of hc_u64] n [OF h(2), of hc_u32] n [OF h(3), of hc_u32] n [OF h(4), of hc_u32]
    by (simp add: h(5) mem_resetPushState_def mem_inv_def stored_ok_def)
qed

section \<open>Revocations only grow\<close>

lemma revs_unchanged:
  assumes "mem_step ev m m'" "\<forall>e r. ev \<noteq> EvRev e r"
  shows "m_revocations m' = m_revocations m"
  using assms
  by (cases rule: mem_step.cases)
    (auto simp: mem_addCredential_com_def mem_addCredential_tag_def mem_addCredential_cap_def mem_addCredential_coo_def
      mem_clean_def mem_multicastLikeGate_def mem_resetPushState_def res_bind_Inr_iff opt_bind_Inr split: if_splits prod.splits)

lemma revs_grow:
  assumes "ht_ok hc_u64 (m_revocations m)" "mem_step ev m m'" "ht_get hc_u64 (m_revocations m) key = Some th"
  shows "\<exists>th'. ht_get hc_u64 (m_revocations m') key = Some th' \<and> sint th \<le> sint th'"
proof (cases "\<exists>e r. ev = EvRev e r")
  case False
  then show ?thesis using revs_unchanged [OF assms(2)] assms(3) by auto
next
  case True
  with assms(2) obtain e r res ws where "mem_addCredential_rev e r m = Inr (res, m', ws)"
    by (auto elim: mem_step.cases)
  from mem_revoke_cases [OF this] show ?thesis
  proof (elim disjE exE)
    fix ct assume "mem_revoke e ct r m = (res, m')"
    from mem_revoke_law(2) [OF assms(1) this] assms(3) show ?thesis by auto
  qed (use assms(3) in auto)
qed

lemma revs_grow_reach:
  assumes "mem_reach E m0 m" "mem_inv E m0" "ht_get hc_u64 (m_revocations m0) key = Some th"
  shows "\<exists>th'. ht_get hc_u64 (m_revocations m) key = Some th' \<and> sint th \<le> sint th'"
  using assms
proof (induction rule: mem_reach.induct)
  case (step m ev m')
  then obtain th' where th': "ht_get hc_u64 (m_revocations m) key = Some th'" "sint th \<le> sint th'" by blast
  have "ht_ok hc_u64 (m_revocations m)" using mem_inv_reach [OF step.hyps(1) step.prems(1)] by (simp add: mem_inv_def)
  from revs_grow [OF this step.hyps(2) th'(1)] th'(2) show ?case by (meson order_trans)
qed auto

lemma revoked_invalid:
  assumes "ht_get hc_u64 revs (credentialKey ct i) = Some th" "sint ts \<le> sint th"
  shows "isCredentialTimestampValid revs nc ct i ts \<noteq> Inr True"
  using assms by (auto simp: isCredentialTimestampValid_def res_bind_Inr_iff)

section \<open>Properties\<close>

text \<open>
  C9. Whatever credentials and revocations arrive in whatever order, with cleaning in between, a
  membership only ever holds credentials that verified when they were added, each tag, capability
  and certificate of ownership under its own id.
\<close>

theorem membership_authentic:
  assumes "mem_new alloc = Inr m0" "mem_reach E m0 m"
  shows "(\<forall>k t. ht_get hc_u32 (m_remoteTags m) k = Some t \<longrightarrow> tag_id t = k \<and> tag_ok t \<and>
       (\<exists>e \<in> E. \<exists>ws. tag_verify (e_crypto e) (e_known e) (e_mem e) t = Inr (0, ws))) \<and>
    (\<forall>k c. ht_get hc_u32 (m_remoteCaps m) k = Some c \<longrightarrow> cap_id c = k \<and> cap_ok c \<and>
       (\<exists>e \<in> E. \<exists>ws. cap_verify (e_crypto e) (e_known e) (e_mem e) c = Inr (0, ws))) \<and>
    (\<forall>k c. ht_get hc_u32 (m_remoteCoos m) k = Some c \<longrightarrow> coo_id c = k \<and> coo_ok c \<and>
       (\<exists>e \<in> E. \<exists>ws. coo_verify (e_crypto e) (e_known e) (e_mem e) c = Inr (0, ws))) \<and>
    (m_com m = com_empty \<or> (\<exists>e \<in> E. \<exists>ws. com_verify (e_crypto e) (e_known e) (m_com m) = Inr (0, ws)))"
  using mem_inv_reach [OF assms(2) mem_new_inv [OF assms(1)]] by (simp add: mem_inv_def stored_ok_def)

definition env_sample :: env where
  "env_sample = \<lparr>e_crypto = toy_crypto, e_known = (\<lambda>a. id_sample), e_mem = replicate 5728 0, e_alloc = True\<rparr>"

lemma mem_new_sample:
  "\<exists>m. mem_new True = Inr m \<and> ht_ok hc_u32 (m_remoteTags m) \<and> ht_get hc_u32 (m_remoteTags m) = Map.empty \<and>
     ht_get hc_u32 (m_remoteCaps m) = Map.empty \<and> ht_get hc_u32 (m_remoteCoos m) = Map.empty \<and>
     ht_ok hc_u64 (m_revocations m) \<and> ht_get hc_u64 (m_revocations m) = Map.empty"
proof -
  obtain m where m: "mem_new True = Inr m" by (auto simp: mem_new_def ht_new_def malloc_ok_def)
  then show ?thesis
    using ht_new_ok [of True 4, where 'a = u32 and 'b = tag and hc = hc_u32]
      ht_new_ok [of True 4, where 'a = u32 and 'b = capability and hc = hc_u32]
      ht_new_ok [of True 4, where 'a = u32 and 'b = coo and hc = hc_u32]
      ht_new_ok [of True 4, where 'a = u64 and 'b = u64 and hc = hc_u64]
    by (auto simp: mem_new_def res_bind_Inr_iff mem_resetPushState_def)
qed

lemma sample_controller: "controllerFor 0x8056c2e21c000001 = Address 0x8056c2e21c" "id_valid id_sample"
  by (simp_all add: controllerFor_def addr_new_def id_valid_def id_sample_def)

text \<open>Tags signed by the sample controller, and a configuration under which those near time 1500 are valid.\<close>

definition tag_unsigned :: "u32 \<Rightarrow> u64 \<Rightarrow> tag" where
  "tag_unsigned i ts = tag_sample\<lparr>tag_id := i, tag_ts := ts, tag_signedBy := Address 0x8056c2e21c\<rparr>"

definition tag_signed_sample :: "u32 \<Rightarrow> u64 \<Rightarrow> tag" where
  "tag_signed_sample i ts = (tag_unsigned i ts)\<lparr>tag_signature := replicate 96 (foldl (+) 0 (tag_msg (tag_unsigned i ts)))\<rparr>"

definition nc_sample :: netconf where
  "nc_sample = netconf_zero\<lparr>nc_timestamp := 1500, nc_credentialTimeMaxDelta := 100\<rparr>"

lemma tag_signed_sample_ok:
  "tag_ok (tag_signed_sample i ts)" "tag_verify toy_crypto (\<lambda>a. id_sample) (replicate 5728 0) (tag_signed_sample i ts) = Inr (0, [])"
  "tag_id (tag_signed_sample i ts) = i" "tag_ts (tag_signed_sample i ts) = ts"
proof -
  show ok: "tag_ok (tag_signed_sample i ts)"
    by (simp add: tag_ok_def tag_signed_sample_def tag_unsigned_def tag_sample_def tag_new_def addr_ok_def)
  have msg: "tag_msg (tag_signed_sample i ts) = tag_msg (tag_unsigned i ts)"
    unfolding tag_signed_sample_def by (rule tag_signed.fields)
  show "tag_verify toy_crypto (\<lambda>a. id_sample) (replicate 5728 0) (tag_signed_sample i ts) = Inr (0, [])"
    using tag_signed.verify_law [OF ok, of "replicate 5728 0" toy_crypto "\<lambda>a. id_sample"] sample_controller
    by (simp add: cred_verify_def msg)
      (simp add: tag_signed_sample_def tag_unsigned_def tag_sample_def tag_new_def id_verify_def toy_crypto_def)
  show "tag_id (tag_signed_sample i ts) = i" "tag_ts (tag_signed_sample i ts) = ts"
    by (simp_all add: tag_signed_sample_def tag_unsigned_def)
qed

lemma add_tag_sample:
  assumes ok: "ht_ok hc_u32 (m_remoteTags m)"
    and new: "ht_get hc_u32 (m_remoteTags m) i = None" "ht_get hc_u64 (m_revocations m) = Map.empty"
  shows "\<exists>h. mem_addCredential_tag env_sample (tag_signed_sample i ts) m =
      Inr (ADD_ACCEPTED_NEW, m\<lparr>m_remoteTags := h\<rparr>, []) \<and>
    ht_ok hc_u32 h \<and> ht_get hc_u32 h = (ht_get hc_u32 (m_remoteTags m))(i \<mapsto> tag_signed_sample i ts) \<and>
    ev_ok {env_sample} (EvTag env_sample (tag_signed_sample i ts))"
proof -
  let ?t = "tag_signed_sample i ts"
  have e: "5728 \<le> length (e_mem env_sample)" by (simp add: env_sample_def)
  have v: "tag_verify (e_crypto env_sample) (e_known env_sample) (e_mem env_sample) ?t = Inr (0, [])"
    using tag_signed_sample_ok(2) by (simp add: env_sample_def)
  obtain res h ws where h: "addCredImpl tag_id tag_ts (tag_verify (e_crypto env_sample) (e_known env_sample) (e_mem env_sample))
      tag_zero CredTag (e_alloc env_sample) (m_remoteTags m) (m_revocations m) ?t = Inr (res, h, ws)" "ht_ok hc_u32 h"
    and g: "res = ADD_ACCEPTED_NEW \<Longrightarrow> ht_get hc_u32 h = (ht_get hc_u32 (m_remoteTags m))(i \<mapsto> ?t)"
    using tags.add_law [OF ok tag_signed_sample_ok(1) [of i ts] e, of "e_alloc env_sample" "m_revocations m"]
    by (auto simp: tag_signed_sample_ok(3))
  have "res = ADD_ACCEPTED_NEW" "ws = []"
    using h(1) v new by (auto simp: addCredImpl_def tag_signed_sample_ok(3,4) Let_def)
  with h g e show ?thesis by (auto simp: mem_addCredential_tag_def tag_signed_sample_ok(1))
qed

theorem membership_authentic_witness:
  "\<exists>m0 m1. mem_new True = Inr m0 \<and>
     mem_addCredential_tag env_sample (tag_signed_sample 7 1500) m0 = Inr (ADD_ACCEPTED_NEW, m1, []) \<and>
     ht_get hc_u32 (m_remoteTags m1) 7 = Some (tag_signed_sample 7 1500) \<and>
     (\<exists>ws. tag_verify (e_crypto env_sample) (e_known env_sample) (e_mem env_sample) (tag_signed_sample 7 1500) = Inr (0, ws))"
proof -
  obtain m0 where m0: "mem_new True = Inr m0" "ht_ok hc_u32 (m_remoteTags m0)" "ht_get hc_u32 (m_remoteTags m0) = Map.empty"
    "ht_get hc_u64 (m_revocations m0) = Map.empty" using mem_new_sample by blast
  obtain h where h: "mem_addCredential_tag env_sample (tag_signed_sample 7 1500) m0 =
      Inr (ADD_ACCEPTED_NEW, m0\<lparr>m_remoteTags := h\<rparr>, [])"
    "ht_get hc_u32 h = [7 \<mapsto> tag_signed_sample 7 1500]" "ev_ok {env_sample} (EvTag env_sample (tag_signed_sample 7 1500))"
    using add_tag_sample [OF m0(2), of 7 1500] m0(3,4) by auto
  note reach = mem_reach.step [OF mem_reach.start add_tag [OF h(1)] h(3)]
  from membership_authentic [OF m0(1) reach] h(2)
  have "\<exists>ws. tag_verify (e_crypto env_sample) (e_known env_sample) (e_mem env_sample) (tag_signed_sample 7 1500) = Inr (0, ws)"
    by simp
  with m0(1) h(1,2) show ?thesis by auto
qed

text \<open>
  C8. A revocation is permanent: once a verified revocation of a tag, capability or certificate of
  ownership has arrived, no credential of that type and id with a timestamp up to the threshold is
  valid any more, in no later state and under no configuration; it is not returned by \<open>getTag\<close>, and
  adding it again is not accepted as new.
\<close>

theorem membership_revocation_permanent:
  assumes "mem_new alloc = Inr m0" "mem_reach E m0 m"
    and "rev_verify (e_crypto e) (e_known e) (e_mem e) r = Inr (0, ws)"
    and "mem_addCredential_rev e r m = Inr (res, m1, ws')"
    and "rev_target_type (rev_type r) = Some ct" "ct \<noteq> CredCom"
    and "mem_reach E m1 m2" "sint ts \<le> sint (rev_threshold r)"
  shows "isCredentialTimestampValid (m_revocations m2) nc ct (rev_credentialId r) ts \<noteq> Inr True \<and>
    (\<forall>t. ct = CredTag \<and> tag_id t = rev_credentialId r \<and> tag_ts t = ts \<longrightarrow>
       mem_getTag nc (tag_id t) m2 \<noteq> Inr (Some t) \<and>
       (\<forall>e m3 ws. mem_addCredential_tag e t m2 \<noteq> Inr (ADD_ACCEPTED_NEW, m3, ws)))"
proof -
  have inv: "mem_inv E m" using mem_inv_reach [OF assms(2) mem_new_inv [OF assms(1)]] .
  then have ok: "ht_ok hc_u64 (m_revocations m)" by (simp add: mem_inv_def)
  let ?key = "credentialKey ct (rev_credentialId r)"
  have rv: "mem_revoke e ct r m = (res, m1)"
    using assms(3-6) by (cases ct) (auto simp: mem_addCredential_rev_def split: prod.splits)
  have inv1: "mem_inv E m1" using mem_inv_step [OF inv add_rev [OF assms(4)]] by simp
  obtain th where th: "ht_get hc_u64 (m_revocations m1) ?key = Some th" "sint (rev_threshold r) \<le> sint th"
    using mem_revoke_law(2) [OF ok rv] by (auto simp: not_less split: if_splits)
  obtain th2 where th2: "ht_get hc_u64 (m_revocations m2) ?key = Some th2" "sint th \<le> sint th2"
    using revs_grow_reach [OF assms(7) inv1 th(1)] by blast
  have le: "sint ts \<le> sint th2" using assms(8) th(2) th2(2) by simp
  note bad = revoked_invalid [OF th2(1) le]
  have "mem_getTag nc (tag_id t) m2 \<noteq> Inr (Some t)"
    if "ct = CredTag" "tag_id t = rev_credentialId r" "tag_ts t = ts" for t
    using bad [of nc] that by (auto simp: mem_getTag_def tag_current_def res_bind_Inr_iff split: option.splits if_splits)
  moreover have "mem_addCredential_tag e' t m2 \<noteq> Inr (ADD_ACCEPTED_NEW, m3, ws)"
    if "ct = CredTag" "tag_id t = rev_credentialId r" "tag_ts t = ts" for t e' m3 ws
    using th2(1) le that
    by (auto simp: mem_addCredential_tag_def addCredImpl_def Let_def res_bind_Inr_iff not_less split: option.splits if_splits prod.splits)
  ultimately show ?thesis using bad by blast
qed

text \<open>A revocation of tag 7 with threshold 2000, signed by the sample controller.\<close>

definition rev_unsigned :: revocation where
  "rev_unsigned = rev_sample\<lparr>rev_type := 3, rev_signedBy := Address 0x8056c2e21c\<rparr>"

definition rev_signed_sample :: revocation where
  "rev_signed_sample = rev_unsigned\<lparr>rev_signature := replicate 96 (foldl (+) 0 (rev_msg rev_unsigned))\<rparr>"

lemma rev_signed_sample_ok:
  "rev_ok rev_signed_sample" "rev_verify toy_crypto (\<lambda>a. id_sample) (replicate 5728 0) rev_signed_sample = Inr (0, [])"
proof -
  show ok: "rev_ok rev_signed_sample"
    by (simp add: rev_ok_def rev_signed_sample_def rev_unsigned_def rev_sample_def addr_ok_def)
  have msg: "rev_msg rev_signed_sample = rev_msg rev_unsigned"
    unfolding rev_signed_sample_def by (rule rev_signed.fields)
  show "rev_verify toy_crypto (\<lambda>a. id_sample) (replicate 5728 0) rev_signed_sample = Inr (0, [])"
    using rev_signed.verify_law [OF ok, of "replicate 5728 0" toy_crypto "\<lambda>a. id_sample"] sample_controller
    by (simp add: cred_verify_def msg) (simp add: rev_signed_sample_def rev_unsigned_def rev_sample_def id_verify_def toy_crypto_def)
qed

lemma rev_signed_sample_fields:
  "rev_type rev_signed_sample = 3" "rev_threshold rev_signed_sample = 2000" "rev_credentialId rev_signed_sample = 7"
  by (simp_all add: rev_signed_sample_def rev_unsigned_def rev_sample_def)

lemma nc_sample_valid:
  "ht_get hc_u64 revs (credentialKey CredTag i) = None \<Longrightarrow> isCredentialTimestampValid revs nc_sample CredTag i 1500 = Inr True"
  "isCredentialTimestampValid revs nc_sample CredTag i 9000 = Inr False"
  by (simp_all add: isCredentialTimestampValid_def nc_sample_def i64_sub_def Let_def)

theorem membership_revocation_permanent_witness:
  "\<exists>m0 m m1. mem_new True = Inr m0 \<and>
     mem_addCredential_tag env_sample (tag_signed_sample 7 1500) m0 = Inr (ADD_ACCEPTED_NEW, m, []) \<and>
     mem_getTag nc_sample 7 m = Inr (Some (tag_signed_sample 7 1500)) \<and>
     mem_addCredential_rev env_sample rev_signed_sample m = Inr (ADD_ACCEPTED_NEW, m1, []) \<and>
     isCredentialTimestampValid (m_revocations m1) nc_sample CredTag 7 1500 \<noteq> Inr True \<and>
     mem_getTag nc_sample 7 m1 \<noteq> Inr (Some (tag_signed_sample 7 1500))"
proof -
  let ?t = "tag_signed_sample 7 1500"
  obtain m0 where m0: "mem_new True = Inr m0" "ht_ok hc_u32 (m_remoteTags m0)" "ht_get hc_u32 (m_remoteTags m0) = Map.empty"
    "ht_ok hc_u64 (m_revocations m0)" "ht_get hc_u64 (m_revocations m0) = Map.empty" using mem_new_sample by blast
  obtain h where h: "mem_addCredential_tag env_sample ?t m0 = Inr (ADD_ACCEPTED_NEW, m0\<lparr>m_remoteTags := h\<rparr>, [])"
    "ht_get hc_u32 h = [7 \<mapsto> ?t]" "ev_ok {env_sample} (EvTag env_sample ?t)"
    using add_tag_sample [OF m0(2), of 7 1500] m0(3,5) by auto
  let ?m = "m0\<lparr>m_remoteTags := h\<rparr>"
  note reach = mem_reach.step [OF mem_reach.start add_tag [OF h(1)] h(3)]
  have get: "mem_getTag nc_sample 7 ?m = Inr (Some ?t)"
    using h(2) m0(5) by (simp add: mem_getTag_def tag_current_def tag_signed_sample_ok(3,4) nc_sample_valid(1))
  have v: "rev_verify (e_crypto env_sample) (e_known env_sample) (e_mem env_sample) rev_signed_sample = Inr (0, [])"
    using rev_signed_sample_ok(2) by (simp add: env_sample_def)
  have t: "rev_target_type (rev_type rev_signed_sample) = Some CredTag" by (simp add: rev_target_type_def rev_signed_sample_fields)
  obtain res m1 where rv: "mem_revoke env_sample CredTag rev_signed_sample ?m = (res, m1)" by fastforce
  have res: "res = ADD_ACCEPTED_NEW"
    using mem_revoke_law(4) [OF _ rv] m0(4,5) by (simp add: rev_signed_sample_fields)
  have add: "mem_addCredential_rev env_sample rev_signed_sample ?m = Inr (ADD_ACCEPTED_NEW, m1, [])"
    using v t rv res by (simp add: mem_addCredential_rev_def)
  have "sint (1500 :: u64) \<le> sint (rev_threshold rev_signed_sample)" by (simp add: rev_signed_sample_fields)
  from membership_revocation_permanent [OF m0(1) reach v add t _ mem_reach.start this, of nc_sample]
  have "isCredentialTimestampValid (m_revocations m1) nc_sample CredTag 7 1500 \<noteq> Inr True"
    "mem_getTag nc_sample 7 m1 \<noteq> Inr (Some ?t)"
    by (auto simp: rev_signed_sample_fields tag_signed_sample_ok(3,4) dest: spec [of _ ?t])
  with m0(1) h(1) get add show ?thesis by blast
qed

text \<open>
  C23. \<open>clean\<close> ends, although it erases from the tables over which it iterates, and keeps exactly
  the credentials that are valid under the configuration; no lookup can tell the difference.  The
  timestamps of the configuration and of the stored credentials are assumed not to be negative, so
  that the signed difference of two of them cannot overflow; the bound on the steps of \<open>clean_loop\<close>,
  one more than the entries of the table, is shown to suffice.
\<close>

definition stamped :: "('c \<Rightarrow> u64) \<Rightarrow> (u32, 'c) hashtable \<Rightarrow> bool" where
  "stamped tsf h \<longleftrightarrow> (\<forall>k c. ht_get hc_u32 h k = Some c \<longrightarrow> 0 \<le> sint (tsf c))"

lemma valid_total:
  assumes "0 \<le> sint ts" "0 \<le> sint (nc_timestamp nc)"
  shows "\<exists>r. isCredentialTimestampValid revs nc ct i ts = Inr r"
proof -
  have "sint ts < 2 ^ 63" "sint (nc_timestamp nc) < 2 ^ 63" using sint_lt [of ts] sint_lt [of "nc_timestamp nc"] by simp_all
  with assms show ?thesis by (simp add: isCredentialTimestampValid_def i64_sub_def Let_def)
qed

theorem membership_clean:
  assumes "mem_new alloc = Inr m0" "mem_reach E m0 m" "0 \<le> sint (nc_timestamp nc)"
    and "stamped tag_ts (m_remoteTags m)" "stamped cap_ts (m_remoteCaps m)" "stamped coo_ts (m_remoteCoos m)"
  shows "\<exists>m'. mem_clean nc m = Some (Inr m') \<and> m_revocations m' = m_revocations m \<and> m_com m' = m_com m \<and>
    (\<forall>k. ht_get hc_u32 (m_remoteTags m') k =
       (case ht_get hc_u32 (m_remoteTags m) k of None \<Rightarrow> None | Some t \<Rightarrow> if tag_current m nc t = Inr True then Some t else None)) \<and>
    (\<forall>k. ht_get hc_u32 (m_remoteCaps m') k =
       (case ht_get hc_u32 (m_remoteCaps m) k of None \<Rightarrow> None | Some c \<Rightarrow> if cap_current m nc c = Inr True then Some c else None)) \<and>
    (\<forall>k. ht_get hc_u32 (m_remoteCoos m') k =
       (case ht_get hc_u32 (m_remoteCoos m) k of None \<Rightarrow> None | Some c \<Rightarrow> if coo_current m nc c = Inr True then Some c else None)) \<and>
    (\<forall>k. mem_getTag nc k m' = mem_getTag nc k m)"
proof -
  have inv: "mem_inv E m" using mem_inv_reach [OF assms(2) mem_new_inv [OF assms(1)]] .
  then have ok: "ht_ok hc_u32 (m_remoteTags m)" "ht_ok hc_u32 (m_remoteCaps m)" "ht_ok hc_u32 (m_remoteCoos m)"
    by (simp_all add: mem_inv_def stored_ok_def)
  have v: "\<forall>k t. ht_get hc_u32 (m_remoteTags m) k = Some t \<longrightarrow> (\<exists>r. tag_current m nc t = Inr r)"
    "\<forall>k c. ht_get hc_u32 (m_remoteCaps m) k = Some c \<longrightarrow> (\<exists>r. cap_current m nc c = Inr r)"
    "\<forall>k c. ht_get hc_u32 (m_remoteCoos m) k = Some c \<longrightarrow> (\<exists>r. coo_current m nc c = Inr r)"
    using assms(3-6) valid_total by (auto simp: stamped_def tag_current_def cap_current_def coo_current_def)
  obtain tg cp co where h: "cleanCredImpl (tag_current m nc) (m_remoteTags m) = Some (Inr tg)"
    "cleanCredImpl (cap_current m nc) (m_remoteCaps m) = Some (Inr cp)"
    "cleanCredImpl (coo_current m nc) (m_remoteCoos m) = Some (Inr co)"
    and g: "ht_get hc_u32 tg = (\<lambda>k. case ht_get hc_u32 (m_remoteTags m) k of None \<Rightarrow> None | Some x \<Rightarrow> if tag_current m nc x = Inr True then Some x else None)"
    "ht_get hc_u32 cp = (\<lambda>k. case ht_get hc_u32 (m_remoteCaps m) k of None \<Rightarrow> None | Some x \<Rightarrow> if cap_current m nc x = Inr True then Some x else None)"
    "ht_get hc_u32 co = (\<lambda>k. case ht_get hc_u32 (m_remoteCoos m) k of None \<Rightarrow> None | Some x \<Rightarrow> if coo_current m nc x = Inr True then Some x else None)"
    using cleanCredImpl_law [OF ok(1) v(1)] cleanCredImpl_law [OF ok(2) v(2)] cleanCredImpl_law [OF ok(3) v(3)] by metis
  let ?m = "m\<lparr>m_remoteTags := tg, m_remoteCaps := cp, m_remoteCoos := co\<rparr>"
  have "mem_clean nc m = Some (Inr ?m)" using h by (simp add: mem_clean_def opt_bind_def)
  moreover have "mem_getTag nc k ?m = mem_getTag nc k m" for k
  proof (cases "ht_get hc_u32 (m_remoteTags m) k")
    case None
    then show ?thesis by (simp add: mem_getTag_def g)
  next
    case (Some t)
    obtain r where "tag_current m nc t = Inr r" using v(1) Some by blast
    with Some show ?thesis by (cases r) (simp_all add: mem_getTag_def g tag_current_def)
  qed
  ultimately show ?thesis using g by auto
qed

theorem membership_clean_witness:
  "\<exists>m0 m1 m m'. mem_new True = Inr m0 \<and>
     mem_addCredential_tag env_sample (tag_signed_sample 7 1500) m0 = Inr (ADD_ACCEPTED_NEW, m1, []) \<and>
     mem_addCredential_tag env_sample (tag_signed_sample 8 9000) m1 = Inr (ADD_ACCEPTED_NEW, m, []) \<and>
     mem_clean nc_sample m = Some (Inr m') \<and>
     ht_get hc_u32 (m_remoteTags m) = [7 \<mapsto> tag_signed_sample 7 1500, 8 \<mapsto> tag_signed_sample 8 9000] \<and>
     ht_get hc_u32 (m_remoteTags m') = [7 \<mapsto> tag_signed_sample 7 1500]"
proof -
  let ?t = "tag_signed_sample 7 1500" and ?u = "tag_signed_sample 8 9000"
  obtain m0 where m0: "mem_new True = Inr m0" "ht_ok hc_u32 (m_remoteTags m0)" "ht_get hc_u32 (m_remoteTags m0) = Map.empty"
    "ht_get hc_u32 (m_remoteCaps m0) = Map.empty" "ht_get hc_u32 (m_remoteCoos m0) = Map.empty"
    "ht_get hc_u64 (m_revocations m0) = Map.empty" using mem_new_sample by blast
  obtain h where h: "mem_addCredential_tag env_sample ?t m0 = Inr (ADD_ACCEPTED_NEW, m0\<lparr>m_remoteTags := h\<rparr>, [])"
    "ht_ok hc_u32 h" "ht_get hc_u32 h = [7 \<mapsto> ?t]" "ev_ok {env_sample} (EvTag env_sample ?t)"
    using add_tag_sample [OF m0(2), of 7 1500] m0(3,6) by auto
  let ?m1 = "m0\<lparr>m_remoteTags := h\<rparr>"
  obtain k where k: "mem_addCredential_tag env_sample ?u ?m1 = Inr (ADD_ACCEPTED_NEW, ?m1\<lparr>m_remoteTags := k\<rparr>, [])"
    "ht_get hc_u32 k = [7 \<mapsto> ?t, 8 \<mapsto> ?u]" "ev_ok {env_sample} (EvTag env_sample ?u)"
    using add_tag_sample [of ?m1 8 9000] h(2,3) m0(6) by auto
  let ?m = "?m1\<lparr>m_remoteTags := k\<rparr>"
  note reach = mem_reach.step [OF mem_reach.step [OF mem_reach.start add_tag [OF h(1)] h(4)] add_tag [OF k(1)] k(3)]
  have stamps: "0 \<le> sint (nc_timestamp nc_sample)" "stamped tag_ts (m_remoteTags ?m)" "stamped cap_ts (m_remoteCaps ?m)"
    "stamped coo_ts (m_remoteCoos ?m)"
    using k(2) m0(4,5) by (auto simp: stamped_def nc_sample_def tag_signed_sample_ok(4) split: if_splits)
  have now: "tag_current ?m nc_sample ?t = Inr True" "tag_current ?m nc_sample ?u = Inr False"
    using m0(6) by (simp_all add: tag_current_def tag_signed_sample_ok(3,4) nc_sample_valid)
  obtain m' where m': "mem_clean nc_sample ?m = Some (Inr m')"
    "\<forall>i. ht_get hc_u32 (m_remoteTags m') i = (case ht_get hc_u32 (m_remoteTags ?m) i of None \<Rightarrow> None
       | Some t \<Rightarrow> if tag_current ?m nc_sample t = Inr True then Some t else None)"
    using membership_clean [OF m0(1) reach stamps] by blast
  have "ht_get hc_u32 (m_remoteTags m') = [7 \<mapsto> ?t]"
    using m'(2) k(2) now by (auto simp: fun_eq_iff)
  with m0(1) h(1) k(1,2) m'(1) show ?thesis by auto
qed

text \<open>
  C24. Revoking a tag, capability or certificate of ownership overwrites the threshold of the
  certificate of membership, even with a smaller one: a certificate of membership that was rejected
  as revoked is accepted afterwards.
\<close>

theorem com_revocation_lifted:
  assumes "ht_ok hc_u64 (m_revocations m)" "rev_verify (e_crypto e) (e_known e) (e_mem e) r = Inr (0, ws)"
    and "rev_target_type (rev_type r) = Some ct" "ct \<noteq> CredCom"
    and "ht_get hc_u64 (m_revocations m) (credentialKey ct (rev_credentialId r)) = None" "0 < sint (rev_threshold r)"
    and "com_timestamp c = Inr ts" "sint (rev_threshold r) < sint ts" "sint ts \<le> sint (m_comRevocationThreshold m)"
    and "com_timestamp (m_com m) = Inr oldts" "sint oldts < sint ts" "com_verify (e_crypto e) (e_known e) c = Inr (0, ws')"
  shows "mem_addCredential_com e c m = Inr (ADD_REJECTED, m, []) \<and>
    (\<exists>m1 m2. mem_addCredential_rev e r m = Inr (ADD_ACCEPTED_NEW, m1, ws) \<and>
       mem_addCredential_com e c m1 = Inr (ADD_ACCEPTED_NEW, m2, ws') \<and> m_com m2 = c)"
proof -
  obtain res m1 where rv: "mem_revoke e ct r m = (res, m1)" by fastforce
  have new: "res = ADD_ACCEPTED_NEW" "m_comRevocationThreshold m1 = rev_threshold r"
    using mem_revoke_law(4) [OF assms(1) rv] assms(5,6) by simp_all
  have com: "m_com m1 = m_com m" by (subst mem_revoke_law(3) [OF assms(1) rv]) simp
  have "mem_addCredential_rev e r m = Inr (ADD_ACCEPTED_NEW, m1, ws)"
    using assms(2-4) rv new(1) by (cases ct) (simp_all add: mem_addCredential_rev_def)
  moreover have "mem_addCredential_com e c m1 = Inr (ADD_ACCEPTED_NEW, m1\<lparr>m_com := c\<rparr>, ws')"
    using assms(7,8,10-12) new(2) com by (auto simp: mem_addCredential_com_def)
  moreover have "mem_addCredential_com e c m = Inr (ADD_REJECTED, m, [])"
    using assms(7,9) by (simp add: mem_addCredential_com_def)
  ultimately show ?thesis by auto
qed

definition com_late :: com where
  "com_late = com_new 3000 500 0x8056c2e21c000001 (Address 0x99)"

definition com_late_signed :: com where
  "com_late_signed = com_late\<lparr>com_signedBy := Address 0x8056c2e21c,
     com_signature := replicate 96 (foldl (+) 0 (concat (map q_enc (com_quals com_late))))\<rparr>"

lemma com_late_verifies:
  "com_verify toy_crypto (\<lambda>a. id_sample) com_late_signed = Inr (0, [])" "com_timestamp com_late_signed = Inr 3000"
proof -
  have ok: "com_ok com_late_signed"
    by (simp add: com_late_signed_def com_late_def com_new_def com_empty_def com_ok_def addr_ok_def)
  have q: "com_quals com_late_signed = com_quals com_late" by (simp add: com_late_signed_def)
  have nw: "com_networkId com_late_signed = Inr 0x8056c2e21c000001"
    by (simp add: com_networkId_def com_find_def com_used_def mem_get_def com_late_signed_def com_late_def com_new_def
        com_empty_def numeral_3_eq_3)
  show "com_verify toy_crypto (\<lambda>a. id_sample) com_late_signed = Inr (0, [])"
    using nw com_msg_ok [OF ok] sample_controller
    by (simp add: com_verify_def q id_verify_def) (simp add: com_late_signed_def com_late_def com_new_def com_empty_def toy_crypto_def)
  show "com_timestamp com_late_signed = Inr 3000"
    by (simp add: com_timestamp_def com_find_def com_used_def mem_get_def com_late_signed_def com_late_def com_new_def
        com_empty_def numeral_3_eq_3)
qed

theorem com_revocation_lifted_witness:
  "\<exists>m. mem_addCredential_com env_sample com_late_signed m = Inr (ADD_REJECTED, m, []) \<and>
    (\<exists>m1 m2. mem_addCredential_rev env_sample rev_signed_sample m = Inr (ADD_ACCEPTED_NEW, m1, []) \<and>
       mem_addCredential_com env_sample com_late_signed m1 = Inr (ADD_ACCEPTED_NEW, m2, []))"
proof -
  obtain m0 where m0: "mem_new True = Inr m0" using mem_new_sample by blast
  let ?m = "m0\<lparr>m_comRevocationThreshold := 5000\<rparr>"
  have r: "ht_ok hc_u64 (m_revocations ?m)" "ht_get hc_u64 (m_revocations ?m) = Map.empty" "m_com ?m = com_empty"
    using m0 ht_new_ok [of True 4, where 'a = u64 and 'b = u64 and hc = hc_u64]
    by (auto simp: mem_new_def res_bind_Inr_iff mem_resetPushState_def)
  have z: "com_timestamp (m_com ?m) = Inr 0"
    by (simp add: r(3) com_timestamp_def com_find_def com_used_def mem_get_def com_empty_def)
  have v: "rev_verify (e_crypto env_sample) (e_known env_sample) (e_mem env_sample) rev_signed_sample = Inr (0, [])"
    "com_verify (e_crypto env_sample) (e_known env_sample) com_late_signed = Inr (0, [])"
    using rev_signed_sample_ok(2) com_late_verifies(1) by (simp_all add: env_sample_def)
  have t: "rev_target_type (rev_type rev_signed_sample) = Some CredTag" by (simp add: rev_target_type_def rev_signed_sample_fields)
  from com_revocation_lifted [OF r(1) v(1) t _ _ _ com_late_verifies(2) _ _ z _ v(2)] r(2) show ?thesis
    by (auto simp: rev_signed_sample_fields)
qed

end
