(* ===== verification/Zt_Filter.thy ===== *)
theory Zt_Filter
  imports Zt_Membership
begin

text \<open>
  The rule engine of a virtual network (\<open>_doZtFilter\<close> in node/Network.cpp), with the log of its
  decisions (\<open>RuleResultLog\<close> in node/Trace.hpp) and the generator behind its random match
  (\<open>Node::prng\<close> in node/Node.cpp).  A frame is the list of its bytes, so \<open>frameLen\<close> is its length;
  the network's largest frame is 10000 bytes, hence positions in it are natural numbers.  Reading
  past the end of a frame is undefined behaviour.
\<close>

section \<open>Packets and the state of an evaluation\<close>

datatype filter_result = NO_MATCH | DROP | REDIRECT | ACCEPT | SUPER_ACCEPT

abbreviation (input) ETHERTYPE_IPV4 :: u32 where "ETHERTYPE_IPV4 \<equiv> 0x0800"
abbreviation (input) ETHERTYPE_ARP :: u32 where "ETHERTYPE_ARP \<equiv> 0x0806"
abbreviation (input) ETHERTYPE_IPV6 :: u32 where "ETHERTYPE_IPV6 \<equiv> 0x86dd"

abbreviation (input) CHAR_INBOUND :: u64 where "CHAR_INBOUND \<equiv> 0x8000000000000000"
abbreviation (input) CHAR_MULTICAST :: u64 where "CHAR_MULTICAST \<equiv> 0x4000000000000000"
abbreviation (input) CHAR_BROADCAST :: u64 where "CHAR_BROADCAST \<equiv> 0x2000000000000000"
abbreviation (input) CHAR_SENDER_IP :: u64 where "CHAR_SENDER_IP \<equiv> 0x1000000000000000"
abbreviation (input) CHAR_SENDER_MAC :: u64 where "CHAR_SENDER_MAC \<equiv> 0x0800000000000000"

text \<open>The constant arguments of \<open>_doZtFilter\<close>, with the node's own address from \<open>RR->identity\<close>.\<close>

record packet =
  pk_self :: address
  pk_nconf :: netconf
  pk_membership :: "membership option"
  pk_inbound :: bool
  pk_source :: address
  pk_macSource :: mac
  pk_macDest :: mac
  pk_data :: bytes
  pk_etherType :: u32
  pk_vlanId :: u32

text \<open>
  The reference arguments and the local variables.  \<open>thisSetMatches\<close> holds 0 or 1 and is a truth
  value here.
\<close>

record filter_state =
  fs_dest :: address
  fs_cc :: address
  fs_ccLength :: nat
  fs_ccWatch :: bool
  fs_superAccept :: bool
  fs_matches :: bool
  fs_log :: bytes
  fs_prng :: "u64 \<times> u64"

definition node_prng :: "u64 \<times> u64 \<Rightarrow> u64 \<times> (u64 \<times> u64)" where
  "node_prng s =
     (let x = fst s; y = snd s;
          x1 = x XOR push_bit 23 x;
          z = x1 XOR y XOR drop_bit 17 x1 XOR drop_bit 26 y
      in (z + y, (y, z)))"

definition rrl_clear :: bytes where
  "rrl_clear = replicate 512 0"

definition rrl_or :: "bytes \<Rightarrow> nat \<Rightarrow> u8 \<Rightarrow> bytes res" where
  "rrl_or l rn x =
     res_bind (rd l (rn div 2)) (\<lambda>old. wr l (rn div 2) (old OR push_bit (4 * (rn mod 2)) x))"

definition rrl_log :: "bytes \<Rightarrow> nat \<Rightarrow> bool \<Rightarrow> bool \<Rightarrow> bytes res" where
  "rrl_log l rn r s = rrl_or l rn (push_bit 2 (of_bool r + 1) OR (of_bool s + 1))"

definition rrl_logSkipped :: "bytes \<Rightarrow> nat \<Rightarrow> bool \<Rightarrow> bytes res" where
  "rrl_logSkipped l rn s = rrl_or l rn (of_bool s + 1)"

section \<open>Matches on the frame\<close>

definition is_ipv4 :: "packet \<Rightarrow> bool" where
  "is_ipv4 pk \<longleftrightarrow> pk_etherType pk = ETHERTYPE_IPV4 \<and> 20 \<le> length (pk_data pk)"

definition is_ipv6 :: "packet \<Rightarrow> bool" where
  "is_ipv6 pk \<longleftrightarrow> pk_etherType pk = ETHERTYPE_IPV6 \<and> 40 \<le> length (pk_data pk)"

text \<open>\<open>_ipv6GetPayload\<close>: position and protocol of the first header that is not an extension.\<close>

function ipv6_walk :: "bytes \<Rightarrow> nat \<Rightarrow> u8 \<Rightarrow> (nat \<times> u8) option res" where
  "ipv6_walk d pos proto =
     (if pos \<le> length d then
        (if proto \<in> {0, 43, 60, 135} then
           (if pos + 8 > length d then Inr None
            else res_bind (rd d pos) (\<lambda>proto'.
                 res_bind (rd d (pos + 1)) (\<lambda>n. ipv6_walk d (pos + (unat n * 8 + 8)) proto')))
         else Inr (Some (pos, proto)))
      else Inr None)"
  by auto

termination ipv6_walk
  by (relation "measure (\<lambda>(d, pos, proto). length d + 1 - pos)") auto

declare ipv6_walk.simps [simp del]

definition ipv6GetPayload :: "bytes \<Rightarrow> (nat \<times> u8) option res" where
  "ipv6GetPayload d =
     (if length d < 40 then Inr None else res_bind (rd d 6) (\<lambda>proto. ipv6_walk d 40 proto))"

text \<open>What is done with the payload of an IPv6 frame; a frame without one does not match.\<close>

definition on_ipv6_payload :: "packet \<Rightarrow> (nat \<Rightarrow> u8 \<Rightarrow> bool res) \<Rightarrow> bool res" where
  "on_ipv6_payload pk f =
     (if pk_etherType pk = ETHERTYPE_IPV6 then
        res_bind (ipv6GetPayload (pk_data pk)) (\<lambda>r. case r of None \<Rightarrow> Inr False | Some (pos, proto) \<Rightarrow> f pos proto)
      else Inr False)"

definition ip_contains :: "bytes \<Rightarrow> u32 \<Rightarrow> u8 \<Rightarrow> bytes \<Rightarrow> bool res" where
  "ip_contains ip n msk a =
     res_bind (inet_set ip n (ucast msk)) (\<lambda>net. res_bind (inet_set a n 0) (\<lambda>addr. inet_containsAddress net addr))"

definition match_ipv4 :: "packet \<Rightarrow> nat \<Rightarrow> u32 \<Rightarrow> u8 \<Rightarrow> bool res" where
  "match_ipv4 pk at ip msk =
     (if is_ipv4 pk then ip_contains (le_bytes ip) 4 msk (drop at (pk_data pk)) else Inr False)"

definition match_ipv6 :: "packet \<Rightarrow> nat \<Rightarrow> bytes \<Rightarrow> u8 \<Rightarrow> bool res" where
  "match_ipv6 pk at ip msk =
     (if is_ipv6 pk then ip_contains ip 16 msk (drop at (pk_data pk)) else Inr False)"

definition match_ipTos :: "packet \<Rightarrow> u8 \<Rightarrow> u8 \<Rightarrow> u8 \<Rightarrow> bool res" where
  "match_ipTos pk msk v0 v1 =
     (if is_ipv4 pk then
        res_bind (rd (pk_data pk) 1) (\<lambda>x. let tos = x AND msk in Inr (v0 \<le> tos \<and> tos \<le> v1))
      else if is_ipv6 pk then
        res_bind (rd (pk_data pk) 0) (\<lambda>x. res_bind (rd (pk_data pk) 1) (\<lambda>y.
          let tos = (push_bit 4 x AND 0xf0 OR drop_bit 4 y AND 0x0f) AND msk in Inr (v0 \<le> tos \<and> tos \<le> v1)))
      else Inr False)"

definition match_ipProtocol :: "packet \<Rightarrow> u8 \<Rightarrow> bool res" where
  "match_ipProtocol pk p =
     (if is_ipv4 pk then res_bind (rd (pk_data pk) 9) (\<lambda>x. Inr (p = x))
      else on_ipv6_payload pk (\<lambda>pos proto. Inr (p = proto)))"

definition icmp_at :: "bytes \<Rightarrow> nat \<Rightarrow> u8 \<Rightarrow> u8 \<Rightarrow> u8 \<Rightarrow> bool res" where
  "icmp_at d pos ty code flags =
     (if length d \<ge> pos + 2 then
        res_bind (rd d pos) (\<lambda>x.
        if ty = x then
          (if flags AND 1 \<noteq> 0 then res_bind (rd d (pos + 1)) (\<lambda>y. Inr (y = code)) else Inr True)
        else Inr False)
      else Inr False)"

definition ipv4_headerLen :: "u8 \<Rightarrow> nat" where
  "ipv4_headerLen x = 4 * unat (x AND 0xf)"

definition match_icmp :: "packet \<Rightarrow> u8 \<Rightarrow> u8 \<Rightarrow> u8 \<Rightarrow> bool res" where
  "match_icmp pk ty code flags =
     (let d = pk_data pk in
      if is_ipv4 pk then
        res_bind (rd d 9) (\<lambda>proto.
        if proto = 0x01 then res_bind (rd d 0) (\<lambda>x. icmp_at d (ipv4_headerLen x) ty code flags)
        else Inr False)
      else on_ipv6_payload pk (\<lambda>pos proto. if proto = 0x3a then icmp_at d pos ty code flags else Inr False))"

text \<open>The port at a transport header, -1 when there is none.\<close>

definition port_at :: "bytes \<Rightarrow> nat \<Rightarrow> u8 \<Rightarrow> bool \<Rightarrow> int res" where
  "port_at d pos proto dest =
     (if proto \<in> {0x06, 0x11, 0x84, 0x88} \<and> length d > pos + 4 then
        let at = (if dest then pos + 2 else pos) in
        res_bind (rd d at) (\<lambda>h. res_bind (rd d (at + 1)) (\<lambda>l.
          Inr (uint (push_bit 8 (ucast h) OR ucast l :: u32))))
      else Inr (- 1))"

definition match_port :: "packet \<Rightarrow> bool \<Rightarrow> u16 \<Rightarrow> u16 \<Rightarrow> bool res" where
  "match_port pk dest p0 p1 =
     (let d = pk_data pk in
      if is_ipv4 pk then
        res_bind (rd d 0) (\<lambda>x. res_bind (rd d 9) (\<lambda>proto.
        res_bind (port_at d (ipv4_headerLen x) proto dest) (\<lambda>p.
        Inr (p \<ge> 0 \<and> p \<ge> uint p0 \<and> p \<le> uint p1))))
      else on_ipv6_payload pk (\<lambda>pos proto.
        res_bind (port_at d pos proto dest) (\<lambda>p. Inr (p > 0 \<and> p \<ge> uint p0 \<and> p \<le> uint p1))))"

text \<open>The loops that assemble an integer from the frame, from index \<open>i\<close>, \<open>n\<close> bytes.\<close>

fun int_be_from :: "bytes \<Rightarrow> nat \<Rightarrow> nat \<Rightarrow> u64 \<Rightarrow> u64 res" where
  "int_be_from d 0 i acc = Inr acc"
| "int_be_from d (Suc n) i acc = res_bind (rd d i) (\<lambda>x. int_be_from d n (i + 1) (push_bit 8 acc OR ucast x))"

fun int_le_from :: "bytes \<Rightarrow> nat \<Rightarrow> nat \<Rightarrow> u64 \<Rightarrow> u64 res" where
  "int_le_from d 0 i acc = Inr acc"
| "int_le_from d (Suc n) i acc = res_bind (rd d i) (\<lambda>x. int_le_from d n (i + 1) (drop_bit 8 acc OR push_bit 56 (ucast x)))"

definition intRange_bits :: "u8 \<Rightarrow> nat" where
  "intRange_bits fmt = unat (fmt AND 63) + 1"

definition intRange_bytes :: "u8 \<Rightarrow> nat" where
  "intRange_bytes fmt = (intRange_bits fmt + 7) div 8"

definition intRange_integer :: "bytes \<Rightarrow> u16 \<Rightarrow> u8 \<Rightarrow> u64 res" where
  "intRange_integer d idx fmt =
     (let bits = intRange_bits fmt; n = intRange_bytes fmt in
      if fmt AND 0x80 = 0 then
        let i = unat idx + (8 - n) in
        res_bind (if i + n \<le> length d then int_be_from d n i 0 else Inr 0) (\<lambda>x.
        Inr (x AND drop_bit (64 - bits) 0xffffffffffffffff))
      else
        let i = unat idx in
        res_bind (if i + n \<le> length d then int_le_from d n i 0 else Inr 0) (\<lambda>x. Inr (drop_bit (64 - bits) x)))"

definition match_intRange :: "packet \<Rightarrow> u64 \<Rightarrow> u32 \<Rightarrow> u16 \<Rightarrow> u8 \<Rightarrow> bool res" where
  "match_intRange pk start len idx fmt =
     res_bind (intRange_integer (pk_data pk) idx fmt) (\<lambda>x. Inr (x \<ge> start \<and> x \<le> start + ucast len))"

section \<open>Characteristics\<close>

text \<open>
  The address that the sender claims, and the authentication that a neighbour solicitation is given
  without one.
\<close>

definition claimed_source :: "packet \<Rightarrow> (inet \<times> u64) res" where
  "claimed_source pk =
     (let d = pk_data pk; plain = (\<lambda>r. res_bind r (\<lambda>a. Inr (a, 0))) in
      if is_ipv4 pk then plain (inet_set (drop 12 d) 4 0)
      else if is_ipv6 pk then
        res_bind (rd d 6) (\<lambda>proto.
        if length d \<ge> 40 + 8 + 16 \<and> proto = 0x3a \<and> (d ! 40 = 0x87 \<or> d ! 40 = 0x88) then
          (if d ! 40 = 0x87 then Inr (inet_nil, CHAR_SENDER_IP) else plain (inet_set (drop (40 + 8) d) 16 0))
        else plain (inet_set (drop 8 d) 16 0))
      else if pk_etherType pk = ETHERTYPE_ARP \<and> length d \<ge> 28 then plain (inet_set (drop 14 d) 4 0)
      else Inr (inet_nil, 0))"

definition inet_set_p :: "inet \<Rightarrow> bool" where
  "inet_set_p a \<longleftrightarrow> ss_family a \<noteq> 0"

definition res_and :: "bool \<Rightarrow> bool res \<Rightarrow> bool res" where
  "res_and b r = (if b then r else Inr False)"

definition bit_when :: "bool \<Rightarrow> u64 \<Rightarrow> u64" where
  "bit_when b x = (if b then x else 0)"

fun own_coos_from :: "coo list \<Rightarrow> nat \<Rightarrow> nat \<Rightarrow> inet \<Rightarrow> mac \<Rightarrow> u64 \<Rightarrow> u64 res" where
  "own_coos_from coos 0 i src m acc = Inr acc"
| "own_coos_from coos (Suc n) i src m acc =
     res_bind (rd coos i) (\<lambda>c.
     res_bind (res_and (inet_set_p src) (coo_owns_inet c src)) (\<lambda>a.
     res_bind (coo_owns_mac c m) (\<lambda>b.
     own_coos_from coos n (i + 1) src m (acc OR bit_when a CHAR_SENDER_IP OR bit_when b CHAR_SENDER_MAC))))"

definition ownership_mask :: "packet \<Rightarrow> u64 res" where
  "ownership_mask pk =
     res_bind (claimed_source pk) (\<lambda>(src, msk).
     let nc = pk_nconf pk in
     if pk_inbound pk then
       (case pk_membership pk of
          None \<Rightarrow> Inr msk
        | Some ms \<Rightarrow>
            res_bind (res_and (inet_set_p src) (mem_hasCertificateOfOwnershipFor_inet nc src ms)) (\<lambda>a.
            res_bind (mem_hasCertificateOfOwnershipFor_mac nc (pk_macSource pk) ms) (\<lambda>b.
            Inr (msk OR bit_when a CHAR_SENDER_IP OR bit_when b CHAR_SENDER_MAC))))
     else own_coos_from (nc_coos nc) (unat (nc_cooCount nc)) 0 src (pk_macSource pk) msk)"

definition tcp_flags_at :: "bytes \<Rightarrow> nat \<Rightarrow> u64 res" where
  "tcp_flags_at d pos =
     res_bind (rd d (pos + 13)) (\<lambda>x. res_bind (rd d (pos + 12)) (\<lambda>y.
       Inr (ucast x OR push_bit 8 (ucast (y AND 0x0f)))))"

definition tcp_flags :: "packet \<Rightarrow> u64 res" where
  "tcp_flags pk =
     (let d = pk_data pk in
      if is_ipv4 pk \<and> d ! 9 = 0x06 then res_bind (rd d 0) (\<lambda>x. tcp_flags_at d (ipv4_headerLen x))
      else if pk_etherType pk = ETHERTYPE_IPV6 then
        res_bind (ipv6GetPayload d) (\<lambda>r. case r of
          None \<Rightarrow> Inr 0
        | Some (pos, proto) \<Rightarrow> if proto = 0x06 \<and> length d > pos + 14 then tcp_flags_at d pos else Inr 0)
      else Inr 0)"

definition match_characteristics :: "packet \<Rightarrow> u64 \<Rightarrow> bool res" where
  "match_characteristics pk c =
     (let cf = bit_when (pk_inbound pk) CHAR_INBOUND OR
               bit_when (mac_isMulticast (pk_macDest pk)) CHAR_MULTICAST OR
               bit_when (mac_isBroadcast (pk_macDest pk)) CHAR_BROADCAST in
      res_bind (ownership_mask pk) (\<lambda>own.
      res_bind (tcp_flags pk) (\<lambda>tcp. Inr ((cf OR own OR tcp) AND c \<noteq> 0))))"

section \<open>Tags\<close>

text \<open>
  \<open>std::lower_bound\<close> on the node's own tags, as the C++ libraries implement it: a binary search over
  the \<open>len\<close> tags from \<open>first\<close> on.  Its contract, the position of the first tag whose id is not below
  the one looked for, needs tags that are sorted by id, as the configuration parser leaves them.
\<close>

function tag_lower_bound :: "tag list \<Rightarrow> u32 \<Rightarrow> nat \<Rightarrow> nat \<Rightarrow> nat" where
  "tag_lower_bound ts i first len =
     (if len = 0 then first
      else let half = len div 2; middle = first + half in
        if tag_id (ts ! middle) < i then tag_lower_bound ts i (middle + 1) (len - half - 1)
        else tag_lower_bound ts i first half)"
  by pat_completeness auto
termination by (relation "measure (\<lambda>(ts, i, first, len). len)") auto

declare tag_lower_bound.simps [simp del]

definition local_tag :: "packet \<Rightarrow> u32 \<Rightarrow> tag option res" where
  "local_tag pk i =
     (let nc = pk_nconf pk; n = unat (nc_tagCount nc) in
      if n \<le> length (nc_tags nc) then
        let p = tag_lower_bound (nc_tags nc) i 0 n in
        Inr (if p \<noteq> n \<and> tag_id (nc_tags nc ! p) = i then Some (nc_tags nc ! p) else None)
      else Inl UndefinedBehaviour)"

lemma tag_lower_bound_range:
  "first \<le> tag_lower_bound ts i first len \<and> tag_lower_bound ts i first len \<le> first + len"
proof (induction ts i first len rule: tag_lower_bound.induct)
  case (1 ts i first len)
  show ?case
  proof (cases "len = 0")
    case True
    then show ?thesis by (simp add: tag_lower_bound.simps)
  next
    case False
    with 1 [OF False refl refl] show ?thesis
      by (subst (1 2) tag_lower_bound.simps) (fastforce simp: Let_def)
  qed
qed

lemma tag_lower_bound_sorted:
  assumes "\<forall>j k. j \<le> k \<and> k < n \<longrightarrow> tag_id (ts ! j) \<le> tag_id (ts ! k)" "first + len \<le> n"
    and "\<forall>k < first. tag_id (ts ! k) < i" "\<forall>k. first + len \<le> k \<and> k < n \<longrightarrow> i \<le> tag_id (ts ! k)"
  shows "(\<forall>k < tag_lower_bound ts i first len. tag_id (ts ! k) < i) \<and>
    (\<forall>k. tag_lower_bound ts i first len \<le> k \<and> k < n \<longrightarrow> i \<le> tag_id (ts ! k))"
  using assms
proof (induction ts i first len rule: tag_lower_bound.induct)
  case (1 ts i first len)
  show ?case
  proof (cases "len = 0")
    case True
    then show ?thesis using "1.prems" by (simp add: tag_lower_bound.simps)
  next
    case False
    let ?m = "first + len div 2"
    have m: "?m < n" "?m + 1 + (len - len div 2 - 1) = first + len" "first + len div 2 \<le> n"
      using False "1.prems"(2) by linarith+
    show ?thesis
    proof (cases "tag_id (ts ! ?m) < i")
      case True
      have "tag_id (ts ! k) < i" if "k < ?m + 1" for k
        using "1.prems"(1) m(1) True that by (intro le_less_trans [OF _ True]) simp
      then have below: "\<forall>k < ?m + 1. tag_id (ts ! k) < i" by blast
      have eq: "tag_lower_bound ts i first len = tag_lower_bound ts i (?m + 1) (len - len div 2 - 1)"
        using True False by (subst tag_lower_bound.simps) (simp add: Let_def)
      show ?thesis
        unfolding eq by (rule 1(1) [OF False refl refl True "1.prems"(1) _ below, unfolded m(2), OF "1.prems"(2,4)])
    next
      case below: False
      have "i \<le> tag_id (ts ! k)" if "?m \<le> k" "k < n" for k
      proof -
        have "tag_id (ts ! ?m) \<le> tag_id (ts ! k)" using "1.prems"(1) that by blast
        with below show ?thesis by (metis leI order_trans)
      qed
      then have above: "\<forall>k. ?m \<le> k \<and> k < n \<longrightarrow> i \<le> tag_id (ts ! k)" by blast
      have eq: "tag_lower_bound ts i first len = tag_lower_bound ts i first (len div 2)"
        using below False by (subst tag_lower_bound.simps) (simp add: Let_def)
      show ?thesis
        unfolding eq by (rule 1(2) [OF False refl refl below "1.prems"(1) m(3) "1.prems"(3) above])
    qed
  qed
qed

text \<open>On sorted tags the search finds the first tag of the id, if there is one.\<close>

lemma local_tag_sorted:
  fixes pk :: packet
  defines "n \<equiv> unat (nc_tagCount (pk_nconf pk))" and "ts \<equiv> nc_tags (pk_nconf pk)"
  assumes n: "n \<le> length ts" and s: "sorted (map tag_id (take n ts))"
  shows "local_tag pk i = Inr (find (\<lambda>t. tag_id t = i) (take n ts))"
proof -
  have mono: "\<forall>j k. j \<le> k \<and> k < n \<longrightarrow> tag_id (ts ! j) \<le> tag_id (ts ! k)"
    using sorted_nth_mono [OF s] n by auto
  let ?p = "tag_lower_bound ts i 0 n"
  have p: "\<forall>k < ?p. tag_id (ts ! k) < i" "\<forall>k. ?p \<le> k \<and> k < n \<longrightarrow> i \<le> tag_id (ts ! k)" "?p \<le> n"
    using tag_lower_bound_sorted [OF mono, of 0 n i] tag_lower_bound_range [of 0 ts i n] by fastforce+
  have "find (\<lambda>t. tag_id t = i) (take n ts) = (if ?p \<noteq> n \<and> tag_id (ts ! ?p) = i then Some (ts ! ?p) else None)"
  proof (cases "?p \<noteq> n \<and> tag_id (ts ! ?p) = i")
    case True
    then show ?thesis using p(1,3) n by (auto simp: find_Some_iff intro!: exI [of _ ?p])
  next
    case False
    have "tag_id (ts ! k) \<noteq> i" if "k < n" for k
    proof (cases "k < ?p")
      case before: False
      then have "?p < n" "tag_id (ts ! ?p) \<le> tag_id (ts ! k)" "i \<le> tag_id (ts ! ?p)"
        using that mono p(2) by auto
      with False show ?thesis by auto
    qed (use p(1) in auto)
    with False n show ?thesis by (auto simp: find_None_iff in_set_conv_nth)
  qed
  with n show ?thesis by (simp add: local_tag_def Let_def n_def ts_def)
qed

definition remote_tag :: "packet \<Rightarrow> u32 \<Rightarrow> tag option res" where
  "remote_tag pk i = (case pk_membership pk of None \<Rightarrow> Inr None | Some ms \<Rightarrow> mem_getTag (pk_nconf pk) i ms)"

definition tags_compare :: "u8 \<Rightarrow> u32 \<Rightarrow> u32 \<Rightarrow> u32 \<Rightarrow> bool" where
  "tags_compare rt l r v \<longleftrightarrow>
     (if rt = MATCH_TAGS_DIFFERENCE then (if l > r then l - r else r - l) \<le> v
      else if rt = MATCH_TAGS_BITWISE_AND then l AND r = v
      else if rt = MATCH_TAGS_BITWISE_OR then l OR r = v
      else if rt = MATCH_TAGS_BITWISE_XOR then l XOR r = v
      else if rt = MATCH_TAGS_EQUAL then l = v \<and> r = v
      else False)"

definition match_tags :: "packet \<Rightarrow> bool \<Rightarrow> u8 \<Rightarrow> u32 \<Rightarrow> u32 \<Rightarrow> bool res" where
  "match_tags pk superAccept rt i v =
     res_bind (local_tag pk i) (\<lambda>lt.
     case lt of
       None \<Rightarrow> Inr False
     | Some l \<Rightarrow>
         res_bind (remote_tag pk i) (\<lambda>rtag.
         Inr (case rtag of
                Some r \<Rightarrow> tags_compare rt (tag_value l) (tag_value r) v
              | None \<Rightarrow> \<not> (pk_inbound pk \<and> \<not> superAccept))))"

definition match_tag_of :: "packet \<Rightarrow> bool \<Rightarrow> u8 \<Rightarrow> u32 \<Rightarrow> u32 \<Rightarrow> bool res" where
  "match_tag_of pk superAccept rt i v =
     (if superAccept then Inr True
      else if (rt = MATCH_TAG_SENDER \<and> pk_inbound pk) \<or> (rt = MATCH_TAG_RECEIVER \<and> \<not> pk_inbound pk) then
        res_bind (remote_tag pk i) (\<lambda>rtag.
        Inr (case rtag of Some r \<Rightarrow> tag_value r = v | None \<Rightarrow> rt = MATCH_TAG_RECEIVER))
      else
        res_bind (local_tag pk i) (\<lambda>lt.
        Inr (case lt of Some l \<Rightarrow> tag_value l = v | None \<Rightarrow> False)))"

section \<open>The switch over the matches\<close>

text \<open>
  The arms that compute from the frame, the configuration and the member, keyed by the member of the
  union that they read; the random match, which also changes the generator, is apart.  Actions do
  not reach the switch.
\<close>

fun filter_match :: "packet \<Rightarrow> address \<Rightarrow> bool \<Rightarrow> u8 \<Rightarrow> rule_value \<Rightarrow> bool res" where
  "filter_match pk dest sa rt (V_zt z) =
     Inr (z = addr_toInt (if rt = MATCH_SOURCE_ZEROTIER_ADDRESS then pk_source pk else dest))"
| "filter_match pk dest sa rt (V_vlanId v) = Inr (v = ucast (pk_vlanId pk))"
| "filter_match pk dest sa rt (V_vlanPcp v) = Inr (v = 0)"
| "filter_match pk dest sa rt (V_vlanDei v) = Inr (v = 0)"
| "filter_match pk dest sa rt (V_mac m) =
     res_bind (mac_setTo m 6) (\<lambda>x. Inr (x = (if rt = MATCH_MAC_SOURCE then pk_macSource pk else pk_macDest pk)))"
| "filter_match pk dest sa rt (V_ipv4 ip m) = match_ipv4 pk (if rt = MATCH_IPV4_SOURCE then 12 else 16) ip m"
| "filter_match pk dest sa rt (V_ipv6 ip m) = match_ipv6 pk (if rt = MATCH_IPV6_SOURCE then 8 else 24) ip m"
| "filter_match pk dest sa rt (V_ipTos m v0 v1) = match_ipTos pk m v0 v1"
| "filter_match pk dest sa rt (V_ipProtocol p) = match_ipProtocol pk p"
| "filter_match pk dest sa rt (V_etherType t) = Inr (t = ucast (pk_etherType pk))"
| "filter_match pk dest sa rt (V_icmp t c f) = match_icmp pk t c f"
| "filter_match pk dest sa rt (V_port p0 p1) = match_port pk (rt = MATCH_IP_DEST_PORT_RANGE) p0 p1"
| "filter_match pk dest sa rt (V_characteristics c) = match_characteristics pk c"
| "filter_match pk dest sa rt (V_frameSize s0 s1) =
     Inr (length (pk_data pk) \<ge> unat s0 \<and> length (pk_data pk) \<le> unat s1)"
| "filter_match pk dest sa rt (V_tag i v) =
     (if rt = MATCH_TAG_SENDER \<or> rt = MATCH_TAG_RECEIVER then match_tag_of pk sa rt i v else match_tags pk sa rt i v)"
| "filter_match pk dest sa rt (V_intRange s e i f) = match_intRange pk s e i f"
| "filter_match pk dest sa rt v = Inr (nc_flags (pk_nconf pk) AND 0x8 \<noteq> 0)"

definition rule_matches :: "packet \<Rightarrow> rule \<Rightarrow> filter_state \<Rightarrow> (bool \<times> filter_state) res" where
  "rule_matches pk r st =
     res_bind (rule_get r) (\<lambda>v.
     case v of
       V_randomProbability p \<Rightarrow>
         let (x, s) = node_prng (fs_prng st) in Inr (ucast (x AND 0xffffffff) \<le> p, st\<lparr>fs_prng := s\<rparr>)
     | _ \<Rightarrow> res_bind (filter_match pk (fs_dest st) (fs_superAccept st) (rule_type r) v) (\<lambda>b. Inr (b, st)))"

section \<open>Actions and the loop\<close>

definition rule_fwd :: "rule \<Rightarrow> (u64 \<times> u16) res" where
  "rule_fwd r =
     res_bind (rule_get r) (\<lambda>v. case v of V_fwd a f l \<Rightarrow> Inr (a, l) | _ \<Rightarrow> Inl UndefinedBehaviour)"

definition is_fwd :: "u8 \<Rightarrow> bool" where
  "is_fwd rt \<longleftrightarrow> rt = ACTION_TEE \<or> rt = ACTION_WATCH \<or> rt = ACTION_REDIRECT"

definition tee_length :: "packet \<Rightarrow> u16 \<Rightarrow> nat" where
  "tee_length pk l =
     (let n = length (pk_data pk) in
      if l \<noteq> 0 then (if n < unat l then n else unat l) else n)"

text \<open>An action whose set matched: the result to return, or \<open>None\<close> to go on.\<close>

definition action_taken :: "packet \<Rightarrow> rule \<Rightarrow> filter_state \<Rightarrow> (filter_result option \<times> filter_state) res" where
  "action_taken pk r st =
     (let rt = rule_type r in
      if rt = ACTION_DROP then Inr (Some DROP, st)
      else if rt = ACTION_ACCEPT then Inr (Some (if fs_superAccept st then SUPER_ACCEPT else ACCEPT), st)
      else if is_fwd rt then
        res_bind (rule_fwd r) (\<lambda>(a, l).
        let fwd = addr_new a in
        Inr (if fwd = pk_source pk then (None, st)
             else if fwd = pk_self pk then (if pk_inbound pk then (Some SUPER_ACCEPT, st) else (None, st))
             else if fwd = fs_dest st then (None, st)
             else if rt = ACTION_REDIRECT then (Some REDIRECT, st\<lparr>fs_dest := fwd\<rparr>)
             else (None, st\<lparr>fs_cc := fwd, fs_ccLength := tee_length pk l, fs_ccWatch := (rt = ACTION_WATCH)\<rparr>)))
      else if rt = ACTION_BREAK then Inr (Some NO_MATCH, st)
      else Inr (None, st))"

text \<open>An action whose set did not match.\<close>

definition action_skipped :: "packet \<Rightarrow> rule \<Rightarrow> filter_state \<Rightarrow> filter_state res" where
  "action_skipped pk r st =
     res_bind (if pk_inbound pk \<and> is_fwd (rule_type r)
               then res_bind (rule_fwd r) (\<lambda>(a, l). Inr (addr_eq_int (pk_self pk) a)) else Inr False) (\<lambda>b.
     Inr (st\<lparr>fs_superAccept := (fs_superAccept st \<or> b), fs_matches := True\<rparr>))"

definition rule_or :: "rule \<Rightarrow> bool" where
  "rule_or r \<longleftrightarrow> r_t r AND 0x40 \<noteq> 0"

definition rule_not :: "rule \<Rightarrow> bool" where
  "rule_not r \<longleftrightarrow> drop_bit 7 (r_t r) AND 1 \<noteq> 0"

definition match_step :: "packet \<Rightarrow> nat \<Rightarrow> rule \<Rightarrow> filter_state \<Rightarrow> filter_state res" where
  "match_step pk rn r st =
     (if \<not> fs_matches st \<and> \<not> rule_or r then
        res_bind (rrl_logSkipped (fs_log st) rn (fs_matches st)) (\<lambda>l. Inr (st\<lparr>fs_log := l\<rparr>))
      else
        res_bind (rule_matches pk r st) (\<lambda>(b, st).
        res_bind (rrl_log (fs_log st) rn b (fs_matches st)) (\<lambda>l.
        let b' = (b \<noteq> rule_not r) in
        Inr (st\<lparr>fs_log := l, fs_matches := (if rule_or r then fs_matches st \<or> b' else fs_matches st \<and> b')\<rparr>))))"

definition filter_step :: "packet \<Rightarrow> nat \<Rightarrow> rule \<Rightarrow> filter_state \<Rightarrow> (filter_result option \<times> filter_state) res" where
  "filter_step pk rn r st =
     (if rule_type r \<le> ACTION_MAX_ID then
        (if fs_matches st then action_taken pk r st
         else res_bind (action_skipped pk r st) (\<lambda>st. Inr (None, st)))
      else res_bind (match_step pk rn r st) (\<lambda>st. Inr (None, st)))"

fun filter_from :: "packet \<Rightarrow> rule list \<Rightarrow> nat \<Rightarrow> nat \<Rightarrow> filter_state \<Rightarrow> (filter_result \<times> filter_state) res" where
  "filter_from pk rules 0 rn st = Inr (NO_MATCH, st)"
| "filter_from pk rules (Suc n) rn st =
     res_bind (rd rules rn) (\<lambda>r.
     res_bind (filter_step pk rn r st) (\<lambda>(res, st).
     case res of Some x \<Rightarrow> Inr (x, st) | None \<Rightarrow> filter_from pk rules n (rn + 1) st))"

definition doZtFilter :: "packet \<Rightarrow> rule list \<Rightarrow> u32 \<Rightarrow> filter_state \<Rightarrow> (filter_result \<times> filter_state) res" where
  "doZtFilter pk rules ruleCount st =
     filter_from pk rules (unat ruleCount) 0 (st\<lparr>fs_superAccept := False, fs_matches := True, fs_log := rrl_clear\<rparr>)"

end
