(* ===== verification/Filter_Laws.thy ===== *)
theory Filter_Laws
  imports Zt_Filter Membership_Laws
begin

text \<open>
  The properties of the rule engine: the walk over IPv6 extension headers, what the integer match
  reads, that no frame makes a well-formed rule set read outside its data, and that the loop with its
  circuit breaker gives the verdict of a plain first-match semantics of the rule set.
\<close>

section \<open>IPv6 extension headers\<close>

text \<open>The reference: from a header at \<open>pos\<close> along the next-header chain to the payload.\<close>

definition ext_header :: "u8 \<Rightarrow> bool" where
  "ext_header proto \<longleftrightarrow> proto \<in> {0, 43, 60, 135}"

inductive ext_chain :: "bytes \<Rightarrow> nat \<Rightarrow> u8 \<Rightarrow> nat \<Rightarrow> u8 \<Rightarrow> bool" for d :: bytes where
  ext_payload: "pos \<le> length d \<Longrightarrow> \<not> ext_header proto \<Longrightarrow> ext_chain d pos proto pos proto"
| ext_next: "ext_header proto \<Longrightarrow> pos + 8 \<le> length d \<Longrightarrow>
    ext_chain d (pos + 8 * (unat (d ! (pos + 1)) + 1)) (d ! pos) pos' proto' \<Longrightarrow> ext_chain d pos proto pos' proto'"

inductive_simps ext_chain_unfold: "ext_chain d pos proto pos' proto'"

lemma ext_chain_none: "length d < pos \<or> ext_header proto \<and> length d < pos + 8 \<Longrightarrow> \<not> ext_chain d pos proto p q"
  by (subst ext_chain_unfold) auto

lemma ext_chain_stop: "\<not> ext_header proto \<Longrightarrow> ext_chain d pos proto p q \<longleftrightarrow> p = pos \<and> q = proto \<and> pos \<le> length d"
  by (subst ext_chain_unfold) auto

lemma ext_chain_step:
  "ext_header proto \<Longrightarrow> pos + 8 \<le> length d \<Longrightarrow>
    ext_chain d pos proto p q \<longleftrightarrow> ext_chain d (pos + (unat (d ! (pos + 1)) * 8 + 8)) (d ! pos) p q"
  by (subst ext_chain_unfold) (simp add: algebra_simps)

lemma ipv6_walk_chain:
  "\<exists>r. ipv6_walk d pos proto = Inr r \<and> (\<forall>p q. r = Some (p, q) \<longleftrightarrow> ext_chain d pos proto p q)"
proof (induction d pos proto rule: ipv6_walk.induct)
  case (1 d pos proto)
  consider (out) "length d < pos" | (short) "pos \<le> length d" "ext_header proto" "length d < pos + 8"
    | (step) "ext_header proto" "pos + 8 \<le> length d" | (stop) "pos \<le> length d" "\<not> ext_header proto"
    by linarith
  then show ?case
  proof cases
    case out
    then show ?thesis using ext_chain_none [of d pos proto] by (subst ipv6_walk.simps) simp
  next
    case short
    then show ?thesis using ext_chain_none [of d pos proto] by (subst ipv6_walk.simps) (simp add: ext_header_def)
  next
    case step
    then have "ipv6_walk d pos proto = ipv6_walk d (pos + (unat (d ! (pos + 1)) * 8 + 8)) (d ! pos)"
      by (subst ipv6_walk.simps) (simp add: ext_header_def)
    moreover have "\<exists>r. ipv6_walk d (pos + (unat (d ! (pos + 1)) * 8 + 8)) (d ! pos) = Inr r \<and>
        (\<forall>p q. r = Some (p, q) \<longleftrightarrow> ext_chain d (pos + (unat (d ! (pos + 1)) * 8 + 8)) (d ! pos) p q)"
      using step by (intro "1.IH") (auto simp: ext_header_def)
    ultimately show ?thesis using ext_chain_step [OF step] by simp
  next
    case stop
    then show ?thesis using ext_chain_stop [OF stop(2)] by (subst ipv6_walk.simps) (auto simp: ext_header_def)
  qed
qed

lemma ext_chain_bounds:
  "ext_chain d pos proto p q \<Longrightarrow> pos \<le> p \<and> p \<le> length d \<and> 8 dvd (p - pos) \<and> \<not> ext_header q"
proof (induction rule: ext_chain.induct)
  case (ext_next proto pos p q)
  have "p - pos = (p - (pos + 8 * (unat (d ! (pos + 1)) + 1))) + 8 * (unat (d ! (pos + 1)) + 1)"
    using ext_next.IH by linarith
  then have "8 dvd (p - pos)" using ext_next.IH by (metis dvd_add dvd_triv_left)
  with ext_next.IH show ?case by linarith
qed simp

text \<open>
  C36. The search for the payload of an IPv6 frame ends on every frame, reads only inside it, finds
  exactly the payload that the chain of extension headers leads to, and what it finds is a position
  in the frame behind the fixed header and a protocol that is not an extension header.
\<close>

theorem ipv6_payload_bounds:
  "\<exists>r. ipv6GetPayload d = Inr r \<and>
    (\<forall>p q. r = Some (p, q) \<longleftrightarrow> 40 \<le> length d \<and> ext_chain d 40 (d ! 6) p q) \<and>
    (case r of None \<Rightarrow> True | Some (p, q) \<Rightarrow> 40 \<le> p \<and> p \<le> length d \<and> 8 dvd p \<and> \<not> ext_header q)"
proof (cases "length d < 40")
  case True
  then show ?thesis by (simp add: ipv6GetPayload_def)
next
  case False
  obtain r where r: "ipv6_walk d 40 (d ! 6) = Inr r" "\<forall>p q. r = Some (p, q) \<longleftrightarrow> ext_chain d 40 (d ! 6) p q"
    using ipv6_walk_chain by blast
  have "40 \<le> p \<and> p \<le> length d \<and> 8 dvd p \<and> \<not> ext_header q" if "r = Some (p, q)" for p q
  proof -
    have b: "40 \<le> p" "p \<le> length d" "8 dvd (p - 40)" "\<not> ext_header q"
      using ext_chain_bounds [of d 40 "d ! 6" p q] r(2) that by auto
    then have "8 dvd (p - 40 + 40)" by (intro dvd_add) simp_all
    with b show ?thesis by simp
  qed
  with r False show ?thesis by (auto simp: ipv6GetPayload_def split: option.splits)
qed

section \<open>Integers in the frame\<close>

lemma int_be_from_eq:
  "i + n \<le> length d \<Longrightarrow> int_be_from d n i acc = Inr (foldl (\<lambda>v b. push_bit 8 v OR ucast b) acc (take n (drop i d)))"
  by (induction n arbitrary: i acc) (simp_all add: take_drop_Suc del: take_Suc_Cons)

lemma int_le_from_eq:
  "i + n \<le> length d \<Longrightarrow>
    int_le_from d n i acc = Inr (foldl (\<lambda>v b. drop_bit 8 v OR push_bit 56 (ucast b)) acc (take n (drop i d)))"
  by (induction n arbitrary: i acc) (simp_all add: take_drop_Suc del: take_Suc_Cons)

lemma bit_le_word:
  "bit (le_word bs :: 'a::len word) n \<longleftrightarrow> n < LENGTH('a) \<and> n div 8 < length bs \<and> bit (bs ! (n div 8)) (n mod 8)"
  by (auto simp: le_word_def bit_be_word)

lemma foldl_le_word:
  "length bs \<le> 8 \<Longrightarrow>
    foldl (\<lambda>v b. drop_bit 8 v OR push_bit 56 (ucast b)) 0 bs = (push_bit (64 - 8 * length bs) (le_word bs) :: u64)"
proof (induction bs rule: rev_induct)
  case Nil
  show ?case by (simp add: le_word_def)
next
  case (snoc b bs)
  have IH: "foldl (\<lambda>v b. drop_bit 8 v OR push_bit 56 (ucast b)) 0 bs = (push_bit (64 - 8 * length bs) (le_word bs) :: u64)"
    using snoc by simp
  have n: "length bs \<le> 7" using snoc.prems by simp
  show ?case
  proof (rule bit_word_eqI)
    fix j assume "j < LENGTH(64)"
    then have j: "j < 64" by simp
    show "bit (foldl (\<lambda>v b. drop_bit 8 v OR push_bit 56 (ucast b)) 0 (bs @ [b]) :: u64) j =
        bit (push_bit (64 - 8 * length (bs @ [b])) (le_word (bs @ [b])) :: u64) j"
    proof (cases "j < 56")
      case True
      then have d: "(j - (56 - 8 * length bs)) div 8 < length bs" if "56 - 8 * length bs \<le> j"
        using that n by (simp add: div_less_iff_less_mult)
      have e: "j + 8 - (64 - 8 * length bs) = j - (56 - 8 * length bs)" using n by simp
      show ?thesis
        using True n j d by (auto simp: IH bit_simps bit_le_word nth_append e)
    next
      case False
      then obtain i where i: "j = 56 + i" "i < 8" using j that [of "j - 56"] by linarith
      have e: "56 + i - (56 - 8 * length bs) = 8 * length bs + i" using n by simp
      have f: "(8 * length bs + i) div 8 = length bs" "(8 * length bs + i) mod 8 = i" using i(2) by simp_all
      have h: "8 * length bs + i < 64" using i(2) n by linarith
      show ?thesis using i n f h by (auto simp: IH bit_simps bit_le_word e)
    qed
  qed
qed

lemma int_le_word:
  assumes "i + n \<le> length d" "n \<le> 8"
  shows "int_le_from d n i 0 = Inr (push_bit (64 - 8 * n) (le_word (take n (drop i d))))"
proof -
  have "length (take n (drop i d)) = n" using assms by simp
  with foldl_le_word [of "take n (drop i d)"] assms show ?thesis by (simp add: int_le_from_eq)
qed

lemma intRange_sizes:
  "1 \<le> intRange_bits fmt" "intRange_bits fmt \<le> 64" "intRange_bytes fmt \<le> 8"
  "intRange_bits fmt \<le> 8 * intRange_bytes fmt" "8 * intRange_bytes fmt < intRange_bits fmt + 8"
proof -
  have "unat (fmt AND 63) \<le> 63" using word_and_le1 [of fmt 63] by (simp add: word_le_nat_alt)
  then show "1 \<le> intRange_bits fmt" "intRange_bits fmt \<le> 64" "intRange_bytes fmt \<le> 8"
    "intRange_bits fmt \<le> 8 * intRange_bytes fmt" "8 * intRange_bytes fmt < intRange_bits fmt + 8"
    by (simp_all add: intRange_bits_def intRange_bytes_def)
qed

lemma low_bits_mask: "n \<le> 64 \<Longrightarrow> 1 \<le> n \<Longrightarrow> x AND drop_bit (64 - n) 0xffffffffffffffff = (take_bit n x :: u64)"
proof -
  assume n: "n \<le> 64" "1 \<le> n"
  have m: "(0xffffffffffffffff :: u64) = mask 64" by (simp add: mask_eq_exp_minus_1)
  show ?thesis unfolding m using n by (intro bit_word_eqI) (auto simp: bit_simps simp del: mask_numeral)
qed

lemma be_word_window:
  assumes "n \<le> 8" "b \<le> 8 * n" "length w = 8"
  shows "take_bit b (be_word (drop (8 - n) w) :: u64) = take_bit b (be_word w)"
proof (rule bit_word_eqI)
  fix j assume "j < LENGTH(64)"
  then have j: "j < 64" by simp
  have "j div 8 < n" if "j < b" using that assms(2) by (simp add: div_less_iff_less_mult)
  then show "bit (take_bit b (be_word (drop (8 - n) w) :: u64)) j = bit (take_bit b (be_word w :: u64)) j"
    using assms j by (auto simp: bit_simps bit_be_word rev_nth rev_drop)
qed

lemma intRange_cases:
  "fmt AND 0x80 = 0 \<Longrightarrow> intRange_integer d idx fmt =
     Inr (if unat idx + 8 \<le> length d then take_bit (intRange_bits fmt) (be_word (take 8 (drop (unat idx) d))) else 0)"
  "fmt AND 0x80 \<noteq> 0 \<Longrightarrow> intRange_integer d idx fmt =
     Inr (if unat idx + intRange_bytes fmt \<le> length d
          then drop_bit (8 * intRange_bytes fmt - intRange_bits fmt) (le_word (take (intRange_bytes fmt) (drop (unat idx) d)))
          else 0)"
proof -
  let ?n = "intRange_bytes fmt" and ?b = "intRange_bits fmt"
  note s = intRange_sizes [of fmt]
  show "intRange_integer d idx fmt =
     Inr (if unat idx + 8 \<le> length d then take_bit ?b (be_word (take 8 (drop (unat idx) d))) else 0)"
    if "fmt AND 0x80 = 0"
  proof (cases "unat idx + 8 \<le> length d")
    case True
    have w: "take ?n (drop (unat idx + 8 - ?n) d) = drop (8 - ?n) (take 8 (drop (unat idx) d))"
      using s(3) by (simp add: drop_take add.commute)
    show ?thesis
      using True that s be_word_window [OF s(3,4), of "take 8 (drop (unat idx) d)"]
      by (simp add: intRange_integer_def Let_def int_be_from_eq be_word_def [symmetric] low_bits_mask w)
  next
    case False
    then show ?thesis using that s by (simp add: intRange_integer_def Let_def)
  qed
  show "intRange_integer d idx fmt =
     Inr (if unat idx + ?n \<le> length d then drop_bit (8 * ?n - ?b) (le_word (take ?n (drop (unat idx) d))) else 0)"
    if "fmt AND 0x80 \<noteq> 0"
  proof (cases "unat idx + ?n \<le> length d")
    case True
    let ?w = "le_word (take ?n (drop (unat idx) d)) :: u64"
    have "drop_bit (64 - ?b) (push_bit (64 - 8 * ?n) ?w) = drop_bit (8 * ?n - ?b) ?w"
    proof (rule bit_word_eqI)
      fix j assume "j < LENGTH(64)"
      have "j + (64 - ?b) - (64 - 8 * ?n) = j + (8 * ?n - ?b)" using s by simp
      moreover have "bit ?w (j + (8 * ?n - ?b)) \<Longrightarrow> j + (64 - ?b) < 64"
        using s True by (auto simp: bit_le_word div_less_iff_less_mult)
      ultimately show "bit (drop_bit (64 - ?b) (push_bit (64 - 8 * ?n) ?w)) j = bit (drop_bit (8 * ?n - ?b) ?w) j"
        using s by (auto simp: bit_simps add.commute)
    qed
    then show ?thesis using True that s by (simp add: intRange_integer_def Let_def int_le_word)
  next
    case False
    then show ?thesis using that by (simp add: intRange_integer_def Let_def)
  qed
qed

text \<open>
  C37. What the integer match compares.  In big-endian format it is the low bits of the 64-bit integer
  at the index, of which only the last bytes are read but all eight must lie in the frame; in
  little-endian format it is the high bits of the shortest run of bytes at the index that can hold
  it.  An integer that is not in the frame counts as zero.  No frame and no rule makes the match read
  outside the frame.
\<close>

theorem intRange_reads:
  "intRange_integer d idx fmt =
     Inr (if fmt AND 0x80 = 0 then
            if unat idx + 8 \<le> length d then take_bit (intRange_bits fmt) (be_word (take 8 (drop (unat idx) d))) else 0
          else
            if unat idx + intRange_bytes fmt \<le> length d
            then drop_bit (8 * intRange_bytes fmt - intRange_bits fmt) (le_word (take (intRange_bytes fmt) (drop (unat idx) d)))
            else 0)"
  by (simp add: intRange_cases)

section \<open>Every match is defined\<close>

text \<open>
  Prefix lengths that the address arithmetic supports, counts that fit their arrays, and credentials
  whose timestamps are not negative.  The last condition, on frames with a TCP header, is not tested
  by the code.
\<close>

fun mask_sane :: "rule_value \<Rightarrow> bool" where
  "mask_sane (V_ipv4 ip m) \<longleftrightarrow> unat m \<le> 32"
| "mask_sane (V_ipv6 ip m) \<longleftrightarrow> unat m \<le> 128"
| "mask_sane v \<longleftrightarrow> True"

definition rule_sane :: "rule \<Rightarrow> bool" where
  "rule_sane r \<longleftrightarrow> rule_fits r \<and> mask_sane (r_v r)"

definition member_sane :: "netconf \<Rightarrow> membership \<Rightarrow> bool" where
  "member_sane nc m \<longleftrightarrow> 0 \<le> sint (nc_timestamp nc) \<and>
     (\<forall>(k, t) \<in> set (concat (ht_t (m_remoteTags m))). 0 \<le> sint (tag_ts t)) \<and>
     (\<forall>(k, c) \<in> set (ht_sequence (m_remoteCoos m)). coo_ok c \<and> 0 \<le> sint (coo_ts c))"

definition tcp_header_inside :: "packet \<Rightarrow> bool" where
  "tcp_header_inside pk \<longleftrightarrow>
     (is_ipv4 pk \<and> pk_data pk ! 9 = 0x06 \<longrightarrow> ipv4_headerLen (pk_data pk ! 0) + 13 < length (pk_data pk))"

definition packet_sane :: "packet \<Rightarrow> bool" where
  "packet_sane pk \<longleftrightarrow>
     unat (nc_tagCount (pk_nconf pk)) \<le> length (nc_tags (pk_nconf pk)) \<and>
     unat (nc_cooCount (pk_nconf pk)) \<le> length (nc_coos (pk_nconf pk)) \<and>
     list_all coo_ok (nc_coos (pk_nconf pk)) \<and>
     (case pk_membership pk of None \<Rightarrow> True | Some m \<Rightarrow> ht_ok hc_u32 (m_remoteTags m) \<and> member_sane (pk_nconf pk) m) \<and>
     tcp_header_inside pk"

definition defined :: "'a res \<Rightarrow> bool" where
  "defined r \<longleftrightarrow> (\<exists>x. r = Inr x)"

named_theorems defined_intros

lemma defined_Inr [defined_intros]: "defined (Inr x)"
  by (simp add: defined_def)

lemma defined_bind [defined_intros]: "defined r \<Longrightarrow> (\<And>x. r = Inr x \<Longrightarrow> defined (f x)) \<Longrightarrow> defined (res_bind r f)"
  by (auto simp: defined_def)

lemma defined_rd [defined_intros]: "i < length d \<Longrightarrow> defined (rd d i)"
  by (simp add: defined_def)

lemma defined_if [defined_intros]: "(b \<Longrightarrow> defined r) \<Longrightarrow> (\<not> b \<Longrightarrow> defined s) \<Longrightarrow> defined (if b then r else s)"
  by simp

lemma defined_sub: "0 \<le> sint a \<Longrightarrow> 0 \<le> sint (b :: u64) \<Longrightarrow> defined (i64_sub a b)"
  using sint_lt [of a] sint_lt [of b] by (simp add: defined_def i64_sub_def Let_def)

lemma defined_timestamp:
  "0 \<le> sint (nc_timestamp nc) \<Longrightarrow> 0 \<le> sint ts \<Longrightarrow> defined (isCredentialTimestampValid revs nc t i ts)"
  unfolding isCredentialTimestampValid_def by (intro defined_intros) (simp_all add: defined_sub)

lemma defined_owns [defined_intros]: "coo_ok c \<Longrightarrow> defined (coo_owns_inet c a)" "coo_ok c \<Longrightarrow> defined (coo_owns_mac c m)"
  by (auto simp: coo_owns_inet_def coo_owns_mac_def coo_owns_from_iff defined_def)

lemma defined_search:
  "\<forall>(k, c) \<in> set es. coo_ok c \<and> defined (valid c) \<Longrightarrow> (\<And>c. coo_ok c \<Longrightarrow> defined (owns c)) \<Longrightarrow> defined (coo_search valid owns es)"
proof (induction es)
  case (Cons e es)
  obtain k c where e: "e = (k, c)" by (cases e)
  show ?case unfolding e coo_search.simps using Cons e by (intro defined_intros) auto
qed (simp add: defined_Inr)

lemma defined_member:
  assumes "member_sane nc m"
  shows "defined (mem_hasCertificateOfOwnershipFor_inet nc a m)" "defined (mem_hasCertificateOfOwnershipFor_mac nc x m)"
    "ht_ok hc_u32 (m_remoteTags m) \<Longrightarrow> defined (mem_getTag nc i m)"
proof -
  have v: "\<forall>(k, c) \<in> set (ht_sequence (m_remoteCoos m)). coo_ok c \<and> defined (coo_current m nc c)"
    using assms by (auto simp: member_sane_def coo_current_def intro!: defined_timestamp)
  show "defined (mem_hasCertificateOfOwnershipFor_inet nc a m)" "defined (mem_hasCertificateOfOwnershipFor_mac nc x m)"
    unfolding mem_hasCertificateOfOwnershipFor_inet_def mem_hasCertificateOfOwnershipFor_mac_def
    by (intro defined_search v defined_owns; assumption)+
  assume ok: "ht_ok hc_u32 (m_remoteTags m)"
  have "defined (tag_current m nc t)" if "ht_get hc_u32 (m_remoteTags m) i = Some t" for t
  proof -
    have "(i, t) \<in> set (concat (ht_t (m_remoteTags m)))" using that map_of_SomeD by (fastforce simp: ht_get_map_of [OF ok])
    then show ?thesis using assms by (auto simp: member_sane_def tag_current_def intro!: defined_timestamp)
  qed
  then show "defined (mem_getTag nc i m)"
    unfolding mem_getTag_def by (auto split: option.splits intro!: defined_intros)
qed

lemma ucast_u8_chain: "(ucast (ucast (ucast (m :: u8) :: u32) :: u16) :: u32) = ucast m"
  by (intro bit_word_eqI) (auto simp: bit_simps dest: bit_imp_le_length)

lemma ucast_u8_0: "(ucast (m :: u8) :: u32) = 0 \<longleftrightarrow> m = 0"
  by (simp add: word_unat_eq_iff unat_ucast_up)

lemma port_of_mask: "inet_port (inet_nil\<lparr>ss_family := f, sin_addr := x, sin_port := hton (ucast (ucast (m :: u8) :: u32))\<rparr>) =
    (if f = AF_INET \<or> f = AF_INET6 then ucast m else 0)"
  "inet_port (inet_nil\<lparr>ss_family := f, sin6_addr := y, sin_port := hton (ucast (ucast (m :: u8) :: u32))\<rparr>) =
    (if f = AF_INET \<or> f = AF_INET6 then ucast m else 0)"
  by (simp_all add: inet_port_def ucast_u8_chain)

lemma defined_shr: "unat (m :: u8) \<le> 32 \<Longrightarrow> m \<noteq> 0 \<Longrightarrow> defined (c_shr (x :: u32) (32 - ucast m))"
proof -
  assume m: "unat m \<le> 32" "m \<noteq> 0"
  have "unat (32 - ucast m :: u32) = 32 - unat m" using m(1) by (simp add: unat_sub word_le_nat_alt unat_ucast_up)
  moreover have "0 < unat m" using m(2) by (simp add: unat_gt_0)
  ultimately show ?thesis by (simp add: c_shr_def defined_def)
qed

lemma defined_mask6:
  assumes "unat (m :: u8) \<le> 128" "m \<noteq> 0"
  shows "defined (mask6_hi (ucast m))" "defined (mask6_lo (ucast m))"
proof -
  have u: "unat (ucast m :: u32) = unat m" by (simp add: unat_ucast_up)
  have p: "0 < unat m" using assms(2) by (simp add: unat_gt_0)
  show "defined (mask6_hi (ucast m))"
  proof (cases "64 \<le> (ucast m :: u32)")
    case False
    then have l: "unat m < 64" by (simp add: word_le_nat_alt u)
    then have "unat (64 - ucast m :: u32) = 64 - unat m" by (simp add: unat_sub word_le_nat_alt u)
    with False l p show ?thesis by (simp add: mask6_hi_def c_shl_def defined_def)
  qed (simp add: mask6_hi_def defined_def)
  show "defined (mask6_lo (ucast m))"
  proof (cases "(ucast m :: u32) \<le> 64")
    case False
    then have l: "64 < unat m" by (simp add: word_le_nat_alt u)
    have "unat (128 - ucast m :: u32) = 128 - unat m" using assms(1) by (simp add: unat_sub word_le_nat_alt u)
    with False l show ?thesis by (simp add: mask6_lo_def c_shl_def defined_def)
  qed (simp add: mask6_lo_def defined_def)
qed

lemma defined_contains4:
  assumes "unat m \<le> 32" "4 \<le> length ip" "4 \<le> length a"
  shows "defined (ip_contains ip 4 m a)"
proof (cases "m = 0")
  case True
  then show ?thesis using assms
    by (simp add: ip_contains_def inet_set_def mem_get_def inet_containsAddress_def inet_netmaskBits_def inet_port_def
        Let_def defined_Inr)
next
  case False
  then have z: "ucast m \<noteq> (0 :: u32)" by (simp add: ucast_u8_0)
  show ?thesis using assms z defined_shr [OF assms(1) False]
    by (simp add: ip_contains_def inet_set_def mem_get_def inet_containsAddress_def inet_netmaskBits_def port_of_mask Let_def)
      (intro defined_intros; simp)
qed

lemma defined_contains6:
  assumes "unat m \<le> 128" "16 \<le> length ip" "16 \<le> length a"
  shows "defined (ip_contains ip 16 m a)"
proof (cases "m = 0")
  case True
  then show ?thesis using assms
    by (simp add: ip_contains_def inet_set_def mem_get_def inet_containsAddress_def inet_netmask_def inet_netmaskBits_def
        inet_port_def defined_Inr Let_def)
next
  case False
  then have z: "ucast m \<noteq> (0 :: u32)" by (simp add: ucast_u8_0)
  obtain h l where "mask6_hi (ucast m) = Inr h" "mask6_lo (ucast m) = Inr l"
    using defined_mask6 [OF assms(1) False] by (auto simp: defined_def)
  then show ?thesis using assms z
    by (simp add: ip_contains_def inet_set_def mem_get_def inet_containsAddress_def inet_netmask_def inet_netmaskBits_def
        port_of_mask defined_Inr Let_def)
qed

lemma defined_payload: "(\<And>p q. p \<le> length (pk_data pk) \<Longrightarrow> defined (f p q)) \<Longrightarrow> defined (on_ipv6_payload pk f)"
  using ipv6_walk_chain [of "pk_data pk" 40 "pk_data pk ! 6"] ext_chain_bounds [of "pk_data pk" 40 "pk_data pk ! 6"]
  unfolding on_ipv6_payload_def ipv6GetPayload_def by (auto simp: defined_Inr split: option.splits)

lemma defined_icmp: "defined (icmp_at d pos ty code flags)"
  unfolding icmp_at_def by (intro defined_intros) simp_all

lemma defined_port: "defined (port_at d pos proto dest)"
  unfolding port_at_def Let_def by (intro defined_intros) (simp_all split: if_splits)

lemma defined_header: "is_ipv4 pk \<Longrightarrow> i < 20 \<Longrightarrow> defined (rd (pk_data pk) i)" "is_ipv6 pk \<Longrightarrow> i < 40 \<Longrightarrow> defined (rd (pk_data pk) i)"
  by (intro defined_rd; simp add: is_ipv4_def is_ipv6_def)+

lemma defined_integer: "defined (intRange_integer d idx fmt)"
  using intRange_cases [of fmt d idx] by (cases "fmt AND 0x80 = 0") (simp_all add: defined_Inr)

lemmas defined_frame = defined_Inr defined_bind defined_if defined_payload defined_icmp defined_port defined_integer

lemma defined_frame_matches:
  "defined (match_ipTos pk x v0 v1)" "defined (match_ipProtocol pk p)" "defined (match_icmp pk ty code flags)"
  "defined (match_port pk dest p0 p1)" "defined (match_intRange pk st len idx fmt)"
  unfolding match_ipTos_def match_ipProtocol_def match_icmp_def match_port_def match_intRange_def Let_def
  by ((intro defined_frame; (rule defined_header; simp))+)

lemma defined_address_matches:
  assumes "at + 4 \<le> 20" "atw + 16 \<le> 40" "length ips = 16"
  shows "unat m \<le> 32 \<Longrightarrow> defined (match_ipv4 pk at ip m)" "unat m \<le> 128 \<Longrightarrow> defined (match_ipv6 pk atw ips m)"
  unfolding match_ipv4_def match_ipv6_def using assms
  by ((intro defined_intros defined_contains4 defined_contains6; auto simp: is_ipv4_def is_ipv6_def)+)

lemma defined_own_coos:
  "i + n \<le> length coos \<Longrightarrow> list_all coo_ok coos \<Longrightarrow> defined (own_coos_from coos n i src m acc)"
proof (induction n arbitrary: i acc)
  case (Suc n)
  then have "coo_ok (coos ! i)" by (simp add: list_all_length)
  with Suc show ?case unfolding own_coos_from.simps res_and_def by (intro defined_intros) auto
qed (simp add: defined_Inr)

lemma defined_set4: "4 \<le> length d \<Longrightarrow> defined (inet_set d 4 p)" and defined_set16: "16 \<le> length d \<Longrightarrow> defined (inet_set d 16 p)"
  by (simp_all add: inet_set_def mem_get_def defined_Inr)

lemma defined_source: "defined (claimed_source pk)"
  unfolding claimed_source_def Let_def
  by (intro defined_intros defined_set4 defined_set16; auto simp: is_ipv4_def is_ipv6_def)

lemma defined_characteristics:
  assumes "packet_sane pk"
  shows "defined (match_characteristics pk c)"
proof -
  have own: "defined (ownership_mask pk)"
  proof -
    have "defined (res_and b (mem_hasCertificateOfOwnershipFor_inet (pk_nconf pk) a m))"
      "defined (mem_hasCertificateOfOwnershipFor_mac (pk_nconf pk) x m)" if "pk_membership pk = Some m" for a b x m
      using assms that defined_member [of "pk_nconf pk" m] by (simp_all add: packet_sane_def res_and_def defined_Inr)
    then show ?thesis
      using assms unfolding ownership_mask_def packet_sane_def
      by (intro defined_bind defined_source) (auto simp: Let_def split: option.splits intro!: defined_intros defined_own_coos)
  qed
  have tcp: "defined (tcp_flags pk)"
  proof (cases "is_ipv4 pk \<and> pk_data pk ! 9 = 0x06")
    case True
    then have "rd (pk_data pk) 0 = Inr (pk_data pk ! 0)" by (auto simp: is_ipv4_def rd_def)
    with True assms show ?thesis
      by (simp add: tcp_flags_def tcp_flags_at_def Let_def packet_sane_def tcp_header_inside_def defined_Inr)
  next
    case False
    have "defined (res_bind (ipv6GetPayload d) (\<lambda>r. case r of None \<Rightarrow> Inr 0
        | Some (pos, proto) \<Rightarrow> if proto = 0x06 \<and> length d > pos + 14 then tcp_flags_at d pos else Inr (0 :: u64)))" for d
      using ipv6_walk_chain [of d 40 "d ! 6"]
      by (auto simp: ipv6GetPayload_def tcp_flags_at_def split: option.splits intro!: defined_intros)
    then show ?thesis using False by (auto simp: tcp_flags_def Let_def intro!: defined_intros)
  qed
  show ?thesis unfolding match_characteristics_def Let_def by (intro defined_intros own tcp)
qed

lemma defined_tags:
  assumes "packet_sane pk"
  shows "defined (match_tags pk sa rt i v)" "defined (match_tag_of pk sa rt i v)"
proof -
  have l: "defined (local_tag pk i)" using assms by (simp add: local_tag_def Let_def packet_sane_def defined_Inr)
  have r: "defined (remote_tag pk i)"
    using assms defined_member(3) by (auto simp: remote_tag_def packet_sane_def defined_Inr split: option.splits)
  show "defined (match_tags pk sa rt i v)"
    unfolding match_tags_def by (intro defined_bind l) (auto split: option.splits intro!: defined_intros r)
  show "defined (match_tag_of pk sa rt i v)"
    unfolding match_tag_of_def by (intro defined_intros l r)
qed

lemma filter_match_defined:
  assumes "packet_sane pk" "value_ok v" "mask_sane v"
  shows "defined (filter_match pk dest sa rt v)"
proof (cases v)
  case (V_mac m)
  then show ?thesis using assms(2) by (simp add: mac_setTo_def mem_get_def defined_Inr)
next
  case (V_ipv4 ip m)
  then show ?thesis using assms by (simp add: defined_address_matches(1) [where atw = 0 and ips = "replicate 16 0"])
next
  case (V_ipv6 ip m)
  then show ?thesis using assms by (simp add: defined_address_matches(2) [where at = 0])
qed (use assms in \<open>simp_all add: defined_frame_matches defined_characteristics defined_tags defined_Inr\<close>)

end
