(* ===== verification/Filter_Semantics.thy ===== *)
theory Filter_Semantics
  imports Filter_Laws
begin

text \<open>
  What a rule set means.  The reference semantics cuts the rules into clauses, each a list of matches
  and the action that ends it, evaluates every match of a clause, and takes the action of the first
  clause that holds and decides.  The loop of \<open>_doZtFilter\<close>, which keeps one truth value, skips
  matches that cannot change it and writes a log, computes the same verdict.
\<close>

section \<open>Reference semantics\<close>

definition rule_holds :: "packet \<Rightarrow> address \<Rightarrow> bool \<Rightarrow> rule \<Rightarrow> bool" where
  "rule_holds pk dest sa r \<longleftrightarrow>
     (case filter_match pk dest sa (rule_type r) (r_v (rule_norm r)) of Inl e \<Rightarrow> False | Inr b \<Rightarrow> b \<noteq> rule_not r)"

definition set_holds :: "(rule \<Rightarrow> bool) \<Rightarrow> rule list \<Rightarrow> bool" where
  "set_holds h ms = foldl (\<lambda>acc r. if rule_or r then acc \<or> h r else acc \<and> h r) True ms"

fun clauses :: "rule list \<Rightarrow> rule list \<Rightarrow> (rule list \<times> rule) list" where
  "clauses ms [] = []"
| "clauses ms (r # rs) =
     (if rule_type r \<le> ACTION_MAX_ID then (ms, r) # clauses [] rs else clauses (ms @ [r]) rs)"

datatype decision = Stop filter_result address | Copy "address \<times> nat \<times> bool" | Go

definition fwd_target :: "rule \<Rightarrow> address option" where
  "fwd_target r =
     (if is_fwd (rule_type r) then case r_v r of V_fwd a f l \<Rightarrow> Some (addr_new a) | _ \<Rightarrow> None else None)"

definition fwd_length :: "rule \<Rightarrow> u16" where
  "fwd_length r = (case r_v r of V_fwd a f l \<Rightarrow> l | _ \<Rightarrow> 0)"

definition decide :: "packet \<Rightarrow> address \<Rightarrow> bool \<Rightarrow> rule \<Rightarrow> decision" where
  "decide pk dest sa r =
     (if rule_type r = ACTION_DROP then Stop DROP dest
      else if rule_type r = ACTION_ACCEPT then Stop (if sa then SUPER_ACCEPT else ACCEPT) dest
      else if rule_type r = ACTION_BREAK then Stop NO_MATCH dest
      else case fwd_target r of
        None \<Rightarrow> Go
      | Some t \<Rightarrow>
          if t \<noteq> pk_source pk \<and> t = pk_self pk \<and> pk_inbound pk then Stop SUPER_ACCEPT dest
          else if t \<in> {pk_source pk, pk_self pk, dest} then Go
          else if rule_type r = ACTION_REDIRECT then Stop REDIRECT t
          else Copy (t, tee_length pk (fwd_length r), rule_type r = ACTION_WATCH))"

text \<open>A clause that does not hold still marks us as the target of a copy.\<close>

definition copies_to_us :: "packet \<Rightarrow> rule \<Rightarrow> bool" where
  "copies_to_us pk r \<longleftrightarrow> pk_inbound pk \<and> fwd_target r = Some (pk_self pk)"

fun verdict ::
  "packet \<Rightarrow> address \<Rightarrow> bool \<Rightarrow> address \<times> nat \<times> bool \<Rightarrow> (rule list \<times> rule) list \<Rightarrow>
    filter_result \<times> address \<times> (address \<times> nat \<times> bool)" where
  "verdict pk dest sa cc [] = (NO_MATCH, dest, cc)"
| "verdict pk dest sa cc ((ms, r) # cs) =
     (if set_holds (rule_holds pk dest sa) ms then
        (case decide pk dest sa r of
           Stop res d \<Rightarrow> (res, d, cc)
         | Copy c \<Rightarrow> verdict pk dest sa c cs
         | Go \<Rightarrow> verdict pk dest sa cc cs)
      else verdict pk dest (sa \<or> copies_to_us pk r) cc cs)"

section \<open>Steps of the loop\<close>

definition fs_copy :: "filter_state \<Rightarrow> address \<times> nat \<times> bool" where
  "fs_copy st = (fs_cc st, fs_ccLength st, fs_ccWatch st)"

text \<open>An engine state that the log array and the rule counter fit.\<close>

definition log_ok :: "nat \<Rightarrow> filter_state \<Rightarrow> bool" where
  "log_ok rn st \<longleftrightarrow> rn < 1024 \<and> length (fs_log st) = 512"

lemma rrl_or_ok: "rn < 1024 \<Longrightarrow> length l = 512 \<Longrightarrow> \<exists>l'. rrl_or l rn x = Inr l' \<and> length l' = 512"
  by (simp add: rrl_or_def)

lemma rrl_log_ok: "log_ok rn st \<Longrightarrow> \<exists>l. rrl_log (fs_log st) rn a b = Inr l \<and> length l = 512"
  by (simp add: rrl_log_def log_ok_def rrl_or_ok)

lemma rrl_logSkipped_ok: "log_ok rn st \<Longrightarrow> \<exists>l. rrl_logSkipped (fs_log st) rn b = Inr l \<and> length l = 512"
  by (simp add: rrl_logSkipped_def log_ok_def rrl_or_ok)

lemma rule_fwd_ok:
  assumes "rule_fits r" "is_fwd (rule_type r)"
  shows "\<exists>a f l. r_v r = V_fwd a f l \<and> rule_fwd r = Inr (a, l)"
proof -
  have "type_member (rule_type r) = M_fwd" using assms(2) by (auto simp: is_fwd_def type_member_def)
  with assms(1) show ?thesis by (cases "r_v r") (auto simp: rule_fits_def rule_fwd_def rule_get_def)
qed

lemma sane_value:
  assumes "rule_sane r"
  shows "rule_get r = Inr (r_v (rule_norm r))" "value_ok (r_v (rule_norm r))" "mask_sane (r_v (rule_norm r))"
  using assms rule_norm_ok [of r] rule_get_norm [of r]
  by (auto simp: rule_sane_def rule_ok_def rule_norm_def)

lemma random_member: "type_member rt = M_randomProbability \<longleftrightarrow> rt = MATCH_RANDOM"
  by (auto simp: type_member_def)

lemma value_random: "value_member v = M_randomProbability \<longleftrightarrow> (\<exists>p. v = V_randomProbability p)"
  by (cases v) auto

lemma rule_matches_ok:
  assumes "packet_sane pk" "rule_sane r"
  shows "\<exists>b st'. rule_matches pk r st = Inr (b, st') \<and> st' = st\<lparr>fs_prng := fs_prng st'\<rparr> \<and>
    (rule_type r \<noteq> MATCH_RANDOM \<longrightarrow> st' = st \<and> (b \<noteq> rule_not r) = rule_holds pk (fs_dest st) (fs_superAccept st) r)"
proof -
  let ?v = "r_v (rule_norm r)"
  obtain b where b: "filter_match pk (fs_dest st) (fs_superAccept st) (rule_type r) ?v = Inr b"
    using filter_match_defined [OF assms(1) sane_value(2,3) [OF assms(2)]] unfolding defined_def by blast
  show ?thesis
  proof (cases "\<exists>p. ?v = V_randomProbability p")
    case True
    then obtain p where p: "?v = V_randomProbability p" by blast
    then have "rule_type r = MATCH_RANDOM"
      using assms(2) by (auto simp: rule_sane_def rule_fits_def rule_norm_def random_member [symmetric] split: if_splits)
    with p sane_value(1) [OF assms(2)] show ?thesis by (simp add: rule_matches_def split: prod.splits)
  next
    case False
    then have "rule_matches pk r st = Inr (b, st)"
      using b sane_value(1) [OF assms(2)] by (cases ?v) (simp_all add: rule_matches_def)
    with b show ?thesis by (simp add: rule_holds_def)
  qed
qed

lemma match_step_ok:
  assumes "packet_sane pk" "rule_sane r" "log_ok rn st"
  shows "\<exists>st'. match_step pk rn r st = Inr st' \<and> length (fs_log st') = 512 \<and>
    fs_dest st' = fs_dest st \<and> fs_superAccept st' = fs_superAccept st \<and> fs_copy st' = fs_copy st \<and>
    (rule_type r \<noteq> MATCH_RANDOM \<longrightarrow> fs_matches st' =
       (if rule_or r then fs_matches st \<or> rule_holds pk (fs_dest st) (fs_superAccept st) r
        else fs_matches st \<and> rule_holds pk (fs_dest st) (fs_superAccept st) r))"
proof (cases "\<not> fs_matches st \<and> \<not> rule_or r")
  case True
  obtain l where "rrl_logSkipped (fs_log st) rn (fs_matches st) = Inr l" "length l = 512"
    using rrl_logSkipped_ok [OF assms(3)] by blast
  with True show ?thesis by (simp add: match_step_def fs_copy_def)
next
  case False
  obtain b st' where m: "rule_matches pk r st = Inr (b, st')" "st' = st\<lparr>fs_prng := fs_prng st'\<rparr>"
    "rule_type r \<noteq> MATCH_RANDOM \<longrightarrow> (b \<noteq> rule_not r) = rule_holds pk (fs_dest st) (fs_superAccept st) r"
    using rule_matches_ok [OF assms(1,2)] by blast
  have f: "fs_log st' = fs_log st" "fs_dest st' = fs_dest st" "fs_matches st' = fs_matches st"
    "fs_superAccept st' = fs_superAccept st" "fs_copy st' = fs_copy st"
    by (subst m(2), simp add: fs_copy_def)+
  obtain l where "rrl_log (fs_log st) rn b (fs_matches st) = Inr l" "length l = 512"
    using rrl_log_ok [OF assms(3)] by blast
  with False m(1,3) f show ?thesis by (auto simp: match_step_def Let_def fs_copy_def)
qed

lemma action_taken_ok:
  assumes "rule_fits r"
  shows "\<exists>o' st'. action_taken pk r st = Inr (o', st') \<and> fs_log st' = fs_log st \<and> fs_matches st' = fs_matches st \<and>
    fs_superAccept st' = fs_superAccept st \<and>
    (case decide pk (fs_dest st) (fs_superAccept st) r of
       Stop res d \<Rightarrow> o' = Some res \<and> fs_dest st' = d \<and> fs_copy st' = fs_copy st
     | Copy c \<Rightarrow> o' = None \<and> fs_dest st' = fs_dest st \<and> fs_copy st' = c
     | Go \<Rightarrow> o' = None \<and> fs_dest st' = fs_dest st \<and> fs_copy st' = fs_copy st)"
proof (cases "is_fwd (rule_type r)")
  case True
  obtain a f l where r: "r_v r = V_fwd a f l" "rule_fwd r = Inr (a, l)" using rule_fwd_ok [OF assms True] by blast
  from True have "rule_type r = ACTION_TEE \<or> rule_type r = ACTION_WATCH \<or> rule_type r = ACTION_REDIRECT"
    by (simp add: is_fwd_def)
  then show ?thesis
    using r True by (auto simp: action_taken_def decide_def fwd_target_def fwd_length_def Let_def fs_copy_def)
next
  case False
  then show ?thesis by (auto simp: action_taken_def decide_def fwd_target_def Let_def fs_copy_def)
qed

lemma action_skipped_ok:
  assumes "rule_fits r"
  shows "\<exists>st'. action_skipped pk r st = Inr st' \<and> fs_matches st' \<and>
    fs_superAccept st' = (fs_superAccept st \<or> copies_to_us pk r) \<and>
    fs_log st' = fs_log st \<and> fs_dest st' = fs_dest st \<and> fs_copy st' = fs_copy st"
proof (cases "is_fwd (rule_type r)")
  case True
  obtain a f l where r: "r_v r = V_fwd a f l" "rule_fwd r = Inr (a, l)" using rule_fwd_ok [OF assms True] by blast
  have "addr_eq_int (pk_self pk) a \<longleftrightarrow> addr_new a = pk_self pk"
    by (cases "pk_self pk") (auto simp: addr_eq_int_def addr_new_def)
  with r True show ?thesis by (auto simp: action_skipped_def copies_to_us_def fwd_target_def fs_copy_def)
next
  case False
  then show ?thesis by (auto simp: action_skipped_def copies_to_us_def fwd_target_def fs_copy_def)
qed

section \<open>The loop\<close>

definition fwd_state :: "filter_result \<Rightarrow> filter_state \<Rightarrow> filter_result \<times> address \<times> (address \<times> nat \<times> bool)" where
  "fwd_state res st = (res, fs_dest st, fs_copy st)"

lemma set_holds_snoc:
  "set_holds h (ms @ [r]) = (if rule_or r then set_holds h ms \<or> h r else set_holds h ms \<and> h r)"
  by (simp add: set_holds_def)

lemma filter_from_verdict:
  assumes pk: "packet_sane pk"
    and "rn + n \<le> length rules" "rn + n \<le> 1024" "length (fs_log st) = 512"
    and "\<forall>r \<in> set (take n (drop rn rules)). rule_sane r \<and> rule_type r \<noteq> MATCH_RANDOM"
    and "fs_matches st = set_holds (rule_holds pk (fs_dest st) (fs_superAccept st)) ms"
  shows "\<exists>res st'. filter_from pk rules n rn st = Inr (res, st') \<and>
    fwd_state res st' = verdict pk (fs_dest st) (fs_superAccept st) (fs_copy st) (clauses ms (take n (drop rn rules)))"
  using assms(2-)
proof (induction n arbitrary: rn st ms)
  case 0
  then show ?case by (simp add: fwd_state_def)
next
  case (Suc n)
  let ?r = "rules ! rn" and ?h = "rule_holds pk (fs_dest st) (fs_superAccept st)"
  have rn: "rn < length rules" using Suc.prems by simp
  have td: "take (Suc n) (drop rn rules) = ?r # take n (drop (rn + 1) rules)" using take_drop_Suc [OF rn] .
  have sane: "rule_sane ?r" "rule_fits ?r" "rule_type ?r \<noteq> MATCH_RANDOM"
    and rest: "\<forall>r \<in> set (take n (drop (rn + 1) rules)). rule_sane r \<and> rule_type r \<noteq> MATCH_RANDOM"
    using Suc.prems(4) unfolding td by (auto simp: rule_sane_def)
  note IH = Suc.IH [of "rn + 1", OF _ _ _ rest]
  have b: "rn + 1 + n \<le> length rules" "rn + 1 + n \<le> 1024" using Suc.prems(1,2) by simp_all
  have empty: "set_holds g []" for g by (simp add: set_holds_def)
  consider (match) "\<not> rule_type ?r \<le> ACTION_MAX_ID" | (taken) "rule_type ?r \<le> ACTION_MAX_ID" "fs_matches st"
    | (skipped) "rule_type ?r \<le> ACTION_MAX_ID" "\<not> fs_matches st"
    by blast
  then show ?case
  proof cases
    case match
    have "log_ok rn st" using Suc.prems(2,3) by (simp add: log_ok_def)
    then obtain s where s: "match_step pk rn ?r st = Inr s" "length (fs_log s) = 512" "fs_dest s = fs_dest st"
      "fs_superAccept s = fs_superAccept st" "fs_copy s = fs_copy st"
      "fs_matches s = (if rule_or ?r then fs_matches st \<or> ?h ?r else fs_matches st \<and> ?h ?r)"
      using match_step_ok [OF pk sane(1)] sane(3) by blast
    have "fs_matches s = set_holds (rule_holds pk (fs_dest s) (fs_superAccept s)) (ms @ [?r])"
      unfolding s set_holds_snoc Suc.prems(5) ..
    from IH [OF b s(2) this] show ?thesis
      using match rn s by (simp add: filter_step_def td clauses.simps)
  next
    case taken
    obtain x s where s: "action_taken pk ?r st = Inr (x, s)" "fs_log s = fs_log st" "fs_matches s = fs_matches st"
      "fs_superAccept s = fs_superAccept st"
      "case decide pk (fs_dest st) (fs_superAccept st) ?r of
         Stop res d \<Rightarrow> x = Some res \<and> fs_dest s = d \<and> fs_copy s = fs_copy st
       | Copy c \<Rightarrow> x = None \<and> fs_dest s = fs_dest st \<and> fs_copy s = c
       | Go \<Rightarrow> x = None \<and> fs_dest s = fs_dest st \<and> fs_copy s = fs_copy st"
      using action_taken_ok [OF sane(2)] by blast
    have "fs_matches s = set_holds (rule_holds pk (fs_dest s) (fs_superAccept s)) []"
      using s(3) taken(2) empty by simp
    from IH [OF b _ this] show ?thesis
      using taken rn s Suc.prems(3,5) by (auto simp: filter_step_def td fwd_state_def split: decision.splits)
  next
    case skipped
    obtain s where s: "action_skipped pk ?r st = Inr s" "fs_matches s"
      "fs_superAccept s = (fs_superAccept st \<or> copies_to_us pk ?r)"
      "fs_log s = fs_log st" "fs_dest s = fs_dest st" "fs_copy s = fs_copy st"
      using action_skipped_ok [OF sane(2)] by blast
    have "fs_matches s = set_holds (rule_holds pk (fs_dest s) (fs_superAccept s)) []"
      using s(2) empty by simp
    from IH [OF b _ this] show ?thesis
      using skipped rn s Suc.prems(3,5) by (simp add: filter_step_def td)
  qed
qed

text \<open>
  C7. The rule engine implements the first-match semantics of a rule set.  For a packet and
  a table of rules that satisfy the conditions under which every match is defined (\<open>packet_sane\<close>: the
  counts fit their arrays and the TCP header is inside the frame; \<open>rule_sane\<close>: the rule's union holds
  the member its type reads), without random matches, whose outcome depends on the generator, and with
  at most 1024 rules, \<open>_doZtFilter\<close> returns, and its result, the destination it leaves
  and the copy it asks for are those of the reference: every clause is evaluated in full, and the
  first one that holds and decides gives the verdict.
\<close>

theorem filter_first_match:
  assumes "packet_sane pk" "unat n \<le> length rules" "unat n \<le> 1024"
    and "\<forall>r \<in> set (take (unat n) rules). rule_sane r \<and> rule_type r \<noteq> MATCH_RANDOM"
  shows "\<exists>res st'. doZtFilter pk rules n st = Inr (res, st') \<and>
    (res, fs_dest st', fs_cc st', fs_ccLength st', fs_ccWatch st') =
      verdict pk (fs_dest st) False (fs_cc st, fs_ccLength st, fs_ccWatch st) (clauses [] (take (unat n) rules))"
proof -
  let ?s = "st\<lparr>fs_superAccept := False, fs_matches := True, fs_log := rrl_clear\<rparr>"
  have "\<exists>res st'. filter_from pk rules (unat n) 0 ?s = Inr (res, st') \<and>
    fwd_state res st' = verdict pk (fs_dest ?s) (fs_superAccept ?s) (fs_copy ?s) (clauses [] (take (unat n) (drop 0 rules)))"
    using assms by (intro filter_from_verdict) (simp_all add: rrl_clear_def set_holds_def)
  then show ?thesis by (simp add: doZtFilter_def fwd_state_def fs_copy_def)
qed

text \<open>
  A TCP segment to port 22 against a rule set that drops everything that is IPv4 but not for port 80:
  the segment is dropped.
\<close>

definition pk_sample :: "bytes \<Rightarrow> packet" where
  "pk_sample d = \<lparr>pk_self = Address 1, pk_nconf = netconf_zero, pk_membership = None, pk_inbound = False,
     pk_source = Address 1, pk_macSource = MAC 5, pk_macDest = MAC 7, pk_data = d, pk_etherType = 0x0800, pk_vlanId = 0\<rparr>"

definition st_sample :: filter_state where
  "st_sample = \<lparr>fs_dest = Address 2, fs_cc = Address 0, fs_ccLength = 0, fs_ccWatch = False, fs_superAccept = False,
     fs_matches = False, fs_log = [], fs_prng = (1, 2)\<rparr>"

definition tcp_sample :: bytes where
  "tcp_sample = [0x45, 0, 0, 40, 0, 0, 0, 0, 64, 6, 0, 0, 10, 0, 0, 1, 10, 0, 0, 2] @
     [0x30, 0x39, 0, 22, 0, 0, 0, 0, 0, 0, 0, 0, 0x50, 2, 0, 0, 0, 0, 0, 0]"

definition rules_sample :: "rule list" where
  "rules_sample = [\<lparr>r_t = 37, r_v = V_etherType 0x0800\<rparr>, \<lparr>r_t = 0x80 OR 40, r_v = V_port 80 80\<rparr>,
     \<lparr>r_t = 0, r_v = V_unset\<rparr>, \<lparr>r_t = 1, r_v = V_unset\<rparr>]"

lemma coo_zero_ok: "coo_ok coo_zero"
  by (simp add: coo_ok_def coo_shape_def coo_zero_def addr_ok_def)

lemma pk_sample_sane: "packet_sane (pk_sample tcp_sample)"
proof -
  have "ipv4_headerLen 0x45 = 20" by (simp add: ipv4_headerLen_def)
  then show ?thesis
    by (simp add: packet_sane_def pk_sample_def netconf_zero_def list_all_iff coo_zero_ok tcp_header_inside_def tcp_sample_def)
qed

lemma rules_sample_sane: "\<forall>r \<in> set rules_sample. rule_sane r \<and> rule_type r \<noteq> MATCH_RANDOM"
  by (simp add: rules_sample_def rule_sane_def rule_fits_def rule_type_def type_member_def)

lemma rules_sample_verdict:
  "verdict (pk_sample tcp_sample) (Address 2) False c (clauses [] rules_sample) = (DROP, Address 2, c)"
proof -
  have "filter_match (pk_sample tcp_sample) (Address 2) False 37 (V_etherType 0x0800) = Inr True"
    by (simp add: pk_sample_def)
  moreover have "filter_match (pk_sample tcp_sample) (Address 2) False 40 (V_port 80 80) = Inr False"
    by (simp add: pk_sample_def match_port_def is_ipv4_def tcp_sample_def port_at_def ipv4_headerLen_def Let_def)
  ultimately show ?thesis
    by (simp add: rules_sample_def rule_type_def set_holds_def rule_holds_def rule_norm_def type_member_def rule_or_def
        rule_not_def decide_def)
qed

theorem filter_first_match_witness:
  "\<exists>st'. doZtFilter (pk_sample tcp_sample) rules_sample 4 st_sample = Inr (DROP, st') \<and> fs_dest st' = Address 2"
proof -
  have n: "unat (4 :: u32) = length rules_sample" by (simp add: rules_sample_def)
  have st: "fs_dest st_sample = Address 2" by (simp add: st_sample_def)
  have "\<exists>res st'. doZtFilter (pk_sample tcp_sample) rules_sample 4 st_sample = Inr (res, st') \<and>
    (res, fs_dest st', fs_cc st', fs_ccLength st', fs_ccWatch st') = (DROP, Address 2, fs_cc st_sample, fs_ccLength st_sample, fs_ccWatch st_sample)"
    using filter_first_match [of "pk_sample tcp_sample" 4 rules_sample st_sample] pk_sample_sane rules_sample_sane
    unfolding n st rules_sample_verdict take_all_iff [THEN iffD2, OF order_refl] by (simp add: rules_sample_def)
  then show ?thesis by blast
qed

section \<open>Safety and the unchecked TCP header\<close>

lemma filter_step_ok:
  assumes "packet_sane pk" "rule_sane r" "log_ok rn st"
  shows "\<exists>x s. filter_step pk rn r st = Inr (x, s) \<and> length (fs_log s) = 512"
proof -
  have f: "rule_fits r" and l: "length (fs_log st) = 512" using assms by (simp_all add: rule_sane_def log_ok_def)
  obtain m where m: "match_step pk rn r st = Inr m" "length (fs_log m) = 512" using match_step_ok [OF assms] by blast
  obtain x t where t: "action_taken pk r st = Inr (x, t)" "fs_log t = fs_log st" using action_taken_ok [OF f] by blast
  obtain k where k: "action_skipped pk r st = Inr k" "fs_log k = fs_log st" using action_skipped_ok [OF f] by blast
  show ?thesis unfolding filter_step_def by (simp add: m t k l)
qed

lemma filter_from_safe:
  assumes "packet_sane pk" "rn + n \<le> length rules" "rn + n \<le> 1024" "length (fs_log st) = 512"
    and "\<forall>r \<in> set (take n (drop rn rules)). rule_sane r"
  shows "\<exists>res st'. filter_from pk rules n rn st = Inr (res, st')"
  using assms(2-)
proof (induction n arbitrary: rn st)
  case (Suc n)
  have rn: "rn < length rules" using Suc.prems by simp
  have td: "take (Suc n) (drop rn rules) = rules ! rn # take n (drop (rn + 1) rules)" using take_drop_Suc [OF rn] .
  have "log_ok rn st" using Suc.prems(2,3) by (simp add: log_ok_def)
  then obtain x s where s: "filter_step pk rn (rules ! rn) st = Inr (x, s)" "length (fs_log s) = 512"
    using filter_step_ok [OF assms(1)] Suc.prems(4) unfolding td by (meson list.set_intros(1))
  have "\<exists>res st'. filter_from pk rules n (rn + 1) s = Inr (res, st')"
    using Suc.prems s(2) unfolding td by (intro Suc.IH) simp_all
  then show ?case using rn s(1) by (cases x) simp_all
qed simp

text \<open>
  C13. Evaluating a rule set never reads outside the frame, the rules, the log or the configuration:
  for every frame, every packet context with plausible credentials and every rule set with prefix
  lengths in range, random matches included, the engine returns a verdict.  The only condition on the
  frame is that a TCP segment in IPv4 has its flags inside the frame.
\<close>

theorem filter_safe:
  assumes "packet_sane pk" "unat n \<le> length rules" "unat n \<le> 1024" "\<forall>r \<in> set (take (unat n) rules). rule_sane r"
  shows "\<exists>res st'. doZtFilter pk rules n st = Inr (res, st')"
  unfolding doZtFilter_def using assms by (intro filter_from_safe) (simp_all add: rrl_clear_def)

theorem filter_safe_witness:
  "\<exists>res st'. doZtFilter (pk_sample tcp_sample) [\<lparr>r_t = 43, r_v = V_randomProbability 7\<rparr>, \<lparr>r_t = 1, r_v = V_unset\<rparr>] 2 st_sample =
     Inr (res, st')"
  by (rule filter_safe) (simp_all add: pk_sample_sane rule_sane_def rule_fits_def rule_type_def type_member_def)

text \<open>
  C35. That condition is needed: a match on packet characteristics reads the TCP flags of an IPv4 frame
  without comparing their position with the length of the frame, although the IPv6 branch does.
\<close>

theorem filter_tcp_overread:
  assumes "is_ipv4 pk" "pk_data pk ! 9 = 0x06" "length (pk_data pk) \<le> ipv4_headerLen (pk_data pk ! 0) + 13"
    and "ownership_mask pk = Inr own" "rule_type r = MATCH_CHARACTERISTICS" "rule_fits r"
  shows "rule_matches pk r st = Inl UndefinedBehaviour"
proof -
  obtain c where c: "r_v r = V_characteristics c"
    using assms(5,6) by (cases "r_v r") (auto simp: rule_fits_def type_member_def)
  have "rd (pk_data pk) 0 = Inr (pk_data pk ! 0)" using assms(1) by (auto simp: is_ipv4_def rd_def)
  then have "tcp_flags pk = Inl UndefinedBehaviour"
    using assms(1-3) by (simp add: tcp_flags_def tcp_flags_at_def)
  then have "match_characteristics pk c = Inl UndefinedBehaviour" using assms(4) by (simp add: match_characteristics_def)
  moreover have "rule_get r = Inr (V_characteristics c)" using c assms(5) by (simp add: rule_get_def type_member_def)
  ultimately show ?thesis by (simp add: rule_matches_def)
qed

theorem filter_tcp_overread_witness:
  "rule_matches (pk_sample (take 20 tcp_sample)) \<lparr>r_t = 41, r_v = V_characteristics 2\<rparr> st_sample = Inl UndefinedBehaviour"
proof -
  let ?pk = "pk_sample (take 20 tcp_sample)"
  have "defined (ownership_mask ?pk)"
    unfolding ownership_mask_def
    by (intro defined_bind defined_source)
      (auto simp: pk_sample_def netconf_zero_def defined_Inr)
  then obtain own where "ownership_mask ?pk = Inr own" unfolding defined_def by blast
  then show ?thesis
    by (intro filter_tcp_overread)
      (simp_all add: pk_sample_def is_ipv4_def tcp_sample_def ipv4_headerLen_def rule_type_def rule_fits_def type_member_def)
qed

end
