(* ===== verification/Zt_Salsa.thy ===== *)
theory Zt_Salsa
  imports Zt_Utils
begin

text \<open>
  The stream cipher (node/Salsa20.hpp, node/Salsa20.cpp), in the portable branch of the source: the
  \<open>#else\<close> parts of \<open>init\<close>, \<open>crypt12\<close> and \<open>crypt20\<close>, compiled when \<open>ZT_SALSA20_SSE\<close> is not defined
  (Salsa20.hpp defines it where the compiler has SSE2, so on x86-64; ARM targets take the portable
  branch).  The SSE branch, which keeps a permuted state in vector registers, is the theory
  \<open>Salsa_Sse\<close>, where it is shown to compute the same.  The sixteen state words are a list; a line \<open>x4 = XOR(x4,ROTATE(PLUS(x0,x12),7))\<close> of the unrolled rounds
  is the entry \<open>(4, 0, 12, 7)\<close> of a table.  The laws relate the cipher to the published definition of
  Salsa20: rounds on the rows and the columns of a matrix, and a key stream that is exclusive-ored to
  the data; the published rounds use the library's word rotation, and the code's combination of
  shifts is proved equal to it.
\<close>

section \<open>The code\<close>

definition rotate32 :: "u32 \<Rightarrow> nat \<Rightarrow> u32" where
  "rotate32 v c = push_bit c v OR drop_bit (32 - c) v"

definition s20_step :: "u32 list \<Rightarrow> nat \<times> nat \<times> nat \<times> nat \<Rightarrow> u32 list" where
  "s20_step x s = (case s of (a, b, c, n) \<Rightarrow> x[a := x ! a XOR rotate32 (x ! b + x ! c) n])"

definition s20_column_lines :: "(nat \<times> nat \<times> nat \<times> nat) list" where
  "s20_column_lines =
     [(4, 0, 12, 7), (8, 4, 0, 9), (12, 8, 4, 13), (0, 12, 8, 18),
      (9, 5, 1, 7), (13, 9, 5, 9), (1, 13, 9, 13), (5, 1, 13, 18),
      (14, 10, 6, 7), (2, 14, 10, 9), (6, 2, 14, 13), (10, 6, 2, 18),
      (3, 15, 11, 7), (7, 3, 15, 9), (11, 7, 3, 13), (15, 11, 7, 18)]"

definition s20_row_lines :: "(nat \<times> nat \<times> nat \<times> nat) list" where
  "s20_row_lines =
     [(1, 0, 3, 7), (2, 1, 0, 9), (3, 2, 1, 13), (0, 3, 2, 18),
      (6, 5, 4, 7), (7, 6, 5, 9), (4, 7, 6, 13), (5, 4, 7, 18),
      (11, 10, 9, 7), (8, 11, 10, 9), (9, 8, 11, 13), (10, 9, 8, 18),
      (12, 15, 14, 7), (13, 12, 15, 9), (14, 13, 12, 13), (15, 14, 13, 18)]"

text \<open>One of the blocks marked \<open>2X round\<close>.\<close>

definition s20_2x_round :: "u32 list \<Rightarrow> u32 list" where
  "s20_2x_round x = foldl s20_step x (s20_column_lines @ s20_row_lines)"

definition s20_core :: "nat \<Rightarrow> u32 list \<Rightarrow> u32 list" where
  "s20_core dr j = map2 (+) ((s20_2x_round ^^ dr) j) j"

definition u8to32_little :: "bytes \<Rightarrow> nat \<Rightarrow> u32" where
  "u8to32_little p i = le_word (take 4 (drop i p))"

definition s20_constants :: bytes where
  "s20_constants = map of_nat [101, 120, 112, 97, 110, 100, 32, 51, 50, 45, 98, 121, 116, 101, 32, 107]"

definition s20_init :: "bytes \<Rightarrow> bytes \<Rightarrow> u32 list res" where
  "s20_init key iv =
     (if length key < 32 \<or> length iv < 8 then Inl UndefinedBehaviour
      else Inr
       [u8to32_little s20_constants 0, u8to32_little key 0, u8to32_little key 4, u8to32_little key 8,
        u8to32_little key 12, u8to32_little s20_constants 4, u8to32_little iv 0, u8to32_little iv 4,
        0, 0, u8to32_little s20_constants 8, u8to32_little key 16,
        u8to32_little key 20, u8to32_little key 24, u8to32_little key 28, u8to32_little s20_constants 12])"

text \<open>The sixteen stores of a block: each word of the message is combined with one of the state.\<close>

definition s20_combine :: "u32 list \<Rightarrow> bytes \<Rightarrow> bytes" where
  "s20_combine x m = concat (map (\<lambda>i. le_bytes (x ! i XOR u8to32_little m (4 * i))) [0..<16])"

definition s20_count :: "u32 list \<Rightarrow> u32 list" where
  "s20_count j = (if j ! 8 + 1 = 0 then j[8 := j ! 8 + 1, 9 := j ! 9 + 1] else j[8 := j ! 8 + 1])"

text \<open>
  The loop over the blocks.  A last block of less than 64 bytes goes through the local array \<open>tmp\<close>,
  whose other bytes are not initialised.
\<close>

function s20_blocks :: "nat \<Rightarrow> bytes \<Rightarrow> u32 list \<Rightarrow> bytes \<Rightarrow> u32 list \<times> bytes" where
  "s20_blocks dr tmp j m =
     (if length m < 64 then
        (s20_count j, take (length m) (s20_combine (s20_core dr j) (m @ drop (length m) tmp)))
      else if length m = 64 then (s20_count j, s20_combine (s20_core dr j) m)
      else
        let (j', c) = s20_blocks dr tmp (s20_count j) (drop 64 m)
        in (j', s20_combine (s20_core dr j) (take 64 m) @ c))"
  by auto

termination s20_blocks
  by (relation "measure (\<lambda>(dr, tmp, j, m). length m)") auto

declare s20_blocks.simps [simp del]

definition s20_crypt :: "nat \<Rightarrow> bytes \<Rightarrow> u32 list \<Rightarrow> bytes \<Rightarrow> u32 list \<times> bytes" where
  "s20_crypt dr tmp st m =
     (if m = [] then (st, [])
      else let (j, c) = s20_blocks dr tmp st m in (st[8 := j ! 8, 9 := j ! 9], c))"

definition crypt12 :: "bytes \<Rightarrow> u32 list \<Rightarrow> bytes \<Rightarrow> u32 list \<times> bytes" where
  "crypt12 tmp st m = s20_crypt 6 tmp st m"

definition crypt20 :: "bytes \<Rightarrow> u32 list \<Rightarrow> bytes \<Rightarrow> u32 list \<times> bytes" where
  "crypt20 tmp st m = s20_crypt 10 tmp st m"

definition memxor :: "bytes \<Rightarrow> bytes \<Rightarrow> bytes" where
  "memxor d s = map2 (XOR) d s"

section \<open>The published definition\<close>

definition quarterround :: "u32 \<times> u32 \<times> u32 \<times> u32 \<Rightarrow> u32 \<times> u32 \<times> u32 \<times> u32" where
  "quarterround y = (case y of (y0, y1, y2, y3) \<Rightarrow>
     let z1 = y1 XOR word_rotl 7 (y0 + y3);
         z2 = y2 XOR word_rotl 9 (z1 + y0);
         z3 = y3 XOR word_rotl 13 (z2 + z1);
         z0 = y0 XOR word_rotl 18 (z3 + z2)
     in (z0, z1, z2, z3))"

text \<open>The shifts of \<open>ROTATE\<close> rotate, for every amount below the width.\<close>

lemma rotate32_rotl:
  assumes "c < 32"
  shows "rotate32 v c = word_rotl c v"
proof (rule bit_word_eqI)
  fix n
  assume "n < LENGTH(32)"
  then have n: "n < 32" by simp
  have shifts: "bit (rotate32 v c) n \<longleftrightarrow> c \<le> n \<and> bit v (n - c) \<or> bit v (32 - c + n)"
    using n by (simp add: rotate32_def bit_simps)
  define k where "k = (n + (32 - c)) mod 32"
  have rotl: "bit (word_rotl c v) n \<longleftrightarrow> bit v k" using n assms by (simp add: bit_word_rotl_iff k_def)
  show "bit (rotate32 v c) n \<longleftrightarrow> bit (word_rotl c v) n"
  proof (cases "c \<le> n")
    case True
    then have "k = n - c" using assms n by (simp add: k_def mod_if)
    moreover have "\<not> bit v (32 - c + n)" using True assms bit_imp_le_length [of v "32 - c + n"] by auto
    ultimately show ?thesis unfolding shifts rotl using True by simp
  next
    case False
    then have "k = 32 - c + n" using assms n by (simp add: k_def)
    then show ?thesis unfolding shifts rotl using False by simp
  qed
qed

text \<open>Apply a quarter round to the words at four positions.\<close>

definition quarter_at :: "u32 list \<Rightarrow> nat \<times> nat \<times> nat \<times> nat \<Rightarrow> u32 list" where
  "quarter_at x p = (case p of (a, b, c, d) \<Rightarrow>
     case quarterround (x ! a, x ! b, x ! c, x ! d) of (z0, z1, z2, z3) \<Rightarrow> x[a := z0, b := z1, c := z2, d := z3])"

text \<open>
  The columns and the rows of the four by four matrix, each started at its diagonal element.
\<close>

definition columnround :: "u32 list \<Rightarrow> u32 list" where
  "columnround x = foldl quarter_at x [(0, 4, 8, 12), (5, 9, 13, 1), (10, 14, 2, 6), (15, 3, 7, 11)]"

definition rowround :: "u32 list \<Rightarrow> u32 list" where
  "rowround x = foldl quarter_at x [(0, 1, 2, 3), (5, 6, 7, 4), (10, 11, 8, 9), (15, 12, 13, 14)]"

definition doubleround :: "u32 list \<Rightarrow> u32 list" where
  "doubleround x = rowround (columnround x)"

lemma quarter_lines:
  assumes "a < length x" "b < length x" "c < length x" "d < length x" "distinct [a, b, c, d]"
  shows "foldl s20_step x [(b, a, d, 7), (c, b, a, 9), (d, c, b, 13), (a, d, c, 18)] = quarter_at x (a, b, c, d)"
proof -
  have "a \<noteq> b" "a \<noteq> c" "a \<noteq> d" "b \<noteq> c" "b \<noteq> d" "c \<noteq> d" using assms(5) by auto
  then show ?thesis
    using assms(1-4)
    by (simp add: s20_step_def quarter_at_def quarterround_def rotate32_rotl Let_def list_update_swap [of a])
qed

lemma length_s20_step [simp]: "length (s20_step x s) = length x"
  by (simp add: s20_step_def split: prod.splits)

lemma length_steps [simp]: "length (foldl s20_step x ss) = length x"
  by (induction ss arbitrary: x) simp_all

lemma length_quarter_at [simp]: "length (quarter_at x p) = length x"
  by (simp add: quarter_at_def split: prod.splits)

lemma quarters_lines:
  assumes "length x = 16"
    and "\<forall>(a, b, c, d) \<in> set qs. a < 16 \<and> b < 16 \<and> c < 16 \<and> d < 16 \<and> distinct [a, b, c, d]"
  shows "foldl s20_step x (concat (map (\<lambda>(a, b, c, d). [(b, a, d, 7), (c, b, a, 9), (d, c, b, 13), (a, d, c, 18)]) qs)) =
    foldl quarter_at x qs"
  using assms
proof (induction qs arbitrary: x)
  case (Cons q qs)
  obtain a b c d where q: "q = (a, b, c, d)" by (cases q)
  with Cons.prems have abcd: "a < 16" "b < 16" "c < 16" "d < 16" "distinct [a, b, c, d]" by auto
  have "foldl s20_step x [(b, a, d, 7), (c, b, a, 9), (d, c, b, 13), (a, d, c, 18)] = quarter_at x q"
    unfolding q using abcd Cons.prems(1) by (intro quarter_lines) auto
  with Cons show ?case by (simp add: q)
qed simp

lemma s20_2x_round_doubleround: "length x = 16 \<Longrightarrow> s20_2x_round x = doubleround x"
  using quarters_lines [of x "[(0, 4, 8, 12), (5, 9, 13, 1), (10, 14, 2, 6), (15, 3, 7, 11)]"]
    quarters_lines [of "columnround x" "[(0, 1, 2, 3), (5, 6, 7, 4), (10, 11, 8, 9), (15, 12, 13, 14)]"]
  by (simp add: s20_2x_round_def s20_column_lines_def s20_row_lines_def columnround_def rowround_def doubleround_def)

lemma length_doubleround [simp]: "length (doubleround x) = length x"
  by (simp add: doubleround_def columnround_def rowround_def)

lemma s20_rounds: "length x = 16 \<Longrightarrow> (s20_2x_round ^^ n) x = (doubleround ^^ n) x \<and> length ((doubleround ^^ n) x) = 16"
  by (induction n) (auto simp: s20_2x_round_doubleround)

section \<open>The key stream\<close>

text \<open>The hash of the published definition and the stream of its bytes, block after block.\<close>

definition salsa20_hash :: "nat \<Rightarrow> u32 list \<Rightarrow> bytes" where
  "salsa20_hash dr j = concat (map le_bytes (map2 (+) ((doubleround ^^ dr) j) j))"

definition s20_at_block :: "u32 list \<Rightarrow> nat \<Rightarrow> u32 list" where
  "s20_at_block j n = (s20_count ^^ n) j"

definition salsa20_stream :: "nat \<Rightarrow> u32 list \<Rightarrow> nat \<Rightarrow> u8" where
  "salsa20_stream dr j i = salsa20_hash dr (s20_at_block j (i div 64)) ! (i mod 64)"

lemma length_s20_count [simp]: "length (s20_count j) = length j"
  by (simp add: s20_count_def)

lemma length_s20_at_block [simp]: "length (s20_at_block j n) = length j"
  by (induction n) (simp_all add: s20_at_block_def)

lemma length_s20_core [simp]: "length j = 16 \<Longrightarrow> length (s20_core dr j) = 16"
  using s20_rounds [of j dr] by (simp add: s20_core_def)

lemma nth_concat_map_const:
  assumes "\<forall>x \<in> set xs. length (f x) = n" "k < n * length xs"
  shows "concat (map f xs) ! k = f (xs ! (k div n)) ! (k mod n)"
  using assms
proof (induction xs arbitrary: k)
  case (Cons x xs)
  then have n: "length (f x) = n" "0 < n" by (auto intro: gr0I)
  show ?case
  proof (cases "k < n")
    case False
    then have "concat (map f (x # xs)) ! k = concat (map f xs) ! (k - n)" using n by (simp add: nth_append)
    also have "\<dots> = f (xs ! ((k - n) div n)) ! ((k - n) mod n)"
      using Cons.prems False by (intro Cons.IH) auto
    also have "xs ! ((k - n) div n) = (x # xs) ! (k div n)" using False n(2) by (simp add: le_div_geq)
    also have "(k - n) mod n = k mod n" using False by (simp add: le_mod_geq)
    finally show ?thesis .
  qed (use n in \<open>simp add: nth_append\<close>)
qed simp

lemma length_concat_map_const: "\<forall>x \<in> set xs. length (f x) = n \<Longrightarrow> length (concat (map f xs)) = n * length xs"
  by (induction xs) simp_all

lemma length_s20_combine [simp]: "length (s20_combine x m) = 64"
  using length_concat_map_const [of "[0..<16]" "\<lambda>i. le_bytes (x ! i XOR u8to32_little m (4 * i))" 4]
  by (simp add: s20_combine_def)

lemma nth_le_bytes_xor:
  "length w = 4 \<Longrightarrow> k < 4 \<Longrightarrow> le_bytes (x XOR le_word w :: u32) ! k = le_bytes x ! k XOR w ! k"
proof -
  assume w: "length w = 4" "k < 4"
  have b: "le_bytes (v :: u32) ! k = ucast (drop_bit (8 * k) v)" for v
    using w(2) nth_rev_word_bytes_be [of k v] by (simp add: le_bytes_def)
  have "w ! k = le_bytes (le_word w :: u32) ! k" using w(1) by (simp add: le_bytes_le_word)
  then show ?thesis by (simp add: b) (intro bit_word_eqI, auto simp: bit_simps)
qed

lemma nth_s20_combine:
  assumes "length m = 64" "length x = 16" "k < 64"
  shows "s20_combine x m ! k = concat (map le_bytes x) ! k XOR m ! k"
proof -
  have d: "k div 4 < 16" "k mod 4 < 4" using assms(3) by auto
  have w: "length (take 4 (drop (4 * (k div 4)) m)) = 4" using assms(1) d by simp
  have "s20_combine x m ! k = le_bytes (x ! (k div 4) XOR u8to32_little m (4 * (k div 4))) ! (k mod 4)"
    using nth_concat_map_const [of "[0..<16]" "\<lambda>i. le_bytes (x ! i XOR u8to32_little m (4 * i))" 4 k] assms(3) d
    by (simp add: s20_combine_def)
  also have "\<dots> = le_bytes (x ! (k div 4)) ! (k mod 4) XOR take 4 (drop (4 * (k div 4)) m) ! (k mod 4)"
    unfolding u8to32_little_def by (rule nth_le_bytes_xor [OF w d(2)])
  also have "take 4 (drop (4 * (k div 4)) m) ! (k mod 4) = m ! k" using assms(1,3) d by simp
  also have "le_bytes (x ! (k div 4)) ! (k mod 4) = concat (map le_bytes x) ! k"
    using nth_concat_map_const [of x le_bytes 4 k] assms by simp
  finally show ?thesis .
qed

lemma s20_core_hash: "length j = 16 \<Longrightarrow> concat (map le_bytes (s20_core dr j)) = salsa20_hash dr j"
  using s20_rounds [of j dr] by (simp add: s20_core_def salsa20_hash_def)

lemma s20_combine_stream:
  assumes "length j = 16" "length m = 64"
  shows "s20_combine (s20_core dr j) m = map (\<lambda>i. m ! i XOR salsa20_stream dr j i) [0..<64]"
  using assms nth_s20_combine [OF assms(2), of "s20_core dr j"]
  by (intro nth_equalityI) (simp_all add: s20_core_hash salsa20_stream_def s20_at_block_def xor.commute)

lemma salsa20_stream_shift: "salsa20_stream dr j (64 + i) = salsa20_stream dr (s20_count j) i"
  by (simp add: salsa20_stream_def s20_at_block_def div_add_self1 funpow_swap1)

lemma s20_blocks_stream:
  assumes "length j = 16" "length tmp = 64" "m \<noteq> []"
  shows "s20_blocks dr tmp j m =
    (s20_at_block j ((length m + 63) div 64), map (\<lambda>i. m ! i XOR salsa20_stream dr j i) [0..<length m])"
  using assms
proof (induction dr tmp j m rule: s20_blocks.induct)
  case (1 dr tmp j m)
  consider "length m < 64" | "length m = 64" | "64 < length m" by linarith
  then show ?case
  proof cases
    case 1
    let ?p = "m @ drop (length m) tmp"
    have "length ?p = 64" using 1 "1.prems"(2) by simp
    then have "take (length m) (s20_combine (s20_core dr j) ?p) = map (\<lambda>i. m ! i XOR salsa20_stream dr j i) [0..<length m]"
      using 1 "1.prems"(1) by (simp add: s20_combine_stream take_map nth_append)
    moreover have "(length m + 63) div 64 = 1"
      using 1 "1.prems"(3) by (cases m) (simp_all add: div_if)
    ultimately show ?thesis using 1 by (simp add: s20_blocks.simps s20_at_block_def)
  next
    case 2
    with "1.prems" show ?thesis by (simp add: s20_blocks.simps s20_combine_stream s20_at_block_def)
  next
    case 3
    have IH: "s20_blocks dr tmp (s20_count j) (drop 64 m) =
      (s20_at_block (s20_count j) ((length m - Suc 0) div 64),
       map (\<lambda>i. m ! (64 + i) XOR salsa20_stream dr j (64 + i)) [0..<length m - 64])"
      using 3 "1.IH" "1.prems" by (simp add: salsa20_stream_shift)
    have u: "[0..<length m] = [0..<64] @ map (\<lambda>i. 64 + i) [0..<length m - 64]"
      using 3 by (intro nth_equalityI) (auto simp: nth_append)
    have "(length m + 63) div 64 = Suc ((length m - Suc 0) div 64)"
      using 3 div_add_self2 [of 64 "length m - 1"] by (simp add: Suc_diff_Suc flip: length_greater_0_conv)
    then have k: "s20_at_block (s20_count j) ((length m - Suc 0) div 64) = s20_at_block j ((length m + 63) div 64)"
      by (simp add: s20_at_block_def funpow_swap1)
    have "s20_combine (s20_core dr j) (take 64 m) = map (\<lambda>i. m ! i XOR salsa20_stream dr j i) [0..<64]"
      using 3 "1.prems"(1) by (simp add: s20_combine_stream)
    with 3 IH show ?thesis by (simp add: s20_blocks.simps [of dr tmp j m] k u o_def)
  qed
qed

text \<open>The block counter: the two state words that change from block to block.\<close>

definition s20_counter :: "u32 list \<Rightarrow> nat" where
  "s20_counter j = unat (j ! 9) * 2 ^ 32 + unat (j ! 8)"

lemma s20_counter_step:
  assumes "length j = 16"
  shows "s20_counter (s20_count j) = (s20_counter j + 1) mod 2 ^ 64"
proof -
  have b: "unat (j ! 8) < 2 ^ 32" "unat (j ! 9) < 2 ^ 32" using unat_bounds(3) by simp_all
  show ?thesis
  proof (cases "j ! 8 + 1 = 0")
    case True
    then have "j ! 8 = - 1" by (simp add: eq_neg_iff_add_eq_0)
    then have m: "unat (j ! 8) = 2 ^ 32 - 1" by (simp add: unsigned_minus_1_eq_mask mask_eq_exp_minus_1)
    have "unat (j ! 9 + 1) = (unat (j ! 9) + 1) mod 2 ^ 32" by (simp add: unat_word_ariths)
    then show ?thesis
      using assms True m b(2) by (cases "unat (j ! 9) = 2 ^ 32 - 1") (simp_all add: s20_counter_def s20_count_def)
  next
    case False
    then have "unat (j ! 8 + 1) = unat (j ! 8) + 1" by (metis Suc_eq_plus1 add.commute unatSuc)
    moreover have "unat (j ! 8 + 1) < 2 ^ 32" using unat_bounds(3) by simp
    ultimately show ?thesis using assms False b by (simp add: s20_counter_def s20_count_def)
  qed
qed

lemma s20_at_block_law:
  "length j = 16 \<Longrightarrow> s20_counter (s20_at_block j n) = (s20_counter j + n) mod 2 ^ 64 \<and>
    (\<forall>i < 16. i \<noteq> 8 \<longrightarrow> i \<noteq> 9 \<longrightarrow> s20_at_block j n ! i = j ! i)"
proof (induction n)
  case 0
  have "unat (j ! 8) < 2 ^ 32" "unat (j ! 9) < 2 ^ 32" using unat_bounds(3) by simp_all
  then show ?case by (simp add: s20_at_block_def s20_counter_def)
next
  case (Suc n)
  have a: "s20_at_block j (Suc n) = s20_count (s20_at_block j n)" by (simp add: s20_at_block_def)
  have "s20_counter (s20_at_block j (Suc n)) = (s20_counter j + Suc n) mod 2 ^ 64"
    unfolding a using Suc by (subst s20_counter_step) (simp_all add: mod_simps)
  moreover have "s20_at_block j (Suc n) ! i = j ! i" if "i < 16" "i \<noteq> 8" "i \<noteq> 9" for i
    unfolding a using Suc that by (simp add: s20_count_def)
  ultimately show ?case by blast
qed

lemma s20_crypt_stream:
  assumes "length st = 16" "length tmp = 64"
  shows "s20_crypt dr tmp st m =
    (s20_at_block st ((length m + 63) div 64), map (\<lambda>i. m ! i XOR salsa20_stream dr st i) [0..<length m])"
proof (cases "m = []")
  case True
  then show ?thesis by (simp add: s20_crypt_def s20_at_block_def)
next
  case False
  let ?j = "s20_at_block st ((length m + 63) div 64)"
  have "st[8 := ?j ! 8, 9 := ?j ! 9] = ?j"
    using assms(1) s20_at_block_law [OF assms(1)] by (intro nth_equalityI) (auto simp: nth_list_update)
  with False s20_blocks_stream [OF assms False] show ?thesis by (simp add: s20_crypt_def)
qed

lemma xor_stream_twice:
  "map (\<lambda>x. map (\<lambda>i. m ! i XOR (f i :: u8)) [0..<length m] ! x XOR f x) [0..<length m] = m"
  by (intro nth_equalityI) (simp_all add: xor.assoc)

end
