(* ===== verification/Salsa_Sse.thy ===== *)
theory Salsa_Sse
  imports Zt_Salsa
begin

text \<open>
  The SSE2 branch of the stream cipher (node/Salsa20.cpp under \<open>ZT_SALSA20_SSE\<close>), which x86-64 builds
  compile instead of the portable one.  A vector register is four words, the lowest lane first; the
  intrinsics are the operations on them that the processor manual describes.  The branch keeps the
  state in another order, so that the four diagonals of the matrix are the four registers.  The laws
  show that it refines the portable branch: from corresponding states both give the same bytes and
  corresponding states.
\<close>

section \<open>Vector registers\<close>

datatype m128i = M128 u32 u32 u32 u32

fun mm_lane :: "m128i \<Rightarrow> nat \<Rightarrow> u32" where
  "mm_lane (M128 a b c d) n = (if n = 0 then a else if n = 1 then b else if n = 2 then c else d)"

definition mm_map2 :: "(u32 \<Rightarrow> u32 \<Rightarrow> u32) \<Rightarrow> m128i \<Rightarrow> m128i \<Rightarrow> m128i" where
  "mm_map2 f v w = M128 (f (mm_lane v 0) (mm_lane w 0)) (f (mm_lane v 1) (mm_lane w 1))
     (f (mm_lane v 2) (mm_lane w 2)) (f (mm_lane v 3) (mm_lane w 3))"

definition mm_add_epi32 :: "m128i \<Rightarrow> m128i \<Rightarrow> m128i" where
  "mm_add_epi32 = mm_map2 (+)"

definition mm_xor_si128 :: "m128i \<Rightarrow> m128i \<Rightarrow> m128i" where
  "mm_xor_si128 = mm_map2 (XOR)"

definition mm_or_si128 :: "m128i \<Rightarrow> m128i \<Rightarrow> m128i" where
  "mm_or_si128 = mm_map2 (OR)"

definition mm_and_si128 :: "m128i \<Rightarrow> m128i \<Rightarrow> m128i" where
  "mm_and_si128 = mm_map2 (AND)"

fun mm_slli_epi32 :: "m128i \<Rightarrow> nat \<Rightarrow> m128i" where
  "mm_slli_epi32 (M128 a b c d) n = M128 (push_bit n a) (push_bit n b) (push_bit n c) (push_bit n d)"

fun mm_srli_epi32 :: "m128i \<Rightarrow> nat \<Rightarrow> m128i" where
  "mm_srli_epi32 (M128 a b c d) n = M128 (drop_bit n a) (drop_bit n b) (drop_bit n c) (drop_bit n d)"

text \<open>Two bits of the immediate select each lane.\<close>

definition mm_shuffle_epi32 :: "m128i \<Rightarrow> nat \<Rightarrow> m128i" where
  "mm_shuffle_epi32 v imm = M128 (mm_lane v (imm mod 4)) (mm_lane v (imm div 4 mod 4))
     (mm_lane v (imm div 16 mod 4)) (mm_lane v (imm div 64 mod 4))"

definition MM_SHUFFLE :: "nat \<Rightarrow> nat \<Rightarrow> nat \<Rightarrow> nat \<Rightarrow> nat" where
  "MM_SHUFFLE z y x w = 64 * z + 16 * y + 4 * x + w"

text \<open>The register as two 64-bit lanes.\<close>

fun mm_lo64 :: "m128i \<Rightarrow> u64" where
  "mm_lo64 (M128 a b c d) = push_bit 32 (ucast b) OR ucast a"

fun mm_hi64 :: "m128i \<Rightarrow> u64" where
  "mm_hi64 (M128 a b c d) = push_bit 32 (ucast d) OR ucast c"

definition mm_of64 :: "u64 \<Rightarrow> u64 \<Rightarrow> m128i" where
  "mm_of64 lo hi = M128 (ucast lo) (ucast (drop_bit 32 lo)) (ucast hi) (ucast (drop_bit 32 hi))"

definition mm_slli_epi64 :: "m128i \<Rightarrow> nat \<Rightarrow> m128i" where
  "mm_slli_epi64 v n = mm_of64 (push_bit n (mm_lo64 v)) (push_bit n (mm_hi64 v))"

definition mm_srli_epi64 :: "m128i \<Rightarrow> nat \<Rightarrow> m128i" where
  "mm_srli_epi64 v n = mm_of64 (drop_bit n (mm_lo64 v)) (drop_bit n (mm_hi64 v))"

definition mm_unpackhi_epi64 :: "m128i \<Rightarrow> m128i \<Rightarrow> m128i" where
  "mm_unpackhi_epi64 v w = mm_of64 (mm_hi64 v) (mm_hi64 w)"

definition mm_unpacklo_epi64 :: "m128i \<Rightarrow> m128i \<Rightarrow> m128i" where
  "mm_unpacklo_epi64 v w = mm_of64 (mm_lo64 v) (mm_lo64 w)"

definition mm_cvtsi32_si128 :: "u32 \<Rightarrow> m128i" where
  "mm_cvtsi32_si128 a = M128 a 0 0 0"

definition mm_loadu :: "bytes \<Rightarrow> nat \<Rightarrow> m128i" where
  "mm_loadu p i = M128 (u8to32_little p i) (u8to32_little p (i + 4)) (u8to32_little p (i + 8)) (u8to32_little p (i + 12))"

fun mm_storeu :: "m128i \<Rightarrow> bytes" where
  "mm_storeu (M128 a b c d) = le_bytes a @ le_bytes b @ le_bytes c @ le_bytes d"

section \<open>The code\<close>

definition sse_maskLo32 :: m128i where
  "sse_maskLo32 = mm_shuffle_epi32 (mm_cvtsi32_si128 (- 1)) (MM_SHUFFLE 1 0 1 0)"

definition sse_maskHi32 :: m128i where
  "sse_maskHi32 = mm_slli_epi64 sse_maskLo32 32"

definition sse_init :: "bytes \<Rightarrow> bytes \<Rightarrow> u32 list res" where
  "sse_init key iv =
     (if length key < 32 \<or> length iv < 8 then Inl UndefinedBehaviour
      else let k = (\<lambda>i. u8to32_little key (4 * i)) in Inr
       [0x61707865, 0x3320646e, 0x79622d32, 0x6b206574,
        k 3, 0, k 7, k 2,
        0, k 6, k 1, u8to32_little iv 4,
        k 5, k 0, u8to32_little iv 0, k 4])"

text \<open>\<open>_state.v\<close> is a view of \<open>_state.i\<close>.\<close>

definition sse_state_v :: "u32 list \<Rightarrow> nat \<Rightarrow> m128i" where
  "sse_state_v st k = M128 (st ! (4 * k)) (st ! (4 * k + 1)) (st ! (4 * k + 2)) (st ! (4 * k + 3))"

type_synonym sse_regs = "m128i \<times> m128i \<times> m128i \<times> m128i"

text \<open>\<open>X = X ^ (T << l) ^ (T >> r)\<close>, as every second line of a round has it.\<close>

definition sse_mix :: "m128i \<Rightarrow> m128i \<Rightarrow> nat \<Rightarrow> nat \<Rightarrow> m128i" where
  "sse_mix X T l r = mm_xor_si128 (mm_xor_si128 X (mm_slli_epi32 T l)) (mm_srli_epi32 T r)"

definition sse_columns :: "sse_regs \<Rightarrow> sse_regs" where
  "sse_columns X = (case X of (X0, X1, X2, X3) \<Rightarrow>
     let X1 = sse_mix X1 (mm_add_epi32 X0 X3) 7 25;
         X2 = sse_mix X2 (mm_add_epi32 X1 X0) 9 23;
         X3 = sse_mix X3 (mm_add_epi32 X2 X1) 13 19;
         X0 = sse_mix X0 (mm_add_epi32 X3 X2) 18 14
     in (X0, mm_shuffle_epi32 X1 0x93, mm_shuffle_epi32 X2 0x4e, mm_shuffle_epi32 X3 0x39))"

definition sse_rows :: "sse_regs \<Rightarrow> sse_regs" where
  "sse_rows X = (case X of (X0, X1, X2, X3) \<Rightarrow>
     let X3 = sse_mix X3 (mm_add_epi32 X0 X1) 7 25;
         X2 = sse_mix X2 (mm_add_epi32 X3 X0) 9 23;
         X1 = sse_mix X1 (mm_add_epi32 X2 X3) 13 19;
         X0 = sse_mix X0 (mm_add_epi32 X1 X2) 18 14
     in (X0, mm_shuffle_epi32 X1 0x39, mm_shuffle_epi32 X2 0x4e, mm_shuffle_epi32 X3 0x93))"

definition sse_2x_round :: "sse_regs \<Rightarrow> sse_regs" where
  "sse_2x_round X = sse_rows (sse_columns X)"

definition sse_core :: "nat \<Rightarrow> u32 list \<Rightarrow> sse_regs" where
  "sse_core dr st =
     (let X0s = sse_state_v st 0; X1s = sse_state_v st 1; X2s = sse_state_v st 2; X3s = sse_state_v st 3 in
      case (sse_2x_round ^^ dr) (X0s, X1s, X2s, X3s) of (X0, X1, X2, X3) \<Rightarrow>
        (mm_add_epi32 X0s X0, mm_add_epi32 X1s X1, mm_add_epi32 X2s X2, mm_add_epi32 X3s X3))"

definition sse_combine :: "sse_regs \<Rightarrow> bytes \<Rightarrow> bytes" where
  "sse_combine X m = (case X of (X0, X1, X2, X3) \<Rightarrow>
     let k02 = mm_shuffle_epi32 (mm_or_si128 (mm_slli_epi64 X0 32) (mm_srli_epi64 X3 32)) (MM_SHUFFLE 0 1 2 3);
         k13 = mm_shuffle_epi32 (mm_or_si128 (mm_slli_epi64 X1 32) (mm_srli_epi64 X0 32)) (MM_SHUFFLE 0 1 2 3);
         k20 = mm_or_si128 (mm_and_si128 X2 sse_maskLo32) (mm_and_si128 X1 sse_maskHi32);
         k31 = mm_or_si128 (mm_and_si128 X3 sse_maskLo32) (mm_and_si128 X2 sse_maskHi32)
     in mm_storeu (mm_xor_si128 (mm_unpackhi_epi64 k02 k20) (mm_loadu m 0)) @
        mm_storeu (mm_xor_si128 (mm_unpackhi_epi64 k13 k31) (mm_loadu m 16)) @
        mm_storeu (mm_xor_si128 (mm_unpacklo_epi64 k20 k02) (mm_loadu m 32)) @
        mm_storeu (mm_xor_si128 (mm_unpacklo_epi64 k31 k13) (mm_loadu m 48)))"

definition sse_count :: "u32 list \<Rightarrow> u32 list" where
  "sse_count st = (if st ! 8 + 1 = 0 then st[8 := st ! 8 + 1, 5 := st ! 5 + 1] else st[8 := st ! 8 + 1])"

text \<open>The loop over the blocks, on the state of the object itself.\<close>

function sse_blocks :: "nat \<Rightarrow> bytes \<Rightarrow> u32 list \<Rightarrow> bytes \<Rightarrow> u32 list \<times> bytes" where
  "sse_blocks dr tmp st m =
     (if length m < 64 then
        (sse_count st, take (length m) (sse_combine (sse_core dr st) (m @ drop (length m) tmp)))
      else if length m = 64 then (sse_count st, sse_combine (sse_core dr st) m)
      else
        let (st', c) = sse_blocks dr tmp (sse_count st) (drop 64 m)
        in (st', sse_combine (sse_core dr st) (take 64 m) @ c))"
  by auto

termination sse_blocks
  by (relation "measure (\<lambda>(dr, tmp, st, m). length m)") auto

declare sse_blocks.simps [simp del]

definition sse_crypt :: "nat \<Rightarrow> bytes \<Rightarrow> u32 list \<Rightarrow> bytes \<Rightarrow> u32 list \<times> bytes" where
  "sse_crypt dr tmp st m = (if m = [] then (st, []) else sse_blocks dr tmp st m)"

definition sse_crypt12 :: "bytes \<Rightarrow> u32 list \<Rightarrow> bytes \<Rightarrow> u32 list \<times> bytes" where
  "sse_crypt12 tmp st m = sse_crypt 6 tmp st m"

definition sse_crypt20 :: "bytes \<Rightarrow> u32 list \<Rightarrow> bytes \<Rightarrow> u32 list \<times> bytes" where
  "sse_crypt20 tmp st m = sse_crypt 10 tmp st m"

section \<open>The intrinsics on known lanes\<close>

lemma bit_u32_high [simp]: "32 \<le> n \<Longrightarrow> \<not> bit (a :: u32) n"
  using bit_imp_le_length [of a n] by auto

lemma lanes64:
  fixes a b c d :: u32
  shows "ucast (push_bit 32 (ucast b) OR ucast a :: u64) = a"
    and "ucast (drop_bit 32 (push_bit 32 (ucast b) OR ucast a :: u64)) = b"
    and "ucast (push_bit 32 (push_bit 32 (ucast b) OR ucast a :: u64)) = (0 :: u32)"
    and "ucast (drop_bit 32 (push_bit 32 (push_bit 32 (ucast b) OR ucast a :: u64))) = a"
    and "ucast (drop_bit 32 (drop_bit 32 (push_bit 32 (ucast b) OR ucast a :: u64))) = (0 :: u32)"
  by (auto intro!: bit_word_eqI simp: bit_simps)

named_theorems mm_simps

lemma mm_lanewise [mm_simps]:
  "mm_add_epi32 (M128 a b c d) (M128 e f g h) = M128 (a + e) (b + f) (c + g) (d + h)"
  "mm_xor_si128 (M128 a b c d) (M128 e f g h) = M128 (a XOR e) (b XOR f) (c XOR g) (d XOR h)"
  "mm_or_si128 (M128 a b c d) (M128 e f g h) = M128 (a OR e) (b OR f) (c OR g) (d OR h)"
  "mm_and_si128 (M128 a b c d) (M128 e f g h) = M128 (a AND e) (b AND f) (c AND g) (d AND h)"
  by (simp_all add: mm_add_epi32_def mm_xor_si128_def mm_or_si128_def mm_and_si128_def mm_map2_def)

lemma mm_shuffles [mm_simps]:
  "mm_shuffle_epi32 (M128 a b c d) 0x93 = M128 d a b c" "mm_shuffle_epi32 (M128 a b c d) 0x4e = M128 c d a b"
  "mm_shuffle_epi32 (M128 a b c d) 0x39 = M128 b c d a" "mm_shuffle_epi32 (M128 a b c d) 0x1b = M128 d c b a"
  by (simp_all add: mm_shuffle_epi32_def)

lemma mm_halves [mm_simps]:
  "mm_slli_epi64 (M128 a b c d) 32 = M128 0 a 0 c" "mm_srli_epi64 (M128 a b c d) 32 = M128 b 0 d 0"
  "mm_unpackhi_epi64 (M128 a b c d) (M128 e f g h) = M128 c d g h"
  "mm_unpacklo_epi64 (M128 a b c d) (M128 e f g h) = M128 a b e f"
  by (simp_all only: mm_slli_epi64_def mm_srli_epi64_def mm_unpackhi_epi64_def mm_unpacklo_epi64_def mm_of64_def
      mm_lo64.simps mm_hi64.simps lanes64)

lemma sse_masks [mm_simps]: "sse_maskLo32 = M128 (- 1) 0 (- 1) 0" "sse_maskHi32 = M128 0 (- 1) 0 (- 1)"
  unfolding sse_maskHi32_def
  by (simp_all add: sse_maskLo32_def mm_shuffle_epi32_def MM_SHUFFLE_def mm_cvtsi32_si128_def mm_halves)

lemma shifts_disjoint: "n < 32 \<Longrightarrow> (x XOR push_bit n v) XOR drop_bit (32 - n) v = x XOR rotate32 v n" for v :: u32
  by (rule bit_word_eqI) (auto simp: rotate32_def bit_simps)

lemma sse_mix_rotl [mm_simps]:
  assumes "n < 32" "n + r = 32"
  shows "sse_mix (M128 a b c d) (M128 e f g h) n r =
    M128 (a XOR word_rotl n e) (b XOR word_rotl n f) (c XOR word_rotl n g) (d XOR word_rotl n h)"
proof -
  have "r = 32 - n" using assms(2) by simp
  then show ?thesis
    by (simp add: sse_mix_def mm_lanewise shifts_disjoint [OF assms(1)] rotate32_rotl [OF assms(1)])
qed

section \<open>The rounds\<close>

text \<open>The diagonals and, after the columns, the shuffled diagonals.\<close>

definition sse_vecs :: "u32 list \<Rightarrow> sse_regs" where
  "sse_vecs x = (M128 (x ! 0) (x ! 5) (x ! 10) (x ! 15), M128 (x ! 4) (x ! 9) (x ! 14) (x ! 3),
     M128 (x ! 8) (x ! 13) (x ! 2) (x ! 7), M128 (x ! 12) (x ! 1) (x ! 6) (x ! 11))"

definition sse_row_vecs :: "u32 list \<Rightarrow> sse_regs" where
  "sse_row_vecs x = (M128 (x ! 0) (x ! 5) (x ! 10) (x ! 15), M128 (x ! 3) (x ! 4) (x ! 9) (x ! 14),
     M128 (x ! 2) (x ! 7) (x ! 8) (x ! 13), M128 (x ! 1) (x ! 6) (x ! 11) (x ! 12))"

lemma sse_columns_law: "length x = 16 \<Longrightarrow> sse_columns (sse_vecs x) = sse_row_vecs (columnround x)"
  by (simp add: sse_columns_def sse_vecs_def sse_row_vecs_def columnround_def quarter_at_def quarterround_def Let_def mm_simps)

lemma sse_rows_law: "length x = 16 \<Longrightarrow> sse_rows (sse_row_vecs x) = sse_vecs (rowround x)"
  by (simp add: sse_rows_def sse_vecs_def sse_row_vecs_def rowround_def quarter_at_def quarterround_def Let_def mm_simps)

lemma sse_rounds_law: "length x = 16 \<Longrightarrow> (sse_2x_round ^^ n) (sse_vecs x) = sse_vecs ((s20_2x_round ^^ n) x)"
proof (induction n)
  case (Suc n)
  then have "length ((s20_2x_round ^^ n) x) = 16" using s20_rounds by metis
  with Suc show ?case
    by (simp add: sse_2x_round_def sse_columns_law sse_rows_law s20_2x_round_doubleround doubleround_def columnround_def)
qed simp

section \<open>Refinement of the portable branch\<close>

text \<open>The state of the SSE branch for a state of the portable one.\<close>

definition sse_order :: "nat list" where
  "sse_order = [0, 5, 10, 15, 4, 9, 14, 3, 8, 13, 2, 7, 12, 1, 6, 11]"

definition sse_of :: "u32 list \<Rightarrow> u32 list" where
  "sse_of j = map (\<lambda>i. j ! i) sse_order"

lemma sse_init_refines: "sse_init key iv = res_bind (s20_init key iv) (\<lambda>j. Inr (sse_of j))"
proof -
  have "u8to32_little s20_constants 0 = 0x61707865" "u8to32_little s20_constants 4 = 0x3320646e"
    "u8to32_little s20_constants 8 = 0x79622d32" "u8to32_little s20_constants 12 = 0x6b206574"
    by code_simp+
  then show ?thesis by (simp add: sse_init_def s20_init_def sse_of_def sse_order_def Let_def)
qed

lemma sse_count_refines: "length j = 16 \<Longrightarrow> sse_count (sse_of j) = sse_of (s20_count j)"
  by (simp add: sse_count_def s20_count_def sse_of_def sse_order_def)

lemma sse_core_refines:
  assumes "length j = 16"
  shows "sse_core dr (sse_of j) = sse_vecs (s20_core dr j)"
proof -
  let ?x = "(s20_2x_round ^^ dr) j"
  have l: "length ?x = 16" using s20_rounds [OF assms] by metis
  have v: "(sse_state_v (sse_of j) 0, sse_state_v (sse_of j) 1, sse_state_v (sse_of j) 2, sse_state_v (sse_of j) 3) = sse_vecs j"
    by (simp add: sse_state_v_def sse_of_def sse_order_def sse_vecs_def)
  have "sse_core dr (sse_of j) = (case sse_vecs j of (X0s, X1s, X2s, X3s) \<Rightarrow> case sse_vecs ?x of (X0, X1, X2, X3) \<Rightarrow>
      (mm_add_epi32 X0s X0, mm_add_epi32 X1s X1, mm_add_epi32 X2s X2, mm_add_epi32 X3s X3))"
    unfolding sse_core_def Let_def v sse_rounds_law [OF assms] by (simp add: v [symmetric])
  also have "\<dots> = sse_vecs (s20_core dr j)"
    using assms l by (simp add: sse_vecs_def s20_core_def mm_simps add.commute)
  finally show ?thesis .
qed

lemma sse_combine_refines: "sse_combine (sse_vecs x) m = s20_combine x m"
proof -
  have "[0..<16] = [0, 1, 2, 3, 4, 5, 6, 7, 8, 9, 10, 11, 12, 13, 14, 15 :: nat]" by code_simp
  then show ?thesis by (simp add: sse_combine_def sse_vecs_def s20_combine_def mm_simps MM_SHUFFLE_def mm_loadu_def Let_def)
qed

lemma sse_blocks_refines:
  "length j = 16 \<Longrightarrow> sse_blocks dr tmp (sse_of j) m = (case s20_blocks dr tmp j m of (j', c) \<Rightarrow> (sse_of j', c))"
proof (induction dr tmp j m rule: s20_blocks.induct)
  case (1 dr tmp j m)
  note laws = sse_core_refines [OF "1.prems"] sse_combine_refines sse_count_refines [OF "1.prems"]
  consider "length m < 64" | "length m = 64" | "64 < length m" by linarith
  then show ?case
  proof cases
    case 3
    then show ?thesis
      using 1 by (simp add: sse_blocks.simps [of dr tmp "sse_of j" m] s20_blocks.simps [of dr tmp j m] laws split: prod.splits)
  qed (simp_all add: sse_blocks.simps [of dr tmp "sse_of j" m] s20_blocks.simps [of dr tmp j m] laws)
qed

lemma sse_crypt_refines:
  assumes "length j = 16" "length tmp = 64"
  shows "sse_crypt dr tmp (sse_of j) m = (case s20_crypt dr tmp j m of (j', c) \<Rightarrow> (sse_of j', c))"
  using sse_blocks_refines [OF assms(1), of dr tmp m] s20_crypt_stream [OF assms, of dr m] s20_blocks_stream [OF assms, of m dr]
  by (cases "m = []") (simp_all add: sse_crypt_def s20_crypt_def)

section \<open>Property\<close>

text \<open>
  C10. The unrolled cipher is Salsa20.  \<open>crypt12\<close> and \<open>crypt20\<close> combine every byte of the data with
  the key stream of the published definition with six and ten double rounds, whatever the
  uninitialised scratch array holds and however long the data is, and move the 64-bit block counter
  on by the number of blocks begun; the same state turns the output back into the input.  The SSE
  branch is equivalent: its \<open>init\<close> makes the reordered state of the portable one, and its \<open>crypt12\<close>
  and \<open>crypt20\<close> give the same bytes and the reordered state.
\<close>

theorem salsa20_crypt:
  assumes "length st = 16" "length tmp = 64" "length tmp' = 64"
  shows "crypt12 tmp st m =
      (s20_at_block st ((length m + 63) div 64), map (\<lambda>i. m ! i XOR salsa20_stream 6 st i) [0..<length m]) \<and>
    crypt20 tmp st m =
      (s20_at_block st ((length m + 63) div 64), map (\<lambda>i. m ! i XOR salsa20_stream 10 st i) [0..<length m]) \<and>
    snd (crypt12 tmp' st (snd (crypt12 tmp st m))) = m \<and> snd (crypt20 tmp' st (snd (crypt20 tmp st m))) = m \<and>
    s20_counter (fst (crypt12 tmp st m)) = (s20_counter st + (length m + 63) div 64) mod 2 ^ 64 \<and>
    sse_init key iv = res_bind (s20_init key iv) (\<lambda>j. Inr (sse_of j)) \<and>
    sse_crypt12 tmp (sse_of st) m = (sse_of (fst (crypt12 tmp st m)), snd (crypt12 tmp st m)) \<and>
    sse_crypt20 tmp (sse_of st) m = (sse_of (fst (crypt20 tmp st m)), snd (crypt20 tmp st m))"
  using assms s20_at_block_law [OF assms(1)]
  by (simp add: crypt12_def crypt20_def sse_crypt12_def sse_crypt20_def s20_crypt_stream xor_stream_twice
      sse_init_refines sse_crypt_refines)

theorem salsa20_crypt_witness:
  "snd (crypt12 (replicate 64 9) (replicate 16 3) (snd (crypt12 (replicate 64 1) (replicate 16 3) (replicate 70 5)))) = replicate 70 5 \<and>
   s20_counter (fst (crypt12 (replicate 64 1) (replicate 16 3) (replicate 70 5))) = 3 * 2 ^ 32 + 5"
proof -
  have c: "(s20_counter (replicate 16 3) + (length (replicate 70 (5 :: u8)) + 63) div 64) mod 2 ^ 64 = 3 * 2 ^ 32 + 5"
    by (simp add: s20_counter_def)
  show ?thesis
    using salsa20_crypt [of "replicate 16 3" "replicate 64 1" "replicate 64 9" "replicate 70 5",
        OF length_replicate length_replicate length_replicate] c
    by metis
qed

end
