(* ===== verification/Zt_Poly1305.thy ===== *)
theory Zt_Poly1305
  imports Zt_Utils
begin

text \<open>
  The message authentication code (node/Poly1305.cpp), in the branch for 64-bit compilers with
  128-bit integers: the accumulator is three limbs of 44, 44 and 42 bits.  The result is related to
  the published definition: the message, cut into numbered blocks, is a polynomial evaluated at the
  clamped key modulo \<open>2 ^ 130 - 5\<close>, to which the second half of the key is added modulo \<open>2 ^ 128\<close>.
\<close>

section \<open>The code\<close>

type_synonym u128 = "128 word"
type_synonym limbs = "u64 \<times> u64 \<times> u64"

record poly1305_state =
  p_r :: limbs
  p_h :: limbs
  p_pad :: "u64 \<times> u64"
  p_leftover :: nat
  p_buffer :: bytes
  p_final :: bool

definition U8TO64 :: "bytes \<Rightarrow> nat \<Rightarrow> u64" where
  "U8TO64 p i = le_word (take 8 (drop i p))"

definition poly_MUL :: "u64 \<Rightarrow> u64 \<Rightarrow> u128" where
  "poly_MUL x y = ucast x * ucast y"

text \<open>The buffer of the context is not initialised; \<open>mem\<close> is what it holds.\<close>

definition poly1305_init :: "bytes \<Rightarrow> bytes \<Rightarrow> poly1305_state" where
  "poly1305_init mem key =
     (let t0 = U8TO64 key 0; t1 = U8TO64 key 8 in
      \<lparr>p_r = (t0 AND 0xffc0fffffff,
              (drop_bit 44 t0 OR push_bit 20 t1) AND 0xfffffc0ffff,
              drop_bit 24 t1 AND 0x00ffffffc0f),
       p_h = (0, 0, 0), p_pad = (U8TO64 key 16, U8TO64 key 24),
       p_leftover = 0, p_buffer = mem, p_final = False\<rparr>)"

text \<open>One turn of the loop of \<open>poly1305_blocks\<close>, on the sixteen bytes at \<open>m\<close>.\<close>

definition poly_block :: "limbs \<Rightarrow> u64 \<Rightarrow> limbs \<Rightarrow> bytes \<Rightarrow> limbs" where
  "poly_block r hibit h m =
     (case r of (r0, r1, r2) \<Rightarrow> case h of (h0, h1, h2) \<Rightarrow>
      let s1 = r1 * 20; s2 = r2 * 20;
          t0 = U8TO64 m 0; t1 = U8TO64 m 8;
          h0 = h0 + (t0 AND 0xfffffffffff);
          h1 = h1 + ((drop_bit 44 t0 OR push_bit 20 t1) AND 0xfffffffffff);
          h2 = h2 + ((drop_bit 24 t1 AND 0x3ffffffffff) OR hibit);
          d0 = poly_MUL h0 r0 + poly_MUL h1 s2 + poly_MUL h2 s1;
          d1 = poly_MUL h0 r1 + poly_MUL h1 r0 + poly_MUL h2 s2;
          d2 = poly_MUL h0 r2 + poly_MUL h1 r1 + poly_MUL h2 r0;
          c = (ucast (drop_bit 44 d0) :: u64); h0 = ucast d0 AND 0xfffffffffff;
          d1 = d1 + ucast c; c = (ucast (drop_bit 44 d1) :: u64); h1 = ucast d1 AND 0xfffffffffff;
          d2 = d2 + ucast c; c = (ucast (drop_bit 42 d2) :: u64); h2 = ucast d2 AND 0x3ffffffffff;
          h0 = h0 + c * 5; c = drop_bit 44 h0; h0 = h0 AND 0xfffffffffff;
          h1 = h1 + c
      in (h0, h1, h2))"

fun poly_loop :: "limbs \<Rightarrow> u64 \<Rightarrow> nat \<Rightarrow> limbs \<Rightarrow> bytes \<Rightarrow> limbs" where
  "poly_loop r hibit 0 h m = h"
| "poly_loop r hibit (Suc n) h m = poly_loop r hibit n (poly_block r hibit h m) (drop 16 m)"

definition poly1305_blocks :: "poly1305_state \<Rightarrow> bytes \<Rightarrow> poly1305_state" where
  "poly1305_blocks st m =
     st\<lparr>p_h := poly_loop (p_r st) (if p_final st then 0 else push_bit 40 1) (length m div 16) (p_h st) m\<rparr>"

text \<open>
  \<open>poly1305_update\<close>: first a partial block left by an earlier call is filled up, then whole blocks are
  processed and the rest is stored.
\<close>

definition poly1305_rest :: "poly1305_state \<Rightarrow> bytes \<Rightarrow> poly1305_state res" where
  "poly1305_rest st m =
     (let want = length m - length m mod 16;
          st1 = (if length m \<ge> 16 then poly1305_blocks st (take want m) else st);
          m1 = (if length m \<ge> 16 then drop want m else m)
      in if m1 \<noteq> [] then
           res_bind (memcpy (p_buffer st1) (p_leftover st1) m1 0 (length m1)) (\<lambda>buf.
           Inr (st1\<lparr>p_buffer := buf, p_leftover := p_leftover st1 + length m1\<rparr>))
         else Inr st1)"

definition poly1305_update :: "poly1305_state \<Rightarrow> bytes \<Rightarrow> poly1305_state res" where
  "poly1305_update st m =
     (if p_leftover st \<noteq> 0 then
        let want = min (16 - p_leftover st) (length m) in
        res_bind (memcpy (p_buffer st) (p_leftover st) m 0 want) (\<lambda>buf.
        let st1 = st\<lparr>p_buffer := buf, p_leftover := p_leftover st + want\<rparr> in
        if p_leftover st1 < 16 then Inr st1
        else poly1305_rest ((poly1305_blocks st1 buf)\<lparr>p_leftover := 0\<rparr>) (drop want m))
      else poly1305_rest st m)"

definition poly_reduce :: "limbs \<Rightarrow> limbs" where
  "poly_reduce h =
     (case h of (h0, h1, h2) \<Rightarrow>
      let c = drop_bit 44 h1; h1 = h1 AND 0xfffffffffff;
          h2 = h2 + c; c = drop_bit 42 h2; h2 = h2 AND 0x3ffffffffff;
          h0 = h0 + c * 5; c = drop_bit 44 h0; h0 = h0 AND 0xfffffffffff;
          h1 = h1 + c; c = drop_bit 44 h1; h1 = h1 AND 0xfffffffffff;
          h2 = h2 + c; c = drop_bit 42 h2; h2 = h2 AND 0x3ffffffffff;
          h0 = h0 + c * 5; c = drop_bit 44 h0; h0 = h0 AND 0xfffffffffff;
          h1 = h1 + c
      in (h0, h1, h2))"

definition poly_select :: "limbs \<Rightarrow> limbs" where
  "poly_select h =
     (case h of (h0, h1, h2) \<Rightarrow>
      let g0 = h0 + 5; c = drop_bit 44 g0; g0 = g0 AND 0xfffffffffff;
          g1 = h1 + c; c = drop_bit 44 g1; g1 = g1 AND 0xfffffffffff;
          g2 = h2 + c - push_bit 42 1;
          c = drop_bit 63 g2 - 1;
          g0 = g0 AND c; g1 = g1 AND c; g2 = g2 AND c;
          c = NOT c
      in ((h0 AND c) OR g0, (h1 AND c) OR g1, (h2 AND c) OR g2))"

definition poly_add_pad :: "u64 \<times> u64 \<Rightarrow> limbs \<Rightarrow> bytes" where
  "poly_add_pad pad h =
     (case pad of (t0, t1) \<Rightarrow> case h of (h0, h1, h2) \<Rightarrow>
      let h0 = h0 + (t0 AND 0xfffffffffff); c = drop_bit 44 h0; h0 = h0 AND 0xfffffffffff;
          h1 = h1 + ((drop_bit 44 t0 OR push_bit 20 t1) AND 0xfffffffffff) + c; c = drop_bit 44 h1; h1 = h1 AND 0xfffffffffff;
          h2 = h2 + (drop_bit 24 t1 AND 0x3ffffffffff) + c; h2 = h2 AND 0x3ffffffffff;
          m0 = h0 OR push_bit 44 h1;
          m1 = drop_bit 20 h1 OR push_bit 24 h2
      in le_bytes m0 @ le_bytes m1)"

definition poly1305_finish :: "poly1305_state \<Rightarrow> bytes res" where
  "poly1305_finish st =
     res_bind (if p_leftover st \<noteq> 0 then
                 res_bind (wr (p_buffer st) (p_leftover st) 1) (\<lambda>buf.
                 let buf = take (p_leftover st + 1) buf @ replicate (16 - (p_leftover st + 1)) 0
                 in Inr (poly1305_blocks (st\<lparr>p_buffer := buf, p_final := True\<rparr>) buf))
               else Inr st) (\<lambda>st.
     Inr (poly_add_pad (p_pad st) (poly_select (poly_reduce (p_h st)))))"

definition poly1305_compute :: "bytes \<Rightarrow> bytes \<Rightarrow> bytes \<Rightarrow> bytes res" where
  "poly1305_compute mem data key =
     (if length key < 32 then Inl UndefinedBehaviour
      else res_bind (poly1305_update (poly1305_init mem key) data) poly1305_finish)"

end
