(* ===== verification/Zt_Packet.thy ===== *)
theory Zt_Packet
  imports Zt_Address Zt_Salsa Zt_Poly1305
begin

text \<open>
  \<^verbatim>\<open>node/Packet.hpp\<close> and \<^verbatim>\<open>node/Packet.cpp\<close>: the packet header, the fragments of a large packet, and
  the protection of a packet for transport (\<open>armor\<close>, \<open>dearmor\<close>, \<open>cryptField\<close>, \<open>compress\<close>,
  \<open>uncompress\<close>).

  A packet is a \<open>Buffer\<close> of \<open>ZT_PROTO_MAX_PACKET_LENGTH\<close> bytes.  Code that goes through \<open>field\<close> or
  \<open>operator[]\<close> is bounds-checked against the size; code that works on \<open>unsafeData()\<close> is only bounded
  by the array (\<open>raw_read\<close>, \<open>raw_write\<close>).  What the code takes from outside is an argument: the
  random bytes of \<open>getSecureRandom\<close>, the uninitialised local arrays (record \<open>locals\<close>), the assembly
  routine behind \<open>ZT_FAST_SINGLE_PASS_SALSA2012\<close> (\<open>None\<close> in a build without it), and the LZ4 codec.
\<close>

section \<open>The code\<close>

abbreviation (input) ZT_PACKET_IDX_IV :: "'a::zero" where
  "ZT_PACKET_IDX_IV \<equiv> 0"

abbreviation (input) ZT_PACKET_IDX_DEST :: "'a::numeral" where
  "ZT_PACKET_IDX_DEST \<equiv> 8"

abbreviation (input) ZT_PACKET_IDX_SOURCE :: "'a::numeral" where
  "ZT_PACKET_IDX_SOURCE \<equiv> 13"

abbreviation (input) ZT_PACKET_IDX_FLAGS :: "'a::numeral" where
  "ZT_PACKET_IDX_FLAGS \<equiv> 18"

abbreviation (input) ZT_PACKET_IDX_MAC :: "'a::numeral" where
  "ZT_PACKET_IDX_MAC \<equiv> 19"

abbreviation (input) ZT_PACKET_IDX_VERB :: "'a::numeral" where
  "ZT_PACKET_IDX_VERB \<equiv> 27"

abbreviation (input) ZT_PACKET_IDX_PAYLOAD :: "'a::numeral" where
  "ZT_PACKET_IDX_PAYLOAD \<equiv> 28"

abbreviation (input) ZT_PROTO_MIN_PACKET_LENGTH :: "'a::numeral" where
  "ZT_PROTO_MIN_PACKET_LENGTH \<equiv> ZT_PACKET_IDX_PAYLOAD"

abbreviation (input) ZT_PROTO_MAX_PACKET_LENGTH :: "'a::numeral" where
  "ZT_PROTO_MAX_PACKET_LENGTH \<equiv> 10108"

abbreviation (input) ZT_PACKET_FRAGMENT_IDX_PAYLOAD :: "'a::numeral" where
  "ZT_PACKET_FRAGMENT_IDX_PAYLOAD \<equiv> 16"

text \<open>
  \<open>memcpy(field(i, l), bs, l)\<close>, and an update \<open>b[i] = f(b[i])\<close> through \<open>operator[]\<close>.
\<close>

definition buf_put :: "u32 \<Rightarrow> u32 \<Rightarrow> bytes \<Rightarrow> buf \<Rightarrow> buf res" where
  "buf_put i l bs b =
     (if i + l > b_len b then Inl OutOfBounds
      else res_bind (memcpy (b_data b) (unat i) bs 0 (unat l)) (\<lambda>d. Inr (b\<lparr>b_data := d\<rparr>)))"

definition buf_update :: "u32 \<Rightarrow> (u8 \<Rightarrow> u8) \<Rightarrow> buf \<Rightarrow> buf res" where
  "buf_update i f b = res_bind (buf_get b i) (\<lambda>v. buf_set b i (f v))"

definition raw_read :: "buf \<Rightarrow> nat \<Rightarrow> nat \<Rightarrow> bytes res" where
  "raw_read b off n =
     (case mem_get (b_data b) off n of None \<Rightarrow> Inl UndefinedBehaviour | Some bs \<Rightarrow> Inr bs)"

definition raw_write :: "nat \<Rightarrow> bytes \<Rightarrow> buf \<Rightarrow> buf res" where
  "raw_write off bs b =
     res_bind (memcpy (b_data b) off bs 0 (length bs)) (\<lambda>d. Inr (b\<lparr>b_data := d\<rparr>))"

subsection \<open>The packet header\<close>

definition pkt_setDestination :: "address \<Rightarrow> buf \<Rightarrow> buf res" where
  "pkt_setDestination dest b = buf_put ZT_PACKET_IDX_DEST 5 (addr_bytes dest) b"

definition pkt_setSource :: "address \<Rightarrow> buf \<Rightarrow> buf res" where
  "pkt_setSource source b = buf_put ZT_PACKET_IDX_SOURCE 5 (addr_bytes source) b"

definition pkt_setVerb :: "u8 \<Rightarrow> buf \<Rightarrow> buf res" where
  "pkt_setVerb v b = buf_set b ZT_PACKET_IDX_VERB v"

definition pkt_newInitializationVector :: "bytes \<Rightarrow> buf \<Rightarrow> buf res" where
  "pkt_newInitializationVector rnd b = buf_put ZT_PACKET_IDX_IV 8 rnd b"

definition pkt_new :: "bytes \<Rightarrow> bytes \<Rightarrow> buf res" where
  "pkt_new mem rnd =
     res_bind (buf_new_len mem ZT_PROTO_MIN_PACKET_LENGTH) (\<lambda>b.
     res_bind (buf_put ZT_PACKET_IDX_IV 8 rnd b) (\<lambda>b.
     buf_set b ZT_PACKET_IDX_FLAGS 0))"

definition pkt_copy :: "bytes \<Rightarrow> buf \<Rightarrow> address \<Rightarrow> buf res" where
  "pkt_copy rnd prototype dest =
     res_bind (buf_put ZT_PACKET_IDX_IV 8 rnd prototype) (pkt_setDestination dest)"

definition pkt_header :: "bytes \<Rightarrow> address \<Rightarrow> address \<Rightarrow> u8 \<Rightarrow> buf \<Rightarrow> buf res" where
  "pkt_header rnd dest source v b =
     res_bind (buf_put ZT_PACKET_IDX_IV 8 rnd b) (\<lambda>b.
     res_bind (pkt_setDestination dest b) (\<lambda>b.
     res_bind (pkt_setSource source b) (\<lambda>b.
     res_bind (buf_set b ZT_PACKET_IDX_FLAGS 0) (\<lambda>b.
     pkt_setVerb v b))))"

definition pkt_create :: "bytes \<Rightarrow> bytes \<Rightarrow> address \<Rightarrow> address \<Rightarrow> u8 \<Rightarrow> buf res" where
  "pkt_create mem rnd dest source v =
     res_bind (buf_new_len mem ZT_PROTO_MIN_PACKET_LENGTH) (pkt_header rnd dest source v)"

definition pkt_reset :: "bytes \<Rightarrow> address \<Rightarrow> address \<Rightarrow> u8 \<Rightarrow> buf \<Rightarrow> buf res" where
  "pkt_reset rnd dest source v b =
     res_bind (buf_setSize ZT_PROTO_MIN_PACKET_LENGTH b) (pkt_header rnd dest source v)"

definition pkt_destination :: "buf \<Rightarrow> address res" where
  "pkt_destination b = res_bind (buf_field b ZT_PACKET_IDX_DEST 5) (\<lambda>bs. addr_setTo bs 5)"

definition pkt_source :: "buf \<Rightarrow> address res" where
  "pkt_source b = res_bind (buf_field b ZT_PACKET_IDX_SOURCE 5) (\<lambda>bs. addr_setTo bs 5)"

definition pkt_lengthValid :: "buf \<Rightarrow> bool" where
  "pkt_lengthValid b \<longleftrightarrow> b_len b \<ge> ZT_PROTO_MIN_PACKET_LENGTH"

definition pkt_fragmented :: "buf \<Rightarrow> bool res" where
  "pkt_fragmented b = res_bind (buf_get b ZT_PACKET_IDX_FLAGS) (\<lambda>f. Inr (f AND 0x40 \<noteq> 0))"

definition pkt_setFragmented :: "bool \<Rightarrow> buf \<Rightarrow> buf res" where
  "pkt_setFragmented f b =
     buf_update ZT_PACKET_IDX_FLAGS (\<lambda>v. if f then v OR 0x40 else v AND NOT 0x40) b"

definition pkt_compressed :: "buf \<Rightarrow> bool res" where
  "pkt_compressed b = res_bind (buf_get b ZT_PACKET_IDX_VERB) (\<lambda>v. Inr (v AND 0x80 \<noteq> 0))"

definition pkt_hops :: "buf \<Rightarrow> u32 res" where
  "pkt_hops b = res_bind (buf_get b ZT_PACKET_IDX_FLAGS) (\<lambda>f. Inr (ucast f AND 0x07))"

definition pkt_incrementHops :: "buf \<Rightarrow> buf res" where
  "pkt_incrementHops b =
     buf_update ZT_PACKET_IDX_FLAGS (\<lambda>f. (f AND 0xf8) OR ((f + 1) AND 0x07)) b"

definition pkt_cipher :: "buf \<Rightarrow> u32 res" where
  "pkt_cipher b = res_bind (buf_get b ZT_PACKET_IDX_FLAGS) (\<lambda>f. Inr (drop_bit 3 (ucast f AND 0x38)))"

definition pkt_setCipher :: "u32 \<Rightarrow> buf \<Rightarrow> buf res" where
  "pkt_setCipher c b =
     buf_update ZT_PACKET_IDX_FLAGS (\<lambda>f.
       let g = (f AND 0xc7) OR ucast (push_bit 3 c AND 0x38)
       in if c = 1 then g OR 0x80 else g AND NOT 0x80) b"

definition pkt_trustedPathId :: "buf \<Rightarrow> u64 res" where
  "pkt_trustedPathId b = buf_at b ZT_PACKET_IDX_MAC"

definition pkt_setTrusted :: "u64 \<Rightarrow> buf \<Rightarrow> buf res" where
  "pkt_setTrusted tpid b = res_bind (pkt_setCipher 2 b) (\<lambda>b. buf_setAt b ZT_PACKET_IDX_MAC tpid)"

definition pkt_packetId :: "buf \<Rightarrow> u64 res" where
  "pkt_packetId b = buf_at b ZT_PACKET_IDX_IV"

definition pkt_verb :: "buf \<Rightarrow> u8 res" where
  "pkt_verb b = res_bind (buf_get b ZT_PACKET_IDX_VERB) (\<lambda>v. Inr (v AND 0x1f))"

definition pkt_payloadLength :: "buf \<Rightarrow> u32" where
  "pkt_payloadLength b =
     (if b_len b < ZT_PROTO_MIN_PACKET_LENGTH then 0 else b_len b - ZT_PROTO_MIN_PACKET_LENGTH)"

definition pkt_payload :: "buf \<Rightarrow> bytes res" where
  "pkt_payload b = buf_field b ZT_PACKET_IDX_PAYLOAD (b_len b - ZT_PACKET_IDX_PAYLOAD)"

subsection \<open>Fragments\<close>

text \<open>\<open>Fragment::init\<close> fills the array \<open>mem\<close> of a new \<open>Fragment\<close>.\<close>

definition frag_init :: "bytes \<Rightarrow> buf \<Rightarrow> u32 \<Rightarrow> u32 \<Rightarrow> u32 \<Rightarrow> u32 \<Rightarrow> buf res" where
  "frag_init mem p fragStart fragLen fragNo fragTotal =
     (if fragStart + fragLen > b_len p then Inl OutOfBounds
      else
        res_bind (buf_setSize (fragLen + ZT_PACKET_FRAGMENT_IDX_PAYLOAD) (buf_new mem)) (\<lambda>f.
        res_bind (buf_field p ZT_PACKET_IDX_IV 13) (\<lambda>idAndDest.
        res_bind (buf_put 0 13 idAndDest f) (\<lambda>f.
        res_bind (buf_set f 13 0xff) (\<lambda>f.
        res_bind (buf_set f 14 (ucast (push_bit 4 (fragTotal AND 0xf) OR (fragNo AND 0xf)))) (\<lambda>f.
        res_bind (buf_set f 15 0) (\<lambda>f.
        res_bind (buf_field p fragStart fragLen) (\<lambda>part.
        buf_put ZT_PACKET_FRAGMENT_IDX_PAYLOAD fragLen part f))))))))"

definition frag_destination :: "buf \<Rightarrow> address res" where
  "frag_destination f = res_bind (buf_field f 8 5) (\<lambda>bs. addr_setTo bs 5)"

definition frag_lengthValid :: "buf \<Rightarrow> bool" where
  "frag_lengthValid f \<longleftrightarrow> b_len f \<ge> ZT_PACKET_FRAGMENT_IDX_PAYLOAD"

definition frag_packetId :: "buf \<Rightarrow> u64 res" where
  "frag_packetId f = buf_at f 0"

definition frag_totalFragments :: "buf \<Rightarrow> u32 res" where
  "frag_totalFragments f = res_bind (buf_get f 14) (\<lambda>v. Inr (drop_bit 4 (ucast v) AND 0xf))"

definition frag_fragmentNumber :: "buf \<Rightarrow> u32 res" where
  "frag_fragmentNumber f = res_bind (buf_get f 14) (\<lambda>v. Inr (ucast v AND 0xf))"

definition frag_hops :: "buf \<Rightarrow> u32 res" where
  "frag_hops f = res_bind (buf_get f 15) (\<lambda>v. Inr (ucast v))"

definition frag_incrementHops :: "buf \<Rightarrow> buf res" where
  "frag_incrementHops f = buf_update 15 (\<lambda>v. (v + 1) AND 7) f"

definition frag_payloadLength :: "buf \<Rightarrow> u32" where
  "frag_payloadLength f =
     (if b_len f > ZT_PACKET_FRAGMENT_IDX_PAYLOAD then b_len f - ZT_PACKET_FRAGMENT_IDX_PAYLOAD else 0)"

definition frag_payload :: "buf \<Rightarrow> bytes res" where
  "frag_payload f = buf_field f ZT_PACKET_FRAGMENT_IDX_PAYLOAD (b_len f - ZT_PACKET_FRAGMENT_IDX_PAYLOAD)"

subsection \<open>Protection for transport\<close>

text \<open>
  \<open>_salsa20MangleKey\<close>: the key of this packet, from the shared key, the first 18 header bytes, the
  flags without the hop count and the low 16 bits of the size.
\<close>

definition pkt_mangleKey :: "bytes \<Rightarrow> buf \<Rightarrow> bytes res" where
  "pkt_mangleKey key b =
     (let d = b_data b in
      if length key < 32 \<or> length d < 19 then Inl UndefinedBehaviour
      else Inr (map (\<lambda>i.
             if i < 18 then key ! i XOR d ! i
             else if i = 18 then key ! i XOR (d ! ZT_PACKET_IDX_FLAGS AND 0xf8)
             else if i = 19 then key ! i XOR ucast (b_len b AND 0xff)
             else if i = 20 then key ! i XOR ucast (drop_bit 8 (b_len b) AND 0xff)
             else key ! i) [0..<32]))"

text \<open>
  The local arrays of \<open>armor\<close> and \<open>dearmor\<close>: \<open>tmp\<close> of the two calls of \<open>crypt12\<close> and the block buffer
  in the Poly1305 context; and the assembly routine \<open>fast l n k\<close>, which fills \<open>l\<close> bytes of key stream.
\<close>

record locals =
  l_mac :: bytes
  l_crypt :: bytes
  l_poly :: bytes

type_synonym fast_crypto = "nat \<Rightarrow> bytes \<Rightarrow> bytes \<Rightarrow> bytes"

abbreviation keyStream_size :: nat where
  "keyStream_size \<equiv> (ZT_PROTO_MAX_PACKET_LENGTH + 64 + 8) div 8 * 8"

definition pkt_keyStream :: "fast_crypto \<Rightarrow> u32 \<Rightarrow> buf \<Rightarrow> bytes \<Rightarrow> bytes res" where
  "pkt_keyStream fast l b mangledKey =
     (if unat l > keyStream_size then Inl UndefinedBehaviour
      else Inr (fast (unat l) (take 8 (b_data b)) mangledKey))"

definition pkt_armor :: "fast_crypto option \<Rightarrow> locals \<Rightarrow> bytes \<Rightarrow> bool \<Rightarrow> buf \<Rightarrow> buf res" where
  "pkt_armor fc loc key encryptPayload b =
     res_bind (pkt_setCipher (if encryptPayload then 1 else 0) b) (\<lambda>b.
     res_bind (pkt_mangleKey key b) (\<lambda>mangledKey.
     case fc of
       Some fast \<Rightarrow>
         let encryptLen = (if encryptPayload then b_len b - ZT_PACKET_IDX_VERB else 0) in
         res_bind (pkt_keyStream fast (encryptLen + 64) b mangledKey) (\<lambda>keyStream.
         res_bind (raw_read b ZT_PACKET_IDX_VERB (unat encryptLen)) (\<lambda>d.
         res_bind (raw_write ZT_PACKET_IDX_VERB (memxor d (drop 64 keyStream)) b) (\<lambda>b.
         res_bind (raw_read b ZT_PACKET_IDX_VERB (unat (b_len b - ZT_PACKET_IDX_VERB))) (\<lambda>payload.
         res_bind (poly1305_compute (l_poly loc) payload (take 32 keyStream)) (\<lambda>mac.
         raw_write ZT_PACKET_IDX_MAC (take 8 mac) b)))))
     | None \<Rightarrow>
         res_bind (s20_init mangledKey (b_data b)) (\<lambda>s20.
         let (s20, macKey) = crypt12 (l_mac loc) s20 (replicate 32 0);
             payloadLen = b_len b - ZT_PACKET_IDX_VERB in
         res_bind (raw_read b ZT_PACKET_IDX_VERB (unat payloadLen)) (\<lambda>payload.
         let payload = (if encryptPayload then snd (crypt12 (l_crypt loc) s20 payload) else payload) in
         res_bind (raw_write ZT_PACKET_IDX_VERB payload b) (\<lambda>b.
         res_bind (poly1305_compute (l_poly loc) payload macKey) (\<lambda>mac.
         raw_write ZT_PACKET_IDX_MAC (take 8 mac) b))))))"

definition pkt_dearmor :: "fast_crypto option \<Rightarrow> locals \<Rightarrow> bytes \<Rightarrow> buf \<Rightarrow> (bool \<times> buf) res" where
  "pkt_dearmor fc loc key b =
     (let payloadLen = b_len b - ZT_PACKET_IDX_VERB in
      res_bind (pkt_cipher b) (\<lambda>cs.
      if cs = 0 \<or> cs = 1 then
        res_bind (pkt_mangleKey key b) (\<lambda>mangledKey.
        case fc of
          Some fast \<Rightarrow>
            res_bind (pkt_keyStream fast (if cs = 1 then payloadLen + 64 else 64) b mangledKey) (\<lambda>keyStream.
            res_bind (raw_read b ZT_PACKET_IDX_VERB (unat payloadLen)) (\<lambda>payload.
            res_bind (poly1305_compute (l_poly loc) payload (take 32 keyStream)) (\<lambda>mac.
            res_bind (raw_read b ZT_PACKET_IDX_MAC 8) (\<lambda>stored.
            if (le_word stored :: u64) \<noteq> le_word (take 8 mac) then Inr (False, b)
            else if cs = 1 then
              res_bind (raw_write ZT_PACKET_IDX_VERB (memxor payload (drop 64 keyStream)) b) (\<lambda>b. Inr (True, b))
            else Inr (True, b)))))
        | None \<Rightarrow>
            res_bind (s20_init mangledKey (b_data b)) (\<lambda>s20.
            let (s20, macKey) = crypt12 (l_mac loc) s20 (replicate 32 0) in
            res_bind (raw_read b ZT_PACKET_IDX_VERB (unat payloadLen)) (\<lambda>payload.
            res_bind (poly1305_compute (l_poly loc) payload macKey) (\<lambda>mac.
            res_bind (raw_read b ZT_PACKET_IDX_MAC 8) (\<lambda>stored.
            if (le_word stored :: u64) \<noteq> le_word (take 8 mac) then Inr (False, b)
            else if cs = 1 then
              res_bind (raw_write ZT_PACKET_IDX_VERB (snd (crypt12 (l_crypt loc) s20 payload)) b) (\<lambda>b. Inr (True, b))
            else Inr (True, b))))))
      else Inr (False, b)))"

definition pkt_cryptField :: "bytes \<Rightarrow> bytes \<Rightarrow> u32 \<Rightarrow> u32 \<Rightarrow> buf \<Rightarrow> buf res" where
  "pkt_cryptField tmp key start len b =
     res_bind (raw_read b 0 8) (\<lambda>iv.
     res_bind (s20_init key (iv[7 := iv ! 7 AND 0xf8])) (\<lambda>s20.
     res_bind (raw_read b (unat start) (unat len)) (\<lambda>d.
     raw_write (unat start) (snd (crypt12 tmp s20 d)) b)))"

text \<open>
  The LZ4 codec: \<open>lz_compress\<close> is the output of \<open>LZ4_compress_fast\<close> (empty when it fails),
  \<open>lz_decompress src cap\<close> that of \<open>LZ4_decompress_safe\<close> (\<open>None\<close> for a negative result).
\<close>

record lz4 =
  lz_compress :: "bytes \<Rightarrow> bytes"
  lz_decompress :: "bytes \<Rightarrow> nat \<Rightarrow> bytes option"

definition raw_update :: "nat \<Rightarrow> (u8 \<Rightarrow> u8) \<Rightarrow> buf \<Rightarrow> buf res" where
  "raw_update i f b =
     res_bind (rd (b_data b) i) (\<lambda>v. res_bind (wr (b_data b) i (f v)) (\<lambda>d. Inr (b\<lparr>b_data := d\<rparr>)))"

definition pkt_compress :: "lz4 \<Rightarrow> buf \<Rightarrow> (bool \<times> buf) res" where
  "pkt_compress lz b =
     res_bind (pkt_compressed b) (\<lambda>c.
     let give_up = res_bind (raw_update ZT_PACKET_IDX_VERB (\<lambda>v. v AND NOT 0x80) b) (\<lambda>b. Inr (False, b)) in
     if \<not> c \<and> b_len b > ZT_PACKET_IDX_PAYLOAD + 64 then
       res_bind (raw_read b ZT_PACKET_IDX_PAYLOAD (unat (b_len b - ZT_PACKET_IDX_PAYLOAD))) (\<lambda>payload.
       let out = lz_compress lz payload in
       if 0 < length out \<and> length out < length payload then
         res_bind (raw_update ZT_PACKET_IDX_VERB (\<lambda>v. v OR 0x80) b) (\<lambda>b.
         res_bind (buf_setSize (of_nat (length out) + ZT_PACKET_IDX_PAYLOAD) b) (\<lambda>b.
         res_bind (raw_write ZT_PACKET_IDX_PAYLOAD out b) (\<lambda>b. Inr (True, b))))
       else give_up)
     else give_up)"

definition pkt_uncompress :: "lz4 \<Rightarrow> buf \<Rightarrow> (bool \<times> buf) res" where
  "pkt_uncompress lz b =
     res_bind (pkt_compressed b) (\<lambda>c.
     if c \<and> b_len b \<ge> ZT_PROTO_MIN_PACKET_LENGTH then
       res_bind
         (if b_len b > ZT_PACKET_IDX_PAYLOAD then
            res_bind (raw_read b ZT_PACKET_IDX_PAYLOAD (unat (b_len b - ZT_PACKET_IDX_PAYLOAD))) (\<lambda>comp.
            case lz_decompress lz comp ZT_PROTO_MAX_PACKET_LENGTH of
              None \<Rightarrow> Inr None
            | Some out \<Rightarrow>
                if 0 < length out \<and> length out \<le> b_cap b - ZT_PACKET_IDX_PAYLOAD then
                  res_bind (buf_setSize (of_nat (length out) + ZT_PACKET_IDX_PAYLOAD) b) (\<lambda>b.
                  res_bind (raw_write ZT_PACKET_IDX_PAYLOAD out b) (\<lambda>b. Inr (Some b)))
                else Inr None)
          else Inr (Some b)) (\<lambda>r.
       case r of
         None \<Rightarrow> Inr (False, b)
       | Some b \<Rightarrow> res_bind (raw_update ZT_PACKET_IDX_VERB (\<lambda>v. v AND NOT 0x80) b) (\<lambda>b. Inr (True, b)))
     else Inr (True, b))"

end
