(* ===== verification/Zt_Switch.thy ===== *)
theory Zt_Switch
  imports Zt_Packet
begin

text \<open>
  \<^verbatim>\<open>node/Switch.cpp\<close> and \<^verbatim>\<open>Switch.hpp\<close>: sending a packet over a path, cut into fragments when it exceeds the
  path's MTU (\<open>_trySend\<close>), and receiving datagrams (\<open>onRemotePacket\<close>): the legacy beacon, relaying for
  others, and the queue in which the fragments of a packet are collected until it is complete.

  What the switch asks other objects is in the record \<open>sw_env\<close>: whether a peer is known, whether a direct
  send works, whether \<open>tryDecode\<close> finished with a packet and what it left of the packet.  What it makes them do is the list of events it
  returns, in order.  The catch-all handler of \<open>onRemotePacket\<close> keeps what was written before the throw,
  so an operation that can throw in the middle returns the object as it is then; \<open>Inl\<close> is only left for
  undefined behaviour.
\<close>

section \<open>State\<close>

record rx_entry =
  rq_timestamp :: u64
  rq_packetId :: u64
  rq_frag0 :: buf
  rq_frags :: "buf list"
  rq_totalFragments :: u32
  rq_haveFragments :: u32
  rq_complete :: bool

record switch =
  sw_rxQueue :: "rx_entry list"
  sw_rxQueuePtr :: u32
  sw_lastBeaconResponse :: u64
  sw_lastUniteAttempt :: "u64 \<times> u64 \<Rightarrow> u64 option"

datatype sw_event =
    PathReceived
  | TryDecode buf
  | SendDirect address bytes bool
  | Introduce address address
  | PathSend bytes

record sw_env =
  w_self :: address
  w_amUpstream :: bool
  w_trust :: bool
  w_usePath :: "address \<Rightarrow> bool"
  w_known :: "address \<Rightarrow> bool"
  w_upstream :: "address option"
  w_sendDirect :: "address \<Rightarrow> bytes \<Rightarrow> bool \<Rightarrow> bool"
  w_tryDecode :: "buf \<Rightarrow> bool \<times> buf"
  w_key :: "address \<Rightarrow> bytes"
  w_mem :: bytes
  w_random :: bytes
  w_locals :: locals
  w_fast :: "fast_crypto option"

type_synonym sw_result = "(switch \<times> sw_event list) res"

section \<open>The receive queue\<close>

text \<open>\<open>_findRXQueueEntry\<close>: the matching entry, searched backwards from the last one taken, or the next.\<close>

definition findRXQueueEntry :: "u64 \<Rightarrow> switch \<Rightarrow> nat \<times> switch" where
  "findRXQueueEntry packetId sw =
     (let current = sw_rxQueuePtr sw;
          slot = (\<lambda>k. unat ((current - of_nat k) mod 64))
      in case List.find (\<lambda>k. let rq = sw_rxQueue sw ! slot k in
                rq_packetId rq = packetId \<and> rq_timestamp rq \<noteq> 0) [1..<65] of
           Some k \<Rightarrow> (slot k, sw)
         | None \<Rightarrow> (unat (current mod 64), sw\<lparr>sw_rxQueuePtr := current + 1\<rparr>))"

definition nextRXQueueEntry :: "switch \<Rightarrow> nat \<times> switch" where
  "nextRXQueueEntry sw =
     (let ptr = sw_rxQueuePtr sw + 1 in (unat ((ptr - 1) mod 64), sw\<lparr>sw_rxQueuePtr := ptr\<rparr>))"

text \<open>
  The loop that appends the payloads of the later fragments to the head.  \<open>payload()\<close> checks
  \<open>16 + (size() - 16)\<close> against \<open>size()\<close>, which never throws; \<open>append\<close> throws when the packet gets too long,
  and the first component says that the loop was not left that way.
\<close>

definition frag_piece :: "buf \<Rightarrow> bytes res" where
  "frag_piece f = raw_read f ZT_PACKET_FRAGMENT_IDX_PAYLOAD (unat (frag_payloadLength f))"

fun rx_append :: "buf list \<Rightarrow> buf \<Rightarrow> (bool \<times> buf) res" where
  "rx_append [] b = Inr (True, b)"
| "rx_append (f # fs) b =
     res_bind (frag_piece f) (\<lambda>piece.
     case buf_append_bytes piece (frag_payloadLength f) b of
       Inl UndefinedBehaviour \<Rightarrow> Inl UndefinedBehaviour
     | Inl _ \<Rightarrow> Inr (False, b)
     | Inr b' \<Rightarrow> rx_append fs b')"

text \<open>Assemble and process the packet of an entry that has all its fragments.\<close>

definition rx_assemble :: "sw_env \<Rightarrow> u32 \<Rightarrow> rx_entry \<Rightarrow> (rx_entry \<times> sw_event list) res" where
  "rx_assemble w totalFragments rq =
     (if unat totalFragments - 1 > length (rq_frags rq) then Inl UndefinedBehaviour
      else res_bind (rx_append (take (unat totalFragments - 1) (rq_frags rq)) (rq_frag0 rq)) (\<lambda>(ok, b).
        if \<not> ok then Inr (rq\<lparr>rq_frag0 := b\<rparr>, [])
        else
          let (decoded, b') = w_tryDecode w b; rq = rq\<lparr>rq_frag0 := b'\<rparr> in
          Inr (if decoded then rq\<lparr>rq_timestamp := 0\<rparr> else rq\<lparr>rq_complete := True\<rparr>, [TryDecode b])))"

definition rx_fragment :: "sw_env \<Rightarrow> u64 \<Rightarrow> buf \<Rightarrow> u64 \<Rightarrow> u32 \<Rightarrow> u32 \<Rightarrow> rx_entry \<Rightarrow> (rx_entry \<times> sw_event list) res" where
  "rx_fragment w now fragment packetId fragmentNumber totalFragments rq =
     (let put = (\<lambda>rq. res_bind (wr (rq_frags rq) (unat (fragmentNumber - 1)) fragment) (\<lambda>fs.
              Inr (rq\<lparr>rq_frags := fs, rq_totalFragments := totalFragments\<rparr>)));
          fbit = push_bit (unat fragmentNumber) 1
      in
      if rq_packetId rq \<noteq> packetId then
        res_bind (put (rq\<lparr>rq_timestamp := now, rq_packetId := packetId\<rparr>)) (\<lambda>rq.
        Inr (rq\<lparr>rq_haveFragments := fbit, rq_complete := False\<rparr>, []))
      else if rq_haveFragments rq AND fbit = 0 then
        res_bind (put rq) (\<lambda>rq.
        let rq = rq\<lparr>rq_haveFragments := rq_haveFragments rq OR fbit\<rparr> in
        if countBits32 (rq_haveFragments rq) = totalFragments then rx_assemble w totalFragments rq
        else Inr (rq, []))
      else Inr (rq, []))"

text \<open>
  The head of a fragmented packet.  \<open>init\<close> copies the datagram into the entry's packet and throws when it
  is longer than a packet; the entry then keeps what was assigned before.
\<close>

definition rx_head :: "sw_env \<Rightarrow> u64 \<Rightarrow> bytes \<Rightarrow> u64 \<Rightarrow> rx_entry \<Rightarrow> (rx_entry \<times> sw_event list) res" where
  "rx_head w now data packetId rq =
     (let init = (\<lambda>rq k. case buf_copyFrom (rq_frag0 rq) data (of_nat (length data)) of
              Inl UndefinedBehaviour \<Rightarrow> Inl UndefinedBehaviour
            | Inl _ \<Rightarrow> Inr (rq, [])
            | Inr b \<Rightarrow> k (rq\<lparr>rq_frag0 := b\<rparr>))
      in
      if rq_packetId rq \<noteq> packetId then
        init (rq\<lparr>rq_timestamp := now, rq_packetId := packetId\<rparr>) (\<lambda>rq.
        Inr (rq\<lparr>rq_totalFragments := 0, rq_haveFragments := 1, rq_complete := False\<rparr>, []))
      else if rq_haveFragments rq AND 1 = 0 then
        (if rq_totalFragments rq > 1 then
           let rq = rq\<lparr>rq_haveFragments := rq_haveFragments rq OR 1\<rparr> in
           if countBits32 (rq_haveFragments rq) = rq_totalFragments rq
           then init rq (\<lambda>rq. rx_assemble w (rq_totalFragments rq) rq)
           else init rq (\<lambda>rq. Inr (rq, []))
         else init rq (\<lambda>rq. Inr (rq, [])))
      else Inr (rq, []))"

definition rx_at :: "nat \<Rightarrow> (rx_entry \<Rightarrow> (rx_entry \<times> sw_event list) res) \<Rightarrow> switch \<Rightarrow> sw_result" where
  "rx_at i f sw =
     res_bind (rd (sw_rxQueue sw) i) (\<lambda>rq.
     res_bind (f rq) (\<lambda>(rq, ev).
     Inr (sw\<lparr>sw_rxQueue := (sw_rxQueue sw)[i := rq]\<rparr>, ev)))"

section \<open>Receiving a datagram\<close>

text \<open>\<open>_LastUniteKey\<close> orders the two addresses; the table is a \<open>Hashtable\<close>, kept here as the map it refines.\<close>

definition lastUniteKey :: "address \<Rightarrow> address \<Rightarrow> u64 \<times> u64" where
  "lastUniteKey a1 a2 = (if a1 > a2 then (addr_toInt a2, addr_toInt a1) else (addr_toInt a1, addr_toInt a2))"

definition shouldUnite :: "u64 \<Rightarrow> address \<Rightarrow> address \<Rightarrow> switch \<Rightarrow> bool \<times> switch" where
  "shouldUnite now source destination sw =
     (let k = lastUniteKey source destination;
          ts = (case sw_lastUniteAttempt sw k of None \<Rightarrow> 0 | Some ts \<Rightarrow> ts)
      in if now - ts \<ge> 30000
         then (True, sw\<lparr>sw_lastUniteAttempt := (sw_lastUniteAttempt sw)(k := Some now)\<rparr>)
         else (False, sw\<lparr>sw_lastUniteAttempt := (sw_lastUniteAttempt sw)(k := Some ts)\<rparr>))"

definition sw_beacon :: "sw_env \<Rightarrow> u64 \<Rightarrow> bytes \<Rightarrow> switch \<Rightarrow> sw_result" where
  "sw_beacon w now data sw =
     res_bind (addr_setTo (drop 8 data) 5) (\<lambda>beaconAddr.
     if beaconAddr = w_self w \<or> \<not> w_usePath w beaconAddr \<or> \<not> w_known w beaconAddr then Inr (sw, [])
     else
       res_bind (i64_sub now (sw_lastBeaconResponse sw)) (\<lambda>d.
       if sint d \<ge> 2500 then
         let sw = sw\<lparr>sw_lastBeaconResponse := now\<rparr> in
         res_bind (pkt_create (w_mem w) (w_random w) beaconAddr (w_self w) 0) (\<lambda>outp.
         res_bind (pkt_armor (w_fast w) (w_locals w) (w_key w beaconAddr) True outp) (\<lambda>outp.
         Inr (sw, [PathSend (b_content outp)])))
       else Inr (sw, [])))"

text \<open>Relaying: directly if the peer is known and reachable, else over an upstream peer.\<close>

definition sw_relay_fragment :: "sw_env \<Rightarrow> address \<Rightarrow> buf \<Rightarrow> switch \<Rightarrow> sw_result" where
  "sw_relay_fragment w destination fragment sw =
     (if \<not> w_amUpstream w \<and> \<not> w_trust w then Inr (sw, [])
      else
        res_bind (frag_hops fragment) (\<lambda>h.
        if h < 3 then
          res_bind (frag_incrementHops fragment) (\<lambda>fragment.
          let data = b_content fragment;
              direct = (if w_known w destination then [SendDirect destination data False] else [])
          in
          if w_known w destination \<and> w_sendDirect w destination data False then Inr (sw, direct)
          else Inr (sw, direct @ (case w_upstream w of None \<Rightarrow> [] | Some u \<Rightarrow> [SendDirect u data True])))
        else Inr (sw, [])))"

definition sw_relay_packet :: "sw_env \<Rightarrow> u64 \<Rightarrow> address \<Rightarrow> address \<Rightarrow> buf \<Rightarrow> switch \<Rightarrow> sw_result" where
  "sw_relay_packet w now source destination packet sw =
     res_bind (pkt_hops packet) (\<lambda>h.
     if h < 3 then
       res_bind (pkt_incrementHops packet) (\<lambda>packet.
       let data = b_content packet;
           direct = (if w_known w destination then [SendDirect destination data False] else [])
       in
       if w_known w destination \<and> w_sendDirect w destination data False then
         if source \<noteq> w_self w then
           let (unite, sw) = shouldUnite now source destination sw in
           Inr (sw, direct @ (if unite \<and> w_known w source then [Introduce destination source] else []))
         else Inr (sw, direct)
       else
         Inr (sw, direct @ (case w_upstream w of
                None \<Rightarrow> []
              | Some u \<Rightarrow>
                  if u \<noteq> source then
                    SendDirect u data True #
                      (if w_sendDirect w u data True \<and> w_known w source then [Introduce u source] else [])
                  else [])))
     else Inr (sw, []))"

definition sw_fragment :: "sw_env \<Rightarrow> u64 \<Rightarrow> bytes \<Rightarrow> switch \<Rightarrow> sw_result" where
  "sw_fragment w now data sw =
     (case buf_copyFrom (buf_new (w_mem w)) data (of_nat (length data)) of
        Inl UndefinedBehaviour \<Rightarrow> Inl UndefinedBehaviour
      | Inl _ \<Rightarrow> Inr (sw, [])
      | Inr fragment \<Rightarrow>
          res_bind (frag_destination fragment) (\<lambda>destination.
          if destination \<noteq> w_self w then sw_relay_fragment w destination fragment sw
          else
            res_bind (frag_packetId fragment) (\<lambda>packetId.
            res_bind (frag_fragmentNumber fragment) (\<lambda>fragmentNumber.
            res_bind (frag_totalFragments fragment) (\<lambda>totalFragments.
            if totalFragments \<le> 7 \<and> fragmentNumber < 7 \<and> fragmentNumber > 0 \<and> totalFragments > 1 then
              let (i, sw) = findRXQueueEntry packetId sw in
              rx_at i (rx_fragment w now fragment packetId fragmentNumber totalFragments) sw
            else Inr (sw, []))))))"

definition sw_packet :: "sw_env \<Rightarrow> u64 \<Rightarrow> bytes \<Rightarrow> switch \<Rightarrow> sw_result" where
  "sw_packet w now data sw =
     res_bind (addr_setTo (drop 8 data) 5) (\<lambda>destination.
     res_bind (addr_setTo (drop 13 data) 5) (\<lambda>source.
     if source = w_self w then Inr (sw, [])
     else if destination \<noteq> w_self w then
       if \<not> w_amUpstream w \<and> \<not> w_trust w \<and> source \<noteq> w_self w then Inr (sw, [])
       else
         (case buf_copyFrom (buf_new (w_mem w)) data (of_nat (length data)) of
            Inl UndefinedBehaviour \<Rightarrow> Inl UndefinedBehaviour
          | Inl _ \<Rightarrow> Inr (sw, [])
          | Inr packet \<Rightarrow> sw_relay_packet w now source destination packet sw)
     else if data ! ZT_PACKET_IDX_FLAGS AND 0x40 \<noteq> 0 then
       let packetId = be_word (take 8 data);
           (i, sw) = findRXQueueEntry packetId sw
       in rx_at i (rx_head w now data packetId) sw
     else
       (case buf_copyFrom (buf_new (w_mem w)) data (of_nat (length data)) of
          Inl UndefinedBehaviour \<Rightarrow> Inl UndefinedBehaviour
        | Inl _ \<Rightarrow> Inr (sw, [])
        | Inr packet \<Rightarrow>
            let (decoded, packet') = w_tryDecode w packet in
            if decoded then Inr (sw, [TryDecode packet])
            else
              let (i, sw) = nextRXQueueEntry sw in
              rx_at i (\<lambda>rq. let rq = rq\<lparr>rq_timestamp := now\<rparr> in
                case pkt_packetId packet' of
                  Inl UndefinedBehaviour \<Rightarrow> Inl UndefinedBehaviour
                | Inl _ \<Rightarrow> Inr (rq, [TryDecode packet])
                | Inr pid \<Rightarrow>
                    Inr (rq\<lparr>rq_packetId := pid, rq_frag0 := packet',
                      rq_totalFragments := 1, rq_haveFragments := 1, rq_complete := True\<rparr>, [TryDecode packet])) sw)))"

definition onRemotePacket :: "sw_env \<Rightarrow> u64 \<Rightarrow> bytes \<Rightarrow> switch \<Rightarrow> sw_result" where
  "onRemotePacket w now data sw =
     (let len = length data in
      res_bind
        (if len = 13 then sw_beacon w now data sw
         else if len > ZT_PACKET_FRAGMENT_IDX_PAYLOAD then
           if data ! 13 = 0xff then sw_fragment w now data sw
           else if len \<ge> ZT_PROTO_MIN_PACKET_LENGTH then sw_packet w now data sw
           else Inr (sw, [])
         else Inr (sw, []))
        (\<lambda>(sw, ev). Inr (sw, PathReceived # ev)))"

section \<open>Sending a packet\<close>

text \<open>
  The path that \<open>_trySend\<close> picks for a destination: the MTU and trusted path id configured for it, the
  key shared with the destination, and whether sending a datagram works.
\<close>

record route =
  rt_mtu :: u32
  rt_trustedPathId :: u64
  rt_key :: bytes
  rt_send :: "bytes \<Rightarrow> bool"

text \<open>The loop over the fragments; \<open>mem\<close> is the uninitialised array of each \<open>Fragment\<close>.\<close>

function sw_fragments :: "bytes \<Rightarrow> buf \<Rightarrow> u32 \<Rightarrow> u32 \<Rightarrow> u32 \<Rightarrow> u32 \<Rightarrow> u32 \<Rightarrow> bytes list res" where
  "sw_fragments mem packet mtu totalFragments fno fragStart remaining =
     (if fno < totalFragments then
        let chunkSize = min remaining (mtu - ZT_PACKET_FRAGMENT_IDX_PAYLOAD) in
        res_bind (frag_init mem packet fragStart chunkSize fno totalFragments) (\<lambda>frag.
        res_bind (sw_fragments mem packet mtu totalFragments (fno + 1) (fragStart + chunkSize) (remaining - chunkSize)) (\<lambda>rest.
        Inr (b_content frag # rest)))
      else Inr [])"
  by auto

termination sw_fragments
proof (relation "measure (\<lambda>(_, _, _, t, n, _, _). unat t - unat n)")
  fix t n :: u32
  assume "n < t"
  then have "unat n < unat t" by (simp add: word_less_nat_alt)
  moreover from this have "unat (n + 1) = unat n + 1"
    using unat_bounds(3) [of t] by (subst unat_add_nowrap) simp_all
  ultimately show "((mem, p, m, t, n + 1, s, r), mem', p', m', t, n, s', r') \<in>
      measure (\<lambda>(_, _, _, t, n, _, _). unat t - unat n)" for mem p m s r mem' p' m' s' r'
    by simp
qed simp

declare sw_fragments.simps [simp del]

definition trySend :: "bytes \<Rightarrow> fast_crypto option \<Rightarrow> locals \<Rightarrow> (address \<Rightarrow> route option) \<Rightarrow> buf \<Rightarrow> bool \<Rightarrow>
    (bool \<times> buf \<times> bytes list) res" where
  "trySend mem fc loc routes packet encrypt =
     res_bind (pkt_destination packet) (\<lambda>destination.
     case routes destination of
       None \<Rightarrow> Inr (False, packet, [])
     | Some rt \<Rightarrow>
         let mtu = rt_mtu rt;
             chunkSize = min (b_len packet) mtu
         in
         res_bind (pkt_setFragmented (chunkSize < b_len packet) packet) (\<lambda>packet.
         res_bind (if rt_trustedPathId rt \<noteq> 0 then pkt_setTrusted (rt_trustedPathId rt) packet
                   else pkt_armor fc loc (rt_key rt) encrypt packet) (\<lambda>packet.
         res_bind (raw_read packet 0 (unat chunkSize)) (\<lambda>head.
         if rt_send rt head \<and> chunkSize < b_len packet then
           let fragStart = chunkSize;
               remaining = b_len packet - chunkSize;
               room = mtu - ZT_PACKET_FRAGMENT_IDX_PAYLOAD
           in
           if room = 0 then Inl UndefinedBehaviour
           else
             let n = remaining div room;
                 fragsRemaining = (if n * room < remaining then n + 1 else n)
             in
             res_bind (sw_fragments mem packet mtu (fragsRemaining + 1) 1 fragStart remaining) (\<lambda>frags.
             Inr (True, packet, head # frags))
         else Inr (True, packet, [head])))))"

end
