(* ===== verification/Poly1305_Laws.thy ===== *)
theory Poly1305_Laws
  imports Zt_Poly1305
begin

text \<open>
  The limb arithmetic of the authenticator is arithmetic modulo \<open>2 ^ 130 - 5\<close>.  The words are read as
  natural numbers; bounds on the limbs show that no sum and no product wraps around.
\<close>

section \<open>Words as numbers\<close>

fun le_nat :: "bytes \<Rightarrow> nat" where
  "le_nat [] = 0"
| "le_nat (b # bs) = unat b + 256 * le_nat bs"

lemma le_nat_append: "le_nat (as @ bs) = le_nat as + 2 ^ (8 * length as) * le_nat bs"
  by (induction as) (simp_all add: power_add algebra_simps)

lemma le_nat_bound: "le_nat bs < 2 ^ (8 * length bs)"
proof (induction bs)
  case (Cons b bs)
  then show ?case using unat_bounds(1) [of b] by (simp add: power_add)
qed simp

lemma unat_and_mask: "unat (x AND mask n :: 'a::len word) = unat x mod 2 ^ n"
  unfolding take_bit_eq_mask [symmetric] unsigned_take_bit_eq by (rule take_bit_eq_mod)

lemma unat_push_bit: "n \<le> LENGTH('a) \<Longrightarrow> unat (push_bit n x :: 'a::len word) = 2 ^ n * (unat x mod 2 ^ (LENGTH('a) - n))"
proof -
  assume n: "n \<le> LENGTH('a)"
  have "unat (push_bit n x) = (2 ^ n * unat x) mod 2 ^ LENGTH('a)"
    unfolding unsigned_push_bit_eq by (simp add: take_bit_eq_mod push_bit_eq_mult mult.commute)
  also have "(2 :: nat) ^ LENGTH('a) = 2 ^ n * 2 ^ (LENGTH('a) - n)" using n by (simp flip: power_add)
  finally show ?thesis by (simp add: mod_mult_mult1)
qed

lemma unat_or_push:
  fixes x y :: "'a::len word"
  assumes "unat x < 2 ^ n" "n \<le> LENGTH('a)"
  shows "unat (x OR push_bit n y) = unat x + 2 ^ n * (unat y mod 2 ^ (LENGTH('a) - n))"
proof -
  have "\<not> bit x i \<or> \<not> bit (push_bit n y) i" for i
  proof (cases "i < n")
    case False
    then have "unat x < 2 ^ i" using assms(1) by (meson linorder_not_less order_less_le_trans power_increasing one_le_numeral)
    then have "\<not> bit (unat x) i" by (simp add: bit_iff_odd)
    then show ?thesis by (simp add: bit_unsigned_iff)
  qed (simp add: bit_simps)
  then have "x OR push_bit n y = x + push_bit n y" by (simp add: disjunctive_add)
  moreover have "unat x + unat (push_bit n y) < 2 ^ LENGTH('a)"
  proof -
    have "unat y mod 2 ^ (LENGTH('a) - n) + 1 \<le> 2 ^ (LENGTH('a) - n)" by (simp add: Suc_leI)
    then have "2 ^ n * (unat y mod 2 ^ (LENGTH('a) - n) + 1) \<le> 2 ^ n * 2 ^ (LENGTH('a) - n)" by (rule mult_le_mono2)
    also have "\<dots> = 2 ^ LENGTH('a)" using assms(2) by (simp flip: power_add)
    finally show ?thesis using assms(1) by (simp add: unat_push_bit assms(2) algebra_simps)
  qed
  ultimately show ?thesis using assms(2) by (simp add: unat_word_ariths unat_push_bit)
qed

lemma unat_le_word: "8 * length bs \<le> LENGTH('a) \<Longrightarrow> unat (le_word bs :: 'a::len word) = le_nat bs"
proof (induction bs)
  case Nil
  show ?case by (simp add: le_word_def)
next
  case (Cons b bs)
  have "le_word (b # bs) = (ucast b OR push_bit 8 (le_word bs) :: 'a word)"
    by (simp add: le_word_def be_word_snoc or.commute)
  moreover have b: "unat (ucast b :: 'a word) = unat b" using Cons.prems by (simp add: unat_ucast_up)
  moreover have "le_nat bs < 2 ^ (LENGTH('a) - 8)"
  proof -
    have "8 * length bs \<le> LENGTH('a) - 8" using Cons.prems by simp
    then show ?thesis using le_nat_bound [of bs] by (meson order_less_le_trans power_increasing one_le_numeral)
  qed
  ultimately show ?case
    using Cons unat_or_push [of "ucast b :: 'a word" 8 "le_word bs"] unat_bounds(1) [of b] by simp
qed

lemma masks:
  "(0xfffffffffff :: u64) = mask 44" "(0x3ffffffffff :: u64) = mask 42"
  by (simp_all add: mask_eq_exp_minus_1)

lemma unat_mask44: "unat ((x :: u64) AND 0xfffffffffff) = unat x mod 2 ^ 44"
  and unat_mask42: "unat ((x :: u64) AND 0x3ffffffffff) = unat x mod 2 ^ 42"
  unfolding masks unat_and_mask by simp_all

text \<open>The number in two words, and its limbs as the code cuts them.\<close>

definition two_words :: "u64 \<Rightarrow> u64 \<Rightarrow> nat" where
  "two_words t0 t1 = unat t0 + 2 ^ 64 * unat t1"

lemma mod_scaled: "(a + k * (t mod m)) mod m = (a + k * t) mod (m :: nat)"
  by (metis mod_add_right_eq mod_mult_right_eq)

lemmas divmod = mult_div_mod_eq [symmetric]

lemmas power_eval = power_numeral Num.pow.simps Num.sqr.simps mult_num_simps add_num_simps

lemma unat_middle: "unat (drop_bit 44 t0 OR push_bit 20 t1 :: u64) mod 2 ^ 44 = two_words t0 t1 div 2 ^ 44 mod 2 ^ 44"
proof -
  have l: "unat (drop_bit 44 t0) < 2 ^ 20"
    using unat_bounds(4) [of t0] by (simp add: unat_drop_bit div_less_iff_less_mult)
  have "unat (drop_bit 44 t0 OR push_bit 20 t1) = unat t0 div 2 ^ 44 + 2 ^ 20 * (unat t1 mod 2 ^ 44)"
    using unat_or_push [OF l, of t1] by (simp add: unat_drop_bit)
  moreover have "two_words t0 t1 div 2 ^ 44 = unat t0 div 2 ^ 44 + 2 ^ 20 * unat t1"
  proof -
    have "two_words t0 t1 = unat t0 + 2 ^ 44 * (2 ^ 20 * unat t1)" by (simp add: two_words_def)
    then show ?thesis by (simp add: div_mult_self2)
  qed
  ultimately show ?thesis by (simp only: mod_scaled)
qed

lemma two_words_limbs:
  "unat (t0 AND 0xfffffffffff) = two_words t0 t1 mod 2 ^ 44"
  "unat ((drop_bit 44 t0 OR push_bit 20 t1) AND 0xfffffffffff) = two_words t0 t1 div 2 ^ 44 mod 2 ^ 44"
  "unat (drop_bit 24 t1) = two_words t0 t1 div 2 ^ 88"
proof -
  have "two_words t0 t1 = unat t0 + 2 ^ 44 * (2 ^ 20 * unat t1)" by (simp add: two_words_def)
  then show "unat (t0 AND 0xfffffffffff) = two_words t0 t1 mod 2 ^ 44" by (simp only: unat_mask44 mod_mult_self2)
  show "unat ((drop_bit 44 t0 OR push_bit 20 t1) AND 0xfffffffffff) = two_words t0 t1 div 2 ^ 44 mod 2 ^ 44"
    by (simp only: unat_mask44 unat_middle)
  have "two_words t0 t1 div 2 ^ 64 = unat t1" using unat_bounds(4) [of t0] by (simp add: two_words_def)
  then have "two_words t0 t1 div (2 ^ 64 * 2 ^ 24) = unat t1 div 2 ^ 24" by (simp only: div_mult2_eq)
  then show "unat (drop_bit 24 t1) = two_words t0 t1 div 2 ^ 88" by (simp add: unat_drop_bit)
qed

lemma two_words_bound: "two_words t0 t1 < 2 ^ 128"
  using unat_bounds(4) [of t0] unat_bounds(4) [of t1] by (simp add: two_words_def)

lemma limbs_of_number: "n mod 2 ^ 44 + 2 ^ 44 * (n div 2 ^ 44 mod 2 ^ 44) + 2 ^ 88 * (n div 2 ^ 88) = (n :: nat)"
proof -
  have *: "n = 2 ^ 44 * q + m \<Longrightarrow> q = 2 ^ 44 * q' + m' \<Longrightarrow> m + 2 ^ 44 * m' + 2 ^ 88 * q' = n" for q m q' m' :: nat
    unfolding power_eval by algebra
  have "n div 2 ^ 88 = n div 2 ^ 44 div 2 ^ 44" by (simp add: div_mult2_eq [symmetric])
  then show ?thesis by (simp only: *  [OF divmod divmod])
qed

section \<open>One block\<close>

definition limbs_nat :: "limbs \<Rightarrow> nat" where
  "limbs_nat h = (case h of (h0, h1, h2) \<Rightarrow> unat h0 + 2 ^ 44 * unat h1 + 2 ^ 88 * unat h2)"

definition limbs_ok :: "limbs \<Rightarrow> bool" where
  "limbs_ok h \<longleftrightarrow> (case h of (h0, h1, h2) \<Rightarrow> unat h0 < 2 ^ 44 \<and> unat h1 < 2 ^ 44 + 2 ^ 10 \<and> unat h2 < 2 ^ 42)"

definition key_limbs_ok :: "limbs \<Rightarrow> bool" where
  "key_limbs_ok r \<longleftrightarrow> (case r of (r0, r1, r2) \<Rightarrow> unat r0 < 2 ^ 44 \<and> unat r1 < 2 ^ 44 \<and> unat r2 < 2 ^ 36)"

definition P1305 :: nat where
  "P1305 = 2 ^ 130 - 5"

lemma P1305_eval: "P1305 = 1361129467683753853853498429727072845819"
  by (simp add: P1305_def)

text \<open>The schoolbook product of limbs with the part above \<open>2 ^ 130\<close> folded back.\<close>

lemma fold_product:
  "((a0 :: nat) + 2 ^ 44 * a1 + 2 ^ 88 * a2) * (r0 + 2 ^ 44 * r1 + 2 ^ 88 * r2) =
    (a0 * r0 + a1 * (20 * r2) + a2 * (20 * r1)) + 2 ^ 44 * (a0 * r1 + a1 * r0 + a2 * (20 * r2)) +
    2 ^ 88 * (a0 * r2 + a1 * r1 + a2 * r0) + P1305 * (4 * (a1 * r2 + a2 * r1 + 2 ^ 44 * (a2 * r2)))"
  by (simp add: P1305_def algebra_simps)

text \<open>The carries: the same number modulo the prime, in limbs of bounded size.\<close>

lemma carry_limbs:
  fixes d0 d1 d2 :: nat
  assumes "d0 < 2 ^ 93" "d1 < 2 ^ 92" "d2 < 2 ^ 92"
  defines "e1 \<equiv> d1 + d0 div 2 ^ 44"
  defines "e2 \<equiv> d2 + e1 div 2 ^ 44"
  defines "g \<equiv> d0 mod 2 ^ 44 + e2 div 2 ^ 42 * 5"
  shows "d0 + 2 ^ 44 * d1 + 2 ^ 88 * d2 =
      g mod 2 ^ 44 + 2 ^ 44 * (e1 mod 2 ^ 44 + g div 2 ^ 44) + 2 ^ 88 * (e2 mod 2 ^ 42) + P1305 * (e2 div 2 ^ 42)"
    and "d0 div 2 ^ 44 < 2 ^ 49" "e1 < 2 ^ 93" "e1 div 2 ^ 44 < 2 ^ 49" "e2 < 2 ^ 93" "e2 div 2 ^ 42 < 2 ^ 51" "g < 2 ^ 54"
    "g div 2 ^ 44 < 2 ^ 10"
proof -
  show c0: "d0 div 2 ^ 44 < 2 ^ 49" using assms(1) by (simp add: div_less_iff_less_mult)
  show e1: "e1 < 2 ^ 93" using assms(2) c0 by (simp add: e1_def)
  show c1: "e1 div 2 ^ 44 < 2 ^ 49" using e1 by (simp add: div_less_iff_less_mult)
  show e2: "e2 < 2 ^ 93" using assms(3) c1 by (simp add: e2_def)
  show c2: "e2 div 2 ^ 42 < 2 ^ 51" using e2 by (simp add: div_less_iff_less_mult)
  have "d0 mod 2 ^ 44 < 2 ^ 44" by simp
  then show g: "g < 2 ^ 54" using c2 unfolding g_def by simp
  show "g div 2 ^ 44 < 2 ^ 10" using g by (simp add: div_less_iff_less_mult)
  have *: "d0 = 2 ^ 44 * q0 + m0 \<Longrightarrow> d1 + q0 = 2 ^ 44 * q1 + m1 \<Longrightarrow> d2 + q1 = 2 ^ 42 * q2 + m2 \<Longrightarrow>
      m0 + q2 * 5 = 2 ^ 44 * q3 + m3 \<Longrightarrow>
      d0 + 2 ^ 44 * d1 + 2 ^ 88 * d2 = m3 + 2 ^ 44 * (m1 + q3) + 2 ^ 88 * m2 + P1305 * q2" for q0 m0 q1 m1 q2 m2 q3 m3 :: nat
    unfolding P1305_eval power_eval by algebra
  show "d0 + 2 ^ 44 * d1 + 2 ^ 88 * d2 =
      g mod 2 ^ 44 + 2 ^ 44 * (e1 mod 2 ^ 44 + g div 2 ^ 44) + 2 ^ 88 * (e2 mod 2 ^ 42) + P1305 * (e2 div 2 ^ 42)"
    unfolding g_def e2_def e1_def by (rule * [OF divmod divmod divmod divmod])
qed

lemma unat_times: "unat x * unat y < 2 ^ LENGTH('a) \<Longrightarrow> unat (x * y :: 'a::len word) = unat x * unat y"
  by (simp add: unat_word_ariths)

lemma unat_MUL: "unat (poly_MUL x y) = unat x * unat y"
proof -
  have "unat x * unat y < 2 ^ 64 * 2 ^ 64"
    using unat_bounds(4) [of x] unat_bounds(4) [of y] by (intro mult_strict_mono) simp_all
  then show ?thesis by (simp add: poly_MUL_def unat_times unat_ucast_up)
qed

lemma unat_low: "unat (ucast (d :: u128) :: u64) = unat d mod 2 ^ 64"
  by (simp add: unsigned_ucast_eq take_bit_eq_mod)

lemma mod_mod_power: "a \<le> b \<Longrightarrow> n mod 2 ^ b mod 2 ^ a = n mod (2 :: nat) ^ a"
  by (metis le_imp_power_dvd mod_mod_cancel)

lemma mul_bound: "x < a \<Longrightarrow> y < b \<Longrightarrow> x * y \<le> a * (b :: nat)"
  by (intro mult_mono) simp_all

text \<open>A sum of three products and a carry, computed on 128 bits, cut at \<open>2 ^ k\<close>.\<close>

lemma unat_sum3:
  assumes "unat a * unat x + unat b * unat y + unat c * unat z < 2 ^ 127"
  shows "unat (poly_MUL a x + poly_MUL b y + poly_MUL c z) = unat a * unat x + unat b * unat y + unat c * unat z"
proof -
  have "unat (poly_MUL a x + poly_MUL b y) = unat a * unat x + unat b * unat y"
    using assms by (subst unat_add_nowrap) (simp_all add: unat_MUL)
  with assms show ?thesis by (subst unat_add_nowrap) (simp_all add: unat_MUL)
qed

lemma unat_carry: "unat (d :: u128) div 2 ^ k < 2 ^ 64 \<Longrightarrow> unat (ucast (drop_bit k d) :: u64) = unat d div 2 ^ k"
  by (simp add: unat_low unat_drop_bit)

lemma unat_cut44: "unat ((ucast (d :: u128) :: u64) AND 0xfffffffffff) = unat d mod 2 ^ 44"
  and unat_cut42: "unat ((ucast (d :: u128) :: u64) AND 0x3ffffffffff) = unat d mod 2 ^ 42"
  unfolding unat_mask44 unat_mask42 unat_low by (rule mod_mod_power; simp)+

lemma unat_hibit:
  assumes "unat t < 2 ^ 40" "hibit = 0 \<or> hibit = push_bit 40 1"
  shows "unat ((t AND 0x3ffffffffff) OR hibit :: u64) = unat t + unat hibit"
proof -
  have "unat (t AND 0x3ffffffffff) = unat t" using assms(1) by (simp add: unat_mask42)
  with assms unat_or_push [of "t AND 0x3ffffffffff" 40 1] show ?thesis by (auto simp: unat_push_bit)
qed

definition block_number :: "u64 \<Rightarrow> bytes \<Rightarrow> nat" where
  "block_number hibit m = two_words (U8TO64 m 0) (U8TO64 m 8) + 2 ^ 88 * unat hibit"

lemma poly_block_law:
  assumes r: "key_limbs_ok r" and h: "limbs_ok h" and hb: "hibit = 0 \<or> hibit = push_bit 40 1"
  shows "limbs_ok (poly_block r hibit h m) \<and>
    limbs_nat (poly_block r hibit h m) mod P1305 = ((limbs_nat h + block_number hibit m) * limbs_nat r) mod P1305"
proof -
  obtain r0 r1 r2 h0 h1 h2 where rh: "r = (r0, r1, r2)" "h = (h0, h1, h2)" by (cases r, cases h) auto
  have rb: "unat r0 < 2 ^ 44" "unat r1 < 2 ^ 44" "unat r2 < 2 ^ 36" using r by (simp_all add: key_limbs_ok_def rh)
  have hb': "unat h0 < 2 ^ 44" "unat h1 < 2 ^ 44 + 2 ^ 10" "unat h2 < 2 ^ 42" using h by (simp_all add: limbs_ok_def rh)
  define t0 t1 where t: "t0 = U8TO64 m 0" "t1 = U8TO64 m 8"
  define n where "n = two_words t0 t1"
  define a0 a1 a2 where a: "a0 = h0 + (t0 AND 0xfffffffffff)"
    "a1 = h1 + ((drop_bit 44 t0 OR push_bit 20 t1) AND 0xfffffffffff)"
    "a2 = h2 + ((drop_bit 24 t1 AND 0x3ffffffffff) OR hibit)"
  have nb: "n mod 2 ^ 44 < 2 ^ 44" "n div 2 ^ 44 mod 2 ^ 44 < 2 ^ 44" "n div 2 ^ 88 < 2 ^ 40"
    using two_words_bound [of t0 t1] by (simp_all add: n_def div_less_iff_less_mult)
  have hib: "unat hibit \<le> 2 ^ 40" using hb by (auto simp: unat_push_bit)
  have u0: "unat a0 = unat h0 + n mod 2 ^ 44"
    unfolding a n_def two_words_limbs(1) [of t0 t1, symmetric] using hb'(1) nb(1)
    by (intro unat_add_nowrap) (simp add: two_words_limbs(1) [of t0 t1] n_def)
  have u1: "unat a1 = unat h1 + n div 2 ^ 44 mod 2 ^ 44"
    unfolding a n_def two_words_limbs(2) [of t0 t1, symmetric] using hb'(2) nb(2)
    by (intro unat_add_nowrap) (simp add: two_words_limbs(2) [of t0 t1] n_def)
  have v2: "unat ((drop_bit 24 t1 AND 0x3ffffffffff) OR hibit) = n div 2 ^ 88 + unat hibit"
    using unat_hibit [OF _ hb, of "drop_bit 24 t1"] nb(3) by (simp add: two_words_limbs(3) [of t1 t0] n_def)
  have u2: "unat a2 = unat h2 + (n div 2 ^ 88 + unat hibit)"
    unfolding a v2 [symmetric] using hb'(3) nb(3) hib by (intro unat_add_nowrap) (simp add: v2)
  have ab: "unat a0 < 2 ^ 45" "unat a1 < 2 ^ 46" "unat a2 < 2 ^ 43" using u0 u1 u2 hb' nb hib by simp_all
  define s1 s2 where s: "s1 = r1 * 20" "s2 = r2 * 20"
  have us: "unat s1 = 20 * unat r1" "unat s2 = 20 * unat r2" using rb by (simp_all add: s unat_times)
  define D0 D1 D2 where D: "D0 = poly_MUL a0 r0 + poly_MUL a1 s2 + poly_MUL a2 s1"
    "D1 = poly_MUL a0 r1 + poly_MUL a1 r0 + poly_MUL a2 s2" "D2 = poly_MUL a0 r2 + poly_MUL a1 r1 + poly_MUL a2 r0"
  define d0 d1 d2 where d: "d0 = unat a0 * unat r0 + unat a1 * unat s2 + unat a2 * unat s1"
    "d1 = unat a0 * unat r1 + unat a1 * unat r0 + unat a2 * unat s2"
    "d2 = unat a0 * unat r2 + unat a1 * unat r1 + unat a2 * unat r0"
  have sb: "unat s1 < 2 ^ 49" "unat s2 < 2 ^ 41" using us rb by simp_all
  have db: "d0 < 2 ^ 93" "d1 < 2 ^ 92" "d2 < 2 ^ 92"
    using mul_bound [OF ab(1) rb(1)] mul_bound [OF ab(2) sb(2)] mul_bound [OF ab(3) sb(1)]
      mul_bound [OF ab(1) rb(2)] mul_bound [OF ab(2) rb(1)] mul_bound [OF ab(3) sb(2)]
      mul_bound [OF ab(1) rb(3)] mul_bound [OF ab(2) rb(2)] mul_bound [OF ab(3) rb(1)] unfolding d by simp_all
  have uD: "unat D0 = d0" "unat D1 = d1" "unat D2 = d2"
    using db unfolding D d by (intro unat_sum3; simp)+
  note C = carry_limbs [OF db]
  define e1 e2 g where e: "e1 = d1 + d0 div 2 ^ 44" "e2 = d2 + e1 div 2 ^ 44" "g = d0 mod 2 ^ 44 + e2 div 2 ^ 42 * 5"
  note C' = C [folded e(1), folded e(2), folded e(3)]
  define c0 :: u64 where "c0 = ucast (drop_bit 44 D0)"
  have c0: "unat c0 = d0 div 2 ^ 44" unfolding c0_def using C'(2) uD(1) by (subst unat_carry) simp_all
  define E1 where "E1 = D1 + ucast c0"
  have E1: "unat E1 = e1" unfolding E1_def using C'(3) uD(2) c0
    by (subst unat_add_nowrap) (simp_all add: unat_ucast_up e(1))
  define c1 :: u64 where "c1 = ucast (drop_bit 44 E1)"
  have c1: "unat c1 = e1 div 2 ^ 44" unfolding c1_def using C'(4) E1 by (subst unat_carry) simp_all
  define E2 where "E2 = D2 + ucast c1"
  have E2: "unat E2 = e2" unfolding E2_def using C'(5) uD(3) c1
    by (subst unat_add_nowrap) (simp_all add: unat_ucast_up e(2))
  define c2 :: u64 where "c2 = ucast (drop_bit 42 E2)"
  have c2: "unat c2 = e2 div 2 ^ 42" unfolding c2_def using C'(6) E2 by (subst unat_carry) simp_all
  define G :: u64 where "G = (ucast D0 AND 0xfffffffffff) + c2 * 5"
  have c5: "unat (c2 * 5) = e2 div 2 ^ 42 * 5" using C'(6) c2 by (simp add: unat_times)
  have G: "unat G = g" unfolding G_def using C'(7) c5
    by (subst unat_add_nowrap) (simp_all add: unat_cut44 uD e(3))
  define H1 :: u64 where "H1 = (ucast E1 AND 0xfffffffffff) + drop_bit 44 G"
  have H1: "unat H1 = e1 mod 2 ^ 44 + g div 2 ^ 44" unfolding H1_def using C'(8)
    by (subst unat_add_nowrap) (simp_all add: unat_cut44 unat_drop_bit E1 G)
  have blk: "poly_block r hibit h m = (G AND 0xfffffffffff, H1, ucast E2 AND 0x3ffffffffff)"
    unfolding poly_block_def rh Let_def prod.case
    by (simp only: t [symmetric] a [symmetric] s [symmetric] D [symmetric] c0_def [symmetric] E1_def [symmetric]
        c1_def [symmetric] E2_def [symmetric] c2_def [symmetric] G_def [symmetric] H1_def [symmetric])
  have val: "limbs_nat (poly_block r hibit h m) = g mod 2 ^ 44 + 2 ^ 44 * (e1 mod 2 ^ 44 + g div 2 ^ 44) + 2 ^ 88 * (e2 mod 2 ^ 42)"
    unfolding blk limbs_nat_def prod.case H1 unat_mask44 unat_cut42 G E2 ..
  have "limbs_ok (poly_block r hibit h m)"
    unfolding blk limbs_ok_def prod.case H1 unat_mask44 unat_cut42 G E2 using C'(8) mod_less_divisor [of "2 ^ 44" e1] by simp
  moreover have "limbs_nat h + block_number hibit m = unat a0 + 2 ^ 44 * unat a1 + 2 ^ 88 * unat a2"
    using limbs_of_number [of n] unfolding u0 u1 u2 rh limbs_nat_def block_number_def t [symmetric] n_def [symmetric] prod.case
    by (simp only: add_mult_distrib2)
  moreover have "d0 + 2 ^ 44 * d1 + 2 ^ 88 * d2 + P1305 * (4 * (unat a1 * unat r2 + unat a2 * unat r1 + 2 ^ 44 * (unat a2 * unat r2))) =
      (unat a0 + 2 ^ 44 * unat a1 + 2 ^ 88 * unat a2) * limbs_nat r"
    unfolding fold_product [symmetric] d us limbs_nat_def rh prod.case using fold_product by presburger
  ultimately show ?thesis
    using C'(1) val by (metis mod_mult_self2)
qed

section \<open>The final reduction\<close>

text \<open>Limbs in their canonical range.\<close>

definition limbs_full :: "limbs \<Rightarrow> bool" where
  "limbs_full h \<longleftrightarrow> (case h of (h0, h1, h2) \<Rightarrow> unat h0 < 2 ^ 44 \<and> unat h1 < 2 ^ 44 \<and> unat h2 < 2 ^ 42)"

lemma div_le_1: "(x :: nat) < 2 * m \<Longrightarrow> x div m \<le> 1"
  by (metis One_nat_def div_less_iff_less_mult less_Suc_eq_le less_nat_zero_code mult.commute mult_0 neq0_conv numeral_2_eq_2)

lemma reduce_limbs:
  fixes h0 h1 h2 :: nat
  assumes "h0 < 2 ^ 44" "h1 < 2 ^ 44 + 2 ^ 10" "h2 < 2 ^ 42"
  defines "a2 \<equiv> h2 + h1 div 2 ^ 44"
  defines "a0 \<equiv> h0 + a2 div 2 ^ 42 * 5"
  defines "b1 \<equiv> h1 mod 2 ^ 44 + a0 div 2 ^ 44"
  defines "b2 \<equiv> a2 mod 2 ^ 42 + b1 div 2 ^ 44"
  defines "b0 \<equiv> a0 mod 2 ^ 44 + b2 div 2 ^ 42 * 5"
  shows "h0 + 2 ^ 44 * h1 + 2 ^ 88 * h2 =
      b0 mod 2 ^ 44 + 2 ^ 44 * (b1 mod 2 ^ 44 + b0 div 2 ^ 44) + 2 ^ 88 * (b2 mod 2 ^ 42) + P1305 * (a2 div 2 ^ 42 + b2 div 2 ^ 42)"
    and "h1 div 2 ^ 44 \<le> 1" "a2 div 2 ^ 42 \<le> 1" "a0 div 2 ^ 44 \<le> 1" "b1 div 2 ^ 44 \<le> 1" "b2 div 2 ^ 42 \<le> 1" "b0 div 2 ^ 44 \<le> 1"
    and "b1 mod 2 ^ 44 + b0 div 2 ^ 44 < 2 ^ 44"
proof -
  show c1: "h1 div 2 ^ 44 \<le> 1" using assms(2) by (intro div_le_1) simp
  have m: "x mod 2 ^ 44 < 2 ^ 44" "x mod 2 ^ 42 < 2 ^ 42" for x :: nat by simp_all
  show c2: "a2 div 2 ^ 42 \<le> 1" using assms(3) c1 by (intro div_le_1) (simp add: a2_def)
  show c3: "a0 div 2 ^ 44 \<le> 1" using assms(1) c2 by (intro div_le_1) (simp add: a0_def)
  show c4: "b1 div 2 ^ 44 \<le> 1" using m(1) [of h1] c3 by (intro div_le_1) (simp add: b1_def)
  show c5: "b2 div 2 ^ 42 \<le> 1" using m(2) [of a2] c4 by (intro div_le_1) (simp add: b2_def)
  show c6: "b0 div 2 ^ 44 \<le> 1" using m(1) [of a0] c5 by (intro div_le_1) (simp add: b0_def)
  have *: "h1 = 2 ^ 44 * q1 + m1 \<Longrightarrow> h2 + q1 = 2 ^ 42 * q2 + m2 \<Longrightarrow> h0 + q2 * 5 = 2 ^ 44 * q3 + m3 \<Longrightarrow>
      m1 + q3 = 2 ^ 44 * q4 + m4 \<Longrightarrow> m2 + q4 = 2 ^ 42 * q5 + m5 \<Longrightarrow> m3 + q5 * 5 = 2 ^ 44 * q6 + m6 \<Longrightarrow>
      h0 + 2 ^ 44 * h1 + 2 ^ 88 * h2 = m6 + 2 ^ 44 * (m4 + q6) + 2 ^ 88 * m5 + P1305 * (q2 + q5)"
    for q1 m1 q2 m2 q3 m3 q4 m4 q5 m5 q6 m6 :: nat
    unfolding P1305_eval power_eval by algebra
  show "h0 + 2 ^ 44 * h1 + 2 ^ 88 * h2 =
      b0 mod 2 ^ 44 + 2 ^ 44 * (b1 mod 2 ^ 44 + b0 div 2 ^ 44) + 2 ^ 88 * (b2 mod 2 ^ 42) + P1305 * (a2 div 2 ^ 42 + b2 div 2 ^ 42)"
    unfolding b0_def b2_def b1_def a0_def a2_def by (rule * [OF divmod divmod divmod divmod divmod divmod])
  show "b1 mod 2 ^ 44 + b0 div 2 ^ 44 < 2 ^ 44"
  proof (cases "b2 div 2 ^ 42 = 0")
    case True
    then have "b0 div 2 ^ 44 = 0" using m(1) [of a0] by (simp add: b0_def)
    then show ?thesis by simp
  next
    case False
    have "b1 div 2 ^ 44 = 1"
    proof (rule ccontr)
      assume "b1 div 2 ^ 44 \<noteq> 1"
      with c4 have "b2 = a2 mod 2 ^ 42" by (simp add: b2_def)
      with False show False by simp
    qed
    then have "2 ^ 44 + b1 mod 2 ^ 44 = b1" by (metis mult_1_right mult_div_mod_eq)
    then have "b1 mod 2 ^ 44 = 0" using m(1) [of h1] c3 unfolding b1_def by linarith
    with c6 show ?thesis by simp
  qed
qed

lemma poly_reduce_law:
  assumes "limbs_ok h"
  shows "limbs_full (poly_reduce h) \<and> limbs_nat (poly_reduce h) mod P1305 = limbs_nat h mod P1305"
proof -
  obtain h0 h1 h2 where h: "h = (h0, h1, h2)" by (cases h) auto
  have b: "unat h0 < 2 ^ 44" "unat h1 < 2 ^ 44 + 2 ^ 10" "unat h2 < 2 ^ 42" using assms by (simp_all add: limbs_ok_def h)
  define a2 a0 b1 b2 b0 where n: "a2 = unat h2 + unat h1 div 2 ^ 44" "a0 = unat h0 + a2 div 2 ^ 42 * 5"
    "b1 = unat h1 mod 2 ^ 44 + a0 div 2 ^ 44" "b2 = a2 mod 2 ^ 42 + b1 div 2 ^ 44" "b0 = a0 mod 2 ^ 44 + b2 div 2 ^ 42 * 5"
  note R = reduce_limbs [OF b, folded n(1), folded n(2), folded n(3), folded n(4), folded n(5)]
  have m: "x mod 2 ^ 44 < 2 ^ 44" "x mod 2 ^ 42 < 2 ^ 42" for x :: nat by simp_all
  define A2 where "A2 = h2 + drop_bit 44 h1"
  have A2: "unat A2 = a2" unfolding A2_def n using b(3) R(2) by (subst unat_add_nowrap) (simp_all add: unat_drop_bit)
  have t5: "unat (drop_bit 42 x * 5 :: u64) = unat x div 2 ^ 42 * 5" if "unat x div 2 ^ 42 \<le> 1" for x
    using that by (subst unat_times) (simp_all add: unat_drop_bit)
  define A0 where "A0 = h0 + drop_bit 42 A2 * 5"
  have A0: "unat A0 = a0" unfolding A0_def n using b(1) R(3) A2 t5 [of A2]
    by (subst unat_add_nowrap) (simp_all add: n)
  define B1 where "B1 = (h1 AND 0xfffffffffff) + drop_bit 44 A0"
  have B1: "unat B1 = b1" unfolding B1_def n(3) using R(4) A0 m(1) [of "unat h1"]
    by (subst unat_add_nowrap) (simp_all add: unat_drop_bit unat_mask44)
  define B2 where "B2 = (A2 AND 0x3ffffffffff) + drop_bit 44 B1"
  have B2: "unat B2 = b2" unfolding B2_def n(4) using R(5) A2 B1 m(2) [of a2]
    by (subst unat_add_nowrap) (simp_all add: unat_drop_bit unat_mask42)
  define B0 where "B0 = (A0 AND 0xfffffffffff) + drop_bit 42 B2 * 5"
  have B0: "unat B0 = b0" unfolding B0_def n(5) using R(6) A0 B2 m(1) [of a0] t5 [of B2]
    by (subst unat_add_nowrap) (simp_all add: unat_mask44)
  define F1 where "F1 = (B1 AND 0xfffffffffff) + drop_bit 44 B0"
  have F1: "unat F1 = b1 mod 2 ^ 44 + b0 div 2 ^ 44" unfolding F1_def using R(7) B0 B1 m(1) [of b1]
    by (subst unat_add_nowrap) (simp_all add: unat_drop_bit unat_mask44)
  have red: "poly_reduce h = (B0 AND 0xfffffffffff, F1, B2 AND 0x3ffffffffff)"
    unfolding poly_reduce_def h Let_def prod.case
    by (simp only: A2_def [symmetric] A0_def [symmetric] B1_def [symmetric] B2_def [symmetric] B0_def [symmetric] F1_def [symmetric])
  have v: "limbs_nat (poly_reduce h) = b0 mod 2 ^ 44 + 2 ^ 44 * (b1 mod 2 ^ 44 + b0 div 2 ^ 44) + 2 ^ 88 * (b2 mod 2 ^ 42)"
    unfolding red limbs_nat_def prod.case unat_mask44 unat_mask42 B0 B2 F1 ..
  have "limbs_full (poly_reduce h)"
    unfolding red limbs_full_def prod.case unat_mask44 unat_mask42 B0 B2 F1 using R(8) by simp
  moreover have "limbs_nat h = limbs_nat (poly_reduce h) + P1305 * (a2 div 2 ^ 42 + b2 div 2 ^ 42)"
    unfolding v using R(1) by (simp only: limbs_nat_def h prod.case)
  ultimately show ?thesis by simp
qed

lemma limbs_full_bound: "limbs_full h \<Longrightarrow> limbs_nat h < 2 ^ 130"
  by (cases h) (simp add: limbs_full_def limbs_nat_def)

lemma poly_select_law:
  assumes "limbs_full h"
  shows "limbs_full (poly_select h) \<and> limbs_nat (poly_select h) = limbs_nat h mod P1305"
proof -
  obtain h0 h1 h2 where h: "h = (h0, h1, h2)" by (cases h) auto
  have b: "unat h0 < 2 ^ 44" "unat h1 < 2 ^ 44" "unat h2 < 2 ^ 42" using assms by (simp_all add: limbs_full_def h)
  define g0 g1 where g: "g0 = h0 + 5" "g1 = h1 + drop_bit 44 g0"
  have u0: "unat g0 = unat h0 + 5" unfolding g using b by (subst unat_add_nowrap) simp_all
  have c0: "unat (drop_bit 44 g0) = unat g0 div 2 ^ 44" "unat g0 div 2 ^ 44 \<le> 1"
    using u0 b(1) by (simp add: unat_drop_bit, intro div_le_1) simp
  have u1: "unat g1 = unat h1 + unat g0 div 2 ^ 44" unfolding g(2) using b(2) c0
    by (subst unat_add_nowrap) simp_all
  have c1: "unat g1 div 2 ^ 44 \<le> 1" using u1 b(2) c0(2) by (intro div_le_1) simp
  define k where "k = unat h2 + unat g1 div 2 ^ 44"
  have k: "unat (h2 + drop_bit 44 g1) = k" unfolding k_def using b(3) c1
    by (subst unat_add_nowrap) (simp_all add: unat_drop_bit)
  have V: "limbs_nat h + 5 = unat g0 mod 2 ^ 44 + 2 ^ 44 * (unat g1 mod 2 ^ 44) + 2 ^ 88 * k"
  proof -
    have *: "unat h0 + 5 = 2 ^ 44 * q0 + m0 \<Longrightarrow> unat h1 + q0 = 2 ^ 44 * q1 + m1 \<Longrightarrow>
        unat h0 + 2 ^ 44 * unat h1 + 2 ^ 88 * unat h2 + 5 = m0 + 2 ^ 44 * m1 + 2 ^ 88 * (unat h2 + q1)" for q0 m0 q1 m1 :: nat
      unfolding power_eval by algebra
    show ?thesis unfolding k_def limbs_nat_def h prod.case u1 u0 by (rule * [OF divmod divmod])
  qed
  have gm: "unat g0 mod 2 ^ 44 < 2 ^ 44" "unat g1 mod 2 ^ 44 < 2 ^ 44" by simp_all
  have sel: "poly_select h = (let d = drop_bit 63 (h2 + drop_bit 44 g1 - push_bit 42 1) - 1 in
      ((h0 AND NOT d) OR (g0 AND 0xfffffffffff AND d), (h1 AND NOT d) OR (g1 AND 0xfffffffffff AND d),
       (h2 AND NOT d) OR ((h2 + drop_bit 44 g1 - push_bit 42 1) AND d)))"
    unfolding poly_select_def h Let_def prod.case g by (simp only: and.assoc)
  have p: "unat (push_bit 42 1 :: u64) = 2 ^ 42" by (simp add: unat_push_bit)
  have bnd: "limbs_nat h < 2 ^ 130" by (rule limbs_full_bound [OF assms])
  show ?thesis
  proof (cases "k < 2 ^ 42")
    case True
    have "limbs_nat h + 5 < 2 ^ 130" using V gm True unfolding power_eval by linarith
    then have lt: "limbs_nat h < P1305" by (simp add: P1305_def)
    have "unat (h2 + drop_bit 44 g1 - push_bit 42 1) = 2 ^ 64 + k - 2 ^ 42"
      using True k p by (simp add: unat_sub_if_size word_le_nat_alt word_size)
    then have "unat (drop_bit 63 (h2 + drop_bit 44 g1 - push_bit 42 1)) = 1"
      using True by (simp add: unat_drop_bit div_nat_eqI)
    then have "drop_bit 63 (h2 + drop_bit 44 g1 - push_bit 42 1) = 1" by (simp add: word_unat_eq_iff)
    then have "poly_select h = h" unfolding sel by (simp add: h)
    with lt assms show ?thesis by simp
  next
    case False
    have "k \<le> 2 ^ 42" unfolding k_def using b(3) c1 by simp
    with False have k42: "k = 2 ^ 42" by simp
    then have "h2 + drop_bit 44 g1 = push_bit 42 1" by (simp only: word_unat_eq_iff k p)
    then have "h2 + drop_bit 44 g1 - push_bit 42 1 = 0" by (simp only: diff_self)
    then have "poly_select h = (g0 AND 0xfffffffffff, g1 AND 0xfffffffffff, 0)" unfolding sel by simp
    then have e: "limbs_full (poly_select h)" "limbs_nat (poly_select h) = unat g0 mod 2 ^ 44 + 2 ^ 44 * (unat g1 mod 2 ^ 44)"
      by (simp_all add: limbs_full_def limbs_nat_def unat_mask44)
    have "limbs_nat h = limbs_nat (poly_select h) + P1305"
      using V unfolding e(2) k42 P1305_eval power_eval by linarith
    moreover have "limbs_nat (poly_select h) < P1305" using calculation bnd by (simp add: P1305_def)
    ultimately show ?thesis using e(1) by simp
  qed
qed

lemma le_nat_le_bytes: "le_nat (le_bytes (v :: u64)) = unat v"
  using unat_le_word [of "le_bytes v", where 'a = 64] by (simp add: le_word_le_bytes)

lemma poly_add_pad_law:
  assumes "limbs_full h"
  shows "length (poly_add_pad (t0, t1) h) = 16 \<and>
    le_nat (poly_add_pad (t0, t1) h) = (limbs_nat h + two_words t0 t1) mod 2 ^ 128"
proof -
  obtain h0 h1 h2 where h: "h = (h0, h1, h2)" by (cases h) auto
  have b: "unat h0 < 2 ^ 44" "unat h1 < 2 ^ 44" "unat h2 < 2 ^ 42" using assms by (simp_all add: limbs_full_def h)
  define n where "n = two_words t0 t1"
  have nb: "n mod 2 ^ 44 < 2 ^ 44" "n div 2 ^ 44 mod 2 ^ 44 < 2 ^ 44" "n div 2 ^ 88 < 2 ^ 40"
    using two_words_bound [of t0 t1] by (simp_all add: n_def div_less_iff_less_mult)
  define x0 where "x0 = h0 + (t0 AND 0xfffffffffff)"
  have l0: "unat (t0 AND 0xfffffffffff) = n mod 2 ^ 44" using two_words_limbs(1) [of t0 t1] by (simp only: n_def)
  have x0: "unat x0 = unat h0 + n mod 2 ^ 44" unfolding x0_def using b(1) nb(1) l0 by (subst unat_add_nowrap) simp_all
  have c0: "unat x0 div 2 ^ 44 \<le> 1" using x0 b(1) nb(1) by (intro div_le_1) simp
  define x1 where "x1 = h1 + ((drop_bit 44 t0 OR push_bit 20 t1) AND 0xfffffffffff) + drop_bit 44 x0"
  have l1: "unat ((drop_bit 44 t0 OR push_bit 20 t1) AND 0xfffffffffff) = n div 2 ^ 44 mod 2 ^ 44"
    by (simp only: two_words_limbs(2) n_def)
  have "unat (h1 + ((drop_bit 44 t0 OR push_bit 20 t1) AND 0xfffffffffff)) = unat h1 + n div 2 ^ 44 mod 2 ^ 44"
    using b(2) nb(2) l1 by (subst unat_add_nowrap) simp_all
  then have x1: "unat x1 = unat h1 + n div 2 ^ 44 mod 2 ^ 44 + unat x0 div 2 ^ 44" unfolding x1_def
    using b(2) nb(2) c0 by (subst unat_add_nowrap) (simp_all add: unat_drop_bit)
  have c1: "unat x1 div 2 ^ 44 \<le> 2" using x1 b(2) nb(2) c0 less_mult_imp_div_less [of "unat x1" 3 "2 ^ 44"] by simp
  define x2 where "x2 = h2 + (drop_bit 24 t1 AND 0x3ffffffffff) + drop_bit 44 x1"
  have l2: "unat (drop_bit 24 t1 AND 0x3ffffffffff) = n div 2 ^ 88"
    using nb(3) by (simp add: unat_mask42 two_words_limbs(3) [of t1 t0] n_def)
  have "unat (h2 + (drop_bit 24 t1 AND 0x3ffffffffff)) = unat h2 + n div 2 ^ 88"
    using b(3) nb(3) l2 by (subst unat_add_nowrap) simp_all
  then have x2: "unat x2 = unat h2 + n div 2 ^ 88 + unat x1 div 2 ^ 44" unfolding x2_def
    using b(3) nb(3) c1 by (subst unat_add_nowrap) (simp_all add: unat_drop_bit)
  define y0 y1 y2 where y: "y0 = x0 AND 0xfffffffffff" "y1 = x1 AND 0xfffffffffff" "y2 = x2 AND 0x3ffffffffff"
  have uy: "unat y0 = unat x0 mod 2 ^ 44" "unat y1 = unat x1 mod 2 ^ 44" "unat y2 = unat x2 mod 2 ^ 42"
    by (simp_all only: y unat_mask44 unat_mask42)
  have pad: "poly_add_pad (t0, t1) h = le_bytes (y0 OR push_bit 44 y1) @ le_bytes (drop_bit 20 y1 OR push_bit 24 y2)"
    unfolding poly_add_pad_def h Let_def prod.case
    by (simp only: x0_def [symmetric] x1_def [symmetric] x2_def [symmetric] y [symmetric])
  have m0: "unat (y0 OR push_bit 44 y1) = unat y0 + 2 ^ 44 * (unat y1 mod 2 ^ 20)"
    by (subst unat_or_push) (simp_all add: uy)
  have "unat (drop_bit 20 y1) < 2 ^ 24" by (simp add: unat_drop_bit uy div_less_iff_less_mult)
  then have m1: "unat (drop_bit 20 y1 OR push_bit 24 y2) = unat y1 div 2 ^ 20 + 2 ^ 24 * (unat y2 mod 2 ^ 40)"
    by (subst unat_or_push) (simp_all add: unat_drop_bit)
  have v: "le_nat (poly_add_pad (t0, t1) h) = unat y0 + 2 ^ 44 * unat y1 + 2 ^ 88 * (unat y2 mod 2 ^ 40)"
  proof -
    have *: "y = 2 ^ 20 * q + m \<Longrightarrow> x + 2 ^ 44 * m + 2 ^ 64 * (q + 2 ^ 24 * z) = x + 2 ^ 44 * y + 2 ^ 88 * z" for x y z q m :: nat
      unfolding power_eval by algebra
    show ?thesis unfolding pad le_nat_append le_nat_le_bytes m0 m1
      using * [OF divmod, of "unat y0" "unat y1"] by simp
  qed
  have total: "limbs_nat h + n = le_nat (poly_add_pad (t0, t1) h) + 2 ^ 128 * (unat x2 mod 2 ^ 42 div 2 ^ 40 + 4 * (unat x2 div 2 ^ 42))"
  proof -
    have *: "n = n0 + 2 ^ 44 * n1 + 2 ^ 88 * n2 \<Longrightarrow> unat h0 + n0 = 2 ^ 44 * q0 + m0 \<Longrightarrow> unat h1 + n1 + q0 = 2 ^ 44 * q1 + m1 \<Longrightarrow>
        unat h2 + n2 + q1 = 2 ^ 42 * q2 + m2 \<Longrightarrow> m2 = 2 ^ 40 * q3 + m3 \<Longrightarrow>
        unat h0 + 2 ^ 44 * unat h1 + 2 ^ 88 * unat h2 + n = m0 + 2 ^ 44 * m1 + 2 ^ 88 * m3 + 2 ^ 128 * (q3 + 4 * q2)"
      for n0 n1 n2 q0 m0 q1 m1 q2 m2 q3 m3 :: nat
      unfolding power_eval by algebra
    show ?thesis unfolding v [unfolded h] uy limbs_nat_def h prod.case
      unfolding x2 x1 x0 by (rule * [OF limbs_of_number [symmetric] divmod divmod divmod divmod])
  qed
  have "le_nat (poly_add_pad (t0, t1) h) < 2 ^ 128" using le_nat_bound [of "poly_add_pad (t0, t1) h"] by (simp add: pad)
  then have "(limbs_nat h + n) mod 2 ^ 128 = le_nat (poly_add_pad (t0, t1) h)" unfolding total by (simp only: mod_mult_self2 mod_less)
  then show ?thesis unfolding n_def [symmetric] by (simp add: pad)
qed

section \<open>The published definition\<close>

text \<open>
  Blocks of sixteen bytes, the last possibly shorter, each with a byte 1 behind it, are the
  coefficients.
\<close>

function poly1305_acc :: "nat \<Rightarrow> nat \<Rightarrow> bytes \<Rightarrow> nat" where
  "poly1305_acc r h m =
     (if m = [] then h else poly1305_acc r (((h + le_nat (take 16 m @ [1])) * r) mod P1305) (drop 16 m))"
  by auto

termination poly1305_acc
  by (relation "measure (\<lambda>(r, h, m). length m)") auto

declare poly1305_acc.simps [simp del]

definition poly1305_clamp :: "nat \<Rightarrow> nat" where
  "poly1305_clamp r = r AND 0x0ffffffc0ffffffc0ffffffc0fffffff"

definition poly1305_tag :: "bytes \<Rightarrow> bytes \<Rightarrow> nat" where
  "poly1305_tag key m =
     (poly1305_acc (poly1305_clamp (le_nat (take 16 key))) 0 m + le_nat (take 16 (drop 16 key))) mod 2 ^ 128"

lemma poly1305_acc_append:
  "16 dvd length a \<Longrightarrow> poly1305_acc r h (a @ b) = poly1305_acc r (poly1305_acc r h a) b"
proof (induction r h a rule: poly1305_acc.induct)
  case (1 r h m)
  show ?case
  proof (cases "m = []")
    case False
    then have "16 \<le> length m" using dvd_imp_le [of 16 "length m"] "1.prems" by simp
    with False 1 show ?thesis by (simp add: poly1305_acc.simps [of r h "m @ b"] poly1305_acc.simps [of r h m])
  qed (simp add: poly1305_acc.simps [of r h "[]"])
qed

lemma poly1305_acc_last:
  "m \<noteq> [] \<Longrightarrow> length m \<le> 16 \<Longrightarrow> poly1305_acc r h m = ((h + le_nat (m @ [1])) * r) mod P1305"
  by (simp add: poly1305_acc.simps [of r h m] poly1305_acc.simps [of _ _ "[]"])

lemma two_words_le_nat:
  assumes "i + 16 \<le> length m"
  shows "two_words (U8TO64 m i) (U8TO64 m (i + 8)) = le_nat (take 16 (drop i m))"
proof -
  have "take 16 (drop i m) = take 8 (drop i m) @ take 8 (drop (i + 8) m)"
    by (simp add: take_add [of 8 8, simplified] add.commute)
  then show ?thesis
    using assms by (simp add: two_words_def U8TO64_def unat_le_word le_nat_append)
qed

lemma and_low: "k < 2 ^ n \<Longrightarrow> x AND k = (x mod 2 ^ n) AND (k :: nat)"
proof -
  assume "k < 2 ^ n"
  then have "take_bit n k = k" by (simp add: take_bit_nat_eq_self_iff)
  then have "x AND k = take_bit n (x AND k)" by (metis and.assoc take_bit_and take_bit_eq_mask)
  with \<open>take_bit n k = k\<close> show ?thesis by (simp add: take_bit_and flip: take_bit_eq_mod)
qed

lemma and_split: "(x AND y) mod 2 ^ n = (x mod 2 ^ n) AND (y mod 2 ^ n)" "(x AND y) div 2 ^ n = (x div 2 ^ n) AND (y div (2 :: nat) ^ n)"
  by (simp_all flip: take_bit_eq_mod drop_bit_eq_div)

lemma unat_and: "unat (x AND y) = unat x AND unat (y :: 'a::len word)"
  by (simp add: unsigned_and_eq)

lemma poly1305_init_law:
  assumes "32 \<le> length key"
  shows "key_limbs_ok (p_r (poly1305_init mem key))"
    and "limbs_nat (p_r (poly1305_init mem key)) = poly1305_clamp (le_nat (take 16 key))"
    and "two_words (fst (p_pad (poly1305_init mem key))) (snd (p_pad (poly1305_init mem key))) = le_nat (take 16 (drop 16 key))"
proof -
  define t0 t1 where t: "t0 = U8TO64 key 0" "t1 = U8TO64 key 8"
  define n where "n = two_words t0 t1"
  define C :: nat where "C = 0x0ffffffc0ffffffc0ffffffc0fffffff"
  have n: "n = le_nat (take 16 key)" using two_words_le_nat [of 0 key] assms by (simp add: n_def t)
  have C: "C mod 2 ^ 44 = 0xffc0fffffff" "C div 2 ^ 44 mod 2 ^ 44 = 0xfffffc0ffff" "C div 2 ^ 88 = 0xffffffc0f"
    by (simp_all add: C_def)
  have r: "p_r (poly1305_init mem key) = (t0 AND 0xffc0fffffff, (drop_bit 44 t0 OR push_bit 20 t1) AND 0xfffffc0ffff, drop_bit 24 t1 AND 0x00ffffffc0f)"
    by (simp add: poly1305_init_def Let_def t)
  have "unat t0 mod 2 ^ 44 = n mod 2 ^ 44" using two_words_limbs(1) [of t0 t1] unfolding unat_mask44 n_def .
  then have u0: "unat (t0 AND 0xffc0fffffff) = (n AND C) mod 2 ^ 44"
    using and_low [of "0xffc0fffffff" 44 "unat t0"]
    by (simp only: unat_and and_split C unsigned_numeral) simp
  have u1: "unat ((drop_bit 44 t0 OR push_bit 20 t1) AND 0xfffffc0ffff) = (n AND C) div 2 ^ 44 mod 2 ^ 44"
    using and_low [of "0xfffffc0ffff" 44 "unat (drop_bit 44 t0 OR push_bit 20 t1)"]
    by (simp only: unat_and and_split C n_def unat_middle unsigned_numeral) simp
  have u2: "unat (drop_bit 24 t1 AND 0x00ffffffc0f) = (n AND C) div 2 ^ 88"
    by (simp only: unat_and and_split C n_def two_words_limbs(3) [of t1 t0] unsigned_numeral) simp
  show "limbs_nat (p_r (poly1305_init mem key)) = poly1305_clamp (le_nat (take 16 key))"
    unfolding r limbs_nat_def prod.case u0 u1 u2 limbs_of_number by (simp add: poly1305_clamp_def C_def n)
  show "key_limbs_ok (p_r (poly1305_init mem key))"
    unfolding r key_limbs_ok_def prod.case
    using word_and_le1 [of t0 "0xffc0fffffff"] word_and_le1 [of "drop_bit 44 t0 OR push_bit 20 t1" "0xfffffc0ffff"]
      word_and_le1 [of "drop_bit 24 t1" "0x00ffffffc0f"]
    by (simp add: word_le_nat_alt)
  show "two_words (fst (p_pad (poly1305_init mem key))) (snd (p_pad (poly1305_init mem key))) = le_nat (take 16 (drop 16 key))"
    using two_words_le_nat [of 16 key] assms by (simp add: poly1305_init_def Let_def)
qed

section \<open>Blocks\<close>

abbreviation one_bit :: u64 where "one_bit \<equiv> push_bit 40 1"

lemma block_number_eq:
  assumes "16 \<le> length m"
  shows "block_number one_bit m = le_nat (take 16 m @ [1])" "block_number 0 m = le_nat (take 16 m)"
  using two_words_le_nat [of 0 m] assms by (simp_all add: block_number_def unat_push_bit le_nat_append)

lemma poly_loop_law:
  assumes "key_limbs_ok r"
  shows "limbs_ok h \<Longrightarrow> 16 * n \<le> length m \<Longrightarrow>
    limbs_ok (poly_loop r one_bit n h m) \<and>
    limbs_nat (poly_loop r one_bit n h m) mod P1305 = poly1305_acc (limbs_nat r) (limbs_nat h mod P1305) (take (16 * n) m)"
proof (induction n arbitrary: h m)
  case 0
  then show ?case by (simp add: poly1305_acc.simps)
next
  case (Suc n)
  have len: "16 \<le> length m" using Suc.prems(2) by simp
  have t: "take (16 * Suc n) m \<noteq> []" "take 16 (take (16 * Suc n) m) = take 16 m"
    "drop 16 (take (16 * Suc n) m) = take (16 * n) (drop 16 m)"
    using len by (auto simp: drop_take)
  note b = poly_block_law [OF assms Suc.prems(1) disjI2 [OF refl], of m]
  have s: "((limbs_nat h mod P1305 + le_nat (take 16 m @ [1])) * limbs_nat r) mod P1305 = limbs_nat (poly_block r one_bit h m) mod P1305"
    using b unfolding block_number_eq(1) [OF len] by (metis mod_add_left_eq mod_mult_left_eq)
  have "poly1305_acc (limbs_nat r) (limbs_nat h mod P1305) (take (16 * Suc n) m) =
      poly1305_acc (limbs_nat r) (limbs_nat (poly_block r one_bit h m) mod P1305) (take (16 * n) (drop 16 m))"
    by (simp only: poly1305_acc.simps [of _ _ "take (16 * Suc n) m"] t s if_False)
  moreover have "16 * n \<le> length (drop 16 m)" using Suc.prems(2) by simp
  ultimately show ?case using Suc.IH [OF conjunct1 [OF b]] by (simp only: poly_loop.simps)
qed

section \<open>The stream of updates\<close>

text \<open>What the state holds after the bytes \<open>m\<close>: whole blocks are absorbed, the rest is buffered.\<close>

definition poly_inv :: "bytes \<Rightarrow> bytes \<Rightarrow> poly1305_state \<Rightarrow> bool" where
  "poly_inv key m st \<longleftrightarrow>
     (let full = length m - length m mod 16; r = poly1305_clamp (le_nat (take 16 key)) in
      key_limbs_ok (p_r st) \<and> limbs_nat (p_r st) = r \<and>
      two_words (fst (p_pad st)) (snd (p_pad st)) = le_nat (take 16 (drop 16 key)) \<and>
      \<not> p_final st \<and> length (p_buffer st) = 16 \<and> p_leftover st = length m mod 16 \<and>
      take (p_leftover st) (p_buffer st) = drop full m \<and> limbs_ok (p_h st) \<and>
      limbs_nat (p_h st) mod P1305 = poly1305_acc r 0 (take full m))"

lemma poly_inv_init: "32 \<le> length key \<Longrightarrow> length mem = 16 \<Longrightarrow> poly_inv key [] (poly1305_init mem key)"
  using poly1305_init_law [of key mem]
  by (simp add: poly_inv_def Let_def poly1305_init_def limbs_ok_def limbs_nat_def poly1305_acc.simps)

text \<open>Absorbing whole blocks when nothing is buffered.\<close>

lemma poly_inv_blocks:
  assumes "poly_inv key m st" "16 dvd length m" "16 dvd length b"
  shows "poly_inv key (m @ b) (poly1305_blocks st b)"
proof -
  have z: "length m mod 16 = 0" "length b mod 16 = 0" using assms(2,3) by simp_all
  have k: "key_limbs_ok (p_r st)" "limbs_nat (p_r st) = poly1305_clamp (le_nat (take 16 key))" "limbs_ok (p_h st)" "\<not> p_final st"
    "limbs_nat (p_h st) mod P1305 = poly1305_acc (poly1305_clamp (le_nat (take 16 key))) 0 m"
    using assms(1) z by (simp_all add: poly_inv_def Let_def)
  have l: "16 * (length b div 16) = length b" using assms(3) by simp
  have "poly1305_acc (poly1305_clamp (le_nat (take 16 key))) 0 (m @ b) =
      poly1305_acc (poly1305_clamp (le_nat (take 16 key))) (limbs_nat (p_h st) mod P1305) b"
    using poly1305_acc_append [OF assms(2)] k(5) by simp
  moreover have "(length m + length b) mod 16 = 0" using z by (metis add_0 mod_add_eq mod_0)
  ultimately show ?thesis
    using assms(1) z poly_loop_law [OF k(1,3), of "length b div 16" b] k l
    by (simp add: poly_inv_def Let_def poly1305_blocks_def)
qed

lemma memcpy_all: "i + length m \<le> length b \<Longrightarrow> memcpy b i m 0 (length m) = Inr (take i b @ m @ drop (i + length m) b)"
  by (simp add: memcpy_def mem_get_def mem_put_def)

lemma memcpy_part:
  "i + n \<le> length b \<Longrightarrow> n \<le> length m \<Longrightarrow> memcpy b i m 0 n = Inr (take i b @ take n m @ drop (i + n) b)"
  by (simp add: memcpy_def mem_get_def mem_put_def min_def)

text \<open>Buffering less than a block when nothing is buffered.\<close>

lemma poly_inv_store:
  assumes "poly_inv key m st" "16 dvd length m" "length b < 16"
  shows "poly_inv key (m @ b) (st\<lparr>p_buffer := take (p_leftover st) (p_buffer st) @ b @ drop (p_leftover st + length b) (p_buffer st),
    p_leftover := p_leftover st + length b\<rparr>)"
proof -
  have z: "length m mod 16 = 0" using assms(2) by simp
  moreover have "(length m + length b) mod 16 = length b" using z assms(3) by (metis add_0 mod_add_left_eq mod_less)
  ultimately show ?thesis using assms(1,3) by (simp add: poly_inv_def Let_def)
qed

lemma poly1305_rest_law:
  assumes "poly_inv key m st" "16 dvd length m"
  shows "\<exists>st'. poly1305_rest st b = Inr st' \<and> poly_inv key (m @ b) st'"
proof -
  let ?want = "length b - length b mod 16"
  define st1 where "st1 = (if length b \<ge> 16 then poly1305_blocks st (take ?want b) else st)"
  define b1 where "b1 = (if length b \<ge> 16 then drop ?want b else b)"
  define m1 where "m1 = (if length b \<ge> 16 then m @ take ?want b else m)"
  have d: "16 dvd length (take ?want b)" by simp
  have inv: "poly_inv key m1 st1" "16 dvd length m1"
    using poly_inv_blocks [OF assms d] assms dvd_add [OF assms(2) d]
    by (simp_all only: st1_def m1_def length_append if_split_asm split: if_split) blast+
  have b1: "length b1 < 16" "m1 @ b1 = m @ b" by (auto simp: b1_def m1_def)
  have l: "p_leftover st1 = 0" "length (p_buffer st1) = 16" using inv by (simp_all add: poly_inv_def Let_def)
  have r: "poly1305_rest st b = (if b1 \<noteq> [] then
           res_bind (memcpy (p_buffer st1) (p_leftover st1) b1 0 (length b1)) (\<lambda>buf.
           Inr (st1\<lparr>p_buffer := buf, p_leftover := p_leftover st1 + length b1\<rparr>)) else Inr st1)"
    by (simp only: poly1305_rest_def Let_def st1_def b1_def)
  show ?thesis
  proof (cases "b1 = []")
    case True
    then show ?thesis using inv(1) b1(2) r by simp
  next
    case False
    then show ?thesis
      using r memcpy_all [of "p_leftover st1" b1 "p_buffer st1"] poly_inv_store [OF inv b1(1)] b1 l by simp
  qed
qed

lemma poly1305_update_law:
  assumes "poly_inv key m st"
  shows "\<exists>st'. poly1305_update st b = Inr st' \<and> poly_inv key (m @ b) st'"
proof (cases "p_leftover st = 0")
  case True
  then have "16 dvd length m" using assms by (auto simp: poly_inv_def Let_def)
  with True poly1305_rest_law [OF assms] show ?thesis by (simp add: poly1305_update_def)
next
  case False
  let ?l = "p_leftover st" and ?full = "length m - length m mod 16" and ?want = "min (16 - p_leftover st) (length b)"
  have i: "?l = length m mod 16" "length (p_buffer st) = 16" "take ?l (p_buffer st) = drop ?full m"
    using assms unfolding poly_inv_def Let_def by blast+
  have l16: "?l < 16" using i(1) by simp
  define buf where "buf = take ?l (p_buffer st) @ take ?want b @ drop (?l + ?want) (p_buffer st)"
  have c: "memcpy (p_buffer st) ?l b 0 ?want = Inr buf" unfolding buf_def by (rule memcpy_part) (use i l16 in auto)
  show ?thesis
  proof (cases "?l + ?want < 16")
    case True
    then have w: "?want = length b" "?l + length b < 16" by (auto simp: min_def split: if_splits)
    have m: "(length m + length b) mod 16 = ?l + length b" using w(2) i(1) by (metis mod_add_left_eq mod_less)
    have f: "length m + length b - (?l + length b) = ?full" using i(1) by simp
    have "poly_inv key (m @ b) (st\<lparr>p_buffer := buf, p_leftover := ?l + ?want\<rparr>)"
      using assms w i m f by (simp add: poly_inv_def Let_def buf_def)
    with True False c w(1) show ?thesis by (simp add: poly1305_update_def Let_def)
  next
    case no: False
    then have w: "?want = 16 - ?l" "16 - ?l \<le> length b" using l16 by (auto simp: min_def split: if_splits)
    have bufeq: "buf = drop ?full m @ take ?want b" "length buf = 16" using w i l16 by (simp_all add: buf_def)
    have "poly_inv key (take ?full m) (st\<lparr>p_buffer := buf, p_leftover := 0\<rparr>)"
      using assms bufeq(2) by (simp add: poly_inv_def Let_def minus_mod_eq_mult_div)
    then have "poly_inv key (take ?full m @ buf) (poly1305_blocks (st\<lparr>p_buffer := buf, p_leftover := 0\<rparr>) buf)"
      using bufeq(2) by (intro poly_inv_blocks) simp_all
    moreover have "take ?full m @ buf = m @ take ?want b" unfolding bufeq(1) by simp
    moreover have "poly1305_blocks (st\<lparr>p_buffer := buf, p_leftover := 0\<rparr>) buf =
        (poly1305_blocks (st\<lparr>p_buffer := buf, p_leftover := ?l + ?want\<rparr>) buf)\<lparr>p_leftover := 0\<rparr>"
      by (simp add: poly1305_blocks_def)
    moreover have "16 dvd length (m @ take ?want b)"
    proof -
      have "length (m @ take ?want b) = ?full + 16" using w i(1) l16 by simp
      then show ?thesis by (simp only: dvd_add dvd_minus_mod dvd_refl)
    qed
    ultimately show ?thesis
      using poly1305_rest_law [of key "m @ take ?want b" _ "drop ?want b"] False no c w(1) l16
      by (simp add: poly1305_update_def Let_def)
  qed
qed

lemma poly1305_finish_law:
  assumes "poly_inv key m st"
  shows "\<exists>mac. poly1305_finish st = Inr mac \<and> length mac = 16 \<and> le_nat mac = poly1305_tag key m"
proof -
  let ?l = "p_leftover st" and ?full = "length m - length m mod 16" and ?r = "poly1305_clamp (le_nat (take 16 key))"
  have i: "?l = length m mod 16" "length (p_buffer st) = 16" "take ?l (p_buffer st) = drop ?full m" "\<not> p_final st"
    "key_limbs_ok (p_r st)" "limbs_nat (p_r st) = ?r" "limbs_ok (p_h st)"
    "limbs_nat (p_h st) mod P1305 = poly1305_acc ?r 0 (take ?full m)"
    "two_words (fst (p_pad st)) (snd (p_pad st)) = le_nat (take 16 (drop 16 key))"
    using assms unfolding poly_inv_def Let_def by blast+
  define st1 where "st1 = (if ?l \<noteq> 0 then
      let buf = take (?l + 1) ((p_buffer st)[?l := 1]) @ replicate (16 - (?l + 1)) 0
      in poly1305_blocks (st\<lparr>p_buffer := buf, p_final := True\<rparr>) buf else st)"
  have fin: "poly1305_finish st = Inr (poly_add_pad (p_pad st1) (poly_select (poly_reduce (p_h st1))))"
    using i(1,2) by (simp add: poly1305_finish_def st1_def Let_def)
  have h: "limbs_ok (p_h st1) \<and> limbs_nat (p_h st1) mod P1305 = poly1305_acc ?r 0 m \<and> p_pad st1 = p_pad st"
  proof (cases "?l = 0")
    case True
    then show ?thesis using i by (simp add: st1_def)
  next
    case False
    let ?rest = "drop ?full m"
    have len: "length ?rest = ?l" "?l < 16" using i(1) by simp_all
    define buf where "buf = ?rest @ [1] @ replicate (15 - ?l) (0 :: u8)"
    have "take (?l + 1) ((p_buffer st)[?l := 1]) = ?rest @ [1]"
      using i(2,3) len by (simp add: take_Suc_conv_app_nth)
    then have st1: "st1 = poly1305_blocks (st\<lparr>p_buffer := buf, p_final := True\<rparr>) buf"
      using False by (simp add: st1_def Let_def buf_def)
    have bl: "length buf = 16" using len by (simp add: buf_def)
    have z: "le_nat (replicate n 0) = 0" for n by (induction n) simp_all
    have num: "le_nat (take 16 buf) = le_nat (?rest @ [1])" using bl by (simp add: buf_def le_nat_append z)
    have "poly_loop (p_r st) 0 1 (p_h st) buf = poly_block (p_r st) 0 (p_h st) buf" by simp
    then have ph: "p_h st1 = poly_block (p_r st) 0 (p_h st) buf" "p_pad st1 = p_pad st"
      using bl by (simp_all add: st1 poly1305_blocks_def)
    have b: "limbs_ok (p_h st1)" "limbs_nat (p_h st1) mod P1305 = ((limbs_nat (p_h st) + le_nat (?rest @ [1])) * ?r) mod P1305"
      using poly_block_law [OF i(5,7) disjI1 [OF refl], of buf] block_number_eq(2) [of buf] bl
      unfolding ph(1) num [symmetric] i(6) by simp_all
    have "poly1305_acc ?r 0 m = poly1305_acc ?r (poly1305_acc ?r 0 (take ?full m)) ?rest"
      using poly1305_acc_append [of "take ?full m" ?r 0 ?rest] by simp
    also have "\<dots> = ((limbs_nat (p_h st) mod P1305 + le_nat (?rest @ [1])) * ?r) mod P1305"
      unfolding i(8) by (rule poly1305_acc_last) (use False len in \<open>auto simp: i(1)\<close>)
    also have "\<dots> = limbs_nat (p_h st1) mod P1305" unfolding b(2) by (metis mod_add_left_eq mod_mult_left_eq)
    finally show ?thesis using b(1) ph(2) by simp
  qed
  note red = poly_reduce_law [OF conjunct1 [OF h]]
  note sel = poly_select_law [OF conjunct1 [OF red]]
  have acc: "poly1305_acc ?r 0 m = limbs_nat (poly_select (poly_reduce (p_h st1)))"
    using h red sel by simp
  show ?thesis
    using fin poly_add_pad_law [OF conjunct1 [OF sel], of "fst (p_pad st1)" "snd (p_pad st1)"] h i(9)
    by (simp add: poly1305_tag_def acc)
qed

lemma poly1305_compute_law:
  assumes "length key = 32" "length mem = 16"
  shows "\<exists>mac. poly1305_compute mem data key = Inr mac \<and> length mac = 16 \<and> le_nat mac = poly1305_tag key data"
proof -
  obtain st where "poly1305_update (poly1305_init mem key) data = Inr st" "poly_inv key ([] @ data) st"
    using poly1305_update_law [OF poly_inv_init, of key mem data] assms by auto
  with poly1305_finish_law [of key data st] assms(1) show ?thesis by (simp add: poly1305_compute_def)
qed

text \<open>
  C5. The authenticator is Poly1305.  For every message, the sixteen bytes that \<open>Poly1305::compute\<close>
  stores are the number of the published definition: the polynomial of the message at the clamped
  key modulo \<open>2 ^ 130 - 5\<close>, plus the second half of the key, modulo \<open>2 ^ 128\<close>.  No limb overflows,
  and the uninitialised buffer does not matter.
\<close>

theorem poly1305_correct:
  assumes "length key = 32" "length mem = 16"
  shows "\<exists>mac. poly1305_compute mem data key = Inr mac \<and> length mac = 16 \<and> le_nat mac = poly1305_tag key data"
  using assms by (rule poly1305_compute_law)

theorem poly1305_correct_witness:
  "\<exists>mac. poly1305_compute (replicate 16 7) [1, 2, 3] (replicate 32 4) = Inr mac \<and> length mac = 16 \<and>
     le_nat mac = poly1305_tag (replicate 32 4) [1, 2, 3]"
  by (rule poly1305_correct) simp_all

end
