(* ===== verification/Packet_Laws.thy ===== *)
theory Packet_Laws
  imports Zt_Packet Poly1305_Laws
begin

text \<open>
  What the protection of a packet means.  The code's two builds, with the assembly key stream and
  without, are compared with one description: the packet's key stream is the Salsa20/12 stream of the
  mangled key, its first 32 bytes are the one-time key of Poly1305 and the stream from the second
  block on is added to the verb and the payload.
\<close>

section \<open>Reading and writing a packet\<close>

named_theorems packet_ops \<open>the operations on a packet as list updates\<close>

definition patch :: "nat \<Rightarrow> bytes \<Rightarrow> bytes \<Rightarrow> bytes" where
  "patch off bs d = take off d @ bs @ drop (off + length bs) d"

lemma length_patch [simp]: "off + length bs \<le> length d \<Longrightarrow> length (patch off bs d) = length d"
  by (simp add: patch_def)

lemma nth_patch:
  "off + length bs \<le> length d \<Longrightarrow> i < length d \<Longrightarrow>
   patch off bs d ! i = (if off \<le> i \<and> i < off + length bs then bs ! (i - off) else d ! i)"
  by (auto simp: patch_def nth_append not_less min_absorb2)

lemma patch_Nil [simp]: "patch off [] d = d"
  by (simp add: patch_def)

lemma patch_patch: "off + length bs \<le> length d \<Longrightarrow> length bs = length cs \<Longrightarrow> patch off bs (patch off cs d) = patch off bs d"
  by (simp add: patch_def)

lemma patch_same: "off + n \<le> length d \<Longrightarrow> patch off (take n (drop off d)) d = d"
  by (intro nth_equalityI) (auto simp: nth_patch)

lemma take_patch: "n \<le> off \<Longrightarrow> off \<le> length d \<Longrightarrow> take n (patch off bs d) = take n d"
  by (simp add: patch_def min_absorb1)

lemma drop_patch: "off + length bs \<le> n \<Longrightarrow> off \<le> length d \<Longrightarrow> drop n (patch off bs d) = drop n d"
  by (simp add: patch_def min_absorb2)

lemma read_patch: "off + length bs \<le> length d \<Longrightarrow> n = length bs \<Longrightarrow> take n (drop off (patch off bs d)) = bs"
  by (simp add: patch_def min_absorb2)

lemma raw_read_ok [packet_ops]: "off + n \<le> length (b_data b) \<Longrightarrow> raw_read b off n = Inr (take n (drop off (b_data b)))"
  by (simp add: raw_read_def mem_get_def)

lemma raw_write_ok [packet_ops]:
  "off + length bs \<le> length (b_data b) \<Longrightarrow> raw_write off bs b = Inr (b\<lparr>b_data := patch off bs (b_data b)\<rparr>)"
  by (simp add: raw_write_def memcpy_ok patch_def)

lemma buf_get_ok [packet_ops]: "buf_ok b \<Longrightarrow> i < b_len b \<Longrightarrow> buf_get b i = Inr (b_data b ! unat i)"
  by (simp add: buf_get_def buf_ok_def b_cap_def word_less_nat_alt word_le_nat_alt)

lemma buf_set_ok [packet_ops]: "buf_ok b \<Longrightarrow> i < b_len b \<Longrightarrow> buf_set b i v = Inr (b\<lparr>b_data := (b_data b)[unat i := v]\<rparr>)"
  by (simp add: buf_set_def buf_ok_def b_cap_def word_less_nat_alt word_le_nat_alt)

lemma buf_update_ok [packet_ops]:
  "buf_ok b \<Longrightarrow> i < b_len b \<Longrightarrow> buf_update i f b = Inr (b\<lparr>b_data := (b_data b)[unat i := f (b_data b ! unat i)]\<rparr>)"
  by (simp add: buf_update_def packet_ops)

text \<open>A packet the engine works on: full capacity, at least the header up to the MAC.\<close>

definition pkt_ok :: "buf \<Rightarrow> bool" where
  "pkt_ok b \<longleftrightarrow> length (b_data b) = ZT_PROTO_MAX_PACKET_LENGTH \<and> 27 \<le> unat (b_len b) \<and>
     unat (b_len b) \<le> ZT_PROTO_MAX_PACKET_LENGTH"

lemma pkt_okD:
  assumes "pkt_ok b"
  shows "buf_ok b" "length (b_data b) = 10108" "18 < b_len b"
    and "unat (b_len b - 27) = unat (b_len b) - 27" "27 + (unat (b_len b) - 27) \<le> 10108"
  using assms by (auto simp: pkt_ok_def buf_ok_def b_cap_def word_less_nat_alt unat_sub_nowrap word_le_nat_alt)

abbreviation pkt_flags :: "buf \<Rightarrow> u8" where
  "pkt_flags b \<equiv> b_data b ! 18"

lemma pkt_flag_ops [packet_ops]:
  assumes "pkt_ok b"
  shows "pkt_cipher b = Inr (drop_bit 3 (ucast (pkt_flags b) AND 0x38))"
    and "pkt_hops b = Inr (ucast (pkt_flags b) AND 7)"
    and "pkt_fragmented b = Inr (pkt_flags b AND 0x40 \<noteq> 0)"
    and "pkt_incrementHops b = Inr (b\<lparr>b_data := (b_data b)[18 := (pkt_flags b AND 0xf8) OR ((pkt_flags b + 1) AND 7)]\<rparr>)"
    and "pkt_setFragmented fr b = Inr (b\<lparr>b_data := (b_data b)[18 := if fr then pkt_flags b OR 0x40 else pkt_flags b AND NOT 0x40]\<rparr>)"
    and "pkt_setCipher c b = Inr (b\<lparr>b_data := (b_data b)[18 :=
           let g = (pkt_flags b AND 0xc7) OR ucast (push_bit 3 c AND 0x38) in if c = 1 then g OR 0x80 else g AND NOT 0x80]\<rparr>)"
  using pkt_okD [OF assms]
  by (simp_all add: pkt_cipher_def pkt_hops_def pkt_fragmented_def pkt_incrementHops_def pkt_setFragmented_def
      pkt_setCipher_def packet_ops)

lemma pkt_ok_data [simp]: "pkt_ok b \<Longrightarrow> length d = 10108 \<Longrightarrow> pkt_ok (b\<lparr>b_data := d\<rparr>)"
  by (simp add: pkt_ok_def)

section \<open>The packet's key stream\<close>

definition pkt_s20 :: "bytes \<Rightarrow> buf \<Rightarrow> u32 list" where
  "pkt_s20 key b = (case res_bind (pkt_mangleKey key b) (\<lambda>k. s20_init k (b_data b)) of Inl _ \<Rightarrow> [] | Inr st \<Rightarrow> st)"

definition packet_stream :: "bytes \<Rightarrow> buf \<Rightarrow> nat \<Rightarrow> u8" where
  "packet_stream key b i = salsa20_stream 6 (pkt_s20 key b) i"

definition packet_seal :: "bytes \<Rightarrow> buf \<Rightarrow> bytes \<Rightarrow> bytes" where
  "packet_seal key b p = map (\<lambda>i. p ! i XOR packet_stream key b (64 + i)) [0..<length p]"

definition packet_tag :: "bytes \<Rightarrow> buf \<Rightarrow> bytes \<Rightarrow> nat" where
  "packet_tag key b p = poly1305_tag (map (packet_stream key b) [0..<32]) p mod 2 ^ 64"

definition pkt_body :: "buf \<Rightarrow> bytes" where
  "pkt_body b = take (unat (b_len b) - 27) (drop 27 (b_data b))"

text \<open>The arrays have their declared sizes, and the assembly routine computes the Salsa20/12 stream.\<close>

definition locals_ok :: "locals \<Rightarrow> bool" where
  "locals_ok loc \<longleftrightarrow> length (l_mac loc) = 64 \<and> length (l_crypt loc) = 64 \<and> length (l_poly loc) = 16"

definition fast_ok :: "fast_crypto option \<Rightarrow> bool" where
  "fast_ok fc \<longleftrightarrow> (case fc of None \<Rightarrow> True
     | Some f \<Rightarrow> \<forall>l n k st. s20_init k n = Inr st \<longrightarrow> f l n k = map (salsa20_stream 6 st) [0..<l])"

lemma packet_stream_eq: "packet_stream key b = salsa20_stream 6 (pkt_s20 key b)"
  by (simp add: fun_eq_iff packet_stream_def)

lemma packet_seal_twice [simp]: "packet_seal key b (packet_seal key b p) = p"
  by (intro nth_equalityI) (simp_all add: packet_seal_def xor.assoc)

lemma length_packet_seal [simp]: "length (packet_seal key b p) = length p"
  by (simp add: packet_seal_def)

lemma s20_init_take: "8 \<le> length iv \<Longrightarrow> s20_init k (take 8 iv) = s20_init k iv"
  by (simp add: s20_init_def u8to32_little_def drop_take)

lemma s20_init_total: "32 \<le> length k \<Longrightarrow> 8 \<le> length iv \<Longrightarrow> \<exists>st. s20_init k iv = Inr st \<and> length st = 16"
  by (simp add: s20_init_def)

lemma pkt_keys:
  assumes "pkt_ok b" "length key = 32"
  obtains mk where "pkt_mangleKey key b = Inr mk" "s20_init mk (b_data b) = Inr (pkt_s20 key b)" "length (pkt_s20 key b) = 16"
proof -
  obtain mk where mk: "pkt_mangleKey key b = Inr mk" "length mk = 32"
    using assms pkt_okD [OF assms(1)] by (simp add: pkt_mangleKey_def Let_def)
  obtain st where "s20_init mk (b_data b) = Inr st" "length st = 16"
    using s20_init_total [of mk "b_data b"] mk(2) pkt_okD(2) [OF assms(1)] by auto
  with mk that show ?thesis by (simp add: pkt_s20_def)
qed

lemma packet_stream_cong:
  assumes "take 18 (b_data b) = take 18 (b_data b')" "pkt_flags b AND 0xf8 = pkt_flags b' AND 0xf8"
    and "b_len b = b_len b'" "pkt_ok b" "pkt_ok b'"
  shows "packet_stream key b = packet_stream key b'"
proof -
  have d: "b_data b ! i = b_data b' ! i" if "i < 18" for i using assms(1) that by (metis nth_take)
  have "take 8 (b_data b) = take 8 (b_data b')"
    using assms(1) by (metis min.absorb1 numeral_le_iff semiring_norm(68,69,71,72) take_take)
  then have "s20_init k (b_data b) = s20_init k (b_data b')" for k
    using s20_init_take [of "b_data b" k] s20_init_take [of "b_data b'" k] pkt_okD(2) [OF assms(4)] pkt_okD(2) [OF assms(5)]
    by simp
  moreover have "pkt_mangleKey key b = pkt_mangleKey key b'"
    using d assms(2,3) pkt_okD(2) [OF assms(4)] pkt_okD(2) [OF assms(5)] by (simp add: pkt_mangleKey_def Let_def)
  ultimately show ?thesis by (simp add: fun_eq_iff packet_stream_def pkt_s20_def)
qed

lemma packet_mac_key:
  assumes "length (pkt_s20 key b) = 16" "length tmp = 64"
  shows "crypt12 tmp (pkt_s20 key b) (replicate 32 0) = (s20_count (pkt_s20 key b), map (packet_stream key b) [0..<32])"
  using s20_crypt_stream [OF assms, of 6 "replicate 32 0"]
  by (simp add: crypt12_def s20_at_block_def packet_stream_def fun_eq_iff)

lemma packet_crypt:
  assumes "length (pkt_s20 key b) = 16" "length tmp = 64"
  shows "snd (crypt12 tmp (s20_count (pkt_s20 key b)) p) = packet_seal key b p"
  using s20_crypt_stream [of "s20_count (pkt_s20 key b)" tmp 6 p] assms
  by (simp add: crypt12_def packet_seal_def packet_stream_def salsa20_stream_shift)

lemma packet_memxor:
  "memxor p (drop 64 (map (packet_stream key b) [0..<length p + 64])) = packet_seal key b p"
  by (intro nth_equalityI) (simp_all add: memxor_def packet_seal_def add.commute)

lemma packet_tag_u64 [simp]: "unat (of_nat (packet_tag key b p) :: u64) = packet_tag key b p"
  by (rule unat_of_nat_nowrap) (simp add: packet_tag_def)

lemma packet_mac:
  assumes "length mem = 16"
  obtains mac where "poly1305_compute mem p (map (packet_stream key b) [0..<32]) = Inr mac"
    and "take 8 mac = le_bytes (of_nat (packet_tag key b p) :: u64)" "length mac = 16"
proof -
  let ?k = "map (packet_stream key b) [0..<32]"
  obtain mac where mac: "poly1305_compute mem p ?k = Inr mac" "length mac = 16" "le_nat mac = poly1305_tag ?k p"
    using poly1305_compute_law [of ?k mem p] assms by auto
  have "le_nat mac = le_nat (take 8 mac) + 2 ^ 64 * le_nat (drop 8 mac)"
    using le_nat_append [of "take 8 mac" "drop 8 mac"] mac(2) by simp
  moreover have "le_nat (take 8 mac) < 2 ^ 64" using le_nat_bound [of "take 8 mac"] mac(2) by simp
  ultimately have "le_nat (take 8 mac) = packet_tag key b p" using mac(3) by (simp add: packet_tag_def)
  then have "(le_word (take 8 mac) :: u64) = of_nat (packet_tag key b p)"
    using unat_le_word [where 'a = 64, of "take 8 mac"] mac(2) by (simp add: word_unat_eq_iff)
  then have "take 8 mac = le_bytes (of_nat (packet_tag key b p) :: u64)"
    using le_bytes_le_word [where 'a = 64, of "take 8 mac"] mac(2) by simp
  with that mac show ?thesis by blast
qed

lemma pkt_keyStream_ok:
  assumes "pkt_ok b" "s20_init mk (b_data b) = Inr (pkt_s20 key b)" "fast_ok (Some f)" "unat l \<le> 10176"
  shows "pkt_keyStream f l b mk = Inr (map (packet_stream key b) [0..<unat l])"
proof -
  have "s20_init mk (take 8 (b_data b)) = Inr (pkt_s20 key b)"
    using assms(2) s20_init_take [of "b_data b" mk] pkt_okD(2) [OF assms(1)] by simp
  with assms(3,4) show ?thesis by (simp add: pkt_keyStream_def fast_ok_def packet_stream_eq)
qed

section \<open>What \<open>armor\<close> and \<open>dearmor\<close> do\<close>

lemma pkt_body_read: "pkt_ok b \<Longrightarrow> raw_read b 27 (unat (b_len b - 27)) = Inr (pkt_body b)"
  by (simp add: pkt_okD raw_read_ok pkt_body_def)

lemma length_pkt_body: "pkt_ok b \<Longrightarrow> length (pkt_body b) = unat (b_len b) - 27"
  using pkt_okD(2,5) [of b] by (simp add: pkt_body_def min_absorb2)

lemma pkt_armor_law:
  fixes enc :: bool
  assumes "pkt_ok b" "length key = 32" "locals_ok loc" "fast_ok fc"
  defines "c \<equiv> (if enc then 1 else 0 :: u32)"
  assumes b1: "pkt_setCipher c b = Inr b1"
  shows "pkt_armor fc loc key enc b =
    (let body = if enc then packet_seal key b1 (pkt_body b) else pkt_body b in
     Inr (b1\<lparr>b_data := patch 19 (le_bytes (of_nat (packet_tag key b1 body) :: u64)) (patch 27 body (b_data b1))\<rparr>))"
proof -
  have ok: "pkt_ok b1" and same: "b_len b1 = b_len b" "pkt_body b1 = pkt_body b"
    using b1 assms(1) pkt_okD(2) [OF assms(1)] by (auto simp: pkt_flag_ops pkt_body_def)
  note D = pkt_okD [OF ok]
  obtain mk where mk: "pkt_mangleKey key b1 = Inr mk" "s20_init mk (b_data b1) = Inr (pkt_s20 key b1)" "length (pkt_s20 key b1) = 16"
    using pkt_keys [OF ok assms(2)] by blast
  define body where "body = (if enc then packet_seal key b1 (pkt_body b) else pkt_body b)"
  have lb: "length body = unat (b_len b1) - 27" using length_pkt_body [OF ok] same by (simp add: body_def)
  obtain mac where mac: "poly1305_compute (l_poly loc) body (map (packet_stream key b1) [0..<32]) = Inr mac"
    "take 8 mac = le_bytes (of_nat (packet_tag key b1 body) :: u64)" "length mac = 16"
    using packet_mac assms(3) unfolding locals_ok_def by blast
  define r where "r = b1\<lparr>b_data := patch 19 (le_bytes (of_nat (packet_tag key b1 body) :: u64)) (patch 27 body (b_data b1))\<rparr>"
  have wr: "raw_write 27 body b1 = Inr (b1\<lparr>b_data := patch 27 body (b_data b1)\<rparr>)"
    using D lb by (simp add: raw_write_ok)
  have fin: "raw_write 19 (take 8 mac) (b1\<lparr>b_data := patch 27 body (b_data b1)\<rparr>) = Inr r"
    using D lb mac(2) by (simp add: raw_write_ok r_def)
  have rdb: "raw_read (b1\<lparr>b_data := patch 27 body (b_data b1)\<rparr>) 27 (unat (b_len b1 - 27)) = Inr body"
    using D lb by (simp add: raw_read_ok read_patch)
  have "pkt_armor fc loc key enc b = Inr r"
  proof (cases fc)
    case None
    show ?thesis
      using b1 mk(1,2) wr mac(1) fin same assms(3) pkt_body_read [OF ok] packet_mac_key [OF mk(3)] packet_crypt [OF mk(3)]
      unfolding body_def pkt_armor_def c_def None
      by (cases enc) (simp_all add: locals_ok_def Let_def)
  next
    case (Some f)
    define n where "n = (if enc then b_len b1 - 27 else 0)"
    have l: "unat (n + 64) = unat n + 64" "unat (n + 64) \<le> 10176" "unat n = (if enc then unat (b_len b1) - 27 else 0)"
      using D by (auto simp: unat_add_nowrap n_def)
    have ks: "pkt_keyStream f (n + 64) b1 mk = Inr (map (packet_stream key b1) [0..<unat n + 64])"
      using pkt_keyStream_ok [OF ok mk(2) _ l(2)] assms(4) Some l(1) by simp
    have rdn: "raw_read b1 27 (unat n) = Inr (take (unat n) (pkt_body b))"
      using D l(3) same by (auto simp: raw_read_ok pkt_body_def)
    have x: "raw_write 27 (memxor (take (unat n) (pkt_body b)) (drop 64 (map (packet_stream key b1) [0..<unat n + 64]))) b1 =
        Inr (b1\<lparr>b_data := patch 27 body (b_data b1)\<rparr>)"
    proof (cases enc)
      case True
      then have "unat n = length (pkt_body b)" using l(3) length_pkt_body [OF ok] same by simp
      then show ?thesis using wr True packet_memxor [of "pkt_body b" key b1] by (simp add: body_def)
    next
      case False
      then have "unat n = 0" "patch 27 body (b_data b1) = b_data b1"
        using l(3) D(2,5) patch_same [of 27 "unat (b_len b1) - 27" "b_data b1"] same(2)
        by (simp_all add: body_def pkt_body_def)
      then show ?thesis using D(2) by (simp add: memxor_def raw_write_ok)
    qed
    show ?thesis
      using b1 mk(1) mac(1) fin rdb ks rdn x
      by (simp add: pkt_armor_def Some Let_def c_def [symmetric] n_def [symmetric] take_map)
  qed
  then show ?thesis by (simp add: Let_def r_def body_def)
qed

lemma pkt_dearmor_law:
  assumes ok: "pkt_ok b" and key: "length key = 32" and loc: "locals_ok loc" and fast: "fast_ok fc"
  defines "cs \<equiv> drop_bit 3 (ucast (pkt_flags b) AND 0x38 :: u32)"
  shows "pkt_dearmor fc loc key b = Inr
    (if (cs = 0 \<or> cs = 1) \<and> le_nat (take 8 (drop 19 (b_data b))) = packet_tag key b (pkt_body b)
     then (True, if cs = 1 then b\<lparr>b_data := patch 27 (packet_seal key b (pkt_body b)) (b_data b)\<rparr> else b)
     else (False, b))"
proof -
  note D = pkt_okD [OF ok]
  have c: "pkt_cipher b = Inr cs" using pkt_flag_ops(1) [OF ok] by (simp add: cs_def)
  obtain mk where mk: "pkt_mangleKey key b = Inr mk" "s20_init mk (b_data b) = Inr (pkt_s20 key b)" "length (pkt_s20 key b) = 16"
    using pkt_keys [OF ok key] by blast
  let ?body = "pkt_body b" and ?s = "take 8 (drop 19 (b_data b))" and ?K = "map (packet_stream key b) [0..<32]"
  have lb: "length ?body = unat (b_len b) - 27" using length_pkt_body [OF ok] .
  obtain mac where mac: "poly1305_compute (l_poly loc) ?body ?K = Inr mac"
    "take 8 mac = le_bytes (of_nat (packet_tag key b ?body) :: u64)" "length mac = 16"
    using packet_mac loc unfolding locals_ok_def by blast
  have stored: "raw_read b 19 8 = Inr ?s" using D by (simp add: raw_read_ok)
  have cmp: "(le_word ?s :: u64) = le_word (take 8 mac) \<longleftrightarrow> le_nat ?s = packet_tag key b ?body"
    using unat_le_word [where 'a = 64, of ?s] D(2) by (simp add: mac(2) le_word_le_bytes word_unat_eq_iff)
  have wr: "raw_write 27 (packet_seal key b ?body) b = Inr (b\<lparr>b_data := patch 27 (packet_seal key b ?body) (b_data b)\<rparr>)"
    using D lb by (simp add: raw_write_ok)
  show ?thesis
  proof (cases fc)
    case None
    show ?thesis
      using c mk(1,2) mac(1) stored cmp wr loc pkt_body_read [OF ok] packet_mac_key [OF mk(3)] packet_crypt [OF mk(3)]
      by (simp add: pkt_dearmor_def None locals_ok_def Let_def)
  next
    case (Some f)
    define n where "n = (if cs = 1 then b_len b - 27 + 64 else 64)"
    have l: "unat n = (if cs = 1 then length ?body + 64 else 64)" "unat n \<le> 10176"
      using D lb ok by (auto simp: unat_add_nowrap n_def pkt_ok_def)
    have ks: "pkt_keyStream f n b mk = Inr (map (packet_stream key b) [0..<unat n])"
      using pkt_keyStream_ok [OF ok mk(2) _ l(2)] fast Some by simp
    have k: "take 32 (map (packet_stream key b) [0..<unat n]) = ?K" using l(1) by (simp add: take_map)
    have x: "memxor ?body (drop 64 (map (packet_stream key b) [0..<unat n])) = packet_seal key b ?body" if "cs = 1"
      using packet_memxor [of ?body key b] l(1) that by simp
    show ?thesis
      using c mk(1) mac(1) stored cmp wr ks k x pkt_body_read [OF ok]
      by (simp add: pkt_dearmor_def Some Let_def n_def [symmetric])
  qed
qed

section \<open>Hop counts\<close>

text \<open>What relays on the way do to a packet.\<close>

fun pkt_relay :: "nat \<Rightarrow> buf \<Rightarrow> buf res" where
  "pkt_relay 0 b = Inr b"
| "pkt_relay (Suc n) b = res_bind (pkt_incrementHops b) (pkt_relay n)"

lemma and_masks [simp]:
  "((f :: u8) AND 0xf8 OR x AND 7) AND 0xf8 = f AND 0xf8"
  "(f AND 0xf8 OR x AND 7) AND 7 = x AND 7"
  by (simp_all add: and.assoc bit.conj_disj_distrib2)

lemma low3_cong: "x AND 7 = y AND 7 \<Longrightarrow> (x + z) AND 7 = ((y + z) AND 7 :: u8)"
proof -
  assume eq: "x AND 7 = y AND 7"
  have m: "unat (a AND 7) = unat a mod 8" for a :: u8
    using unat_and_mask [of a 3] by (simp add: mask_eq_exp_minus_1)
  have a: "unat (a + z) mod 8 = (unat a mod 8 + unat z) mod 8" for a :: u8
    by (simp add: unat_word_ariths mod_mod_cancel mod_add_left_eq)
  show ?thesis unfolding word_unat_eq_iff m a by (simp only: m [symmetric] eq)
qed

lemma low3_add: "((f AND 0xf8 OR x AND 7) + y) AND 7 = ((x + y) AND 7 :: u8)"
  by (rule low3_cong) simp

lemma pkt_relay_ok:
  assumes "pkt_ok b"
  shows "pkt_relay n b = Inr (if n = 0 then b
    else b\<lparr>b_data := (b_data b)[18 := (pkt_flags b AND 0xf8) OR ((pkt_flags b + of_nat n) AND 7)]\<rparr>)"
  using assms
proof (induction n arbitrary: b)
  case (Suc n)
  have "18 < length (b_data b)" "length (b_data b) = 10108" using pkt_okD [OF Suc.prems] by simp_all
  with Suc show ?case by (simp add: pkt_flag_ops low3_add add.assoc)
qed simp

text \<open>Two packets that differ in the hop count only.\<close>

lemma pkt_relay_same:
  assumes "pkt_ok b" "pkt_relay n b = Inr b'"
  shows "pkt_ok b'" "b_len b' = b_len b" "take 18 (b_data b') = take 18 (b_data b)" "drop 19 (b_data b') = drop 19 (b_data b)"
    and "pkt_flags b' AND 0xf8 = pkt_flags b AND 0xf8" "pkt_flags b' AND 7 = (pkt_flags b + of_nat n) AND 7"
  using assms pkt_okD(2) [OF assms(1)]
  by (auto simp: pkt_relay_ok split: if_splits)

section \<open>The reference\<close>

text \<open>
  The protected form of a packet whose cipher is set, and the inverse: the decision about a received
  packet and the packet handed on.
\<close>

definition armored :: "bytes \<Rightarrow> bool \<Rightarrow> buf \<Rightarrow> buf" where
  "armored key enc b =
     (let body = if enc then packet_seal key b (pkt_body b) else pkt_body b
      in b\<lparr>b_data := patch 19 (le_bytes (of_nat (packet_tag key b body) :: u64)) (patch 27 body (b_data b))\<rparr>)"

definition pkt_suite :: "buf \<Rightarrow> u32" where
  "pkt_suite b = drop_bit 3 (ucast (pkt_flags b) AND 0x38)"

definition authentic :: "bytes \<Rightarrow> buf \<Rightarrow> bool" where
  "authentic key b \<longleftrightarrow> (pkt_suite b = 0 \<or> pkt_suite b = 1) \<and>
     le_nat (take 8 (drop 19 (b_data b))) = packet_tag key b (pkt_body b)"

definition opened :: "bytes \<Rightarrow> buf \<Rightarrow> buf" where
  "opened key b =
     (if pkt_suite b = 1 then b\<lparr>b_data := patch 27 (packet_seal key b (pkt_body b)) (b_data b)\<rparr> else b)"

lemma pkt_setCipher_ok:
  fixes enc :: bool
  defines "c \<equiv> (if enc then 1 else 0 :: u32)"
  assumes "pkt_ok b"
  shows "\<exists>b1. pkt_setCipher c b = Inr b1 \<and> pkt_ok b1 \<and> b_len b1 = b_len b \<and> pkt_suite b1 = c \<and>
    take 18 (b_data b1) = take 18 (b_data b) \<and> drop 19 (b_data b1) = drop 19 (b_data b) \<and>
    pkt_flags b1 AND 0x47 = pkt_flags b AND 0x47"
proof -
  let ?g = "let g = (pkt_flags b AND 0xc7) OR ucast (push_bit 3 c AND 0x38) in if c = 1 then g OR 0x80 else g AND NOT 0x80"
  let ?b = "b\<lparr>b_data := (b_data b)[18 := ?g]\<rparr>"
  have D: "length (b_data b) = 10108" using pkt_okD(2) [OF assms(2)] .
  have u: "ucast f AND 0x38 = (ucast (f AND 0x38 :: u8) :: u32)" for f by (simp add: unsigned_and_eq)
  have "pkt_suite ?b = c"
    using D by (auto simp: pkt_suite_def c_def Let_def u and.assoc bit.conj_disj_distrib2)
  moreover have "pkt_flags ?b AND 0x47 = pkt_flags b AND 0x47"
    using D by (auto simp: c_def Let_def and.assoc bit.conj_disj_distrib2)
  ultimately show ?thesis using assms(2) D by (simp add: pkt_flag_ops)
qed

lemma pkt_suite_cong: "pkt_flags b AND 0xf8 = pkt_flags b' AND 0xf8 \<Longrightarrow> pkt_suite b = pkt_suite b'"
proof -
  assume eq: "pkt_flags b AND 0xf8 = pkt_flags b' AND 0xf8"
  have "ucast f AND 0x38 = (ucast ((f AND 0xf8) AND 0x38 :: u8) :: u32)" for f by (simp add: unsigned_and_eq and.assoc)
  then show ?thesis by (simp only: pkt_suite_def eq)
qed

lemma packet_cong:
  assumes "packet_stream key b = packet_stream key b'"
  shows "packet_seal key b = packet_seal key b'" "packet_tag key b = packet_tag key b'"
  by (simp_all add: fun_eq_iff packet_seal_def packet_tag_def assms)

lemma pkt_body_content: "drop 27 (b_content b) = pkt_body b"
  by (simp add: b_content_def pkt_body_def drop_take)

lemma take_content: "pkt_ok b \<Longrightarrow> take 18 (b_content b) = take 18 (b_data b)"
  by (simp add: b_content_def pkt_ok_def min_absorb1)

lemma pkt_body_drop: "drop 19 (b_data b) = drop 19 (b_data b') \<Longrightarrow> b_len b = b_len b' \<Longrightarrow> pkt_body b = pkt_body b'"
  using drop_drop [of 8 19 "b_data b"] drop_drop [of 8 19 "b_data b'"] by (simp add: pkt_body_def)

lemma pkt_body_patch:
  "pkt_ok b \<Longrightarrow> length p = length (pkt_body b) \<Longrightarrow> pkt_body (b\<lparr>b_data := patch 27 p (b_data b)\<rparr>) = p"
  using length_pkt_body [of b] pkt_okD(2,5) [of b] by (simp add: pkt_body_def read_patch)

lemma armored_parts:
  fixes key :: bytes and enc :: bool
  assumes "pkt_ok b"
  defines "a \<equiv> armored key enc b"
  defines "body \<equiv> (if enc then packet_seal key b (pkt_body b) else pkt_body b)"
  shows "pkt_ok a" "b_len a = b_len b" "take 18 (b_data a) = take 18 (b_data b)" "pkt_flags a = pkt_flags b"
    and "pkt_body a = body" "le_nat (take 8 (drop 19 (b_data a))) = packet_tag key b body"
proof -
  note D = pkt_okD [OF assms(1)]
  let ?t = "le_bytes (of_nat (packet_tag key b body) :: u64)" and ?d = "patch 27 body (b_data b)"
  have a: "a = b\<lparr>b_data := patch 19 ?t ?d\<rparr>" by (simp add: a_def armored_def body_def Let_def)
  have lb: "length body = unat (b_len b) - 27" using length_pkt_body [OF assms(1)] by (simp add: body_def)
  have ld: "length ?d = 10108" "length (patch 19 ?t ?d) = 10108" using D(2,5) lb by simp_all
  show "pkt_ok a" "b_len a = b_len b" using assms(1) ld by (simp_all add: a)
  show "take 18 (b_data a) = take 18 (b_data b)" using D(2,5) lb ld by (simp add: a take_patch)
  show "pkt_flags a = pkt_flags b" using D(2,5) lb ld by (simp add: a nth_patch)
  show "le_nat (take 8 (drop 19 (b_data a))) = packet_tag key b body"
    using ld by (simp add: a read_patch le_nat_le_bytes)
  have "drop 27 (patch 19 ?t ?d) = drop 27 ?d" using ld by (simp add: drop_patch)
  then show "pkt_body a = body" using pkt_body_patch [OF assms(1), of body] lb length_pkt_body [OF assms(1)]
    by (simp add: a pkt_body_def)
qed

lemma opened_parts:
  assumes "pkt_ok b"
  shows "pkt_ok (opened key b)" "b_len (opened key b) = b_len b" "take 19 (b_data (opened key b)) = take 19 (b_data b)"
    and "pkt_body (opened key b) = (if pkt_suite b = 1 then packet_seal key b (pkt_body b) else pkt_body b)"
proof -
  let ?d = "patch 27 (packet_seal key b (pkt_body b)) (b_data b)"
  have "length ?d = 10108" "take 19 ?d = take 19 (b_data b)"
    using pkt_okD(2,5) [OF assms] length_pkt_body [OF assms] by (simp_all add: take_patch)
  then show "pkt_ok (opened key b)" "b_len (opened key b) = b_len b" "take 19 (b_data (opened key b)) = take 19 (b_data b)"
    "pkt_body (opened key b) = (if pkt_suite b = 1 then packet_seal key b (pkt_body b) else pkt_body b)"
    using assms pkt_body_patch [OF assms] by (simp_all add: opened_def)
qed

lemma take_19: "take 19 (b_data b) = take 19 (b_data b') \<Longrightarrow> pkt_ok b \<Longrightarrow> pkt_ok b' \<Longrightarrow>
    take 18 (b_data b) = take 18 (b_data b') \<and> pkt_flags b = pkt_flags b'"
proof
  assume eq: "take 19 (b_data b) = take 19 (b_data b')"
  from arg_cong [OF this, of "take 18"] show "take 18 (b_data b) = take 18 (b_data b')" by simp
  from arg_cong [OF eq, of "\<lambda>x. x ! 18"] show "pkt_flags b = pkt_flags b'" by simp
qed

lemma pkt_armor_eq:
  assumes "pkt_ok b" "length key = 32" "locals_ok loc" "fast_ok fc" "pkt_setCipher (if enc then 1 else 0) b = Inr b1"
  shows "pkt_armor fc loc key enc b = Inr (armored key enc b1)"
proof -
  have "drop 19 (b_data b1) = drop 19 (b_data b)" "b_len b1 = b_len b"
    using pkt_setCipher_ok [OF assms(1), of enc] assms(5) by auto
  then have "pkt_body b1 = pkt_body b" by (rule pkt_body_drop)
  then show ?thesis using pkt_armor_law [OF assms] by (simp add: armored_def Let_def)
qed

lemma pkt_dearmor_eq:
  assumes "pkt_ok b" "length key = 32" "locals_ok loc" "fast_ok fc"
  shows "pkt_dearmor fc loc key b = Inr (if authentic key b then (True, opened key b) else (False, b))"
  using pkt_dearmor_law [OF assms] by (simp add: authentic_def opened_def pkt_suite_def)

text \<open>A packet that agrees with an armored one in everything but the hop count opens.\<close>

lemma sealed_opens:
  assumes b: "pkt_ok b" "pkt_suite b = (if enc then 1 else 0)"
    and b2: "pkt_ok b2" "b_len b2 = b_len (armored key enc b)" "take 18 (b_data b2) = take 18 (b_data (armored key enc b))"
    "pkt_flags b2 AND 0xf8 = pkt_flags (armored key enc b) AND 0xf8" "pkt_body b2 = pkt_body (armored key enc b)"
    "take 8 (drop 19 (b_data b2)) = take 8 (drop 19 (b_data (armored key enc b)))"
  shows "authentic key b2" "pkt_suite b2 = (if enc then 1 else 0)" "pkt_body (opened key b2) = pkt_body b"
proof -
  note A = armored_parts [OF b(1), where key = key and enc = enc]
  have st: "packet_stream key b2 = packet_stream key b" by (rule packet_stream_cong) (simp_all add: b2 A b(1))
  show su: "pkt_suite b2 = (if enc then 1 else 0)" using pkt_suite_cong [of b2 b] b2(4) A(4) b(2) by simp
  show "authentic key b2" using su A(5,6) b2(5,6) by (simp add: authentic_def packet_cong [OF st])
  show "pkt_body (opened key b2) = pkt_body b"
    using opened_parts(4) [OF b2(1), of key] su b2(5) A(5) by (simp add: packet_cong [OF st])
qed

text \<open>
  C11. The protection of packets, whichever build runs it.  \<open>armor\<close> gives exactly the reference form:
  the verb and the payload added to the packet's Salsa20/12 stream from its second block on (left as
  they are without encryption), and the first eight bytes of the Poly1305 tag of the result under the
  stream's first 32 bytes.  \<open>dearmor\<close> accepts exactly the packets of a known cipher suite whose stored
  tag is that number, then hands on the opened packet, and otherwise leaves the packet as it is.  Both
  stay inside their arrays, and neither result depends on the assembly routine or the local arrays.
\<close>

theorem packet_protection:
  assumes "pkt_ok b" "length key = 32" "locals_ok loc" "fast_ok fc"
  shows "(\<exists>b1. pkt_setCipher (if enc then 1 else 0) b = Inr b1 \<and>
      pkt_armor fc loc key enc b = Inr (armored key enc b1)) \<and>
    pkt_dearmor fc loc key b = Inr (if authentic key b then (True, opened key b) else (False, b))"
proof -
  obtain b1 where b1: "pkt_setCipher (if enc then 1 else 0) b = Inr b1"
    using pkt_setCipher_ok [OF assms(1), of enc] by blast
  with pkt_armor_eq [OF assms b1] pkt_dearmor_eq [OF assms] show ?thesis by blast
qed

text \<open>A packet with a recognisable body, local arrays, and the assembly routine as it is documented.\<close>

definition sample_pkt :: buf where
  "sample_pkt = \<lparr>b_data = replicate 10108 7, b_len = 40\<rparr>"

definition sample_locals :: locals where
  "sample_locals = \<lparr>l_mac = replicate 64 1, l_crypt = replicate 64 2, l_poly = replicate 16 3\<rparr>"

definition sample_fast :: fast_crypto where
  "sample_fast l n k = (case s20_init k n of Inl _ \<Rightarrow> [] | Inr st \<Rightarrow> map (salsa20_stream 6 st) [0..<l])"

lemma packet_samples_ok [simp]: "pkt_ok sample_pkt" "locals_ok sample_locals" "fast_ok (Some sample_fast)" "fast_ok None"
  by (simp_all add: sample_pkt_def pkt_ok_def sample_locals_def locals_ok_def fast_ok_def sample_fast_def)

theorem packet_protection_witness:
  "pkt_dearmor (Some sample_fast) sample_locals (replicate 32 5) sample_pkt =
     Inr (if authentic (replicate 32 5) sample_pkt then (True, opened (replicate 32 5) sample_pkt) else (False, sample_pkt))"
  using packet_protection [of sample_pkt "replicate 32 5" sample_locals "Some sample_fast" True] by simp

text \<open>
  C4. A protected packet arrives.  Whatever the two ends' builds are, with and without encryption, and
  however many relays count their hop on the way, the receiver accepts the packet that the sender
  armored, and gets back the identifier, the two addresses, the fragmentation flag, the verb and the
  payload; the cipher field says whether it was encrypted and the hop count the hops modulo eight.
\<close>

theorem armor_dearmor:
  assumes "pkt_ok b" "length key = 32" "locals_ok loc" "fast_ok fc" "locals_ok loc'" "fast_ok fc'"
  shows "\<exists>b1 b2 b3. pkt_armor fc loc key enc b = Inr b1 \<and> pkt_relay n b1 = Inr b2 \<and>
    pkt_dearmor fc' loc' key b2 = Inr (True, b3) \<and> b_len b3 = b_len b \<and>
    take 18 (b_content b3) = take 18 (b_content b) \<and> drop 27 (b_content b3) = drop 27 (b_content b) \<and>
    pkt_cipher b3 = Inr (if enc then 1 else 0) \<and> pkt_fragmented b3 = pkt_fragmented b \<and>
    pkt_hops b3 = Inr (ucast ((pkt_flags b + of_nat n) AND 7))"
proof -
  obtain b1 where b1: "pkt_setCipher (if enc then 1 else 0) b = Inr b1" "pkt_ok b1" "b_len b1 = b_len b"
    "pkt_suite b1 = (if enc then 1 else 0)" "take 18 (b_data b1) = take 18 (b_data b)"
    "drop 19 (b_data b1) = drop 19 (b_data b)" "pkt_flags b1 AND 0x47 = pkt_flags b AND 0x47"
    using pkt_setCipher_ok [OF assms(1), of enc] by blast
  define a where "a = armored key enc b1"
  note A = armored_parts [OF b1(2), where key = key and enc = enc, folded a_def]
  obtain b2 where b2: "pkt_relay n a = Inr b2" using pkt_relay_ok [OF A(1)] by blast
  note R = pkt_relay_same [OF A(1) b2]
  note O = opened_parts [OF R(1), of key]
  have body: "pkt_body b2 = pkt_body a" by (rule pkt_body_drop [OF R(4,2)])
  have same: "take 8 (drop 19 (b_data b2)) = take 8 (drop 19 (b_data a))" using R(4) by simp
  note S = sealed_opens [OF b1(2,4) R(1) R(2,3,5) [unfolded a_def] body [unfolded a_def] same [unfolded a_def]]
  have restored: "pkt_body (opened key b2) = pkt_body b" using S(3) pkt_body_drop [OF b1(6,3)] by simp
  note auth = S(1) and su = S(2)
  note T = take_19 [OF O(3) O(1) R(1)]
  have hi: "pkt_flags (opened key b2) AND 0x40 = pkt_flags b AND 0x40"
  proof -
    have "pkt_flags (opened key b2) AND 0x40 = (pkt_flags b2 AND 0xf8) AND 0x40" using T by (simp add: and.assoc)
    also have "\<dots> = (pkt_flags b1 AND 0x47) AND 0x40" using R(5) A(4) by (simp add: and.assoc)
    also have "\<dots> = pkt_flags b AND 0x40" unfolding b1(7) by (simp add: and.assoc)
    finally show ?thesis .
  qed
  have "pkt_flags b1 AND 7 = pkt_flags b AND 7"
    using arg_cong [OF b1(7), of "\<lambda>x. x AND 7"] by (simp add: and.assoc)
  then have lo: "pkt_flags (opened key b2) AND 7 = (pkt_flags b + of_nat n) AND 7"
    using low3_cong [of "pkt_flags b1" "pkt_flags b"] T R(6) A(4) by simp
  have "take 18 (b_data (opened key b2)) = take 18 (b_data b)" using T R(3) A(3) b1(5) by simp
  then have "take 18 (b_content (opened key b2)) = take 18 (b_content b)"
    using take_content [OF O(1)] take_content [OF assms(1)] by simp
  moreover have "pkt_cipher (opened key b2) = Inr (if enc then 1 else 0)"
    using pkt_flag_ops(1) [OF O(1)] T su by (simp add: pkt_suite_def)
  moreover have "pkt_fragmented (opened key b2) = pkt_fragmented b"
    using pkt_flag_ops(3) [OF O(1)] pkt_flag_ops(3) [OF assms(1)] hi by simp
  moreover have "pkt_hops (opened key b2) = Inr (ucast ((pkt_flags b + of_nat n) AND 7))"
    using pkt_flag_ops(2) [OF O(1)] lo [symmetric] by (simp add: unsigned_and_eq)
  moreover have "b_len (opened key b2) = b_len b" using O(2) R(2) A(2) b1(3) by simp
  moreover have "pkt_dearmor fc' loc' key b2 = Inr (True, opened key b2)"
    using pkt_dearmor_eq [OF R(1) assms(2,5,6)] auth by simp
  ultimately show ?thesis
    using pkt_armor_eq [OF assms(1-4) b1(1)] b2 restored unfolding a_def pkt_body_content by blast
qed

theorem armor_dearmor_witness:
  "\<exists>b1 b2 b3. pkt_armor (Some sample_fast) sample_locals (replicate 32 5) True sample_pkt = Inr b1 \<and>
    pkt_relay 2 b1 = Inr b2 \<and> pkt_dearmor None sample_locals (replicate 32 5) b2 = Inr (True, b3) \<and>
    drop 27 (b_content b3) = replicate 13 7"
proof -
  have "drop 27 (b_content sample_pkt) = replicate 13 7" by (simp add: sample_pkt_def b_content_def)
  then show ?thesis
    using armor_dearmor [of sample_pkt "replicate 32 5" sample_locals "Some sample_fast" sample_locals None True 2]
    by (simp only: packet_samples_ok length_replicate) blast
qed

end
