(* ===== verification/Switch_Laws.thy ===== *)
theory Switch_Laws
  imports Zt_Switch Packet_Laws
begin

text \<open>
  Cutting a packet into datagrams and putting it together again: the datagrams \<open>_trySend\<close> emits, the
  invariant of the receive queue while they arrive in any order, and the delivery of the packet.
\<close>

section \<open>Fragments\<close>

text \<open>The pieces of at most \<open>n\<close> bytes that the loop of \<open>_trySend\<close> cuts.\<close>

function chunks :: "nat \<Rightarrow> 'a list \<Rightarrow> 'a list list" where
  "chunks n xs = (if xs = [] \<or> n = 0 then [] else take n xs # chunks n (drop n xs))"
  by auto

termination chunks
  by (relation "measure (\<lambda>(n, xs). length xs)") auto

declare chunks.simps [simp del]

lemma chunks_Nil [simp]: "chunks n [] = []"
  by (simp add: chunks.simps)

lemma chunks_Cons: "xs \<noteq> [] \<Longrightarrow> 0 < n \<Longrightarrow> chunks n xs = take n xs # chunks n (drop n xs)"
  by (subst chunks.simps) simp

lemma concat_chunks: "0 < n \<Longrightarrow> concat (chunks n xs) = xs"
  by (induction n xs rule: chunks.induct) (subst chunks.simps, simp)

lemma chunks_bounded: "c \<in> set (chunks n xs) \<Longrightarrow> 0 < length c \<and> length c \<le> n"
proof (induction n xs rule: chunks.induct)
  case (1 n xs)
  show ?case
  proof (cases "xs = [] \<or> n = 0")
    case False
    with 1 show ?thesis by (auto simp: chunks_Cons)
  qed (use 1 in \<open>auto simp: chunks.simps\<close>)
qed

lemma length_chunks: "0 < n \<Longrightarrow> length (chunks n xs) = (length xs + n - 1) div n"
proof (induction n xs rule: chunks.induct)
  case (1 n xs)
  show ?case
  proof (cases "xs = []")
    case False
    then have "0 < length xs" by simp
    have add: "(a + n) div n = Suc (a div n)" for a using 1(2) by (simp add: div_add_self2)
    have len: "length (chunks n xs) = Suc ((length xs - n + n - 1) div n)" using 1 False by (simp add: chunks_Cons)
    show ?thesis
    proof (cases "n \<le> length xs")
      case True
      then have "length xs + n - 1 = (length xs - n + n - 1) + n" using 1(2) by linarith
      then show ?thesis by (simp only: len add)
    next
      case False
      with \<open>0 < length xs\<close> have "length xs + n - 1 = (length xs - 1) + n" "length xs - 1 < n" "length xs - n + n - 1 < n"
        using 1(2) by linarith+
      then show ?thesis by (simp only: len add div_less)
    qed
  qed (use 1 in simp)
qed

text \<open>The bytes of a fragment, and the fragments of a packet.\<close>

definition frag_bytes :: "bytes \<Rightarrow> u32 \<Rightarrow> u32 \<Rightarrow> bytes \<Rightarrow> bytes" where
  "frag_bytes c no tot part =
     take 13 c @ [0xff, ucast (push_bit 4 (tot AND 0xf) OR (no AND 0xf)), 0] @ part"

fun frag_list :: "bytes \<Rightarrow> u32 \<Rightarrow> u32 \<Rightarrow> bytes list \<Rightarrow> bytes list" where
  "frag_list c tot no [] = []"
| "frag_list c tot no (p # ps) = frag_bytes c no tot p # frag_list c tot (no + 1) ps"

lemma length_frag_bytes [simp]: "13 \<le> length c \<Longrightarrow> length (frag_bytes c no tot part) = 16 + length part"
  by (simp add: frag_bytes_def)

lemma buf_put_ok [packet_ops]:
  assumes "buf_ok b" "unat i + unat l \<le> unat (b_len b)" "length bs = unat l"
  shows "buf_put i l bs b = Inr (b\<lparr>b_data := patch (unat i) bs (b_data b)\<rparr>)"
proof -
  have "unat (i + l) = unat i + unat l"
    using assms(2) unat_bounds(3) [of "b_len b"] by (intro unat_add_nowrap) simp
  then have "\<not> i + l > b_len b" using assms(2) by (simp add: word_less_nat_alt)
  then show ?thesis
    using assms by (simp add: buf_put_def memcpy_ok patch_def buf_ok_def b_cap_def)
qed

lemma buf_field_ok [packet_ops]:
  assumes "buf_ok b" "unat i + unat l \<le> unat (b_len b)"
  shows "buf_field b i l = Inr (take (unat l) (drop (unat i) (b_data b)))"
proof -
  have "unat (i + l) = unat i + unat l"
    using assms(2) unat_bounds(3) [of "b_len b"] by (intro unat_add_nowrap) simp
  then have "\<not> i + l > b_len b" using assms(2) by (simp add: word_less_nat_alt)
  then show ?thesis using assms by (simp add: buf_field_def mem_get_def buf_ok_def b_cap_def)
qed

lemma drop_3_add [simp]: "drop (3 + n) (a # b # c # xs) = drop n xs"
  by (simp add: numeral_3_eq_3)

lemma take_3_add [simp]: "take (3 + n) (a # b # c # xs) = a # b # c # take n xs"
  by (simp add: numeral_3_eq_3)

lemma frag_init_law:
  assumes p: "pkt_ok p" and mem: "length mem = 10108"
    and le: "unat s + unat l \<le> unat (b_len p)" and l: "unat l \<le> 10092"
  shows "\<exists>f. frag_init mem p s l no tot = Inr f \<and>
    b_content f = frag_bytes (b_content p) no tot (take (unat l) (drop (unat s) (b_content p)))"
proof -
  note D = pkt_okD [OF p]
  let ?id = "take 13 (b_data p)" and ?part = "take (unat l) (drop (unat s) (b_data p))"
  let ?v = "ucast (push_bit 4 (tot AND 0xf) OR (no AND 0xf)) :: u8"
  have n: "unat (l + 16) = unat l + 16" using l by (subst unat_add_nowrap) simp_all
  have sl: "\<not> s + l > b_len p"
    using le unat_bounds(3) [of "b_len p"] by (subst word_less_nat_alt, subst unat_add_nowrap) simp_all
  have li: "length ?id = 13" "length ?part = unat l"
    using D(2) le p by (auto simp: pkt_ok_def)
  let ?f = "\<lambda>d. \<lparr>b_data = d, b_len = l + 16\<rparr>"
  have ok: "buf_ok (?f d)" if "length d = 10108" for d using that n l by (simp add: buf_ok_def b_cap_def)
  have lt: "k < l + 16" if "unat k < 16" for k using that n by (simp add: word_less_nat_alt)
  have xyz: "drop 13 mem = mem ! 13 # mem ! 14 # mem ! 15 # drop 16 mem"
    using mem Cons_nth_drop_Suc [of 13 mem] Cons_nth_drop_Suc [of 14 mem] Cons_nth_drop_Suc [of 15 mem] by simp
  let ?d1 = "?id @ drop 13 mem" and ?d2 = "?id @ [0xff, ?v, 0] @ drop 16 mem"
  have "buf_put 0 13 ?id (?f mem) = Inr (?f ?d1)"
    using ok [OF mem] li n by (simp add: buf_put_ok patch_def)
  moreover have "length ?d1 = 10108" using mem li by simp
  ultimately have "frag_init mem p s l no tot = buf_put 16 l ?part (?f ?d2)"
    using D(1) p le sl n l mem li ok lt
    by (simp add: frag_init_def buf_setSize_def buf_new_def b_cap_def buf_field_ok pkt_ok_def buf_set_ok xyz list_update_append)
  also have "\<dots> = Inr (?f (?id @ [0xff, ?v, 0] @ ?part @ drop (unat l + 16) mem))"
    using ok [of ?d2] li mem n by (simp add: buf_put_ok patch_def)
  finally show ?thesis
    using li n D le p by (auto simp: b_content_def frag_bytes_def pkt_ok_def min_absorb1 drop_take)
qed

lemma sw_fragments_law:
  assumes p: "pkt_ok p" and mem: "length mem = 10108"
    and room: "0 < room" "room \<le> 10092" "unat (mtu - 16) = room"
    and pos: "unat fragStart + unat remaining = unat (b_len p)"
    and tot: "unat tot = unat no + length (chunks room (drop (unat fragStart) (b_content p)))"
  shows "sw_fragments mem p mtu tot no fragStart remaining =
    Inr (frag_list (b_content p) tot no (chunks room (drop (unat fragStart) (b_content p))))"
  using pos tot
proof (induction "unat remaining" arbitrary: no fragStart remaining rule: less_induct)
  case less
  let ?c = "b_content p"
  let ?rest = "drop (unat fragStart) ?c"
  have lc: "length ?c = unat (b_len p)" using length_b_content [OF pkt_okD(1) [OF p]] .
  show ?case
  proof (cases "unat remaining = 0")
    case True
    then have "?rest = []" using less.prems(1) lc by simp
    with less.prems(2) show ?thesis by (subst sw_fragments.simps) (simp add: word_less_nat_alt)
  next
    case False
    define ch where "ch = min remaining (mtu - 16)"
    have uc: "unat ch = min (unat remaining) room" using room(3) by (auto simp: ch_def min_def word_le_nat_alt)
    have ne: "?rest \<noteq> []" using less.prems(1) False lc by simp
    have sb: "unat fragStart + unat ch \<le> unat (b_len p)" using uc less.prems(1) by simp
    have s': "unat (fragStart + ch) = unat fragStart + unat ch"
      using sb unat_bounds(3) [of "b_len p"] by (intro unat_add_nowrap) simp
    have r': "unat (remaining - ch) = unat remaining - unat ch"
      using uc by (intro unat_sub_nowrap) (simp add: word_le_nat_alt)
    have cs: "chunks room ?rest = take room ?rest # chunks room (drop room ?rest)" by (rule chunks_Cons [OF ne room(1)])
    have tk: "take (unat ch) ?rest = take room ?rest" using uc less.prems(1) lc by (simp add: min_def)
    have dr: "drop room ?rest = drop (unat (fragStart + ch)) ?c"
      using uc less.prems(1) lc s' by (cases "unat remaining \<le> room") (simp_all add: add.commute)
    have lt: "no < tot" using less.prems(2) cs by (simp add: word_less_nat_alt)
    have n1: "unat (no + 1) = unat no + 1"
      using lt unat_bounds(3) [of tot] by (subst unat_add_nowrap) (simp_all add: word_less_nat_alt)
    have "unat ch \<le> 10092" using uc room(2) by simp
    then obtain f where f: "frag_init mem p fragStart ch no tot = Inr f"
      "b_content f = frag_bytes ?c no tot (take room ?rest)"
      using frag_init_law [OF p mem sb, of no tot] tk by auto
    have rec: "sw_fragments mem p mtu tot (no + 1) (fragStart + ch) (remaining - ch) =
        Inr (frag_list ?c tot (no + 1) (chunks room (drop (unat (fragStart + ch)) ?c)))"
    proof (rule less.hyps)
      show "unat (remaining - ch) < unat remaining" using r' uc False room(1) by simp
      show "unat (fragStart + ch) + unat (remaining - ch) = unat (b_len p)" using s' r' uc less.prems(1) by simp
      show "unat tot = unat (no + 1) + length (chunks room (drop (unat (fragStart + ch)) ?c))"
        using less.prems(2) cs n1 dr by simp
    qed
    show ?thesis
      using lt f rec by (subst sw_fragments.simps) (simp add: ch_def [symmetric] Let_def cs dr [simplified])
  qed
qed

text \<open>The datagrams of a packet with the bytes \<open>c\<close> on a path with the given MTU.\<close>

definition frag_parts :: "bytes \<Rightarrow> nat \<Rightarrow> bytes list" where
  "frag_parts c mtu = chunks (mtu - 16) (drop mtu c)"

definition datagrams :: "bytes \<Rightarrow> nat \<Rightarrow> bytes list" where
  "datagrams c mtu = take mtu c # frag_list c (of_nat (length (frag_parts c mtu) + 1)) 1 (frag_parts c mtu)"

lemma ceil_div:
  "0 < r \<Longrightarrow> (if a div r * r < a then a div r + 1 else a div r) = (a + r - 1) div (r :: nat)"
proof -
  assume r: "0 < r"
  have a: "a = a div r * r + a mod r" "a mod r < r" using r by simp_all
  show ?thesis
  proof (cases "a mod r = 0")
    case True
    then have "a + r - 1 = (r - 1) + a div r * r" using a(1) r by linarith
    moreover have "((r - 1) + a div r * r) div r = a div r + (r - 1) div r" using r by (intro div_mult_self1) simp
    moreover have "(r - 1) div r = 0" using r by simp
    ultimately show ?thesis using True a(1) by simp
  next
    case False
    moreover have "(a div r + 1) * r = a div r * r + r" by simp
    ultimately have "a + r - 1 = (a mod r - 1) + (a div r + 1) * r" using a(1) by linarith
    moreover have "((a mod r - 1) + (a div r + 1) * r) div r = a div r + 1 + (a mod r - 1) div r"
      using r by (intro div_mult_self1) simp
    moreover have "(a mod r - 1) div r = 0" using a(2) by (intro div_less) linarith
    moreover have "a div r * r < a" using False a(1) by linarith
    ultimately show ?thesis by simp
  qed
qed

lemma trySend_law:
  assumes b: "pkt_ok b" and dest: "pkt_destination b = Inr a" "routes a = Some rt"
    and rt: "rt_trustedPathId rt = 0" "length (rt_key rt) = 32" "\<And>d. rt_send rt d"
    and mtu: "17 \<le> unat (rt_mtu rt)" "unat (rt_mtu rt) \<le> 10108"
    and loc: "length mem = 10108" "locals_ok loc" "fast_ok fc"
  shows "\<exists>b1 p. pkt_setFragmented (rt_mtu rt < b_len b) b = Inr b1 \<and> pkt_ok b1 \<and>
    pkt_armor fc loc (rt_key rt) enc b1 = Inr p \<and> pkt_ok p \<and> b_len p = b_len b \<and>
    trySend mem fc loc routes b enc = Inr (True, p, datagrams (b_content p) (unat (rt_mtu rt)))"
proof -
  let ?m = "rt_mtu rt"
  define ch where "ch = min (b_len b) ?m"
  have chlt: "ch < b_len b \<longleftrightarrow> ?m < b_len b" by (auto simp: ch_def min_def not_le)
  obtain b1 where b1: "pkt_setFragmented (?m < b_len b) b = Inr b1" "pkt_ok b1" "b_len b1 = b_len b"
    using b pkt_okD(2) [OF b] by (simp add: pkt_flag_ops)
  obtain b2 where b2: "pkt_setCipher (if enc then 1 else 0) b1 = Inr b2" "pkt_ok b2" "b_len b2 = b_len b"
    using pkt_setCipher_ok [OF b1(2), of enc] b1(3) by auto
  define p where "p = armored (rt_key rt) enc b2"
  have p: "pkt_armor fc loc (rt_key rt) enc b1 = Inr p" "pkt_ok p" "b_len p = b_len b"
    using pkt_armor_eq [OF b1(2) rt(2) loc(2,3) b2(1)] armored_parts(1,2) [OF b2(2)] b2(3) by (simp_all add: p_def)
  note D = pkt_okD [OF p(2)]
  let ?c = "b_content p" and ?r = "unat ?m - 16"
  have lc: "length ?c = unat (b_len b)" using length_b_content [OF D(1)] p(3) by simp
  have ch: "unat ch = min (unat (b_len b)) (unat ?m)" by (auto simp: ch_def min_def word_le_nat_alt)
  have head: "raw_read p 0 (unat ch) = Inr (take (unat ?m) ?c)"
    using D p ch by (auto simp: raw_read_ok b_content_def pkt_ok_def min.commute)
  show ?thesis
  proof (cases "?m < b_len b")
    case False
    then have "frag_parts ?c (unat ?m) = []" using lc by (simp add: frag_parts_def word_less_nat_alt)
    then have "trySend mem fc loc routes b enc = Inr (True, p, datagrams ?c (unat ?m))"
      using dest rt(1) b1(1) p(1,3) head chlt False
      by (simp add: trySend_def Let_def ch_def [symmetric] datagrams_def)
    with b1 p show ?thesis by blast
  next
    case True
    then have lt: "unat ?m < unat (b_len b)" by (simp add: word_less_nat_alt)
    have ce: "ch = ?m" using True by (auto simp: ch_def min_def dest: leD)
    have room: "unat (?m - 16) = ?r" using mtu(1) by (intro unat_sub_nowrap [THEN trans]) (simp_all add: word_le_nat_alt)
    define rem where "rem = b_len b - ?m"
    have rem: "unat rem = unat (b_len b) - unat ?m" using True by (simp add: rem_def unat_sub_nowrap)
    define n where "n = rem div (?m - 16)"
    have un: "unat n = unat rem div ?r" by (simp add: n_def unat_div_distrib room)
    have le: "unat n * ?r \<le> unat rem" by (simp add: un)
    have um: "unat (n * (?m - 16)) = unat n * ?r"
      using le unat_bounds(3) [of rem] room by (simp add: unat_word_ariths)
    have nl: "unat n \<le> unat rem" by (simp add: un)
    define fr where "fr = (if n * (?m - 16) < rem then n + 1 else n)"
    have small: "unat rem < 10108" using rem p(2,3) mtu(1) by (auto simp: pkt_ok_def)
    have n1: "unat (n + 1) = unat n + 1" using nl small by (subst unat_add_nowrap) simp_all
    have ufr: "unat fr = length (frag_parts ?c (unat ?m))"
    proof -
      have "unat fr = (if unat rem div ?r * ?r < unat rem then unat rem div ?r + 1 else unat rem div ?r)"
        using um un n1 by (simp add: fr_def word_less_nat_alt)
      also have "\<dots> = (unat rem + ?r - 1) div ?r" by (rule ceil_div) (use mtu(1) in simp)
      also have "\<dots> = length (frag_parts ?c (unat ?m))" using mtu(1) lc rem by (simp add: frag_parts_def length_chunks)
      finally show ?thesis .
    qed
    have frs: "unat fr \<le> unat rem + 1" using nl n1 by (simp add: fr_def)
    have tot: "unat (fr + 1) = length (frag_parts ?c (unat ?m)) + 1"
      using ufr frs small by (subst unat_add_nowrap) simp_all
    have "sw_fragments mem p ?m (fr + 1) 1 ?m rem = Inr (frag_list ?c (fr + 1) 1 (chunks ?r (drop (unat ?m) ?c)))"
      by (rule sw_fragments_law) (use p(2,3) loc(1) mtu room lt rem tot in \<open>simp_all add: frag_parts_def\<close>)
    moreover have "fr + 1 = of_nat (length (frag_parts ?c (unat ?m)) + 1)" 
    proof -
      have "fr + 1 = of_nat (unat (fr + 1))" by simp
      then show ?thesis by (simp only: tot)
    qed
    ultimately have fl: "sw_fragments mem p ?m (fr + 1) 1 ?m rem =
        Inr (frag_list ?c (of_nat (length (frag_parts ?c (unat ?m)) + 1)) 1 (frag_parts ?c (unat ?m)))"
      by (simp only: frag_parts_def)
    have nz: "?m - 16 \<noteq> 0" using room mtu(1) by auto
    have "trySend mem fc loc routes b enc = Inr (True, p, datagrams ?c (unat ?m))"
      using dest rt(1,3) b1(1) p(1,3) head chlt True fl [unfolded fr_def] nz
      by (cases "n * (?m - 16) < rem")
        (simp_all add: trySend_def Let_def ch_def [symmetric] ce rem_def [symmetric] n_def [symmetric] datagrams_def)
    with b1 p show ?thesis by blast
  qed
qed

end
