(* ===== verification/Reassembly.thy ===== *)
theory Reassembly
  imports Switch_Laws
begin

text \<open>
  The receive queue puts a packet together.  While the datagrams of one packet arrive, the entry taken
  for it holds exactly the pieces received so far (\<open>rx_inv\<close>); the datagram that completes the set makes
  the queue hand the packet on.
\<close>

section \<open>The datagrams at the receiver\<close>

definition dgram :: "bytes \<Rightarrow> nat \<Rightarrow> nat \<Rightarrow> bytes" where
  "dgram c m k = datagrams c m ! k"

definition frag_count :: "bytes \<Rightarrow> nat \<Rightarrow> nat" where
  "frag_count c m = length (frag_parts c m) + 1"

lemma length_frag_list [simp]: "length (frag_list c t n ps) = length ps"
  by (induction ps arbitrary: n) simp_all

lemma nth_frag_list: "k < length ps \<Longrightarrow> frag_list c t n ps ! k = frag_bytes c (n + of_nat k) t (ps ! k)"
proof (induction ps arbitrary: n k)
  case (Cons p ps)
  then show ?case by (cases k) (simp_all add: add.assoc)
qed simp

lemma length_datagrams: "length (datagrams c m) = frag_count c m"
  by (simp add: datagrams_def frag_count_def)

lemma dgram_0 [simp]: "dgram c m 0 = take m c"
  by (simp add: dgram_def datagrams_def)

lemma dgram_frag:
  "0 < k \<Longrightarrow> k < frag_count c m \<Longrightarrow>
   dgram c m k = frag_bytes c (of_nat k) (of_nat (frag_count c m)) (frag_parts c m ! (k - 1))"
  by (cases k) (simp_all add: dgram_def datagrams_def frag_count_def nth_frag_list add.commute)

text \<open>
  A packet of more than one datagram, sent by another node to this one; and the same in at most the
  number of fragments the receiver accepts.
\<close>

definition addressed :: "sw_env \<Rightarrow> bytes \<Rightarrow> nat \<Rightarrow> bool" where
  "addressed w c m \<longleftrightarrow> 28 \<le> m \<and> m < length c \<and> length c \<le> 10108 \<and> length (w_mem w) = 10108 \<and>
     addr_setTo (drop 8 c) 5 = Inr (w_self w) \<and> addr_setTo (drop 13 c) 5 \<noteq> Inr (w_self w) \<and>
     c ! 13 \<noteq> 0xff \<and> c ! 18 AND 0x40 \<noteq> 0"

definition arriving :: "sw_env \<Rightarrow> bytes \<Rightarrow> nat \<Rightarrow> bool" where
  "arriving w c m \<longleftrightarrow> addressed w c m \<and> frag_count c m \<le> 7"

lemmas arriving_defs = arriving_def addressed_def

definition fbuf :: "sw_env \<Rightarrow> bytes \<Rightarrow> buf" where
  "fbuf w d = \<lparr>b_data = d @ drop (length d) (w_mem w), b_len = of_nat (length d)\<rparr>"

definition pid_of :: "bytes \<Rightarrow> u64" where
  "pid_of c = be_word (take 8 c)"

lemma copyFrom_ok:
  assumes "length d \<le> 10108" "b_cap b = 10108"
  shows "buf_copyFrom b d (of_nat (length d)) = Inr (b\<lparr>b_data := d @ drop (length d) (b_data b), b_len := of_nat (length d)\<rparr>)"
  using assms by (simp add: buf_copyFrom_def b_cap_def word_nat memcpy_ok)

lemma part_bounds:
  assumes "addressed w c m" "0 < k" "k < frag_count c m"
  shows "0 < length (frag_parts c m ! (k - 1))" "length (frag_parts c m ! (k - 1)) \<le> m - 16"
  using assms chunks_bounded [of "frag_parts c m ! (k - 1)" "m - 16" "drop m c"]
  by (simp_all add: frag_parts_def frag_count_def nth_mem)

lemma addr_setTo_prefix: "take 5 a = take 5 b \<Longrightarrow> 5 \<le> length a \<Longrightarrow> 5 \<le> length b \<Longrightarrow> addr_setTo a 5 = addr_setTo b 5"
  by (simp add: addr_setTo_def mem_get_def)

lemma addr_setTo_total: "5 \<le> length a \<Longrightarrow> \<exists>s. addr_setTo a 5 = Inr s"
  by (simp add: addr_setTo_def mem_get_def)

lemma frag_byte_fields:
  assumes "k < 16" "t < 16"
  shows "ucast (ucast (push_bit 4 (of_nat t AND 0xf) OR (of_nat k AND 0xf) :: u32) :: u8) AND 0xf = (of_nat k :: u32)"
    and "drop_bit 4 (ucast (ucast (push_bit 4 (of_nat t AND 0xf) OR (of_nat k AND 0xf) :: u32) :: u8)) AND 0xf = (of_nat t :: u32)"
proof -
  have "\<forall>k \<in> set [0..<16]. \<forall>t \<in> set [0..<16].
      ucast (ucast (push_bit 4 (of_nat t AND 0xf) OR (of_nat k AND 0xf) :: u32) :: u8) AND 0xf = (of_nat k :: u32) \<and>
      drop_bit 4 (ucast (ucast (push_bit 4 (of_nat t AND 0xf) OR (of_nat k AND 0xf) :: u32) :: u8)) AND 0xf = (of_nat t :: u32)"
    by code_simp
  with assms show "ucast (ucast (push_bit 4 (of_nat t AND 0xf) OR (of_nat k AND 0xf) :: u32) :: u8) AND 0xf = (of_nat k :: u32)"
    "drop_bit 4 (ucast (ucast (push_bit 4 (of_nat t AND 0xf) OR (of_nat k AND 0xf) :: u32) :: u8)) AND 0xf = (of_nat t :: u32)"
    by (simp_all only: set_upt atLeastLessThan_iff ball_simps) auto
qed

lemma fbuf_ok: "length d \<le> 10108 \<Longrightarrow> length (w_mem w) = 10108 \<Longrightarrow> buf_ok (fbuf w d) \<and> b_content (fbuf w d) = d"
  by (simp add: fbuf_def buf_ok_def b_cap_def b_content_def word_nat)

lemma frag_fields:
  assumes a: "addressed w c m" "frag_count c m < 16" and k: "0 < k" "k < frag_count c m"
  defines "f \<equiv> fbuf w (dgram c m k)"
  shows "frag_destination f = Inr (w_self w)" "frag_packetId f = Inr (pid_of c)"
    and "frag_fragmentNumber f = Inr (of_nat k)" "frag_totalFragments f = Inr (of_nat (frag_count c m))"
    and "frag_payloadLength f = of_nat (length (frag_parts c m ! (k - 1)))" "frag_piece f = Inr (frag_parts c m ! (k - 1))"
proof -
  let ?part = "frag_parts c m ! (k - 1)"
  note P = part_bounds [OF a(1) k]
  have A: "28 \<le> m" "m < length c" "length c \<le> 10108" "length (w_mem w) = 10108" "frag_count c m < 16"
    "addr_setTo (drop 8 c) 5 = Inr (w_self w)"
    using a by (simp_all add: addressed_def)
  let ?v = "ucast (push_bit 4 (of_nat (frag_count c m) AND 0xf) OR (of_nat k AND 0xf) :: u32) :: u8"
  have d: "dgram c m k = take 13 c @ [0xff, ?v, 0] @ ?part" using dgram_frag [OF k] by (simp add: frag_bytes_def)
  have ld: "length (dgram c m k) = 16 + length ?part" using A by (simp add: d)
  have n: "unat (of_nat (16 + length ?part) :: u32) = 16 + length ?part" using P A by (intro unat_of_nat_nowrap) simp
  have bl: "b_len f = of_nat (16 + length ?part)" and bd: "b_data f = take 13 c @ [0xff, ?v, 0] @ ?part @ drop (16 + length ?part) (w_mem w)"
    using ld by (simp_all add: f_def fbuf_def d)
  have ok: "buf_ok f" using fbuf_ok [of "dgram c m k" w] ld P A by (simp add: f_def)
  have u: "unat (b_len f) = 16 + length ?part" using n bl by simp
  have "frag_destination f = addr_setTo (take 5 (drop 8 c)) 5"
    using ok u A by (simp add: frag_destination_def buf_field_ok bd drop_take)
  also have "\<dots> = addr_setTo (drop 8 c) 5" using A by (intro addr_setTo_prefix) simp_all
  finally show "frag_destination f = Inr (w_self w)" using A by simp
  show "frag_packetId f = Inr (pid_of c)"
    using u A by (simp add: frag_packetId_def buf_at_def mem_get_def bd pid_of_def)
  have g: "buf_get f 14 = Inr ?v" using ok u A by (simp add: buf_get_ok word_less_nat_alt bd nth_append)
  show "frag_fragmentNumber f = Inr (of_nat k)" "frag_totalFragments f = Inr (of_nat (frag_count c m))"
    using g frag_byte_fields [of k "frag_count c m"] k A by (simp_all add: frag_fragmentNumber_def frag_totalFragments_def)
  have l: "16 < b_len f" "unat (b_len f - 16) = length ?part"
    using u P by (simp_all add: word_less_nat_alt unat_sub_nowrap word_le_nat_alt)
  then show pl: "frag_payloadLength f = of_nat (length ?part)"
    using bl by (simp add: frag_payloadLength_def)
  show "frag_piece f = Inr ?part"
    using l u A P by (simp add: frag_piece_def frag_payloadLength_def raw_read_ok bd)
qed

lemma recv_frag:
  assumes a: "addressed w c m" "frag_count c m < 16" and k: "0 < k" "k < frag_count c m"
  shows "onRemotePacket w now (dgram c m k) sw =
    (if 7 < frag_count c m then Inr (sw, [PathReceived])
     else res_bind (let (i, sw') = findRXQueueEntry (pid_of c) sw in
         rx_at i (rx_fragment w now (fbuf w (dgram c m k)) (pid_of c) (of_nat k) (of_nat (frag_count c m))) sw')
       (\<lambda>(sw, ev). Inr (sw, PathReceived # ev)))"
proof -
  let ?d = "dgram c m k"
  have A: "28 \<le> m" "m < length c" "length c \<le> 10108" "length (w_mem w) = 10108" "frag_count c m < 16"
    using a by (simp_all add: addressed_def)
  have d: "length ?d = 16 + length (frag_parts c m ! (k - 1))" "?d ! 13 = 0xff"
    using dgram_frag [OF k] A by (simp_all add: frag_bytes_def nth_append)
  have le: "length ?d \<le> 10108" "16 < length ?d" using d(1) part_bounds [OF a(1) k] A by simp_all
  have cp: "buf_copyFrom (buf_new (w_mem w)) ?d (of_nat (length ?d)) = Inr (fbuf w ?d)"
    using copyFrom_ok [OF le(1), of "buf_new (w_mem w)"] A by (simp add: buf_new_def b_cap_def fbuf_def)
  have num: "(of_nat (frag_count c m) :: u32) \<le> 7 \<longleftrightarrow> frag_count c m \<le> 7" "(of_nat k :: u32) < 7 \<longleftrightarrow> k < 7"
    "(of_nat k :: u32) > 0" "(of_nat (frag_count c m) :: u32) > 1"
    using k A by (simp_all add: word_le_nat_alt word_less_nat_alt word_nat)
  show ?thesis
    using le d(2) cp num k(2) frag_fields(1-4) [OF a k]
    by (simp add: onRemotePacket_def Let_def sw_fragment_def not_less)
qed

lemma recv_head:
  assumes a: "arriving w c m"
  shows "onRemotePacket w now (dgram c m 0) sw =
    res_bind (let (i, sw') = findRXQueueEntry (pid_of c) sw in rx_at i (rx_head w now (take m c) (pid_of c)) sw')
      (\<lambda>(sw, ev). Inr (sw, PathReceived # ev))"
proof -
  have A: "28 \<le> m" "m < length c" "addr_setTo (drop 8 c) 5 = Inr (w_self w)" "addr_setTo (drop 13 c) 5 \<noteq> Inr (w_self w)"
    "c ! 13 \<noteq> 0xff" "c ! 18 AND 0x40 \<noteq> 0"
    using a by (simp_all add: arriving_defs)
  have d: "addr_setTo (drop 8 (take m c)) 5 = addr_setTo (drop 8 c) 5" "addr_setTo (drop 13 (take m c)) 5 = addr_setTo (drop 13 c) 5"
    by (rule addr_setTo_prefix; use A in \<open>simp add: drop_take min_absorb1\<close>)+
  have "5 \<le> length (drop 13 c)" using A by simp
  from addr_setTo_total [OF this] obtain s where s: "addr_setTo (drop 13 c) 5 = Inr s" "s \<noteq> w_self w"
    using A(4) by auto
  have "pid_of c = be_word (take 8 (take m c))" using A by (simp add: pid_of_def min_absorb1)
  then show ?thesis
    using A d s by (simp add: onRemotePacket_def Let_def sw_packet_def min_absorb1 min_absorb2)
qed

section \<open>One entry of the queue\<close>

definition rx_inv :: "sw_env \<Rightarrow> bytes \<Rightarrow> nat \<Rightarrow> nat set \<Rightarrow> rx_entry \<Rightarrow> bool" where
  "rx_inv w c m S rq \<longleftrightarrow> rq_packetId rq = pid_of c \<and> rq_timestamp rq \<noteq> 0 \<and> length (rq_frags rq) = 6 \<and>
     (\<forall>k. bit (rq_haveFragments rq) k \<longleftrightarrow> k \<in> S) \<and>
     rq_totalFragments rq = (if S \<subseteq> {0} then 0 else of_nat (frag_count c m)) \<and>
     (\<forall>k \<in> S - {0}. rq_frags rq ! (k - 1) = fbuf w (dgram c m k)) \<and>
     buf_ok (rq_frag0 rq) \<and> b_cap (rq_frag0 rq) = 10108 \<and> (0 \<in> S \<longrightarrow> b_content (rq_frag0 rq) = take m c)"

definition rx_slot_ok :: "rx_entry \<Rightarrow> bool" where
  "rx_slot_ok rq \<longleftrightarrow> length (rq_frags rq) = 6 \<and> buf_ok (rq_frag0 rq) \<and> b_cap (rq_frag0 rq) = 10108"

definition rx_piece :: "sw_env \<Rightarrow> u64 \<Rightarrow> bytes \<Rightarrow> nat \<Rightarrow> nat \<Rightarrow> rx_entry \<Rightarrow> (rx_entry \<times> sw_event list) res" where
  "rx_piece w now c m k =
     (if k = 0 then rx_head w now (take m c) (pid_of c)
      else rx_fragment w now (fbuf w (dgram c m k)) (pid_of c) (of_nat k) (of_nat (frag_count c m)))"

lemma recv:
  "arriving w c m \<Longrightarrow> k < frag_count c m \<Longrightarrow>
   onRemotePacket w now (dgram c m k) sw =
    res_bind (let (i, sw') = findRXQueueEntry (pid_of c) sw in rx_at i (rx_piece w now c m k) sw')
      (\<lambda>(sw, ev). Inr (sw, PathReceived # ev))"
  using recv_frag [of w c m k now sw] recv_head [of w c m now sw] by (cases "k = 0") (simp_all add: rx_piece_def arriving_def)

text \<open>The population count of the bits of the fragments received.\<close>

lemma countBits32_small:
  assumes "\<And>k. bit (h :: u32) k \<Longrightarrow> k < 7"
  shows "countBits32 h = of_nat (card {k. bit h k})"
proof -
  have "h AND mask 7 = h" by (rule bit_word_eqI) (auto simp: bit_simps dest: assms)
  then have "unat h = unat h mod 2 ^ 7" using unat_and_mask [of h 7] by simp
  moreover have "unat h mod 2 ^ 7 < 2 ^ 7" by simp
  ultimately have h: "unat h \<in> set [0..<128]" by simp
  have all: "\<forall>n \<in> set [0..<128]. countBits32 (of_nat n) = of_nat (length (filter (bit (of_nat n :: u32)) [0..<7]))"
    by code_simp
  from bspec [OF all h] have "countBits32 h = of_nat (length (filter (bit h) [0..<7]))" by simp
  moreover have "length (filter (bit h) [0..<7]) = card {k. bit h k}"
  proof -
    have "{k. bit h k} = set (filter (bit h) [0..<7])" using assms by auto
    then show ?thesis by (simp only: distinct_card distinct_filter distinct_upt)
  qed
  ultimately show ?thesis by simp
qed

lemma rx_count:
  assumes "\<And>k. bit (h :: u32) k \<longleftrightarrow> k \<in> S" "S \<subseteq> {0..<t}" "t \<le> 7"
  shows "countBits32 h = of_nat t \<longleftrightarrow> S = {0..<t}"
proof -
  have "bit h k \<Longrightarrow> k < 7" for k using assms by fastforce
  then have "countBits32 h = of_nat (card S)" using countBits32_small [of h] assms(1) by simp
  moreover have "card S \<le> t" using card_mono [OF _ assms(2)] by simp
  moreover from this have "unat (of_nat (card S) :: u32) = card S" "unat (of_nat t :: u32) = t"
    using assms(3) by (simp_all add: word_nat)
  ultimately have "countBits32 h = of_nat t \<longleftrightarrow> card S = t" by (simp add: word_unat_eq_iff)
  also have "\<dots> \<longleftrightarrow> S = {0..<t}" using card_subset_eq [OF _ assms(2)] by auto
  finally show ?thesis .
qed

lemma have_bit:
  assumes "\<And>k. bit (h :: u32) k \<longleftrightarrow> k \<in> S" "n < 32"
  shows "h AND push_bit n 1 = 0 \<longleftrightarrow> n \<notin> S" "\<And>k. bit (h OR push_bit n 1) k \<longleftrightarrow> k \<in> insert n S"
  using assms and_exp_eq_0_iff_not_bit [of h n] by (auto simp: push_bit_of_1 bit_simps)

lemma rx_append_ok:
  assumes "list_all2 (\<lambda>f p. frag_piece f = Inr p \<and> frag_payloadLength f = of_nat (length p)) fs ps"
    and "buf_ok b" "unat (b_len b) + length (concat ps) \<le> b_cap b"
  shows "\<exists>b'. rx_append fs b = Inr (True, b') \<and> buf_ok b' \<and> b_cap b' = b_cap b \<and> b_content b' = b_content b @ concat ps"
  using assms
proof (induction fs ps arbitrary: b rule: list_all2_induct)
  case (Cons f fs p ps)
  have "length p < 2 ^ 31" using Cons.prems by (simp add: buf_ok_def)
  from appendsD [OF appends_bytes [OF this refl] Cons.prems(1)] Cons.prems obtain b1 where
    b1: "buf_append_bytes p (of_nat (length p)) b = Inr b1" "buf_ok b1" "b_cap b1 = b_cap b" "b_content b1 = b_content b @ p"
    by auto
  have "unat (b_len b1) = unat (b_len b) + length p"
    using length_b_content [OF b1(2)] length_b_content [OF Cons.prems(1)] b1(4) by simp
  with Cons.IH [OF b1(2)] Cons.prems b1 Cons.hyps show ?case by simp
qed simp

lemma rx_assemble_ok:
  assumes a: "arriving w c m" and inv: "rx_inv w c m {0..<frag_count c m} rq"
  shows "\<exists>b rq'. rx_assemble w (of_nat (frag_count c m)) rq = Inr (rq', [TryDecode b]) \<and>
    b_content b = c \<and> buf_ok b \<and> b_cap b = 10108"
proof -
  let ?t = "frag_count c m"
  have A: "28 \<le> m" "m < length c" "length c \<le> 10108" "?t \<le> 7" using a by (simp_all add: arriving_defs)
  have t: "unat (of_nat ?t :: u32) = ?t" using A by (simp add: word_nat)
  have lp: "length (frag_parts c m) = ?t - 1" by (simp add: frag_count_def)
  have F: "\<forall>k \<in> {0..<?t} - {0}. rq_frags rq ! (k - 1) = fbuf w (dgram c m k)" using inv by (simp add: rx_inv_def)
  have "rq_frags rq ! i = fbuf w (dgram c m (Suc i))" if "i < ?t - 1" for i
    using bspec [OF F, of "Suc i"] that by simp
  then have fr: "take (?t - 1) (rq_frags rq) = map (\<lambda>k. fbuf w (dgram c m k)) [1..<?t]"
    using inv A by (intro nth_equalityI) (simp_all add: rx_inv_def)
  have "list_all2 (\<lambda>f p. frag_piece f = Inr p \<and> frag_payloadLength f = of_nat (length p))
      (map (\<lambda>k. fbuf w (dgram c m k)) [1..<?t]) (frag_parts c m)"
    using frag_fields(5,6) [of w c m] a lp by (auto simp: list_all2_conv_all_nth arriving_def)
  moreover have "buf_ok (rq_frag0 rq)" "b_cap (rq_frag0 rq) = 10108" "b_content (rq_frag0 rq) = take m c"
    using inv by (simp_all add: rx_inv_def frag_count_def)
  moreover have "concat (frag_parts c m) = drop m c" using A by (simp add: frag_parts_def concat_chunks)
  moreover have "unat (b_len (rq_frag0 rq)) = m" using calculation(2,4) length_b_content [of "rq_frag0 rq"] A by simp
  ultimately obtain b where "rx_append (map (\<lambda>k. fbuf w (dgram c m k)) [1..<?t]) (rq_frag0 rq) = Inr (True, b)"
    "buf_ok b" "b_cap b = 10108" "b_content b = c"
    using rx_append_ok [of "map (\<lambda>k. fbuf w (dgram c m k)) [1..<?t]" "frag_parts c m" "rq_frag0 rq"] A by auto
  then show ?thesis using fr t inv A by (cases "w_tryDecode w b") (simp add: rx_assemble_def Let_def rx_inv_def)
qed

lemma rx_piece_new:
  assumes a: "arriving w c m" and k: "k < frag_count c m" and rq: "rx_slot_ok rq" "rq_packetId rq \<noteq> pid_of c" "now \<noteq> 0"
  shows "\<exists>rq'. rx_piece w now c m k rq = Inr (rq', []) \<and> rx_inv w c m {k} rq'"
proof (cases "k = 0")
  case True
  have A: "m < length c" "length c \<le> 10108" using a by (simp_all add: arriving_defs)
  then have "buf_copyFrom (rq_frag0 rq) (take m c) (of_nat (length (take m c))) =
      Inr ((rq_frag0 rq)\<lparr>b_data := take m c @ drop m (b_data (rq_frag0 rq)), b_len := of_nat m\<rparr>)"
    using copyFrom_ok [of "take m c" "rq_frag0 rq"] rq(1) by (simp add: rx_slot_ok_def min_absorb2)
  with True rq A show ?thesis
    by (simp add: rx_piece_def rx_head_def Let_def rx_inv_def rx_slot_ok_def buf_ok_def b_cap_def b_content_def
        word_nat min_absorb2 bit_1_iff)
next
  case False
  have A: "frag_count c m \<le> 7" using a by (simp add: arriving_defs)
  have n: "unat (of_nat k :: u32) = k" "unat (of_nat k - 1 :: u32) = k - 1"
    using k A False by (simp_all add: word_nat unat_sub_nowrap word_le_nat_alt)
  from False k A n rq show ?thesis
    by (auto simp: rx_piece_def rx_fragment_def Let_def rx_inv_def rx_slot_ok_def bit_simps)
qed

lemma rx_piece_again:
  assumes a: "arriving w c m" and inv: "rx_inv w c m S rq" and k: "k < frag_count c m" "k \<in> S"
  shows "rx_piece w now c m k rq = Inr (rq, [])"
proof -
  have A: "frag_count c m \<le> 7" using a by (simp add: arriving_defs)
  have b: "\<And>k. bit (rq_haveFragments rq) k \<longleftrightarrow> k \<in> S" "rq_packetId rq = pid_of c" using inv by (simp_all add: rx_inv_def)
  have "\<not> rq_haveFragments rq AND push_bit k 1 = 0" using have_bit(1) [OF b(1), of k] k A by simp
  moreover have "unat (of_nat k :: u32) = k" using k A by (simp add: word_nat)
  ultimately show ?thesis
    using b(2) by (cases "k = 0") (simp_all add: rx_piece_def rx_head_def rx_fragment_def Let_def)
qed

lemma rx_piece_next:
  assumes a: "arriving w c m" and inv: "rx_inv w c m S rq" and S: "S \<subseteq> {0..<frag_count c m}" "S \<noteq> {}"
    and k: "k < frag_count c m" "k \<notin> S"
  shows "if insert k S = {0..<frag_count c m}
     then \<exists>b rq'. rx_piece w now c m k rq = Inr (rq', [TryDecode b]) \<and> b_content b = c \<and> buf_ok b \<and> b_cap b = 10108
     else \<exists>rq'. rx_piece w now c m k rq = Inr (rq', []) \<and> rx_inv w c m (insert k S) rq'"
proof -
  let ?t = "frag_count c m"
  have A: "m < length c" "length c \<le> 10108" "?t \<le> 7" using a by (simp_all add: arriving_defs)
  have b: "\<And>k. bit (rq_haveFragments rq) k \<longleftrightarrow> k \<in> S" and I: "rq_packetId rq = pid_of c" "length (rq_frags rq) = 6"
    "buf_ok (rq_frag0 rq)" "b_cap (rq_frag0 rq) = 10108"
    "\<forall>k \<in> S - {0}. rq_frags rq ! (k - 1) = fbuf w (dgram c m k)"
    using inv by (simp_all add: rx_inv_def)
  define h where "h = rq_haveFragments rq OR push_bit k 1"
  have h: "rq_haveFragments rq AND push_bit k 1 = 0" "\<And>j. bit h j \<longleftrightarrow> j \<in> insert k S"
    using have_bit [OF b, of k] k A by (simp_all add: h_def)
  have full: "countBits32 h = of_nat ?t \<longleftrightarrow> insert k S = {0..<?t}"
    using rx_count [OF h(2) _ A(3)] S(1) k(1) by simp
  have n: "unat (of_nat k :: u32) = k" "unat (of_nat ?t :: u32) = ?t" using k A by (simp_all add: word_nat)
  show ?thesis
  proof (cases "k = 0")
    case True
    define q where "q = rq\<lparr>rq_haveFragments := h, rq_frag0 := (rq_frag0 rq)\<lparr>b_data := take m c @ drop m (b_data (rq_frag0 rq)), b_len := of_nat m\<rparr>\<rparr>"
    have cp: "buf_copyFrom (rq_frag0 rq) (take m c) (of_nat (length (take m c))) = Inr (rq_frag0 q)"
      using copyFrom_ok [of "take m c" "rq_frag0 rq"] A I by (simp add: min_absorb2 q_def)
    have h0: "rq_haveFragments rq OR 1 = h" using True by (simp add: h_def)
    have nS: "\<not> S \<subseteq> {0}" using S(2) k(2) True by auto
    then have tt: "rq_totalFragments rq = of_nat ?t" using inv by (simp add: rx_inv_def)
    have t1: "(of_nat ?t :: u32) > 1" using nS S(1) n(2) by (auto simp: word_less_nat_alt)
    have "rx_inv w c m (insert 0 S) q"
      using inv h(2) True A nS by (auto simp: rx_inv_def q_def buf_ok_def b_cap_def b_content_def word_nat min_absorb2)
    moreover have "rx_piece w now c m k rq = (if insert k S = {0..<?t} then rx_assemble w (of_nat ?t) q else Inr (q, []))"
      using True I(1) h(1) full cp tt t1 h0
      by (simp add: rx_piece_def rx_head_def Let_def q_def)
    ultimately show ?thesis
      using rx_assemble_ok [OF a, of q] True by (cases "insert k S = {0..<?t}") simp_all
  next
    case False
    define q where "q = rq\<lparr>rq_frags := (rq_frags rq)[k - 1 := fbuf w (dgram c m k)], rq_totalFragments := of_nat ?t, rq_haveFragments := h\<rparr>"
    have hk: "rq_haveFragments rq OR 2 ^ k = h" by (simp add: h_def)
    have n1: "unat (of_nat k - 1 :: u32) = k - 1" using n(1) False by (subst unat_sub_nowrap) (simp_all add: word_le_nat_alt)
    have "rx_inv w c m (insert k S) q"
      unfolding rx_inv_def
    proof (intro conjI ballI)
      fix j assume j: "j \<in> insert k S - {0}"
      show "rq_frags q ! (j - 1) = fbuf w (dgram c m j)"
        using j I(2,5) k A False by (cases "j = k") (auto simp: q_def nth_list_update)
    qed (use inv h(2) False in \<open>auto simp: rx_inv_def q_def\<close>)
    moreover have "rx_piece w now c m k rq = (if insert k S = {0..<?t} then rx_assemble w (of_nat ?t) q else Inr (q, []))"
      using False I(1,2) h(1) full n n1 k A hk
      by (simp add: rx_piece_def rx_fragment_def Let_def q_def)
    ultimately show ?thesis using rx_assemble_ok [OF a, of q] by (cases "insert k S = {0..<?t}") simp_all
  qed
qed

section \<open>The queue\<close>

definition sw_ok :: "switch \<Rightarrow> bool" where
  "sw_ok sw \<longleftrightarrow> length (sw_rxQueue sw) = 64 \<and> (\<forall>rq \<in> set (sw_rxQueue sw). rx_slot_ok rq)"

definition rx_fresh :: "u64 \<Rightarrow> switch \<Rightarrow> bool" where
  "rx_fresh pid sw \<longleftrightarrow> (\<forall>rq \<in> set (sw_rxQueue sw). rq_packetId rq \<noteq> pid)"

definition sw_inv :: "sw_env \<Rightarrow> bytes \<Rightarrow> nat \<Rightarrow> nat set \<Rightarrow> nat \<Rightarrow> switch \<Rightarrow> bool" where
  "sw_inv w c m S i sw \<longleftrightarrow> length (sw_rxQueue sw) = 64 \<and> i < 64 \<and> rx_inv w c m S (sw_rxQueue sw ! i) \<and>
     (\<forall>j < 64. j \<noteq> i \<longrightarrow> rq_packetId (sw_rxQueue sw ! j) \<noteq> pid_of c)"

lemma slot_nat: "k \<le> 64 \<Longrightarrow> unat ((cur - of_nat k :: u32) mod 64) = (unat cur + 64 - k) mod 64"
proof -
  assume k: "k \<le> 64"
  have u: "unat (of_nat k :: u32) = k" using k by (simp add: word_nat)
  have "unat (cur - of_nat k) = (unat cur + (2 ^ 32 - k)) mod 2 ^ 32"
    using k unat_bounds(3) [of cur] by (simp add: unat_sub_if_size word_size u mod_if)
  also have "\<dots> mod 64 = (unat cur + (2 ^ 32 - k)) mod 64" by (intro mod_mod_cancel) simp
  also have "unat cur + (2 ^ 32 - k) = (unat cur + 64 - k) + 64 * (2 ^ 26 - 1)" using k by simp
  also have "\<dots> mod 64 = (unat cur + 64 - k) mod 64" by (rule mod_mult_self2)
  finally show ?thesis by (simp add: unat_mod_distrib)
qed

lemma slot_less: "unat ((x :: u32) mod 64) < 64"
  by (simp add: unat_mod_distrib)

lemma slot_reached: "i < 64 \<Longrightarrow> \<exists>k \<in> set [1..<65]. unat ((cur - of_nat k :: u32) mod 64) = i"
proof -
  assume i: "i < 64"
  define n where "n = unat cur + 64"
  define r where "r = (n - i) mod 64"
  define q where "q = (n - i) div 64"
  have r: "r < 64" by (simp add: r_def)
  have "n - i = 64 * q + r" by (simp add: q_def r_def)
  then have n: "n = 64 * q + r + i" using i by (simp add: n_def)
  have "(n - (if r = 0 then 64 else r)) mod 64 = i"
  proof (cases "r = 0")
    case True
    then have "n - 64 = 64 * (q - 1) + i" using n i n_def by (cases q) simp_all
    then have "(n - 64) mod 64 = (64 * (q - 1) + i) mod 64" by (simp only:)
    also have "\<dots> = i" using i by (simp only: mod_mult_self4 mod_less)
    finally show ?thesis using True by simp
  next
    case False
    then have "n - r = 64 * q + i" using n by simp
    then have "(n - r) mod 64 = (64 * q + i) mod 64" by (simp only:)
    also have "\<dots> = i" using i by (simp only: mod_mult_self4 mod_less)
    finally show ?thesis using False by simp
  qed
  moreover have "(if r = 0 then 64 else r) \<in> set [1..<65]" "(if r = 0 then 64 else r) \<le> 64" using r by auto
  ultimately show ?thesis unfolding n_def by (intro bexI [of _ "if r = 0 then 64 else r"]) (simp_all only: slot_nat)
qed

lemma find_inv:
  assumes "sw_inv w c m S i sw"
  shows "findRXQueueEntry (pid_of c) sw = (i, sw)"
proof -
  let ?slot = "\<lambda>k. unat ((sw_rxQueuePtr sw - of_nat k) mod 64)"
  let ?P = "\<lambda>k. rq_packetId (sw_rxQueue sw ! ?slot k) = pid_of c \<and> rq_timestamp (sw_rxQueue sw ! ?slot k) \<noteq> 0"
  have P: "?P k \<longleftrightarrow> ?slot k = i" for k
    using assms slot_less [of "sw_rxQueuePtr sw - of_nat k"] by (auto simp: sw_inv_def rx_inv_def)
  obtain j where "j \<in> set [1..<65]" "?slot j = i"
    using slot_reached [of i "sw_rxQueuePtr sw"] assms unfolding sw_inv_def by blast
  then have "List.find ?P [1..<65] \<noteq> None" using P [of j] by (auto simp: find_None_iff)
  then obtain k where k: "List.find ?P [1..<65] = Some k" by blast
  then have "?P k" by (auto simp: find_Some_iff)
  with P [of k] k show ?thesis by (simp add: findRXQueueEntry_def Let_def)
qed

lemma find_fresh:
  assumes "rx_fresh (pid_of c) sw" "length (sw_rxQueue sw) = 64"
  shows "findRXQueueEntry (pid_of c) sw = (unat (sw_rxQueuePtr sw mod 64), sw\<lparr>sw_rxQueuePtr := sw_rxQueuePtr sw + 1\<rparr>)"
proof -
  have "rq_packetId (sw_rxQueue sw ! unat (x mod 64)) \<noteq> pid_of c" for x :: u32
    using assms slot_less [of x] by (simp add: rx_fresh_def nth_mem)
  then have "List.find (\<lambda>k. let rq = sw_rxQueue sw ! unat ((sw_rxQueuePtr sw - of_nat k) mod 64) in
      rq_packetId rq = pid_of c \<and> rq_timestamp rq \<noteq> 0) [1..<65] = None"
    by (simp add: find_None_iff Let_def)
  then show ?thesis by (simp add: findRXQueueEntry_def Let_def)
qed

lemma recv_inv:
  assumes a: "arriving w c m" and inv: "sw_inv w c m S i sw" and S: "S \<subseteq> {0..<frag_count c m}" "S \<noteq> {}"
    and k: "k < frag_count c m"
  shows "if insert k S = {0..<frag_count c m} \<and> k \<notin> S
     then \<exists>b sw'. onRemotePacket w now (dgram c m k) sw = Inr (sw', [PathReceived, TryDecode b]) \<and>
       b_content b = c \<and> buf_ok b \<and> b_cap b = 10108
     else \<exists>sw'. onRemotePacket w now (dgram c m k) sw = Inr (sw', [PathReceived]) \<and> sw_inv w c m (insert k S) i sw'"
proof -
  have I: "length (sw_rxQueue sw) = 64" "i < 64" "rx_inv w c m S (sw_rxQueue sw ! i)" using inv by (simp_all add: sw_inv_def)
  have r: "onRemotePacket w now (dgram c m k) sw =
      res_bind (rx_at i (rx_piece w now c m k) sw) (\<lambda>(sw, ev). Inr (sw, PathReceived # ev))"
    by (simp add: recv [OF a k] find_inv [OF inv])
  have upd: "sw_inv w c m S' i (sw\<lparr>sw_rxQueue := (sw_rxQueue sw)[i := rq]\<rparr>)" if "rx_inv w c m S' rq" for S' rq
    using inv that by (auto simp: sw_inv_def)
  show ?thesis
  proof (cases "k \<in> S")
    case True
    then have "sw\<lparr>sw_rxQueue := (sw_rxQueue sw)[i := sw_rxQueue sw ! i]\<rparr> = sw" "insert k S = S" by auto
    with True rx_piece_again [OF a I(3) k True] I inv r show ?thesis by (simp add: rx_at_def)
  next
    case False
    note next_piece = rx_piece_next [OF a I(3) S k False, of now]
    have at: "rx_at i (rx_piece w now c m k) sw = Inr (sw\<lparr>sw_rxQueue := (sw_rxQueue sw)[i := rq]\<rparr>, ev)"
      if "rx_piece w now c m k (sw_rxQueue sw ! i) = Inr (rq, ev)" for rq ev
      using that I by (simp add: rx_at_def)
    show ?thesis
    proof (cases "insert k S = {0..<frag_count c m}")
      case True
      with next_piece obtain b rq' where "rx_piece w now c m k (sw_rxQueue sw ! i) = Inr (rq', [TryDecode b])"
        "b_content b = c" "buf_ok b" "b_cap b = 10108"
        by auto
      with at [of rq' "[TryDecode b]"] r True False show ?thesis by simp
    next
      case nf: False
      with next_piece obtain rq' where "rx_piece w now c m k (sw_rxQueue sw ! i) = Inr (rq', [])" "rx_inv w c m (insert k S) rq'"
        by auto
      with at [of rq' "[]"] upd [of "insert k S" rq'] r nf show ?thesis by simp
    qed
  qed
qed

lemma recv_first:
  assumes a: "arriving w c m" and sw: "sw_ok sw" "rx_fresh (pid_of c) sw" and k: "k < frag_count c m" and now: "now \<noteq> 0"
  shows "\<exists>i sw'. onRemotePacket w now (dgram c m k) sw = Inr (sw', [PathReceived]) \<and> sw_inv w c m {k} i sw'"
proof -
  let ?i = "unat (sw_rxQueuePtr sw mod 64)" and ?sw = "sw\<lparr>sw_rxQueuePtr := sw_rxQueuePtr sw + 1\<rparr>"
  have I: "length (sw_rxQueue sw) = 64" "?i < 64" using sw(1) slot_less by (simp_all add: sw_ok_def)
  have "rx_slot_ok (sw_rxQueue sw ! ?i)" "rq_packetId (sw_rxQueue sw ! ?i) \<noteq> pid_of c"
    using sw I by (simp_all add: sw_ok_def rx_fresh_def nth_mem)
  from rx_piece_new [OF a k this now] obtain rq' where
    rq': "rx_piece w now c m k (sw_rxQueue sw ! ?i) = Inr (rq', [])" "rx_inv w c m {k} rq'"
    by blast
  have "onRemotePacket w now (dgram c m k) sw = Inr (?sw\<lparr>sw_rxQueue := (sw_rxQueue sw)[?i := rq']\<rparr>, [PathReceived])"
    using I rq'(1) by (simp add: recv [OF a k] find_fresh [OF sw(2) I(1)] rx_at_def)
  moreover have "sw_inv w c m {k} ?i (?sw\<lparr>sw_rxQueue := (sw_rxQueue sw)[?i := rq']\<rparr>)"
    using I rq'(2) sw(2) by (auto simp: sw_inv_def rx_fresh_def nth_mem)
  ultimately show ?thesis by blast
qed

section \<open>Delivery\<close>

text \<open>Datagrams arriving one after the other, each with the time of its arrival.\<close>

fun sw_run :: "sw_env \<Rightarrow> (u64 \<times> bytes) list \<Rightarrow> switch \<Rightarrow> sw_result" where
  "sw_run w [] sw = Inr (sw, [])"
| "sw_run w ((now, d) # ds) sw =
     res_bind (onRemotePacket w now d sw) (\<lambda>(sw, ev).
     res_bind (sw_run w ds sw) (\<lambda>(sw, ev'). Inr (sw, ev @ ev')))"

lemma sw_run_append:
  "sw_run w (xs @ ys) sw = res_bind (sw_run w xs sw) (\<lambda>(sw, ev).
     res_bind (sw_run w ys sw) (\<lambda>(sw, ev'). Inr (sw, ev @ ev')))"
proof (induction xs arbitrary: sw)
  case Nil
  show ?case by (cases "sw_run w ys sw") auto
next
  case (Cons x xs)
  then show ?case by (cases x) (auto simp: res_bind_assoc split: res_bind_splits)
qed

lemma sw_run_inv:
  assumes a: "arriving w c m" and inv: "sw_inv w c m S i sw" and S: "S \<subseteq> {0..<frag_count c m}" "S \<noteq> {}"
    and ks: "\<forall>x \<in> set arr. snd x < frag_count c m" "S \<union> snd ` set arr \<noteq> {0..<frag_count c m}"
  shows "\<exists>sw'. sw_run w (map (\<lambda>(n, k). (n, dgram c m k)) arr) sw = Inr (sw', replicate (length arr) PathReceived) \<and>
    sw_inv w c m (S \<union> snd ` set arr) i sw'"
  using inv S ks
proof (induction arr arbitrary: S sw)
  case (Cons x arr)
  obtain n k where x: "x = (n, k)" by fastforce
  have k: "k < frag_count c m" using Cons.prems(4) x by simp
  have sub: "S \<union> snd ` set (x # arr) \<subseteq> {0..<frag_count c m}" using Cons.prems(2,4) by auto
  have nf: "insert k S \<noteq> {0..<frag_count c m}" using Cons.prems(5) sub x by auto
  with recv_inv [OF a Cons.prems(1-3) k, of n] obtain sw1 where
    s1: "onRemotePacket w n (dgram c m k) sw = Inr (sw1, [PathReceived])" "sw_inv w c m (insert k S) i sw1"
    by auto
  have "\<exists>sw'. sw_run w (map (\<lambda>(n, k). (n, dgram c m k)) arr) sw1 = Inr (sw', replicate (length arr) PathReceived) \<and>
      sw_inv w c m (insert k S \<union> snd ` set arr) i sw'"
    using Cons.prems x k by (intro Cons.IH [OF s1(2)]) auto
  with s1 x show ?case by auto
qed simp

lemma frag_count_ge2: "arriving w c m \<Longrightarrow> 2 \<le> frag_count c m"
  using length_chunks [of "m - 16" "drop m c"] chunks_Cons [of "drop m c" "m - 16"]
  by (auto simp: frag_count_def frag_parts_def arriving_defs)

text \<open>The order of arrival: every datagram at least once, and the last one not before.\<close>

definition arrival :: "(u64 \<times> nat) list \<Rightarrow> nat \<Rightarrow> bool" where
  "arrival arr t \<longleftrightarrow> arr \<noteq> [] \<and> snd ` set arr = {0..<t} \<and> snd (last arr) \<notin> snd ` set (butlast arr) \<and> (\<forall>x \<in> set arr. fst x \<noteq> 0)"

lemma sw_run_delivers:
  assumes a: "arriving w c m" and sw: "sw_ok sw" "rx_fresh (pid_of c) sw" and arr: "arrival arr (frag_count c m)"
  shows "\<exists>sw' b. sw_run w (map (\<lambda>(n, k). (n, dgram c m k)) arr) sw =
      Inr (sw', replicate (length arr) PathReceived @ [TryDecode b]) \<and> b_content b = c \<and> buf_ok b \<and> b_cap b = 10108"
proof -
  let ?t = "frag_count c m" and ?f = "\<lambda>(n, k). (n, dgram c m k)"
  obtain ar n0 k0 where ar: "arr = ar @ [(n0, k0)]"
    using arr by (metis arrival_def append_butlast_last_id surj_pair)
  have all: "insert k0 (snd ` set ar) = {0..<?t}" "k0 \<notin> snd ` set ar" using arr by (auto simp: arrival_def ar)
  have "ar \<noteq> []"
  proof
    assume "ar = []"
    with all have "{k0} = {0..<?t}" by simp
    then have "card {0..<?t} = 1" by (metis card_1_singleton_iff One_nat_def)
    with frag_count_ge2 [OF a] show False by simp
  qed
  then obtain n1 k1 ar' where ar': "ar = (n1, k1) # ar'" by (metis neq_Nil_conv surj_pair)
  have lt: "k1 < ?t" "k0 < ?t" "\<forall>x \<in> set ar'. snd x < ?t" using all(1) ar' by force+
  have "n1 \<noteq> 0" using arr by (simp add: arrival_def ar ar')
  from recv_first [OF a sw lt(1) this] obtain i sw1 where
    s1: "onRemotePacket w n1 (dgram c m k1) sw = Inr (sw1, [PathReceived])" "sw_inv w c m {k1} i sw1"
    by blast
  have S: "{k1} \<union> snd ` set ar' = snd ` set ar" by (auto simp: ar')
  have "\<exists>sw'. sw_run w (map ?f ar') sw1 = Inr (sw', replicate (length ar') PathReceived) \<and> sw_inv w c m ({k1} \<union> snd ` set ar') i sw'"
    using lt all S by (intro sw_run_inv [OF a s1(2)]) auto
  then obtain sw2 where s2: "sw_run w (map ?f ar') sw1 = Inr (sw2, replicate (length ar') PathReceived)"
    "sw_inv w c m (snd ` set ar) i sw2"
    unfolding S by blast
  have "snd ` set ar \<subseteq> {0..<?t}" "snd ` set ar \<noteq> {}" using all(1) ar' by auto
  from recv_inv [OF a s2(2) this lt(2), of n0] all obtain b sw3 where
    s3: "onRemotePacket w n0 (dgram c m k0) sw2 = Inr (sw3, [PathReceived, TryDecode b])" "b_content b = c" "buf_ok b" "b_cap b = 10108"
    by auto
  have "sw_run w (map ?f ar) sw = Inr (sw2, replicate (length ar) PathReceived)"
    using s1(1) s2(1) by (simp add: ar')
  moreover have "sw_run w [(n0, dgram c m k0)] sw2 = Inr (sw3, [PathReceived, TryDecode b])" using s3(1) by simp
  ultimately have "sw_run w (map ?f arr) sw = Inr (sw3, replicate (length arr) PathReceived @ [TryDecode b])"
    by (simp add: ar sw_run_append replicate_append_same [symmetric])
  with s3 show ?thesis by blast
qed

text \<open>Two packets with the same bytes, whatever their arrays hold behind them.\<close>

lemma same_content:
  assumes "pkt_ok b" "pkt_ok b'" "b_content b = b_content b'"
  shows "b_len b = b_len b'" "take 18 (b_data b) = take 18 (b_data b')" "pkt_flags b = pkt_flags b'" "pkt_body b = pkt_body b'"
    and "take 8 (drop 19 (b_data b)) = take 8 (drop 19 (b_data b'))"
proof -
  have l: "unat (b_len b) = unat (b_len b')"
    using arg_cong [OF assms(3), of length] length_b_content pkt_okD(1) assms(1,2) by metis
  then show "b_len b = b_len b'" by (simp add: word_unat_eq_iff)
  have t: "take n (b_data b) = take n (b_data b')" if "n \<le> 27" for n
    using arg_cong [OF assms(3), of "take n"] that assms(1,2) l by (simp add: b_content_def pkt_ok_def min_absorb1)
  then show "take 18 (b_data b) = take 18 (b_data b')" by simp
  show "pkt_flags b = pkt_flags b'" using arg_cong [OF t [of 19], of "\<lambda>x. x ! 18"] by simp
  show "pkt_body b = pkt_body b'" using assms(3) by (metis pkt_body_content)
  show "take 8 (drop 19 (b_data b)) = take 8 (drop 19 (b_data b'))"
    using arg_cong [OF t [of 27], of "drop 19"] by (simp add: drop_take)
qed

lemma packet_for_me:
  assumes b: "pkt_ok b" and c: "take 18 c = take 18 (b_data b)" "27 \<le> length c"
  shows "addr_setTo (drop 8 c) 5 = pkt_destination b" "addr_setTo (drop 13 c) 5 = pkt_source b"
    and "c ! 13 = b_data b ! 13" "pkt_packetId b = Inr (pid_of c)"
proof -
  note D = pkt_okD [OF b]
  have t: "take 5 (drop n c) = take 5 (drop n (b_data b))" if "n \<le> 13" for n
  proof -
    have "take 5 (drop n (take 18 x)) = take 5 (drop n x)" for x :: bytes using that by (simp add: drop_take)
    with arg_cong [OF c(1), of "\<lambda>x. take 5 (drop n x)"] show ?thesis by simp
  qed
  have l: "8 + 5 \<le> unat (b_len b)" "13 + 5 \<le> unat (b_len b)" using b by (simp_all add: pkt_ok_def)
  show "addr_setTo (drop 8 c) 5 = pkt_destination b" "addr_setTo (drop 13 c) 5 = pkt_source b"
    using D l c(2) t [of 8] t [of 13] addr_setTo_prefix [of "drop 8 c" "take 5 (drop 8 (b_data b))"]
      addr_setTo_prefix [of "drop 13 c" "take 5 (drop 13 (b_data b))"]
    by (simp_all add: pkt_destination_def pkt_source_def buf_field_ok)
  show "c ! 13 = b_data b ! 13" using arg_cong [OF c(1), of "\<lambda>x. x ! 13"] by simp
  have "take 8 c = take 8 (b_data b)" using arg_cong [OF c(1), of "take 8"] by simp
  then show "pkt_packetId b = Inr (pid_of c)"
    using D(2) l by (simp add: pkt_packetId_def buf_at_def mem_get_def pid_of_def)
qed

lemma frag_count_max:
  assumes "17 \<le> m" "length c \<le> m + 6 * (m - 16)"
  shows "frag_count c m \<le> 7"
proof -
  have "length c - m + (m - 16) - 1 < 7 * (m - 16)" using assms by linarith
  then have "(length c - m + (m - 16) - 1) div (m - 16) < 7" using assms(1) by (simp add: less_mult_imp_div_less)
  then show ?thesis using assms(1) by (simp add: frag_count_def frag_parts_def length_chunks)
qed

text \<open>A packet marked as fragmented and armored: what a relay sees of it, and what the receiver opens.\<close>

lemma sealed_fragmented:
  assumes b: "pkt_ok b" "length key = 32" "locals_ok loc" "fast_ok fc"
    and p: "pkt_setFragmented True b = Inr b1" "pkt_ok b1" "pkt_armor fc loc key enc b1 = Inr p" "pkt_ok p"
  shows "take 18 (b_content p) = take 18 (b_data b)" "b_content p ! 18 AND 0x40 \<noteq> 0"
    and "pkt_ok b' \<Longrightarrow> b_content b' = b_content p \<Longrightarrow> locals_ok loc' \<Longrightarrow> fast_ok fc' \<Longrightarrow>
      \<exists>b3. pkt_dearmor fc' loc' key b' = Inr (True, b3) \<and> take 18 (b_content b3) = take 18 (b_content b) \<and>
        drop 27 (b_content b3) = drop 27 (b_content b)"
proof -
  have B1: "take 18 (b_data b1) = take 18 (b_data b)" "drop 19 (b_data b1) = drop 19 (b_data b)" "b_len b1 = b_len b"
    "pkt_flags b1 AND 0x40 \<noteq> 0"
    using p(1) pkt_okD(2) [OF b(1)] b(1) by (auto simp: pkt_flag_ops and.assoc bit.conj_disj_distrib2)
  obtain b2 where b2: "pkt_setCipher (if enc then 1 else 0) b1 = Inr b2" "pkt_ok b2" "b_len b2 = b_len b1"
    "pkt_suite b2 = (if enc then 1 else 0)" "take 18 (b_data b2) = take 18 (b_data b1)"
    "drop 19 (b_data b2) = drop 19 (b_data b1)" "pkt_flags b2 AND 0x47 = pkt_flags b1 AND 0x47"
    using pkt_setCipher_ok [OF p(2), of enc] by blast
  have pa: "p = armored key enc b2" using pkt_armor_eq [OF p(2) b(2-4) b2(1)] p(3) by simp
  note A = armored_parts [OF b2(2), where key = key and enc = enc, folded pa]
  show "take 18 (b_content p) = take 18 (b_data b)" using take_content [OF p(4)] A(3) b2(5) B1(1) by simp
  have "b_content p ! 18 = pkt_flags p" using p(4) by (simp add: b_content_def pkt_ok_def)
  moreover have "pkt_flags b2 AND 0x40 = pkt_flags b1 AND 0x40"
    using arg_cong [OF b2(7), of "\<lambda>x. x AND 0x40"] by (simp add: and.assoc)
  ultimately show "b_content p ! 18 AND 0x40 \<noteq> 0" using A(4) B1(4) by simp
  assume ok: "pkt_ok b'" and c: "b_content b' = b_content p" and loc: "locals_ok loc'" "fast_ok fc'"
  note E = same_content [OF ok p(4) c]
  note S = sealed_opens [OF b2(2,4) ok E(1,2) [unfolded pa] arg_cong [OF E(3), of "\<lambda>x. x AND 0xf8", unfolded pa] E(4,5) [unfolded pa]]
  note O = opened_parts [OF ok, of key]
  have "take 18 (b_content (opened key b')) = take 18 (b_content b)"
    using take_content [OF O(1)] take_content [OF b(1)] take_19 [OF O(3,1) ok] E(2) A(3) b2(5) B1(1) by simp
  moreover have "drop 27 (b_content (opened key b')) = drop 27 (b_content b)"
    using S(3) pkt_body_drop [OF b2(6,3)] pkt_body_drop [OF B1(2,3)] by (simp add: pkt_body_content)
  ultimately show "\<exists>b3. pkt_dearmor fc' loc' key b' = Inr (True, b3) \<and> take 18 (b_content b3) = take 18 (b_content b) \<and>
      drop 27 (b_content b3) = drop 27 (b_content b)"
    using pkt_dearmor_eq [OF ok b(2) loc] S(1) by simp
qed

lemma trySend_addressed:
  assumes b: "pkt_ok b" "pkt_destination b = Inr (w_self w)" "pkt_source b \<noteq> Inr (w_self w)" "b_data b ! 13 \<noteq> 0xff"
    and rt: "routes (w_self w) = Some rt" "rt_trustedPathId rt = 0" "length (rt_key rt) = 32" "rt_send rt = (\<lambda>_. True)"
    and mtu: "28 \<le> unat (rt_mtu rt)" "rt_mtu rt < b_len b"
    and loc: "length mem = 10108" "locals_ok loc" "fast_ok fc" "length (w_mem w) = 10108"
  shows "\<exists>b1 p. pkt_setFragmented True b = Inr b1 \<and> pkt_ok b1 \<and> pkt_armor fc loc (rt_key rt) enc b1 = Inr p \<and> pkt_ok p \<and>
    trySend mem fc loc routes b enc = Inr (True, p, datagrams (b_content p) (unat (rt_mtu rt))) \<and>
    addressed w (b_content p) (unat (rt_mtu rt)) \<and> length (b_content p) = unat (b_len b) \<and>
    pkt_packetId b = Inr (pid_of (b_content p))"
proof -
  let ?m = "unat (rt_mtu rt)"
  have m: "17 \<le> ?m" "?m \<le> 10108" "?m < unat (b_len b)" using mtu b(1) by (auto simp: pkt_ok_def word_less_nat_alt)
  from trySend_law [of b "w_self w" routes rt mem loc fc enc] b(1,2) rt m(1,2) loc(1-3) mtu(2) obtain b1 p where
    p: "pkt_setFragmented True b = Inr b1" "pkt_ok b1" "pkt_armor fc loc (rt_key rt) enc b1 = Inr p" "pkt_ok p" "b_len p = b_len b"
    "trySend mem fc loc routes b enc = Inr (True, p, datagrams (b_content p) ?m)"
    by auto
  note P = sealed_fragmented [OF b(1) rt(3) loc(2,3) p(1-4)]
  have lc: "length (b_content p) = unat (b_len b)" using length_b_content [OF pkt_okD(1) [OF p(4)]] p(5) by simp
  have "27 \<le> length (b_content p)" using lc m mtu(1) by simp
  note me = packet_for_me [OF b(1) P(1) this]
  have "addressed w (b_content p) ?m"
    using me b P(2) lc m mtu loc(4) by (auto simp: addressed_def pkt_ok_def)
  with p me(4) lc show ?thesis by blast
qed

text \<open>
  C3. A fragmented packet is delivered.  A packet larger than the path's MTU and no larger than seven
  fragments can carry is cut by \<open>_trySend\<close> into datagrams such that, in whatever order they arrive at the
  other node, each any number of times before the set is complete, the receiving queue hands exactly
  one packet to \<open>tryDecode\<close> within that run, with the last datagram; that packet passes \<open>dearmor\<close> with
  the shared key and is the one that was sent, header and payload.  The statement is about one such
  run: no other datagram arrives in between, and at its start the queue may hold other packets but no
  entry, not even a free one, with the identifier of this packet.  It does not say what duplicates do
  after the delivery: the queue forgets a packet it has handed over.
\<close>

theorem packet_delivery:
  assumes b: "pkt_ok b" "pkt_destination b = Inr (w_self w)" "pkt_source b \<noteq> Inr (w_self w)" "b_data b ! 13 \<noteq> 0xff"
    and rt: "routes (w_self w) = Some rt" "rt_trustedPathId rt = 0" "length (rt_key rt) = 32" "rt_send rt = (\<lambda>_. True)"
    and mtu: "28 \<le> unat (rt_mtu rt)" "rt_mtu rt < b_len b" "unat (b_len b) \<le> unat (rt_mtu rt) + 6 * (unat (rt_mtu rt) - 16)"
    and loc: "length mem = 10108" "locals_ok loc" "fast_ok fc" "locals_ok loc'" "fast_ok fc'" "length (w_mem w) = 10108"
    and sw: "sw_ok sw" "pkt_packetId b = Inr pid" "rx_fresh pid sw"
  shows "\<exists>p ds. trySend mem fc loc routes b enc = Inr (True, p, ds) \<and>
    (\<forall>arr. arrival arr (length ds) \<longrightarrow>
      (\<exists>sw' b' b3. sw_run w (map (\<lambda>(n, k). (n, ds ! k)) arr) sw =
           Inr (sw', replicate (length arr) PathReceived @ [TryDecode b']) \<and>
         pkt_dearmor fc' loc' (rt_key rt) b' = Inr (True, b3) \<and>
         take 18 (b_content b3) = take 18 (b_content b) \<and> drop 27 (b_content b3) = drop 27 (b_content b)))"
proof -
  let ?m = "unat (rt_mtu rt)" and ?key = "rt_key rt"
  from trySend_addressed [OF b _ rt(2-4) mtu(1,2) loc(1-3,6), where routes = routes and enc = enc] rt(1) obtain b1 p where
    p: "pkt_setFragmented True b = Inr b1" "pkt_ok b1" "pkt_armor fc loc ?key enc b1 = Inr p" "pkt_ok p"
    and send: "trySend mem fc loc routes b enc = Inr (True, p, datagrams (b_content p) ?m)"
    and me: "addressed w (b_content p) ?m" "length (b_content p) = unat (b_len b)" "pkt_packetId b = Inr (pid_of (b_content p))"
    by blast
  define c where "c = b_content p"
  have arr: "arriving w c ?m" using me mtu frag_count_max [of ?m c] by (simp add: arriving_def c_def)
  have fresh: "rx_fresh (pid_of c) sw" using me(3) sw(2,3) by (simp add: c_def)
  have "\<exists>sw' b' b3. sw_run w (map (\<lambda>(n, k). (n, datagrams c ?m ! k)) ar) sw =
         Inr (sw', replicate (length ar) PathReceived @ [TryDecode b']) \<and>
       pkt_dearmor fc' loc' ?key b' = Inr (True, b3) \<and>
       take 18 (b_content b3) = take 18 (b_content b) \<and> drop 27 (b_content b3) = drop 27 (b_content b)"
    if ar: "arrival ar (length (datagrams c ?m))" for ar
  proof -
    from sw_run_delivers [OF arr sw(1) fresh, of ar] ar obtain sw' b' where
      run: "sw_run w (map (\<lambda>(n, k). (n, datagrams c ?m ! k)) ar) sw = Inr (sw', replicate (length ar) PathReceived @ [TryDecode b'])"
      and b': "b_content b' = c" "buf_ok b'" "b_cap b' = 10108"
      unfolding length_datagrams dgram_def by blast
    have "unat (b_len b') = unat (b_len b)" using length_b_content [OF b'(2)] b'(1) me(2) by (simp add: c_def)
    then have "pkt_ok b'" using b'(2,3) b(1) by (auto simp: pkt_ok_def b_cap_def)
    from sealed_fragmented(3) [OF b(1) rt(3) loc(2,3) p this b'(1) [unfolded c_def] loc(4,5)] run show ?thesis by blast
  qed
  then show ?thesis using send by (auto simp: c_def)
qed

definition sample_long :: buf where
  "sample_long = \<lparr>b_data = replicate 13 7 @ replicate 10095 9, b_len = 4000\<rparr>"

definition sample_route :: route where
  "sample_route = \<lparr>rt_mtu = 1444, rt_trustedPathId = 0, rt_key = replicate 32 5, rt_send = (\<lambda>_. True)\<rparr>"

definition sample_env :: sw_env where
  "sample_env = \<lparr>w_self = Address 0x0707070707, w_amUpstream = False, w_trust = False, w_usePath = (\<lambda>_. True),
     w_known = (\<lambda>_. False), w_upstream = None, w_sendDirect = (\<lambda>_ _ _. False), w_tryDecode = (\<lambda>b. (True, b)),
     w_key = (\<lambda>_. replicate 32 5), w_mem = replicate 10108 0, w_random = replicate 8 0, w_locals = sample_locals,
     w_fast = None\<rparr>"

definition sample_queue :: switch where
  "sample_queue = \<lparr>sw_rxQueue = replicate 64 \<lparr>rq_timestamp = 0, rq_packetId = 0, rq_frag0 = \<lparr>b_data = replicate 10108 0, b_len = 0\<rparr>,
       rq_frags = replicate 6 \<lparr>b_data = replicate 10108 0, b_len = 0\<rparr>, rq_totalFragments = 0, rq_haveFragments = 0, rq_complete = False\<rparr>,
     sw_rxQueuePtr = 0, sw_lastBeaconResponse = 0, sw_lastUniteAttempt = (\<lambda>_. None)\<rparr>"

lemma switch_samples_ok:
  "pkt_ok sample_long" "sw_ok sample_queue" "rx_fresh 0x0707070707070707 sample_queue"
  by (simp_all add: sample_long_def pkt_ok_def sample_queue_def sw_ok_def rx_slot_ok_def rx_fresh_def buf_ok_def b_cap_def)

lemma sample_bytes:
  "addr_setTo (replicate 5 7) 5 = Inr (Address 0x0707070707)" "addr_setTo (replicate 5 9) 5 = Inr (Address 0x0909090909)"
  "be_word (replicate 8 7) = (0x0707070707070707 :: u64)"
  by code_simp+

lemma sample_long_fields:
  "pkt_destination sample_long = Inr (Address 0x0707070707)" "pkt_source sample_long = Inr (Address 0x0909090909)"
  "pkt_packetId sample_long = Inr 0x0707070707070707" "b_data sample_long ! 13 = 9"
  using sample_bytes by (simp_all add: sample_long_def pkt_destination_def pkt_source_def pkt_packetId_def buf_field_ok
      buf_ok_def b_cap_def buf_at_def mem_get_def nth_append)

theorem packet_delivery_witness:
  "\<exists>p ds. trySend (replicate 10108 0) None sample_locals (\<lambda>_. Some sample_route) sample_long True = Inr (True, p, ds) \<and>
    (\<forall>arr. arrival arr (length ds) \<longrightarrow>
      (\<exists>sw' b' b3. sw_run sample_env (map (\<lambda>(n, k). (n, ds ! k)) arr) sample_queue =
           Inr (sw', replicate (length arr) PathReceived @ [TryDecode b']) \<and>
         pkt_dearmor None sample_locals (replicate 32 5) b' = Inr (True, b3) \<and>
         take 18 (b_content b3) = take 18 (b_content sample_long) \<and> drop 27 (b_content b3) = drop 27 (b_content sample_long)))"
proof -
  have "rt_key sample_route = replicate 32 5" by (simp add: sample_route_def)
  moreover have "b_len sample_long = 4000" by (simp add: sample_long_def)
  ultimately show ?thesis
    using packet_delivery [of sample_long sample_env "\<lambda>_. Some sample_route" sample_route "replicate 10108 0" sample_locals None
        sample_locals None sample_queue "0x0707070707070707" True] switch_samples_ok sample_long_fields
    by (simp add: sample_env_def sample_route_def)
qed

text \<open>
  C38. The longest packets never arrive.  A packet of more than 10012 bytes, which the protocol's maximum of
  10108 allows, is cut into eight datagrams at the default MTU of 1444 bytes: \<open>_trySend\<close> reports success,
  and the receiver ignores every one of the seven fragments, since it accepts packets of at most seven
  datagrams, so that the packet is never put together.
\<close>

theorem oversize_packet_dropped:
  assumes b: "pkt_ok b" "pkt_destination b = Inr (w_self w)" "pkt_source b \<noteq> Inr (w_self w)" "b_data b ! 13 \<noteq> 0xff"
    and rt: "routes (w_self w) = Some rt" "rt_trustedPathId rt = 0" "length (rt_key rt) = 32" "rt_send rt = (\<lambda>_. True)"
    and mtu: "rt_mtu rt = 1444" "10012 < unat (b_len b)"
    and loc: "length mem = 10108" "locals_ok loc" "fast_ok fc" "length (w_mem w) = 10108"
  shows "\<exists>p ds. trySend mem fc loc routes b enc = Inr (True, p, ds) \<and> length ds = 8 \<and>
    (\<forall>k now sw. 0 < k \<and> k < 8 \<longrightarrow> onRemotePacket w now (ds ! k) sw = Inr (sw, [PathReceived]))"
proof -
  have m: "28 \<le> unat (rt_mtu rt)" "rt_mtu rt < b_len b" using mtu by (simp_all add: word_less_nat_alt)
  from trySend_addressed [OF b _ rt(2-4) m loc, where routes = routes and enc = enc] rt(1) mtu(1) obtain p where
    send: "trySend mem fc loc routes b enc = Inr (True, p, datagrams (b_content p) 1444)"
    and me: "addressed w (b_content p) 1444" "length (b_content p) = unat (b_len b)"
    by auto
  have "unat (b_len b) \<le> 10108" using b(1) by (simp add: pkt_ok_def)
  then have "(length (b_content p) - 1444 + 1427) div 1428 = 7" using me(2) mtu(2) by (intro div_nat_eqI) simp_all
  then have n: "frag_count (b_content p) 1444 = 8" by (simp add: frag_count_def frag_parts_def length_chunks)
  have "onRemotePacket w now (datagrams (b_content p) 1444 ! k) sw = Inr (sw, [PathReceived])" if "0 < k" "k < 8" for k now sw
    using recv_frag [OF me(1), of k now sw] n that by (simp add: dgram_def)
  with send n length_datagrams [of "b_content p" 1444] show ?thesis by auto
qed

definition sample_oversize :: buf where
  "sample_oversize = sample_long\<lparr>b_len := 10051\<rparr>"

theorem oversize_packet_dropped_witness:
  "\<exists>p ds. trySend (replicate 10108 0) None sample_locals (\<lambda>_. Some sample_route) sample_oversize True = Inr (True, p, ds) \<and> length ds = 8 \<and>
    (\<forall>k now sw. 0 < k \<and> k < 8 \<longrightarrow> onRemotePacket sample_env now (ds ! k) sw = Inr (sw, [PathReceived]))"
proof -
  have "b_len sample_oversize = 10051" "pkt_ok sample_oversize" by (simp_all add: sample_oversize_def sample_long_def pkt_ok_def)
  moreover have "pkt_destination sample_oversize = Inr (Address 0x0707070707)" "pkt_source sample_oversize = Inr (Address 0x0909090909)"
    "b_data sample_oversize ! 13 = 9"
    using sample_bytes by (simp_all add: sample_oversize_def sample_long_def pkt_destination_def pkt_source_def buf_field_ok
        buf_ok_def b_cap_def nth_append)
  ultimately show ?thesis
    using oversize_packet_dropped [of sample_oversize sample_env "\<lambda>_. Some sample_route" sample_route "replicate 10108 0" sample_locals None True]
    by (simp add: sample_env_def sample_route_def)
qed

end
