(* ===== verification/Zt_World.thy ===== *)
theory Zt_World
  imports Zt_Identity Inet_Laws
begin

text \<open>
  \<^verbatim>\<open>node/World.hpp\<close>: a planet or a moon, the signed list of root servers with their endpoints.  The wire
  format is composed from those of the identity and of the Internet address through the locale
  \<open>wire_format\<close>; an update replaces a world only if it is signed with the key the world names.
\<close>

section \<open>The code\<close>

datatype world_type = TYPE_NULL | TYPE_PLANET | TYPE_MOON

fun world_type_code :: "world_type \<Rightarrow> u8" where
  "world_type_code TYPE_NULL = 0"
| "world_type_code TYPE_PLANET = 1"
| "world_type_code TYPE_MOON = 127"

record root =
  ro_identity :: identity
  ro_stableEndpoints :: "inet list"

record world =
  wo_id :: u64
  wo_ts :: u64
  wo_type :: world_type
  wo_updatesMustBeSignedBy :: bytes
  wo_signature :: bytes
  wo_roots :: "root list"

abbreviation ZT_WORLD_MAX_ROOTS :: nat where
  "ZT_WORLD_MAX_ROOTS \<equiv> 4"

abbreviation ZT_WORLD_MAX_STABLE_ENDPOINTS_PER_ROOT :: nat where
  "ZT_WORLD_MAX_STABLE_ENDPOINTS_PER_ROOT \<equiv> 32"

abbreviation ZT_WORLD_MAX_SERIALIZED_LENGTH :: nat where
  "ZT_WORLD_MAX_SERIALIZED_LENGTH \<equiv> 8480"

text \<open>The constructor leaves the key and the signature as they are in memory.\<close>

definition world_new :: "bytes \<Rightarrow> bytes \<Rightarrow> world" where
  "world_new key sig = \<lparr>wo_id = 0, wo_ts = 0, wo_type = TYPE_NULL, wo_updatesMustBeSignedBy = key,
     wo_signature = sig, wo_roots = []\<rparr>"

definition world_valid :: "world \<Rightarrow> bool" where
  "world_valid w \<longleftrightarrow> wo_type w \<noteq> TYPE_NULL"

definition root_eq :: "root \<Rightarrow> root \<Rightarrow> bool" where
  "root_eq r s \<longleftrightarrow> id_eq (ro_identity r) (ro_identity s) \<and> list_all2 inet_eq (ro_stableEndpoints r) (ro_stableEndpoints s)"

definition root_less :: "root \<Rightarrow> root \<Rightarrow> bool" where
  "root_less r s \<longleftrightarrow> id_less (ro_identity r) (ro_identity s)"

definition world_eq :: "world \<Rightarrow> world \<Rightarrow> bool" where
  "world_eq v w \<longleftrightarrow>
     wo_id v = wo_id w \<and> wo_ts v = wo_ts w \<and> memcmp (wo_updatesMustBeSignedBy v) (wo_updatesMustBeSignedBy w) = 0 \<and>
     memcmp (wo_signature v) (wo_signature w) = 0 \<and> list_all2 root_eq (wo_roots v) (wo_roots w) \<and> wo_type v = wo_type w"

definition root_serialize :: "root \<Rightarrow> buf \<Rightarrow> buf res" where
  "root_serialize r =
     ser_seq
      [id_serialize False (ro_identity r),
       buf_append (of_nat (length (ro_stableEndpoints r)) :: u8),
       serialize_all inet_serialize (ro_stableEndpoints r)]"

definition world_serialize :: "bool \<Rightarrow> world \<Rightarrow> buf \<Rightarrow> buf res" where
  "world_serialize forSign w =
     ser_seq
      [ser_when forSign (buf_append (0x7f7f7f7f7f7f7f7f :: u64)),
       buf_append (world_type_code (wo_type w)),
       buf_append (wo_id w),
       buf_append (wo_ts w),
       buf_append_bytes (wo_updatesMustBeSignedBy w) 64,
       ser_when (\<not> forSign) (buf_append_bytes (wo_signature w) 96),
       buf_append (of_nat (length (wo_roots w)) :: u8),
       serialize_all root_serialize (wo_roots w),
       ser_when (wo_type w = TYPE_MOON) (buf_append (0 :: u16)),
       ser_when forSign (buf_append (0xf7f7f7f7f7f7f7f7 :: u64))]"

text \<open>One round of the loop over the roots: the root and the number of bytes it takes.\<close>

definition root_deserialize :: "buf \<Rightarrow> u32 \<Rightarrow> (root \<times> u32) res" where
  "root_deserialize b startAt =
     res_bind (id_deserialize b startAt) (\<lambda>(i, k).
     rd_byte b (startAt + k) (\<lambda>numStableEndpoints p.
     if unat numStableEndpoints > ZT_WORLD_MAX_STABLE_ENDPOINTS_PER_ROOT then Inl SerializedOverflow
     else
       res_bind (deserialize_n inet_deserialize (unat numStableEndpoints) b p) (\<lambda>(eps, p).
       Inr (\<lparr>ro_identity = i, ro_stableEndpoints = eps\<rparr>, p - startAt))))"

definition world_type_of :: "u8 \<Rightarrow> world_type res" where
  "world_type_of t =
     (if t = 0 then Inr TYPE_NULL else if t = 1 then Inr TYPE_PLANET else if t = 127 then Inr TYPE_MOON
      else Inl InvalidType)"

definition world_deserialize :: "buf \<Rightarrow> u32 \<Rightarrow> (world \<times> u32) res" where
  "world_deserialize b startAt =
     rd_byte b startAt (\<lambda>t p.
     res_bind (world_type_of t) (\<lambda>ty.
     rd_at b p (\<lambda>i p.
     rd_at b p (\<lambda>ts p.
     rd_field b p 64 (\<lambda>key p.
     rd_field b p 96 (\<lambda>sig p.
     rd_byte b p (\<lambda>numRoots p.
     if unat numRoots > ZT_WORLD_MAX_ROOTS then Inl SerializedOverflow
     else
       res_bind (deserialize_n root_deserialize (unat numRoots) b p) (\<lambda>(roots, p).
       let w = \<lparr>wo_id = i, wo_ts = ts, wo_type = ty, wo_updatesMustBeSignedBy = key, wo_signature = sig, wo_roots = roots\<rparr> in
       if ty = TYPE_MOON then rd_skip b p (\<lambda>p. Inr (w, p - startAt))
       else Inr (w, p - startAt)))))))))"

text \<open>\<open>mem\<close> is the memory of the local buffer in which the signed message is written.\<close>

definition shouldBeReplacedBy :: "crypto \<Rightarrow> bytes \<Rightarrow> world \<Rightarrow> world \<Rightarrow> bool res" where
  "shouldBeReplacedBy C mem w update =
     (if wo_id w = 0 \<or> wo_type w = TYPE_NULL then Inr True
      else if wo_id w = wo_id update \<and> wo_ts w < wo_ts update \<and> wo_type w = wo_type update then
        res_bind (ser_bytes (world_serialize True update) mem) (\<lambda>tmp.
        Inr (cr_verify C (wo_updatesMustBeSignedBy w) tmp (wo_signature update)))
      else Inr False)"

definition world_make :: "crypto \<Rightarrow> bytes \<Rightarrow> bytes \<Rightarrow> world_type \<Rightarrow> u64 \<Rightarrow> u64 \<Rightarrow> bytes \<Rightarrow> root list \<Rightarrow> bytes \<Rightarrow> bytes \<Rightarrow> world res" where
  "world_make C mem sig0 t i ts sk roots signPriv signPub =
     (let w = (world_new sk sig0)\<lparr>wo_id := i, wo_ts := ts, wo_type := t, wo_roots := roots\<rparr> in
      res_bind (ser_bytes (world_serialize True w) mem) (\<lambda>tmp.
      Inr (w\<lparr>wo_signature := cr_sign C signPriv signPub tmp\<rparr>)))"

section \<open>The wire format\<close>

text \<open>
  The shape that parsing guarantees, and the stronger condition under which nothing is lost: a root's
  private key, which parsing accepts, is never written.
\<close>

definition root_shape :: "root \<Rightarrow> bool" where
  "root_shape r \<longleftrightarrow> id_ok (ro_identity r) \<and>
     length (ro_stableEndpoints r) \<le> ZT_WORLD_MAX_STABLE_ENDPOINTS_PER_ROOT \<and> (\<forall>e \<in> set (ro_stableEndpoints r). inet_canonical e)"

definition root_ok :: "root \<Rightarrow> bool" where
  "root_ok r \<longleftrightarrow> root_shape r \<and> id_privateKey (ro_identity r) = None"

definition root_enc :: "root \<Rightarrow> bytes" where
  "root_enc r = id_enc (id_public (ro_identity r)) @ [of_nat (length (ro_stableEndpoints r))] @ concat (map inet_enc (ro_stableEndpoints r))"

definition world_shape :: "world \<Rightarrow> bool" where
  "world_shape w \<longleftrightarrow> length (wo_updatesMustBeSignedBy w) = 64 \<and> length (wo_signature w) = 96 \<and>
     length (wo_roots w) \<le> ZT_WORLD_MAX_ROOTS \<and> (\<forall>r \<in> set (wo_roots w). root_shape r)"

definition world_ok :: "world \<Rightarrow> bool" where
  "world_ok w \<longleftrightarrow> world_shape w \<and> (\<forall>r \<in> set (wo_roots w). id_privateKey (ro_identity r) = None)"

definition world_head :: "world \<Rightarrow> bytes" where
  "world_head w = [world_type_code (wo_type w)] @ word_bytes_be (wo_id w) @ word_bytes_be (wo_ts w) @ wo_updatesMustBeSignedBy w"

definition world_tail :: "world \<Rightarrow> bytes" where
  "world_tail w = [of_nat (length (wo_roots w))] @ concat (map root_enc (wo_roots w)) @
     (if wo_type w = TYPE_MOON then word_bytes_be (0 :: u16) else [])"

definition world_enc :: "world \<Rightarrow> bytes" where
  "world_enc w = world_head w @ wo_signature w @ world_tail w"

text \<open>What is signed: everything but the signature, between two markers.\<close>

definition world_msg :: "world \<Rightarrow> bytes" where
  "world_msg w = word_bytes_be (0x7f7f7f7f7f7f7f7f :: u64) @ world_head w @ world_tail w @
     word_bytes_be (0xf7f7f7f7f7f7f7f7 :: u64)"

lemma id_public_ok: "id_ok i \<Longrightarrow> id_ok (id_public i)"
  by (simp add: id_ok_def id_public_def)

lemma root_serialize_appends:
  assumes "root_shape r"
  shows "appends (root_serialize r) (root_enc r)"
proof -
  have "appends (root_serialize r) (id_enc (id_public (ro_identity r)) @
      word_bytes_be (of_nat (length (ro_stableEndpoints r)) :: u8) @ concat (map inet_enc (ro_stableEndpoints r)) @ [])"
    unfolding root_serialize_def id_serialize_public using assms
    by (intro wire_write id_wire.serialize_law inet_wire.serialize_all_appends) (simp_all add: root_shape_def id_public_ok)
  then show ?thesis by (simp add: root_enc_def)
qed

lemma root_deserialize_enc:
  assumes r: "root_ok r" and b: "buf_ok b" "has b p (root_enc r)"
  shows "root_deserialize b p = Inr (r, of_nat (length (root_enc r)))"
proof -
  let ?eps = "ro_stableEndpoints r" and ?i = "id_enc (ro_identity r)"
  have r': "id_ok (ro_identity r)" "length ?eps \<le> 32" "\<forall>e \<in> set ?eps. inet_canonical e" "id_public (ro_identity r) = ro_identity r"
    using r by (simp_all add: root_ok_def root_shape_def id_public_def)
  have n: "unat (of_nat (length ?eps) :: u8) = length ?eps" using r' by (simp add: word_nat)
  have h: "has b p (?i @ [of_nat (length ?eps)] @ concat (map inet_enc ?eps) @ [])" using b(2) r'(4) by (simp add: root_enc_def)
  note H = has_append [OF b(1) h]
  have i: "id_deserialize b p = Inr (ro_identity r, of_nat (length ?i))"
    using r'(1) by (intro id_wire.deserialize_law [OF _ b(1) H(1)])
  note S = has_step8 [OF b(1) H(2)]
  have "deserialize_n inet_deserialize (length ?eps) b (p + of_nat (length ?i) + 1) =
      Inr (?eps, p + of_nat (length ?i) + 1 + of_nat (length (concat (map inet_enc ?eps))))"
    using r'(3) by (intro inet_wire.deserialize_n_concat [OF _ b(1) S(2)]) simp
  then show ?thesis
    using i S(1) n r' by (simp add: root_deserialize_def rd_byte_def root_enc_def)
qed

interpretation root_wire: wire_format root_ok root_enc root_serialize root_deserialize
  by unfold_locales (simp_all add: root_ok_def root_serialize_appends root_deserialize_enc)

lemma world_serialize_appends:
  assumes "world_shape w"
  shows "appends (world_serialize forSign w) (if forSign then world_msg w else world_enc w)"
proof -
  have "appends (world_serialize forSign w)
      ((if forSign then word_bytes_be (0x7f7f7f7f7f7f7f7f :: u64) else []) @ word_bytes_be (world_type_code (wo_type w)) @
       word_bytes_be (wo_id w) @ word_bytes_be (wo_ts w) @ wo_updatesMustBeSignedBy w @
       (if \<not> forSign then wo_signature w else []) @ word_bytes_be (of_nat (length (wo_roots w)) :: u8) @
       concat (map root_enc (wo_roots w)) @ (if wo_type w = TYPE_MOON then word_bytes_be (0 :: u16) else []) @
       (if forSign then word_bytes_be (0xf7f7f7f7f7f7f7f7 :: u64) else []) @ [])"
    unfolding world_serialize_def using assms
    by (intro wire_write appends_serialize_all root_serialize_appends) (simp_all add: world_shape_def)
  then show ?thesis by (cases forSign) (simp_all add: world_msg_def world_enc_def world_head_def world_tail_def)
qed

lemma world_deserialize_enc:
  assumes w: "world_ok w" and b: "buf_ok b" "has b p (world_enc w)"
  shows "world_deserialize b p = Inr (w, of_nat (length (world_enc w)))"
proof -
  let ?rs = "wo_roots w" and ?t = "if wo_type w = TYPE_MOON then word_bytes_be (0 :: u16) else []"
  have w': "length ?rs \<le> 4" "\<forall>r \<in> set ?rs. root_ok r" "length (wo_updatesMustBeSignedBy w) = 64" "length (wo_signature w) = 96"
    using w by (simp_all add: world_ok_def world_shape_def root_ok_def)
  have n: "unat (of_nat (length ?rs) :: u8) = length ?rs" using w' by (simp add: word_nat)
  have ty: "world_type_of (world_type_code (wo_type w)) = Inr (wo_type w)"
    by (cases "wo_type w") (simp_all add: world_type_of_def)
  have h: "has b p ([world_type_code (wo_type w)] @ word_bytes_be (wo_id w) @ word_bytes_be (wo_ts w) @
      wo_updatesMustBeSignedBy w @ wo_signature w @ [of_nat (length ?rs)] @ concat (map root_enc ?rs) @ ?t)"
    using b(2) by (simp add: world_enc_def world_head_def world_tail_def)
  have len: "64 = (of_nat (length (wo_updatesMustBeSignedBy w)) :: u32)" "96 = (of_nat (length (wo_signature w)) :: u32)"
    using w' by simp_all
  note S1 = has_step8 [OF b(1) h]
  note S2 = has_step64 [OF b(1) S1(2)]
  note S3 = has_step64 [OF b(1) S2(2)]
  note S4 = has_step_field [OF b(1) S3(2) len(1)]
  note S5 = has_step_field [OF b(1) S4(2) len(2)]
  note S6 = has_step8 [OF b(1) S5(2)]
  have d: "deserialize_n root_deserialize (length ?rs) b (p + 1 + 8 + 8 + 64 + 96 + 1) =
      Inr (?rs, p + 1 + 8 + 8 + 64 + 96 + 1 + of_nat (length (concat (map root_enc ?rs))))"
    using w'(2) by (intro root_wire.deserialize_n_concat [OF _ b(1) S6(2)]) simp
  note S7 = has_append(2) [OF b(1) S6(2)]
  show ?thesis
  proof (cases "wo_type w = TYPE_MOON")
    case True
    then have "has b (p + 1 + 8 + 8 + 64 + 96 + 1 + of_nat (length (concat (map root_enc ?rs)))) (word_bytes_be (0 :: u16) @ [])"
      using S7 by simp
    from has_step16(1) [OF b(1) this] True show ?thesis
      using ty n w' S1(1) S2(1) S3(1) S4(1) S5(1) S6(1) d
      by (simp add: world_deserialize_def rd_byte_def rd_at_def rd_field_def rd_skip_def Let_def
          world_enc_def world_head_def world_tail_def)
  next
    case False
    then show ?thesis
      using ty n w' S1(1) S2(1) S3(1) S4(1) S5(1) S6(1) d
      by (simp add: world_deserialize_def rd_byte_def rd_at_def rd_field_def Let_def
          world_enc_def world_head_def world_tail_def)
  qed
qed

interpretation world_wire: wire_format world_ok world_enc "world_serialize False" world_deserialize
proof
  show "world_ok x \<Longrightarrow> appends (world_serialize False x) (world_enc x)" for x
    using world_serialize_appends [of x False] by (simp add: world_ok_def)
qed (rule world_deserialize_enc)

section \<open>Parsing any bytes\<close>

lemma add_pos:
  assumes "buf_ok b" "p < b_len b" "unat k < 2 ^ 17"
  shows "pos_ok (p + k)"
proof -
  have "unat p < 2 ^ 31" using assms(1,2) by (simp add: buf_ok_def word_less_nat_alt)
  then show ?thesis using assms(3) unat_add_nowrap [of p k] by (simp add: pos_ok_def)
qed

lemma inet_deserialize_safe:
  assumes b: "buf_ok b"
  shows "res_all (\<lambda>(a, k). inet_canonical a \<and> pos_ok (p + k)) (inet_deserialize b p)"
proof (cases "p < b_len b")
  case True
  have r: "inet_deserialize b p = rd_byte b p (\<lambda>t p'.
     if t = 0 then Inr (inet_nil, 1)
     else if t = 0x01 then Inr (inet_nil, 7)
     else if t = 0x02 then Inr (inet_nil, 7)
     else if t = 0x03 then rd_at b p' (\<lambda>n _. Inr (inet_nil, ucast (n :: u16) + 3))
     else if t = 0x04 then
       rd_field b p' 4 (\<lambda>ip q. rd_at b q (\<lambda>port q.
       Inr (inet_nil\<lparr>ss_family := AF_INET, sin_addr := le_word ip, sin_port := hton port\<rparr>, q - p)))
     else if t = 0x06 then
       rd_field b p' 16 (\<lambda>ip q. rd_at b q (\<lambda>port q.
       Inr (inet_nil\<lparr>ss_family := AF_INET6, sin6_addr := ip, sin_port := hton port\<rparr>, q - p)))
     else Inl BadEncoding)"
    unfolding inet_deserialize_def rd_byte_def rd_at_def rd_field_def Let_def by (simp cong: if_cong)
  have n: "unat (ucast (n :: u16) + 3 :: u32) < 2 ^ 17" for n
  proof -
    have "unat (ucast n :: u32) < 2 ^ 16" using unat_bounds(2) [of n] by (simp add: unsigned_ucast_eq take_bit_eq_mod)
    then show ?thesis by (subst unat_add_nowrap) simp_all
  qed
  note pos = add_pos [OF b True n] add_pos [OF b True, of 1] add_pos [OF b True, of 7]
  show ?thesis unfolding r
    by (intro wire_safe b; use pos in \<open>simp add: inet_canonical_def\<close>)
next
  case False
  then have "buf_get b p = Inl OutOfBounds" by (simp add: buf_get_def not_less)
  then show ?thesis by (simp add: inet_deserialize_def)
qed

lemma deserialize_n_safe:
  assumes des: "\<And>p. pos_ok p \<Longrightarrow> res_all (\<lambda>(x, k). Q x \<and> pos_ok (p + k)) (des b p)" and p: "pos_ok p"
  shows "res_all (\<lambda>(xs, q). length xs = n \<and> (\<forall>x \<in> set xs. Q x) \<and> pos_ok q) (deserialize_n des n b p)"
  using p
proof (induction n arbitrary: p)
  case (Suc n)
  show ?case unfolding deserialize_n.simps
  proof (rule bind_safe [OF des [OF Suc.prems]], clarsimp)
    fix x k assume "Q x" "pos_ok (p + k)"
    with Suc.IH show "res_all (\<lambda>(xs, q). length xs = Suc n \<and> (\<forall>x \<in> set xs. Q x) \<and> pos_ok q)
        (res_bind (deserialize_n des n b (p + k)) (\<lambda>(xs, y). Inr (x # xs, y)))"
      by (intro bind_safe [OF Suc.IH]) auto
  qed
qed simp

lemma id_deserialize_shape:
  assumes "buf_ok b" "pos_ok p"
  shows "res_all (\<lambda>(i, k). id_ok i \<and> pos_ok (p + k)) (id_deserialize b p)"
  unfolding id_deserialize_def
  by (intro wire_safe assms; simp add: id_ok_def)

lemma root_deserialize_safe:
  assumes b: "buf_ok b" "pos_ok p"
  shows "res_all (\<lambda>(r, k). root_shape r \<and> pos_ok (p + k)) (root_deserialize b p)"
  unfolding root_deserialize_def
proof (rule bind_safe [OF id_deserialize_shape [OF b]], clarify)
  fix i k assume i: "id_ok i" "pos_ok (p + k)"
  show "res_all (\<lambda>(r, k). root_shape r \<and> pos_ok (p + k)) (rd_byte b (p + k) (\<lambda>n q.
      if unat n > ZT_WORLD_MAX_STABLE_ENDPOINTS_PER_ROOT then Inl SerializedOverflow
      else res_bind (deserialize_n inet_deserialize (unat n) b q) (\<lambda>(eps, q). Inr (\<lparr>ro_identity = i, ro_stableEndpoints = eps\<rparr>, q - p))))"
  proof (intro wire_safe b(1))
    fix n :: u8 and q assume q: "pos_ok q" "\<not> unat n > 32"
    show "res_all (\<lambda>(r, k). root_shape r \<and> pos_ok (p + k))
        (res_bind (deserialize_n inet_deserialize (unat n) b q) (\<lambda>(eps, q). Inr (\<lparr>ro_identity = i, ro_stableEndpoints = eps\<rparr>, q - p)))"
      using q i(1) inet_deserialize_safe [OF b(1)]
      by (intro bind_safe [OF deserialize_n_safe [where Q = inet_canonical]]) (auto simp: root_shape_def)
  qed simp
qed

lemma world_deserialize_safe:
  assumes b: "buf_ok b" "pos_ok p"
  shows "res_all (\<lambda>(w, k). world_shape w) (world_deserialize b p)"
  unfolding world_deserialize_def
proof (intro wire_safe b(1), rule bind_safe [where P = "\<lambda>_. True"], goal_cases)
  case (1 t q)
  then show ?case by (simp add: world_type_of_def)
next
  case (2 t q ty)
  show ?case
  proof (intro wire_safe b(1))
    fix i ts :: u64 and key sig :: bytes and n :: u8 and q
    assume k: "length key = unat (64 :: u32)" "length sig = unat (96 :: u32)" and q: "pos_ok q" "\<not> unat n > 4"
    let ?w = "\<lambda>ty roots. \<lparr>wo_id = i, wo_ts = ts, wo_type = ty, wo_updatesMustBeSignedBy = key, wo_signature = sig, wo_roots = roots\<rparr>"
    have w: "world_shape (?w ty roots)" if "length roots = unat n" "\<forall>r \<in> set roots. root_shape r" for ty roots
      using that q(2) k by (simp add: world_shape_def)
    show "res_all (\<lambda>(w, k). world_shape w) (res_bind (deserialize_n root_deserialize (unat n) b q) (\<lambda>(roots, p').
        let w = ?w ty roots in if ty = TYPE_MOON then rd_skip b p' (\<lambda>p'. Inr (w, p' - p)) else Inr (w, p' - p)))"
      by (rule bind_safe [OF deserialize_n_safe [where Q = root_shape and des = root_deserialize and b = b,
              OF root_deserialize_safe [OF b(1)] q(1)]], assumption)
        (auto simp: Let_def w intro!: wire_safe b(1))
  qed simp_all
qed

section \<open>Updates\<close>

lemma length_inet_enc: "inet_canonical a \<Longrightarrow> length (inet_enc a) \<le> 19"
  by (auto simp: inet_enc_def dest: inet_canonical_ok [unfolded inet_ok_def])

lemma length_concat_le: "\<forall>x \<in> set xs. length (f x) \<le> n \<Longrightarrow> length (concat (map f xs)) \<le> length xs * n"
  by (induction xs) auto

lemma length_root_enc:
  assumes "root_shape r"
  shows "length (root_enc r) \<le> 680"
proof -
  have "length (concat (map inet_enc (ro_stableEndpoints r))) \<le> length (ro_stableEndpoints r) * 19"
    using assms by (intro length_concat_le) (simp add: root_shape_def length_inet_enc)
  then show ?thesis using assms by (simp add: root_enc_def root_shape_def id_enc_def id_public_def id_ok_def)
qed

lemma length_world_msg:
  assumes "world_shape w"
  shows "length (world_msg w) \<le> 2820"
proof -
  have "length (concat (map root_enc (wo_roots w))) \<le> length (wo_roots w) * 680"
    using assms by (intro length_concat_le) (simp add: world_shape_def length_root_enc)
  then show ?thesis using assms by (simp add: world_msg_def world_head_def world_tail_def world_shape_def)
qed

lemma world_message:
  assumes "world_shape w" "length mem = ZT_WORLD_MAX_SERIALIZED_LENGTH"
  shows "ser_bytes (world_serialize True w) mem = Inr (world_msg w)"
  using world_serialize_appends [OF assms(1), of True] length_world_msg [OF assms(1)] assms(2)
  by (intro ser_bytes_appends) simp_all

text \<open>An update that \<open>w\<close> authorises: newer, of the same id and type, signed with the key \<open>w\<close> names.\<close>

definition world_successor :: "crypto \<Rightarrow> world \<Rightarrow> world \<Rightarrow> bool" where
  "world_successor C w u \<longleftrightarrow> wo_id u = wo_id w \<and> wo_type u = wo_type w \<and> wo_ts w < wo_ts u \<and>
     cr_verify C (wo_updatesMustBeSignedBy w) (world_msg u) (wo_signature u)"

lemma shouldBeReplacedBy_law:
  assumes "world_shape u" "length mem = ZT_WORLD_MAX_SERIALIZED_LENGTH"
  shows "shouldBeReplacedBy C mem w u = Inr (wo_id w = 0 \<or> wo_type w = TYPE_NULL \<or> world_successor C w u)"
  using world_message [OF assms] by (auto simp: shouldBeReplacedBy_def world_successor_def)

text \<open>
  C40. A world survives its wire form, with the number of bytes it takes; and parsing any bytes at all
  either throws or gives a world within the limits of the protocol, four roots of at most thirty-two
  endpoints, never reading outside the buffer.
\<close>

theorem world_wire_roundtrip:
  shows "(world_ok w \<and> buf_ok b \<and> unat (b_len b) + length (world_enc w) \<le> b_cap b \<longrightarrow>
      (\<exists>b'. world_serialize False w b = Inr b' \<and> b_content b' = b_content b @ world_enc w \<and>
        world_deserialize b' (b_len b) = Inr (w, b_len b' - b_len b))) \<and>
    (buf_ok b \<and> p \<le> b_len b \<longrightarrow>
      (case world_deserialize b p of Inl e \<Rightarrow> e \<noteq> UndefinedBehaviour | Inr (w', _) \<Rightarrow> world_shape w'))"
proof (intro conjI impI)
  assume "world_ok w \<and> buf_ok b \<and> unat (b_len b) + length (world_enc w) \<le> b_cap b"
  then show "\<exists>b'. world_serialize False w b = Inr b' \<and> b_content b' = b_content b @ world_enc w \<and>
      world_deserialize b' (b_len b) = Inr (w, b_len b' - b_len b)"
    using world_wire.roundtrip by blast
next
  assume a: "buf_ok b \<and> p \<le> b_len b"
  then have "pos_ok p" by (auto intro: pos_ok_le simp: word_le_nat_alt)
  with world_deserialize_safe [of b p] a show "case world_deserialize b p of Inl e \<Rightarrow> e \<noteq> UndefinedBehaviour | Inr (w', _) \<Rightarrow> world_shape w'"
    by (simp add: res_all_def split: sum.splits prod.splits)
qed

definition sample_world :: world where
  "sample_world = \<lparr>wo_id = 7, wo_ts = 9, wo_type = TYPE_MOON, wo_updatesMustBeSignedBy = replicate 64 1,
     wo_signature = replicate 96 2, wo_roots = [\<lparr>ro_identity = \<lparr>id_address = Address 5, id_publicKey = replicate 64 3, id_privateKey = None\<rparr>,
       ro_stableEndpoints = [inet_nil]\<rparr>]\<rparr>"

lemma sample_world_ok [simp]: "world_ok sample_world"
  by (simp add: sample_world_def world_ok_def world_shape_def root_shape_def id_ok_def addr_ok_def inet_canonical_def)

theorem world_wire_roundtrip_witness:
  "\<exists>b'. world_serialize False sample_world (buf_new (replicate 300 0)) = Inr b' \<and>
     world_deserialize b' (b_len (buf_new (replicate 300 0))) = Inr (sample_world, b_len b' - b_len (buf_new (replicate 300 0)))"
proof -
  have "buf_ok (buf_new (replicate 300 0))" "b_cap (buf_new (replicate 300 0)) = 300" "unat (b_len (buf_new (replicate 300 0))) = 0"
    by (simp_all add: buf_new_def buf_ok_def b_cap_def)
  moreover have "length (world_enc sample_world) \<le> 300"
    by (simp add: sample_world_def world_enc_def world_head_def world_tail_def root_enc_def id_enc_def id_public_def inet_enc_def inet_nil_def)
  ultimately show ?thesis using world_wire_roundtrip [of sample_world "buf_new (replicate 300 0)" 0] by auto
qed

end
