(* ===== verification/Zt_Topology.thy ===== *)
theory Zt_Topology
  imports Zt_World
begin

text \<open>
  \<^verbatim>\<open>node/Topology.cpp\<close> and \<^verbatim>\<open>Topology.hpp\<close>: the planet and the moons a node follows, the upstream peers that
  follow from them, the peers known by their identity, and the configuration of physical paths.

  The table of peers is kept as the map that the hash table refines, from addresses to the identities
  of the peers.  What is read from the node's storage is an argument, and the worlds that are written
  and deleted there are the list of events; saving a peer to the storage (\<open>_savePeer\<close>, which the
  destructor and \<open>doPeriodicTasks\<close> call) writes the peer's paths, which are not modelled, and is left out.  The constructor of a peer throws when the node has no private key; this is the error
  value, and what the handlers around it leave behind is not followed further.  A node has its private
  key, and then nothing here throws.
\<close>

section \<open>State\<close>

record path_config =
  pc_trustedPathId :: u64
  pc_mtu :: u32

record topology =
  tp_physicalPathConfig :: "(inet \<times> path_config) list"
  tp_peers :: "address \<Rightarrow> identity option"
  tp_planet :: world
  tp_moons :: "world list"
  tp_moonSeeds :: "(u64 \<times> address) list"
  tp_upstreamAddresses :: "address list"
  tp_amUpstream :: bool

record topo_env =
  te_self :: identity
  te_crypto :: crypto
  te_mem :: bytes

datatype topo_event = StatePut world_type u64 bytes | StateDelete u64

type_synonym 'a topo_result = "('a \<times> topology \<times> topo_event list) res"

datatype peer_role = ROLE_LEAF | ROLE_MOON | ROLE_PLANET

section \<open>Peers\<close>

definition peer_new :: "topo_env \<Rightarrow> identity \<Rightarrow> identity res" where
  "peer_new e i = (case id_agree (te_crypto e) (te_self e) i 32 of None \<Rightarrow> Inl InvalidArgument | Some _ \<Rightarrow> Inr i)"

definition addPeer :: "identity \<Rightarrow> topology \<Rightarrow> identity \<times> topology" where
  "addPeer peer t =
     (case tp_peers t (id_address peer) of
        None \<Rightarrow> (peer, t\<lparr>tp_peers := (tp_peers t)(id_address peer \<mapsto> peer)\<rparr>)
      | Some hp \<Rightarrow> (hp, t))"

text \<open>\<open>cached\<close> is the peer that the stored state of an address gives, if it gives one.\<close>

definition getPeer :: "topo_env \<Rightarrow> (address \<Rightarrow> identity option) \<Rightarrow> address \<Rightarrow> topology \<Rightarrow> identity option \<times> topology" where
  "getPeer e cached zta t =
     (if zta = id_address (te_self e) then (None, t)
      else case tp_peers t zta of
        Some ap \<Rightarrow> (Some ap, t)
      | None \<Rightarrow>
          (case cached zta of
             Some ap \<Rightarrow> (None, t\<lparr>tp_peers := (tp_peers t)(zta \<mapsto> ap)\<rparr>)
           | None \<Rightarrow> (None, t)))"

text \<open>\<open>key0\<close> is the memory under the public key of a null identity.\<close>

definition identity_null :: "bytes \<Rightarrow> identity" where
  "identity_null key0 = \<lparr>id_address = Address 0, id_publicKey = key0, id_privateKey = None\<rparr>"

definition getIdentity :: "topo_env \<Rightarrow> bytes \<Rightarrow> address \<Rightarrow> topology \<Rightarrow> identity" where
  "getIdentity e key0 zta t =
     (if zta = id_address (te_self e) then te_self e
      else case tp_peers t zta of Some ap \<Rightarrow> ap | None \<Rightarrow> identity_null key0)"

definition getPeerNoCache :: "address \<Rightarrow> topology \<Rightarrow> identity option" where
  "getPeerNoCache zta t = tp_peers t zta"

text \<open>The last of the upstreams with the least \<open>relayQuality\<close>.\<close>

fun best_upstream :: "(address \<Rightarrow> u32) \<Rightarrow> (address \<Rightarrow> identity option) \<Rightarrow> address list \<Rightarrow> u32 \<Rightarrow> identity option \<Rightarrow> identity option" where
  "best_upstream quality peers [] bestq best = best"
| "best_upstream quality peers (a # as) bestq best =
     (case peers a of
        Some p \<Rightarrow> if quality a \<le> bestq then best_upstream quality peers as (quality a) (Some p)
                  else best_upstream quality peers as bestq best
      | None \<Rightarrow> best_upstream quality peers as bestq best)"

definition getUpstreamPeer :: "(address \<Rightarrow> u32) \<Rightarrow> topology \<Rightarrow> identity option" where
  "getUpstreamPeer quality t = best_upstream quality (tp_peers t) (tp_upstreamAddresses t) (- 1) None"

text \<open>The peers that \<open>doPeriodicTasks\<close> keeps.\<close>

definition topo_clean :: "(address \<Rightarrow> bool) \<Rightarrow> topology \<Rightarrow> topology" where
  "topo_clean alive t =
     t\<lparr>tp_peers := (\<lambda>a. if \<not> alive a \<and> a \<notin> set (tp_upstreamAddresses t) then None else tp_peers t a)\<rparr>"

section \<open>Upstreams\<close>

fun memo_roots :: "topo_env \<Rightarrow> root list \<Rightarrow> topology \<Rightarrow> topology res" where
  "memo_roots e [] t = Inr t"
| "memo_roots e (r # rs) t =
     (let a = id_address (ro_identity r) in
      if id_eq (ro_identity r) (te_self e) then memo_roots e rs (t\<lparr>tp_amUpstream := True\<rparr>)
      else if a \<notin> set (tp_upstreamAddresses t) then
        let t = t\<lparr>tp_upstreamAddresses := tp_upstreamAddresses t @ [a]\<rparr> in
        case tp_peers t a of
          Some _ \<Rightarrow> memo_roots e rs t
        | None \<Rightarrow> res_bind (peer_new e (ro_identity r)) (\<lambda>p.
            memo_roots e rs (t\<lparr>tp_peers := (tp_peers t)(a \<mapsto> p)\<rparr>))
      else memo_roots e rs t)"

fun memo_moons :: "topo_env \<Rightarrow> world list \<Rightarrow> topology \<Rightarrow> topology res" where
  "memo_moons e [] t = Inr t"
| "memo_moons e (m # ms) t = res_bind (memo_roots e (wo_roots m) t) (memo_moons e ms)"

definition memoizeUpstreams :: "topo_env \<Rightarrow> topology \<Rightarrow> topology res" where
  "memoizeUpstreams e t =
     res_bind (memo_roots e (wo_roots (tp_planet t)) (t\<lparr>tp_upstreamAddresses := [], tp_amUpstream := False\<rparr>)) (\<lambda>t.
     res_bind (memo_moons e (tp_moons t) t) (\<lambda>t.
     Inr (t\<lparr>tp_upstreamAddresses := sort (tp_upstreamAddresses t)\<rparr>)))"

definition isUpstream :: "identity \<Rightarrow> topology \<Rightarrow> bool" where
  "isUpstream i t \<longleftrightarrow> id_address i \<in> set (tp_upstreamAddresses t)"

definition shouldAcceptWorldUpdateFrom :: "address \<Rightarrow> topology \<Rightarrow> bool" where
  "shouldAcceptWorldUpdateFrom a t \<longleftrightarrow> a \<in> set (tp_upstreamAddresses t) \<or> (\<exists>s \<in> set (tp_moonSeeds t). snd s = a)"

definition topo_role :: "address \<Rightarrow> topology \<Rightarrow> peer_role" where
  "topo_role a t =
     (if a \<in> set (tp_upstreamAddresses t) then
        if \<exists>r \<in> set (wo_roots (tp_planet t)). id_address (ro_identity r) = a then ROLE_PLANET else ROLE_MOON
      else ROLE_LEAF)"

text \<open>Some root of that address allows the endpoint: it names none, or one with the same IP.\<close>

fun roots_permit :: "address \<Rightarrow> inet \<Rightarrow> root list \<Rightarrow> bool" where
  "roots_permit a ip [] = False"
| "roots_permit a ip (r # rs) =
     (if id_address (ro_identity r) = a then
        if length (ro_stableEndpoints r) = 0 then True
        else if list_ex (\<lambda>e. inet_ipsEqual ip e) (ro_stableEndpoints r) then True
        else roots_permit a ip rs
      else roots_permit a ip rs)"

definition isProhibitedEndpoint :: "address \<Rightarrow> inet \<Rightarrow> topology \<Rightarrow> bool" where
  "isProhibitedEndpoint a ip t =
     (if a \<in> set (tp_upstreamAddresses t) then
        if roots_permit a ip (wo_roots (tp_planet t)) then False
        else if list_ex (\<lambda>m. roots_permit a ip (wo_roots m)) (tp_moons t) then False
        else True
      else False)"

fun add_endpoints :: "inet list \<Rightarrow> inet list \<Rightarrow> inet list" where
  "add_endpoints [] ips = ips"
| "add_endpoints (j # js) ips = add_endpoints js (if list_ex (\<lambda>x. inet_eq x j) ips then ips else ips @ [j])"

definition contact_root :: "topo_env \<Rightarrow> root \<Rightarrow> (address \<Rightarrow> inet list option) \<Rightarrow> address \<Rightarrow> inet list option" where
  "contact_root e r eps =
     (if \<not> id_eq (ro_identity r) (te_self e) then
        let a = id_address (ro_identity r); ips = (case eps a of None \<Rightarrow> [] | Some ips \<Rightarrow> ips) in
        eps(a \<mapsto> add_endpoints (ro_stableEndpoints r) ips)
      else eps)"

definition contact_seed :: "u64 \<times> address \<Rightarrow> (address \<Rightarrow> inet list option) \<Rightarrow> address \<Rightarrow> inet list option" where
  "contact_seed s eps = eps(snd s \<mapsto> (case eps (snd s) of None \<Rightarrow> [] | Some ips \<Rightarrow> ips))"

definition getUpstreamsToContact :: "topo_env \<Rightarrow> topology \<Rightarrow> (address \<Rightarrow> inet list option) \<Rightarrow> address \<Rightarrow> inet list option" where
  "getUpstreamsToContact e t eps =
     fold contact_seed (tp_moonSeeds t)
       (fold (\<lambda>m. fold (contact_root e) (wo_roots m)) (tp_moons t)
         (fold (contact_root e) (wo_roots (tp_planet t)) eps))"

definition moonsWanted :: "topology \<Rightarrow> u64 list" where
  "moonsWanted t = fold (\<lambda>s mw. if fst s \<in> set mw then mw else mw @ [fst s]) (tp_moonSeeds t) []"

section \<open>Worlds\<close>

text \<open>The accepted world is stored, unless writing it down throws, and the upstreams are recomputed.\<close>

definition world_accepted :: "topo_env \<Rightarrow> world \<Rightarrow> topology \<Rightarrow> bool topo_result" where
  "world_accepted e w t =
     (case ser_bytes (world_serialize False w) (te_mem e) of
        Inl UndefinedBehaviour \<Rightarrow> Inl UndefinedBehaviour
      | Inl _ \<Rightarrow> res_bind (memoizeUpstreams e t) (\<lambda>t. Inr (True, t, []))
      | Inr bs \<Rightarrow> res_bind (memoizeUpstreams e t) (\<lambda>t. Inr (True, t, [StatePut (wo_type w) (wo_id w) bs])))"

text \<open>The first seed that waits for this moon from one of its roots, and the seeds without it.\<close>

fun take_seed :: "world \<Rightarrow> (u64 \<times> address) list \<Rightarrow> (u64 \<times> address) list option" where
  "take_seed w [] = None"
| "take_seed w (s # ss) =
     (if fst s = wo_id w \<and> (\<exists>r \<in> set (wo_roots w). id_address (ro_identity r) = snd s) then Some ss
      else map_option ((#) s) (take_seed w ss))"

fun moon_index :: "u64 \<Rightarrow> world list \<Rightarrow> nat option" where
  "moon_index i [] = None"
| "moon_index i (m # ms) = (if wo_id m = i then Some 0 else map_option Suc (moon_index i ms))"

definition addWorld :: "topo_env \<Rightarrow> world \<Rightarrow> bool \<Rightarrow> topology \<Rightarrow> bool topo_result" where
  "addWorld e newWorld alwaysAcceptNew t =
     (case wo_type newWorld of
        TYPE_NULL \<Rightarrow> Inr (False, t, [])
      | TYPE_PLANET \<Rightarrow>
          res_bind (shouldBeReplacedBy (te_crypto e) (te_mem e) (tp_planet t) newWorld) (\<lambda>ok.
          if ok then world_accepted e newWorld (t\<lparr>tp_planet := newWorld\<rparr>) else Inr (False, t, []))
      | TYPE_MOON \<Rightarrow>
          (case moon_index (wo_id newWorld) (tp_moons t) of
             Some i \<Rightarrow>
               res_bind (shouldBeReplacedBy (te_crypto e) (te_mem e) (tp_moons t ! i) newWorld) (\<lambda>ok.
               if ok then world_accepted e newWorld (t\<lparr>tp_moons := (tp_moons t)[i := newWorld]\<rparr>) else Inr (False, t, []))
           | None \<Rightarrow>
               if alwaysAcceptNew then world_accepted e newWorld (t\<lparr>tp_moons := tp_moons t @ [newWorld]\<rparr>)
               else
                 (case take_seed newWorld (tp_moonSeeds t) of
                    Some ss \<Rightarrow> world_accepted e newWorld (t\<lparr>tp_moonSeeds := ss, tp_moons := tp_moons t @ [newWorld]\<rparr>)
                  | None \<Rightarrow> Inr (False, t, []))))"

definition world_parse :: "bytes \<Rightarrow> bytes \<Rightarrow> world res" where
  "world_parse mem bs =
     res_bind (buf_copyFrom (buf_new mem) bs (of_nat (length bs))) (\<lambda>b.
     res_bind (world_deserialize b 0) (\<lambda>(w, _). Inr w))"

text \<open>\<open>stored\<close> is what the node has stored under the moon's id.\<close>

definition addMoon :: "topo_env \<Rightarrow> bytes \<Rightarrow> u64 \<Rightarrow> address \<Rightarrow> topology \<Rightarrow> unit topo_result" where
  "addMoon e stored i seed t =
     (let add_seed = (if seed \<noteq> Address 0 \<and> (i, seed) \<notin> set (tp_moonSeeds t)
            then t\<lparr>tp_moonSeeds := tp_moonSeeds t @ [(i, seed)]\<rparr> else t)
      in
      if stored = [] then Inr ((), add_seed, [])
      else case world_parse (te_mem e) stored of
        Inl UndefinedBehaviour \<Rightarrow> Inl UndefinedBehaviour
      | Inl _ \<Rightarrow> Inr ((), add_seed, [])
      | Inr w \<Rightarrow>
          if wo_type w = TYPE_MOON \<and> wo_id w = i
          then res_bind (addWorld e w True t) (\<lambda>(_, t, ev). Inr ((), t, ev))
          else Inr ((), add_seed, []))"

definition removeMoon :: "topo_env \<Rightarrow> u64 \<Rightarrow> topology \<Rightarrow> unit topo_result" where
  "removeMoon e i t =
     (let gone = filter (\<lambda>m. wo_id m = i) (tp_moons t);
          t = t\<lparr>tp_moons := filter (\<lambda>m. wo_id m \<noteq> i) (tp_moons t), tp_moonSeeds := filter (\<lambda>s. fst s \<noteq> i) (tp_moonSeeds t)\<rparr>
      in res_bind (memoizeUpstreams e t) (\<lambda>t. Inr ((), t, map (\<lambda>_. StateDelete i) gone)))"

definition ZT_DEFAULT_WORLD :: bytes where
  "ZT_DEFAULT_WORLD = [
    0x01, 0x00, 0x00, 0x00, 0x00, 0x08, 0xea, 0xc9, 0x0a, 0x00, 0x00, 0x01, 0x64, 0xd3, 0x71, 0xf0, 0x58, 0xb8, 0xb3,
    0x88, 0xa4, 0x69, 0x22, 0x14, 0x91, 0xaa, 0x9a, 0xcd, 0x66, 0xcc, 0x76, 0x4c, 0xde, 0xfd, 0x56, 0x03, 0x9f, 0x10,
    0x67, 0xae, 0x15, 0xe6, 0x9c, 0x6f, 0xb4, 0x2d, 0x7b, 0x55, 0x33, 0x0e, 0x3f, 0xda, 0xac, 0x52, 0x9c, 0x07, 0x92,
    0xfd, 0x73, 0x40, 0xa6, 0xaa, 0x21, 0xab, 0xa8, 0xa4, 0x89, 0xfd, 0xae, 0xa4, 0x4a, 0x39, 0xbf, 0x2d, 0x00, 0x65,
    0x9a, 0xc9, 0xc8, 0x18, 0xeb, 0xbf, 0xfd, 0xd5, 0x32, 0xf7, 0x15, 0x6e, 0x02, 0x6f, 0xb9, 0x01, 0x0d, 0xb5, 0x7b,
    0x04, 0xd8, 0x3a, 0xc5, 0x17, 0x39, 0x04, 0x36, 0xfd, 0x9d, 0xc6, 0x3d, 0xa8, 0xf3, 0x8e, 0x79, 0xe7, 0xc8, 0x77,
    0x8d, 0xcc, 0x79, 0xb8, 0xab, 0xc6, 0x98, 0x7c, 0x9f, 0x34, 0x25, 0x14, 0xe1, 0x2f, 0xd7, 0x97, 0x11, 0xec, 0x34,
    0x4c, 0x9f, 0x0f, 0xb4, 0x85, 0x0d, 0x9b, 0x11, 0xd1, 0xc2, 0xce, 0x00, 0xc4, 0x0a, 0x13, 0x4b, 0xcb, 0xc3, 0xae,
    0x2e, 0x16, 0x00, 0x4b, 0xdc, 0x90, 0x5e, 0x7e, 0x9b, 0x44, 0x07, 0x15, 0x36, 0x61, 0x3c, 0x64, 0xaa, 0xe9, 0x46,
    0x78, 0x3c, 0xa7, 0x18, 0xc8, 0xd8, 0x02, 0x9d, 0x21, 0x90, 0x39, 0xf3, 0x00, 0x01, 0xf0, 0x92, 0x2a, 0x98, 0xe3,
    0xb3, 0x4e, 0xbc, 0xbf, 0xf3, 0x33, 0x26, 0x9d, 0xc2, 0x65, 0xd7, 0xa0, 0x20, 0xaa, 0xb6, 0x9d, 0x72, 0xbe, 0x4d,
    0x4a, 0xcc, 0x9c, 0x8c, 0x92, 0x94, 0x78, 0x57, 0x71, 0x25, 0x6c, 0xd1, 0xd9, 0x42, 0xa9, 0x0d, 0x1b, 0xd1, 0xd2,
    0xdc, 0xa3, 0xea, 0x84, 0xef, 0x7d, 0x85, 0xaf, 0xe6, 0x61, 0x1f, 0xb4, 0x3f, 0xf0, 0xb7, 0x41, 0x26, 0xd9, 0x0a,
    0x6e, 0x00, 0x0c, 0x04, 0xbc, 0xa6, 0x5e, 0xb1, 0x27, 0x09, 0x06, 0x2a, 0x03, 0xb0, 0xc0, 0x00, 0x02, 0x00, 0xd0,
    0x00, 0x7d, 0x00, 0x01, 0x00, 0x00, 0x00, 0x00, 0x27, 0x09, 0x04, 0x9a, 0x42, 0xc5, 0x21, 0x27, 0x09, 0x06, 0x2c,
    0x0f, 0xf8, 0x50, 0x01, 0x54, 0x01, 0x97, 0x00, 0x33, 0xcc, 0x08, 0xf8, 0xfa, 0xcc, 0x08, 0x27, 0x09, 0x04, 0x9f,
    0xcb, 0x61, 0xab, 0x27, 0x09, 0x06, 0x26, 0x04, 0xa8, 0x80, 0x08, 0x00, 0x00, 0xa1, 0x00, 0x54, 0x60, 0x01, 0x00,
    0xfc, 0xcc, 0x08, 0x27, 0x09, 0x04, 0x83, 0xff, 0x06, 0x10, 0x27, 0x09, 0x06, 0x28, 0x03, 0xeb, 0x80, 0x00, 0x00,
    0x00, 0x0e, 0x00, 0x02, 0x60, 0x01, 0x00, 0xfc, 0xcc, 0x08, 0x27, 0x09, 0x04, 0x6b, 0xaa, 0xc5, 0x0e, 0x27, 0x09,
    0x06, 0x26, 0x04, 0xa8, 0x80, 0x00, 0x01, 0x00, 0x20, 0x02, 0x00, 0xe0, 0x01, 0x08, 0xfe, 0xcc, 0x08, 0x27, 0x09,
    0x04, 0x80, 0xc7, 0xc5, 0xd9, 0x27, 0x09, 0x06, 0x24, 0x00, 0x61, 0x80, 0x00, 0x00, 0x00, 0xd0, 0x00, 0xb7, 0x40,
    0x01, 0x08, 0xfe, 0xcc, 0x08, 0x27, 0x09, 0x88, 0x41, 0x40, 0x8a, 0x2e, 0x00, 0xbb, 0x1d, 0x31, 0xf2, 0xc3, 0x23,
    0xe2, 0x64, 0xe9, 0xe6, 0x41, 0x72, 0xc1, 0xa7, 0x4f, 0x77, 0x89, 0x95, 0x55, 0xed, 0x10, 0x75, 0x1c, 0xd5, 0x6e,
    0x86, 0x40, 0x5c, 0xde, 0x11, 0x8d, 0x02, 0xdf, 0xfe, 0x55, 0x5d, 0x46, 0x2c, 0xcf, 0x6a, 0x85, 0xb5, 0x63, 0x1c,
    0x12, 0x35, 0x0c, 0x8d, 0x5d, 0xc4, 0x09, 0xba, 0x10, 0xb9, 0x02, 0x5d, 0x0f, 0x44, 0x5c, 0xf4, 0x49, 0xd9, 0x2b,
    0x1c, 0x00, 0x0c, 0x04, 0x2d, 0x20, 0xc6, 0x82, 0x27, 0x09, 0x06, 0x20, 0x01, 0x19, 0xf0, 0x64, 0x00, 0x81, 0xc3,
    0x54, 0x00, 0x00, 0xff, 0xfe, 0x18, 0x1d, 0x61, 0x27, 0x09, 0x04, 0x2e, 0x65, 0xa0, 0xf9, 0x27, 0x09, 0x06, 0x2a,
    0x03, 0xb0, 0xc0, 0x00, 0x03, 0x00, 0xd0, 0x00, 0x6a, 0x30, 0x01, 0x78, 0x00, 0xcd, 0x08, 0x27, 0x09, 0x04, 0x6b,
    0xbf, 0x2e, 0xd2, 0x27, 0x09, 0x06, 0x20, 0x01, 0x19, 0xf0, 0x68, 0x00, 0x83, 0xa4, 0x00, 0x64, 0xcd, 0x08, 0x80,
    0x01, 0xcd, 0x08, 0x27, 0x09, 0x04, 0x2d, 0x20, 0xf6, 0xb3, 0x27, 0x09, 0x06, 0x20, 0x01, 0x19, 0xf0, 0x58, 0x00,
    0x8b, 0xf8, 0x54, 0x00, 0x00, 0xff, 0xfe, 0x15, 0xb3, 0x9a, 0x27, 0x09, 0x04, 0x2d, 0x20, 0xf8, 0x57, 0x27, 0x09,
    0x06, 0x20, 0x01, 0x19, 0xf0, 0x70, 0x00, 0x9b, 0xc9, 0x54, 0x00, 0x00, 0xff, 0xfe, 0x15, 0xc4, 0xf5, 0x27, 0x09,
    0x04, 0x9f, 0xcb, 0x02, 0x9a, 0x27, 0x09, 0x06, 0x26, 0x04, 0xa8, 0x80, 0x0c, 0xad, 0x00, 0xd0, 0x00, 0x26, 0x70,
    0x01, 0xfe, 0x15, 0xc4, 0xf5, 0x27, 0x09]"

text \<open>\<open>key0\<close> and \<open>sig0\<close> are the memory under the null planet; \<open>stored\<close> is the stored planet.\<close>

definition topo_null :: "bytes \<Rightarrow> bytes \<Rightarrow> topology" where
  "topo_null key0 sig0 = \<lparr>tp_physicalPathConfig = [], tp_peers = (\<lambda>_. None), tp_planet = world_new key0 sig0,
     tp_moons = [], tp_moonSeeds = [], tp_upstreamAddresses = [], tp_amUpstream = False\<rparr>"

definition topo_new :: "topo_env \<Rightarrow> bytes \<Rightarrow> bytes \<Rightarrow> bytes \<Rightarrow> (topology \<times> topo_event list) res" where
  "topo_new e key0 sig0 stored =
     (let t = topo_null key0 sig0 in
      res_bind (if stored = [] then Inr (t, [])
                else case world_parse (te_mem e) stored of
                  Inl UndefinedBehaviour \<Rightarrow> Inl UndefinedBehaviour
                | Inl _ \<Rightarrow> Inr (t, [])
                | Inr w \<Rightarrow> res_bind (addWorld e w False t) (\<lambda>(_, t, ev). Inr (t, ev))) (\<lambda>(t, ev).
      res_bind (world_parse (take 634 (te_mem e)) ZT_DEFAULT_WORLD) (\<lambda>w.
      res_bind (addWorld e w False t) (\<lambda>(_, t, ev'). Inr (t, ev @ ev')))))"

section \<open>Physical paths\<close>

text \<open>The \<open>std::map\<close> of configured networks, a list sorted by \<open>operator<\<close> of the addresses.\<close>

fun cp_put :: "inet \<Rightarrow> path_config \<Rightarrow> (inet \<times> path_config) list \<Rightarrow> (inet \<times> path_config) list" where
  "cp_put k v [] = [(k, v)]"
| "cp_put k v ((a, c) # cs) =
     (if inet_less k a then (k, v) # (a, c) # cs
      else if inet_less a k then (a, c) # cp_put k v cs
      else (a, v) # cs)"

fun cp_erase :: "inet \<Rightarrow> (inet \<times> path_config) list \<Rightarrow> (inet \<times> path_config) list" where
  "cp_erase k [] = []"
| "cp_erase k ((a, c) # cs) =
     (if inet_less k a \<or> inet_less a k then (a, c) # cp_erase k cs else cs)"

definition pc_clamp :: "path_config \<Rightarrow> path_config" where
  "pc_clamp pc =
     (if sint (pc_mtu pc) \<le> 0 then pc\<lparr>pc_mtu := 1444\<rparr>
      else if sint (pc_mtu pc) < 1400 then pc\<lparr>pc_mtu := 1400\<rparr>
      else if sint (pc_mtu pc) > 10324 then pc\<lparr>pc_mtu := 10324\<rparr>
      else pc)"

definition setPhysicalPathConfiguration :: "inet option \<Rightarrow> path_config option \<Rightarrow> topology \<Rightarrow> topology" where
  "setPhysicalPathConfiguration pathNetwork pathConfig t =
     (case pathNetwork of
        None \<Rightarrow> t\<lparr>tp_physicalPathConfig := []\<rparr>
      | Some n \<Rightarrow>
          let cpaths = fold (\<lambda>(k, v). cp_put k v) (tp_physicalPathConfig t) [];
              cpaths = (case pathConfig of Some pc \<Rightarrow> cp_put n (pc_clamp pc) cpaths | None \<Rightarrow> cp_erase n cpaths)
          in t\<lparr>tp_physicalPathConfig := take 32 cpaths\<rparr>)"

fun path_search :: "inet \<Rightarrow> (inet \<times> path_config) list \<Rightarrow> path_config option res" where
  "path_search a [] = Inr None"
| "path_search a ((n, c) # cs) =
     res_bind (inet_containsAddress n a) (\<lambda>y. if y then Inr (Some c) else path_search a cs)"

definition getOutboundPathInfo :: "inet \<Rightarrow> u32 \<Rightarrow> u64 \<Rightarrow> topology \<Rightarrow> (u32 \<times> u64) res" where
  "getOutboundPathInfo a mtu trustedPathId t =
     res_bind (path_search a (tp_physicalPathConfig t)) (\<lambda>r.
     Inr (case r of Some c \<Rightarrow> (pc_mtu c, pc_trustedPathId c) | None \<Rightarrow> (mtu, trustedPathId)))"

definition getOutboundPathMtu :: "inet \<Rightarrow> topology \<Rightarrow> u32 res" where
  "getOutboundPathMtu a t =
     res_bind (path_search a (tp_physicalPathConfig t)) (\<lambda>r. Inr (case r of Some c \<Rightarrow> pc_mtu c | None \<Rightarrow> 1444))"

definition getOutboundPathTrust :: "inet \<Rightarrow> topology \<Rightarrow> u64 res" where
  "getOutboundPathTrust a t =
     res_bind (path_search a (tp_physicalPathConfig t)) (\<lambda>r. Inr (case r of Some c \<Rightarrow> pc_trustedPathId c | None \<Rightarrow> 0))"

fun path_trusted :: "inet \<Rightarrow> u64 \<Rightarrow> (inet \<times> path_config) list \<Rightarrow> bool res" where
  "path_trusted a i [] = Inr False"
| "path_trusted a i ((n, c) # cs) =
     (if pc_trustedPathId c = i then
        res_bind (inet_containsAddress n a) (\<lambda>y. if y then Inr True else path_trusted a i cs)
      else path_trusted a i cs)"

definition shouldInboundPathBeTrusted :: "inet \<Rightarrow> u64 \<Rightarrow> topology \<Rightarrow> bool res" where
  "shouldInboundPathBeTrusted a i t = path_trusted a i (tp_physicalPathConfig t)"

end
