(* ===== verification/Topology_Laws.thy ===== *)
theory Topology_Laws
  imports Zt_Topology
begin

text \<open>
  The topology as a state machine: whatever worlds arrive, the list of upstreams is the one the current
  planet and moons give, and the planet only changes along updates signed with the key that the planet
  before names.
\<close>

section \<open>Recomputing the upstreams\<close>

definition env_ok :: "topo_env \<Rightarrow> bool" where
  "env_ok e \<longleftrightarrow> id_hasPrivate (te_self e) \<and> length (te_mem e) = ZT_WORLD_MAX_SERIALIZED_LENGTH"

definition others :: "topo_env \<Rightarrow> root list \<Rightarrow> address set" where
  "others e rs = (\<lambda>r. id_address (ro_identity r)) ` {r \<in> set rs. \<not> id_eq (ro_identity r) (te_self e)}"

lemma others_simps [simp]:
  "others e [] = {}" "others e (xs @ ys) = others e xs \<union> others e ys"
  "others e (r # rs) = (if id_eq (ro_identity r) (te_self e) then others e rs else insert (id_address (ro_identity r)) (others e rs))"
  by (auto simp: others_def)

definition is_root :: "topo_env \<Rightarrow> root list \<Rightarrow> bool" where
  "is_root e rs \<longleftrightarrow> (\<exists>r \<in> set rs. id_eq (ro_identity r) (te_self e))"

definition all_roots :: "topology \<Rightarrow> root list" where
  "all_roots t = wo_roots (tp_planet t) @ concat (map wo_roots (tp_moons t))"

text \<open>What the recomputation keeps.\<close>

definition topo_same :: "topology \<Rightarrow> topology \<Rightarrow> bool" where
  "topo_same t t' \<longleftrightarrow> tp_planet t' = tp_planet t \<and> tp_moons t' = tp_moons t \<and> tp_moonSeeds t' = tp_moonSeeds t \<and>
     tp_physicalPathConfig t' = tp_physicalPathConfig t \<and> (\<forall>a i. tp_peers t a = Some i \<longrightarrow> tp_peers t' a = Some i)"

lemma topo_same_trans: "topo_same t u \<Longrightarrow> topo_same u v \<Longrightarrow> topo_same t v"
  by (simp add: topo_same_def)

lemma memo_roots_append: "memo_roots e (xs @ ys) t = res_bind (memo_roots e xs t) (memo_roots e ys)"
  by (induction e xs t rule: memo_roots.induct) (auto simp: Let_def res_bind_assoc split: option.splits res_bind_splits)

lemma memo_moons_eq: "memo_moons e ms t = memo_roots e (concat (map wo_roots ms)) t"
proof (induction ms arbitrary: t)
  case (Cons m ms)
  then have "memo_moons e ms = memo_roots e (concat (map wo_roots ms))" by (intro ext)
  then show ?case by (simp add: memo_roots_append)
qed simp

lemma memo_roots_law:
  assumes "id_hasPrivate (te_self e)" "distinct (tp_upstreamAddresses t)"
    and "\<forall>a \<in> set (tp_upstreamAddresses t). tp_peers t a \<noteq> None"
  shows "\<exists>t'. memo_roots e rs t = Inr t' \<and> topo_same t t' \<and> distinct (tp_upstreamAddresses t') \<and>
    set (tp_upstreamAddresses t') = set (tp_upstreamAddresses t) \<union> others e rs \<and>
    tp_amUpstream t' = (tp_amUpstream t \<or> is_root e rs) \<and> (\<forall>a \<in> set (tp_upstreamAddresses t'). tp_peers t' a \<noteq> None)"
  using assms
proof (induction rs arbitrary: t)
  case Nil
  then show ?case by (simp add: topo_same_def is_root_def)
next
  case (Cons r rs)
  obtain k where "id_privateKey (te_self e) = Some k" using Cons.prems(1) by (auto simp: id_hasPrivate_def)
  then have new: "peer_new e (ro_identity r) = Inr (ro_identity r)" by (simp add: peer_new_def id_agree_def)
  let ?a = "id_address (ro_identity r)"
  let ?u = "t\<lparr>tp_upstreamAddresses := tp_upstreamAddresses t @ [?a]\<rparr>"
  consider "id_eq (ro_identity r) (te_self e)"
    | "\<not> id_eq (ro_identity r) (te_self e)" "?a \<in> set (tp_upstreamAddresses t)"
    | i where "\<not> id_eq (ro_identity r) (te_self e)" "?a \<notin> set (tp_upstreamAddresses t)" "tp_peers t ?a = Some i"
    | "\<not> id_eq (ro_identity r) (te_self e)" "?a \<notin> set (tp_upstreamAddresses t)" "tp_peers t ?a = None"
    by (cases "tp_peers t ?a") auto
  then show ?case
  proof cases
    case 1
    then show ?thesis using Cons.IH [of "t\<lparr>tp_amUpstream := True\<rparr>"] Cons.prems by (auto simp: is_root_def topo_same_def)
  next
    case 2
    then show ?thesis using Cons.IH [of t] Cons.prems by (auto simp: is_root_def topo_same_def)
  next
    case 3
    then show ?thesis using Cons.IH [of ?u] Cons.prems by (auto simp: is_root_def topo_same_def Let_def)
  next
    case 4
    let ?v = "?u\<lparr>tp_peers := (tp_peers t)(?a \<mapsto> ro_identity r)\<rparr>"
    have "distinct (tp_upstreamAddresses ?v)" "\<forall>a \<in> set (tp_upstreamAddresses ?v). tp_peers ?v a \<noteq> None"
      using Cons.prems 4(2) by auto
    from Cons.IH [OF Cons.prems(1) this] obtain t' where
      t': "memo_roots e rs ?v = Inr t'" "topo_same ?v t'" "distinct (tp_upstreamAddresses t')"
      "set (tp_upstreamAddresses t') = set (tp_upstreamAddresses ?v) \<union> others e rs"
      "tp_amUpstream t' = (tp_amUpstream ?v \<or> is_root e rs)" "\<forall>a \<in> set (tp_upstreamAddresses t'). tp_peers t' a \<noteq> None"
      by blast
    have "tp_peers t' a = Some i" if "tp_peers t a = Some i" for a i
    proof -
      have "tp_peers ?v a = Some i" using that 4(3) by auto
      with t'(2) show ?thesis by (simp add: topo_same_def)
    qed
    with t'(2) have "topo_same t t'" by (simp add: topo_same_def)
    moreover have "memo_roots e (r # rs) t = Inr t'" using 4 new t'(1) by (simp add: Let_def)
    moreover have "others e (r # rs) = insert ?a (others e rs)" "is_root e (r # rs) = is_root e rs"
      using 4(1) by (simp_all add: is_root_def)
    ultimately show ?thesis using t' by auto
  qed
qed

text \<open>The upstreams are the roots of the planet and of the moons other than this node.\<close>

definition topo_consistent :: "topo_env \<Rightarrow> topology \<Rightarrow> bool" where
  "topo_consistent e t \<longleftrightarrow> sorted (tp_upstreamAddresses t) \<and> distinct (tp_upstreamAddresses t) \<and>
     set (tp_upstreamAddresses t) = others e (all_roots t) \<and> tp_amUpstream t = is_root e (all_roots t) \<and>
     (\<forall>a \<in> set (tp_upstreamAddresses t). tp_peers t a \<noteq> None)"

lemma memoizeUpstreams_law:
  assumes "id_hasPrivate (te_self e)"
  shows "\<exists>t'. memoizeUpstreams e t = Inr t' \<and> topo_consistent e t' \<and> topo_same t t'"
proof -
  let ?t = "t\<lparr>tp_upstreamAddresses := [], tp_amUpstream := False\<rparr>"
  from memo_roots_law [OF assms, of ?t "wo_roots (tp_planet t)"] obtain t1 where
    t1: "memo_roots e (wo_roots (tp_planet t)) ?t = Inr t1" "topo_same ?t t1" "distinct (tp_upstreamAddresses t1)"
    "set (tp_upstreamAddresses t1) = others e (wo_roots (tp_planet t))" "tp_amUpstream t1 = is_root e (wo_roots (tp_planet t))"
    "\<forall>a \<in> set (tp_upstreamAddresses t1). tp_peers t1 a \<noteq> None"
    by auto
  from memo_roots_law [OF assms t1(3,6), of "concat (map wo_roots (tp_moons t1))"] obtain t2 where
    t2: "memo_moons e (tp_moons t1) t1 = Inr t2" "topo_same t1 t2" "distinct (tp_upstreamAddresses t2)"
    "set (tp_upstreamAddresses t2) = set (tp_upstreamAddresses t1) \<union> others e (concat (map wo_roots (tp_moons t1)))"
    "tp_amUpstream t2 = (tp_amUpstream t1 \<or> is_root e (concat (map wo_roots (tp_moons t1))))"
    "\<forall>a \<in> set (tp_upstreamAddresses t2). tp_peers t2 a \<noteq> None"
    unfolding memo_moons_eq by blast
  let ?r = "t2\<lparr>tp_upstreamAddresses := sort (tp_upstreamAddresses t2)\<rparr>"
  have same: "topo_same t ?r" using t1(2) t2(2) by (simp add: topo_same_def)
  have "all_roots ?r = wo_roots (tp_planet t) @ concat (map wo_roots (tp_moons t1))"
    using t1(2) t2(2) by (simp add: all_roots_def topo_same_def)
  then have "topo_consistent e ?r" using t1 t2 by (auto simp: topo_consistent_def is_root_def)
  with same t1(1) t2(1) show ?thesis by (simp add: memoizeUpstreams_def)
qed

section \<open>Accepting a world\<close>

lemma world_stored:
  assumes "world_shape w" "length mem = ZT_WORLD_MAX_SERIALIZED_LENGTH"
  shows "ser_bytes (world_serialize False w) mem = Inr (world_enc w)"
proof -
  have "length (world_enc w) \<le> length (world_msg w) + 96"
    using assms(1) by (simp add: world_enc_def world_msg_def world_shape_def)
  with length_world_msg [OF assms(1)] world_serialize_appends [OF assms(1), of False] assms(2) show ?thesis
    by (intro ser_bytes_appends) simp_all
qed

lemma world_accepted_law:
  assumes "env_ok e" "world_shape w"
  shows "\<exists>t'. world_accepted e w t = Inr (True, t', [StatePut (wo_type w) (wo_id w) (world_enc w)]) \<and>
    topo_consistent e t' \<and> topo_same t t'"
  using memoizeUpstreams_law [of e t] world_stored [OF assms(2), of "te_mem e"] assms(1)
  by (auto simp: env_ok_def world_accepted_def)

text \<open>How a world may follow another one in the same place: it is the update that one authorises.\<close>

definition world_follows :: "crypto \<Rightarrow> world \<Rightarrow> world \<Rightarrow> bool" where
  "world_follows C w u \<longleftrightarrow> wo_id w = 0 \<or> wo_type w = TYPE_NULL \<or> world_successor C w u"

lemma moon_index_Some: "moon_index i ms = Some k \<Longrightarrow> k < length ms \<and> wo_id (ms ! k) = i"
  by (induction ms arbitrary: k) (auto split: if_splits)

text \<open>What \<open>addWorld\<close> did to the worlds, in terms of what it was given.\<close>

definition world_added :: "topo_env \<Rightarrow> world \<Rightarrow> bool \<Rightarrow> topology \<Rightarrow> topology \<Rightarrow> bool" where
  "world_added e w always t t' \<longleftrightarrow>
     (wo_type w = TYPE_PLANET \<and> world_follows (te_crypto e) (tp_planet t) w \<and> tp_planet t' = w \<and> tp_moons t' = tp_moons t \<or>
      wo_type w = TYPE_MOON \<and> tp_planet t' = tp_planet t \<and>
      ((\<exists>i < length (tp_moons t). wo_id (tp_moons t ! i) = wo_id w \<and> world_follows (te_crypto e) (tp_moons t ! i) w \<and>
          tp_moons t' = (tp_moons t)[i := w]) \<or>
       (always \<or> (\<exists>r \<in> set (wo_roots w). (wo_id w, id_address (ro_identity r)) \<in> set (tp_moonSeeds t))) \<and>
          tp_moons t' = tp_moons t @ [w]))"

lemma take_seed_Some: "take_seed w ss = Some ss' \<Longrightarrow> \<exists>r \<in> set (wo_roots w). (wo_id w, id_address (ro_identity r)) \<in> set ss"
proof (induction ss arbitrary: ss')
  case (Cons s ss)
  then show ?case by (cases s) (auto split: if_splits)
qed simp

lemma addWorld_law:
  assumes e: "env_ok e" and w: "world_shape w" and t: "topo_consistent e t"
  shows "\<exists>ok t' ev. addWorld e w always t = Inr (ok, t', ev) \<and> topo_consistent e t' \<and>
    (if ok then world_added e w always t t' else t' = t)"
proof -
  note accept = world_accepted_law [OF e w]
  have mem: "length (te_mem e) = ZT_WORLD_MAX_SERIALIZED_LENGTH" using e by (simp add: env_ok_def)
  note rep = shouldBeReplacedBy_law [OF w mem, where C = "te_crypto e", folded world_follows_def]
  have reject: ?thesis if "addWorld e w always t = Inr (False, t, [])" using that t by (intro exI conjI) auto
  show ?thesis
  proof (cases "wo_type w")
    case TYPE_NULL
    then show ?thesis by (intro reject) (simp add: addWorld_def)
  next
    case TYPE_PLANET
    then show ?thesis
      using reject accept [of "t\<lparr>tp_planet := w\<rparr>"] rep [of "tp_planet t"] t
      by (cases "world_follows (te_crypto e) (tp_planet t) w") (auto simp: addWorld_def world_added_def topo_same_def)
  next
    case TYPE_MOON
    show ?thesis
    proof (cases "moon_index (wo_id w) (tp_moons t)")
      case (Some i)
      then show ?thesis
        using reject accept [of "t\<lparr>tp_moons := (tp_moons t)[i := w]\<rparr>"] rep [of "tp_moons t ! i"] t TYPE_MOON moon_index_Some [OF Some]
        by (cases "world_follows (te_crypto e) (tp_moons t ! i) w") (auto simp: addWorld_def world_added_def topo_same_def)
    next
      case None
      show ?thesis
      proof (cases "\<not> always \<and> take_seed w (tp_moonSeeds t) = None")
        case True
        with None TYPE_MOON show ?thesis by (intro reject) (simp add: addWorld_def)
      next
        case False
        then show ?thesis
          using accept [of "t\<lparr>tp_moons := tp_moons t @ [w]\<rparr>"] take_seed_Some [of w "tp_moonSeeds t"] None TYPE_MOON
            accept [of "t\<lparr>tp_moonSeeds := the (take_seed w (tp_moonSeeds t)), tp_moons := tp_moons t @ [w]\<rparr>"]
          by (cases always) (auto simp: addWorld_def world_added_def topo_same_def)
      qed
    qed
  qed
qed

lemma addWorld_planet:
  assumes e: "env_ok e" and w: "world_shape w" "wo_type w = TYPE_PLANET" and t: "topo_consistent e t"
  defines "ok \<equiv> world_follows (te_crypto e) (tp_planet t) w"
  shows "\<exists>t' ev. addWorld e w always t = Inr (ok, t', ev) \<and> topo_consistent e t' \<and>
    tp_planet t' = (if ok then w else tp_planet t) \<and> tp_moons t' = tp_moons t"
  using world_accepted_law [OF e w(1), of "t\<lparr>tp_planet := w\<rparr>"] shouldBeReplacedBy_law [OF w(1), of "te_mem e" "te_crypto e" "tp_planet t"] e t w(2)
  by (cases ok) (auto simp: addWorld_def ok_def world_follows_def env_ok_def topo_same_def)

section \<open>Runs\<close>

lemma world_parse_buf:
  assumes "length bs \<le> length mem" "length mem < 2 ^ 31"
  shows "world_parse mem bs = res_bind (world_deserialize \<lparr>b_data = bs @ drop (length bs) mem, b_len = of_nat (length bs)\<rparr> 0)
      (\<lambda>(w, _). Inr w)"
    and "buf_ok \<lparr>b_data = bs @ drop (length bs) mem, b_len = of_nat (length bs)\<rparr>"
  using assms by (simp_all add: world_parse_def buf_copyFrom_def buf_new_def b_cap_def word_nat memcpy_ok buf_ok_def)

lemma world_parse_safe:
  assumes "length bs \<le> length mem" "length mem < 2 ^ 31"
  shows "res_all world_shape (world_parse mem bs)"
proof -
  note B = world_parse_buf [OF assms]
  have "pos_ok 0" by (simp add: pos_ok_def)
  from world_deserialize_safe [OF B(2) this] show ?thesis
    unfolding B(1) by (rule bind_safe) auto
qed

datatype topo_op =
    AddWorld world bool
  | AddMoon bytes u64 address
  | RemoveMoon u64
  | AddPeer identity
  | GetPeer "address \<Rightarrow> identity option" address
  | Clean "address \<Rightarrow> bool"
  | SetPath "inet option" "path_config option"

fun topo_step :: "topo_env \<Rightarrow> topo_op \<Rightarrow> topology \<Rightarrow> topology res" where
  "topo_step e (AddWorld w always) t = res_bind (addWorld e w always t) (\<lambda>(_, t, _). Inr t)"
| "topo_step e (AddMoon stored i seed) t = res_bind (addMoon e stored i seed t) (\<lambda>(_, t, _). Inr t)"
| "topo_step e (RemoveMoon i) t = res_bind (removeMoon e i t) (\<lambda>(_, t, _). Inr t)"
| "topo_step e (AddPeer p) t = Inr (snd (addPeer p t))"
| "topo_step e (GetPeer cached a) t = Inr (snd (getPeer e cached a t))"
| "topo_step e (Clean alive) t = Inr (topo_clean alive t)"
| "topo_step e (SetPath n c) t = Inr (setPhysicalPathConfiguration n c t)"

fun topo_run :: "topo_env \<Rightarrow> topo_op list \<Rightarrow> topology \<Rightarrow> topology res" where
  "topo_run e [] t = Inr t"
| "topo_run e (op # ops) t = res_bind (topo_step e op t) (topo_run e ops)"

text \<open>Worlds come from the parser, and what the storage returns fits the array it is read into.\<close>

fun op_ok :: "topo_op \<Rightarrow> bool" where
  "op_ok (AddWorld w always) = world_shape w"
| "op_ok (AddMoon stored i seed) = (length stored \<le> ZT_WORLD_MAX_SERIALIZED_LENGTH)"
| "op_ok _ = True"

text \<open>The planet after a step is the one before, or an update that it authorises.\<close>

definition planet_kept :: "topo_env \<Rightarrow> topology \<Rightarrow> topology \<Rightarrow> bool" where
  "planet_kept e t t' \<longleftrightarrow> tp_planet t' = tp_planet t \<or> world_follows (te_crypto e) (tp_planet t) (tp_planet t')"

lemma world_added_planet: "world_added e w always t t' \<Longrightarrow> planet_kept e t t'"
  by (auto simp: world_added_def planet_kept_def)

lemma addWorld_kept:
  assumes "env_ok e" "world_shape w" "topo_consistent e t"
  shows "\<exists>ok t' ev. addWorld e w always t = Inr (ok, t', ev) \<and> topo_consistent e t' \<and> planet_kept e t t'"
proof -
  from addWorld_law [OF assms, of always] obtain ok t' ev where
    "addWorld e w always t = Inr (ok, t', ev)" "topo_consistent e t'" "if ok then world_added e w always t t' else t' = t"
    by blast
  moreover from this(3) have "planet_kept e t t'"
    using world_added_planet [of e w always t t'] by (cases ok) (simp_all add: planet_kept_def)
  ultimately show ?thesis by blast
qed

lemma consistent_cong:
  assumes "topo_consistent e t" "tp_planet t' = tp_planet t" "tp_moons t' = tp_moons t"
    and "tp_upstreamAddresses t' = tp_upstreamAddresses t" "tp_amUpstream t' = tp_amUpstream t"
    and "\<forall>a \<in> set (tp_upstreamAddresses t). tp_peers t a \<noteq> None \<longrightarrow> tp_peers t' a \<noteq> None"
  shows "topo_consistent e t' \<and> planet_kept e t t'"
  using assms by (simp add: topo_consistent_def all_roots_def planet_kept_def)

lemma topo_step_law:
  assumes e: "env_ok e" and op: "op_ok op" and t: "topo_consistent e t"
  shows "\<exists>t'. topo_step e op t = Inr t' \<and> topo_consistent e t' \<and> planet_kept e t t'"
proof (cases op)
  case (AddWorld w always)
  then show ?thesis using addWorld_kept [OF e _ t, of w always] op by auto
next
  case (AddMoon stored i seed)
  define u where "u = (if seed \<noteq> Address 0 \<and> (i, seed) \<notin> set (tp_moonSeeds t) then t\<lparr>tp_moonSeeds := tp_moonSeeds t @ [(i, seed)]\<rparr> else t)"
  have u: "topo_consistent e u \<and> planet_kept e t u" using t by (intro consistent_cong) (simp_all add: u_def)
  have "res_all world_shape (world_parse (te_mem e) stored)"
    using e op AddMoon by (intro world_parse_safe) (simp_all add: env_ok_def)
  then consider "world_parse (te_mem e) stored \<in> range Inl" "world_parse (te_mem e) stored \<noteq> Inl UndefinedBehaviour"
    | w where "world_parse (te_mem e) stored = Inr w" "world_shape w"
    by (cases "world_parse (te_mem e) stored") auto
  then show ?thesis
  proof cases
    case 1
    then show ?thesis using u AddMoon by (auto simp: addMoon_def u_def Let_def split: zt_error.splits)
  next
    case 2
    then show ?thesis
      using u AddMoon addWorld_kept [OF e 2(2) t, of True] by (auto simp: addMoon_def u_def Let_def)
  qed
next
  case (RemoveMoon i)
  let ?t = "t\<lparr>tp_moons := filter (\<lambda>m. wo_id m \<noteq> i) (tp_moons t), tp_moonSeeds := filter (\<lambda>s. fst s \<noteq> i) (tp_moonSeeds t)\<rparr>"
  from memoizeUpstreams_law [of e ?t] e RemoveMoon show ?thesis
    by (auto simp: removeMoon_def env_ok_def topo_same_def planet_kept_def)
next
  case (AddPeer p)
  then show ?thesis using consistent_cong [OF t, of "snd (addPeer p t)"] by (auto simp: addPeer_def split: option.splits)
next
  case (GetPeer cached a)
  then show ?thesis using consistent_cong [OF t, of "snd (getPeer e cached a t)"] by (auto simp: getPeer_def split: option.splits)
next
  case (Clean alive)
  then show ?thesis using consistent_cong [OF t, of "topo_clean alive t"] by (auto simp: topo_clean_def)
next
  case (SetPath n c)
  then show ?thesis using consistent_cong [OF t, of "setPhysicalPathConfiguration n c t"]
    by (auto simp: setPhysicalPathConfiguration_def Let_def split: option.splits)
qed

text \<open>The planets that can follow one another: each is newer and signed with the key the one before names.\<close>

inductive world_chain :: "crypto \<Rightarrow> world \<Rightarrow> world \<Rightarrow> bool" for C where
  chain_refl: "world_chain C w w"
| chain_step: "world_chain C w u \<Longrightarrow> world_successor C u v \<Longrightarrow> world_chain C w v"

lemma world_chain_facts:
  "world_chain C w u \<Longrightarrow> wo_id u = wo_id w \<and> wo_type u = wo_type w \<and> wo_ts w \<le> wo_ts u"
  by (induction rule: world_chain.induct) (auto simp: world_successor_def)

lemma topo_run_law:
  assumes e: "env_ok e" and w: "wo_id w \<noteq> 0" "wo_type w \<noteq> TYPE_NULL"
  shows "\<forall>op \<in> set ops. op_ok op \<Longrightarrow> topo_consistent e t \<Longrightarrow> world_chain (te_crypto e) w (tp_planet t) \<Longrightarrow>
    \<exists>t'. topo_run e ops t = Inr t' \<and> topo_consistent e t' \<and> world_chain (te_crypto e) w (tp_planet t')"
proof (induction ops arbitrary: t)
  case (Cons op ops)
  from topo_step_law [OF e _ Cons.prems(2), of op] Cons.prems(1) obtain t1 where
    t1: "topo_step e op t = Inr t1" "topo_consistent e t1" "planet_kept e t t1"
    by auto
  have "world_chain (te_crypto e) w (tp_planet t1)"
    using t1(3) Cons.prems(3) world_chain_facts [OF Cons.prems(3)] w
    by (auto simp: planet_kept_def world_follows_def intro: chain_step)
  from Cons.IH [OF _ t1(2) this] Cons.prems(1) t1(1) show ?case by auto
qed simp

section \<open>Roles and endpoints\<close>

definition endpoint_allowed :: "address \<Rightarrow> inet \<Rightarrow> root \<Rightarrow> bool" where
  "endpoint_allowed a ip r \<longleftrightarrow> id_address (ro_identity r) = a \<and>
     (ro_stableEndpoints r = [] \<or> (\<exists>ep \<in> set (ro_stableEndpoints r). inet_ipsEqual ip ep))"

lemma roots_permit_iff: "roots_permit a ip rs \<longleftrightarrow> (\<exists>r \<in> set rs. endpoint_allowed a ip r)"
  by (induction rs) (auto simp: endpoint_allowed_def list_ex_iff)

lemma topo_roles:
  assumes "set (tp_upstreamAddresses t) = others e (all_roots t)"
  shows "topo_role a t = ROLE_PLANET \<longleftrightarrow>
      a \<in> others e (all_roots t) \<and> (\<exists>r \<in> set (wo_roots (tp_planet t)). id_address (ro_identity r) = a)"
    and "topo_role a t = ROLE_MOON \<longleftrightarrow>
      a \<in> others e (concat (map wo_roots (tp_moons t))) \<and>
      \<not> (\<exists>r \<in> set (wo_roots (tp_planet t)). id_address (ro_identity r) = a)"
    and "topo_role a t = ROLE_LEAF \<longleftrightarrow> a \<notin> others e (all_roots t)"
  using assms by (auto simp: topo_role_def all_roots_def others_def)

lemma isProhibitedEndpoint_iff:
  "isProhibitedEndpoint a ip t \<longleftrightarrow> a \<in> set (tp_upstreamAddresses t) \<and> \<not> (\<exists>r \<in> set (all_roots t). endpoint_allowed a ip r)"
  by (auto simp: isProhibitedEndpoint_def roots_permit_iff list_ex_iff all_roots_def)

end
