(* ===== verification/Default_Planet.thy ===== *)
theory Default_Planet
  imports Topology_Laws
begin

text \<open>
  The planet compiled into \<^verbatim>\<open>node/Topology.cpp\<close> as an object: two roots of twelve endpoints each.  Its
  encoding is the array in the source, so that the constructor's parse of the array succeeds.
\<close>

definition ep4 :: "bytes \<Rightarrow> inet" where
  "ep4 ip = inet_nil\<lparr>ss_family := AF_INET, sin_port := hton 9993, sin_addr := le_word ip\<rparr>"

definition ep6 :: "bytes \<Rightarrow> inet" where
  "ep6 ip = inet_nil\<lparr>ss_family := AF_INET6, sin_port := hton 9993, sin6_addr := ip\<rparr>"

definition root_alice :: root where
  "root_alice = \<lparr>ro_identity = \<lparr>id_address = Address 0x9d219039f3, id_publicKey =
     [0x01, 0xf0, 0x92, 0x2a, 0x98, 0xe3, 0xb3, 0x4e, 0xbc, 0xbf, 0xf3, 0x33, 0x26, 0x9d, 0xc2, 0x65, 0xd7, 0xa0,
     0x20, 0xaa, 0xb6, 0x9d, 0x72, 0xbe, 0x4d, 0x4a, 0xcc, 0x9c, 0x8c, 0x92, 0x94, 0x78, 0x57, 0x71, 0x25, 0x6c,
     0xd1, 0xd9, 0x42, 0xa9, 0x0d, 0x1b, 0xd1, 0xd2, 0xdc, 0xa3, 0xea, 0x84, 0xef, 0x7d, 0x85, 0xaf, 0xe6, 0x61,
     0x1f, 0xb4, 0x3f, 0xf0, 0xb7, 0x41, 0x26, 0xd9, 0x0a, 0x6e], id_privateKey = None\<rparr>,
     ro_stableEndpoints = [
       ep4 [0xbc, 0xa6, 0x5e, 0xb1],
       ep6 [0x2a, 0x03, 0xb0, 0xc0, 0x00, 0x02, 0x00, 0xd0, 0x00, 0x7d, 0x00, 0x01, 0x00, 0x00, 0x00, 0x00],
       ep4 [0x9a, 0x42, 0xc5, 0x21],
       ep6 [0x2c, 0x0f, 0xf8, 0x50, 0x01, 0x54, 0x01, 0x97, 0x00, 0x33, 0xcc, 0x08, 0xf8, 0xfa, 0xcc, 0x08],
       ep4 [0x9f, 0xcb, 0x61, 0xab],
       ep6 [0x26, 0x04, 0xa8, 0x80, 0x08, 0x00, 0x00, 0xa1, 0x00, 0x54, 0x60, 0x01, 0x00, 0xfc, 0xcc, 0x08],
       ep4 [0x83, 0xff, 0x06, 0x10],
       ep6 [0x28, 0x03, 0xeb, 0x80, 0x00, 0x00, 0x00, 0x0e, 0x00, 0x02, 0x60, 0x01, 0x00, 0xfc, 0xcc, 0x08],
       ep4 [0x6b, 0xaa, 0xc5, 0x0e],
       ep6 [0x26, 0x04, 0xa8, 0x80, 0x00, 0x01, 0x00, 0x20, 0x02, 0x00, 0xe0, 0x01, 0x08, 0xfe, 0xcc, 0x08],
       ep4 [0x80, 0xc7, 0xc5, 0xd9],
       ep6 [0x24, 0x00, 0x61, 0x80, 0x00, 0x00, 0x00, 0xd0, 0x00, 0xb7, 0x40, 0x01, 0x08, 0xfe, 0xcc, 0x08]]\<rparr>"

definition root_bob :: root where
  "root_bob = \<lparr>ro_identity = \<lparr>id_address = Address 0x8841408a2e, id_publicKey =
     [0xbb, 0x1d, 0x31, 0xf2, 0xc3, 0x23, 0xe2, 0x64, 0xe9, 0xe6, 0x41, 0x72, 0xc1, 0xa7, 0x4f, 0x77, 0x89, 0x95,
     0x55, 0xed, 0x10, 0x75, 0x1c, 0xd5, 0x6e, 0x86, 0x40, 0x5c, 0xde, 0x11, 0x8d, 0x02, 0xdf, 0xfe, 0x55, 0x5d,
     0x46, 0x2c, 0xcf, 0x6a, 0x85, 0xb5, 0x63, 0x1c, 0x12, 0x35, 0x0c, 0x8d, 0x5d, 0xc4, 0x09, 0xba, 0x10, 0xb9,
     0x02, 0x5d, 0x0f, 0x44, 0x5c, 0xf4, 0x49, 0xd9, 0x2b, 0x1c], id_privateKey = None\<rparr>,
     ro_stableEndpoints = [
       ep4 [0x2d, 0x20, 0xc6, 0x82],
       ep6 [0x20, 0x01, 0x19, 0xf0, 0x64, 0x00, 0x81, 0xc3, 0x54, 0x00, 0x00, 0xff, 0xfe, 0x18, 0x1d, 0x61],
       ep4 [0x2e, 0x65, 0xa0, 0xf9],
       ep6 [0x2a, 0x03, 0xb0, 0xc0, 0x00, 0x03, 0x00, 0xd0, 0x00, 0x6a, 0x30, 0x01, 0x78, 0x00, 0xcd, 0x08],
       ep4 [0x6b, 0xbf, 0x2e, 0xd2],
       ep6 [0x20, 0x01, 0x19, 0xf0, 0x68, 0x00, 0x83, 0xa4, 0x00, 0x64, 0xcd, 0x08, 0x80, 0x01, 0xcd, 0x08],
       ep4 [0x2d, 0x20, 0xf6, 0xb3],
       ep6 [0x20, 0x01, 0x19, 0xf0, 0x58, 0x00, 0x8b, 0xf8, 0x54, 0x00, 0x00, 0xff, 0xfe, 0x15, 0xb3, 0x9a],
       ep4 [0x2d, 0x20, 0xf8, 0x57],
       ep6 [0x20, 0x01, 0x19, 0xf0, 0x70, 0x00, 0x9b, 0xc9, 0x54, 0x00, 0x00, 0xff, 0xfe, 0x15, 0xc4, 0xf5],
       ep4 [0x9f, 0xcb, 0x02, 0x9a],
       ep6 [0x26, 0x04, 0xa8, 0x80, 0x0c, 0xad, 0x00, 0xd0, 0x00, 0x26, 0x70, 0x01, 0xfe, 0x15, 0xc4, 0xf5]]\<rparr>"

definition default_planet :: world where
  "default_planet = \<lparr>wo_id = 0x8eac90a, wo_ts = 0x164d371f058, wo_type = TYPE_PLANET, wo_updatesMustBeSignedBy =
     [0xb8, 0xb3, 0x88, 0xa4, 0x69, 0x22, 0x14, 0x91, 0xaa, 0x9a, 0xcd, 0x66, 0xcc, 0x76, 0x4c, 0xde, 0xfd, 0x56,
     0x03, 0x9f, 0x10, 0x67, 0xae, 0x15, 0xe6, 0x9c, 0x6f, 0xb4, 0x2d, 0x7b, 0x55, 0x33, 0x0e, 0x3f, 0xda, 0xac,
     0x52, 0x9c, 0x07, 0x92, 0xfd, 0x73, 0x40, 0xa6, 0xaa, 0x21, 0xab, 0xa8, 0xa4, 0x89, 0xfd, 0xae, 0xa4, 0x4a,
     0x39, 0xbf, 0x2d, 0x00, 0x65, 0x9a, 0xc9, 0xc8, 0x18, 0xeb], wo_signature =
     [0xbf, 0xfd, 0xd5, 0x32, 0xf7, 0x15, 0x6e, 0x02, 0x6f, 0xb9, 0x01, 0x0d, 0xb5, 0x7b, 0x04, 0xd8, 0x3a, 0xc5,
     0x17, 0x39, 0x04, 0x36, 0xfd, 0x9d, 0xc6, 0x3d, 0xa8, 0xf3, 0x8e, 0x79, 0xe7, 0xc8, 0x77, 0x8d, 0xcc, 0x79,
     0xb8, 0xab, 0xc6, 0x98, 0x7c, 0x9f, 0x34, 0x25, 0x14, 0xe1, 0x2f, 0xd7, 0x97, 0x11, 0xec, 0x34, 0x4c, 0x9f,
     0x0f, 0xb4, 0x85, 0x0d, 0x9b, 0x11, 0xd1, 0xc2, 0xce, 0x00, 0xc4, 0x0a, 0x13, 0x4b, 0xcb, 0xc3, 0xae, 0x2e,
     0x16, 0x00, 0x4b, 0xdc, 0x90, 0x5e, 0x7e, 0x9b, 0x44, 0x07, 0x15, 0x36, 0x61, 0x3c, 0x64, 0xaa, 0xe9, 0x46,
     0x78, 0x3c, 0xa7, 0x18, 0xc8, 0xd8], wo_roots = [root_alice, root_bob]\<rparr>"

lemma endpoint_enc:
  "length ip = 4 \<Longrightarrow> inet_enc (ep4 ip) = 4 # ip @ [0x27, 0x09]" "inet_enc (ep6 ip) = 6 # ip @ [0x27, 0x09]"
proof -
  have p: "word_bytes_be (9993 :: u16) = [0x27, 0x09]" by code_simp
  show "length ip = 4 \<Longrightarrow> inet_enc (ep4 ip) = 4 # ip @ [0x27, 0x09]" "inet_enc (ep6 ip) = 6 # ip @ [0x27, 0x09]"
    by (simp_all add: inet_enc_def ep4_def ep6_def p le_bytes_le_word)
qed

lemma endpoint_canonical: "inet_canonical (ep4 ip)" "length ip = 16 \<Longrightarrow> inet_canonical (ep6 ip)"
  by (simp_all add: inet_canonical_def ep4_def ep6_def)

lemma default_planet_ok: "world_ok default_planet"
  by (simp add: world_ok_def world_shape_def root_shape_def default_planet_def root_alice_def root_bob_def id_ok_def
      addr_ok_def endpoint_canonical)

lemma default_planet_enc: "world_enc default_planet = ZT_DEFAULT_WORLD"
proof -
  have a: "addr_bytes (Address 0x9d219039f3) = [0x9d, 0x21, 0x90, 0x39, 0xf3]" "addr_bytes (Address 0x8841408a2e) = [0x88, 0x41, 0x40, 0x8a, 0x2e]"
    "word_bytes_be (0x8eac90a :: u64) = [0x00, 0x00, 0x00, 0x00, 0x08, 0xea, 0xc9, 0x0a]" "word_bytes_be (0x164d371f058 :: u64) = [0x00, 0x00, 0x01, 0x64, 0xd3, 0x71, 0xf0, 0x58]"
    by code_simp+
  show ?thesis
    by (simp add: world_enc_def world_head_def world_tail_def root_enc_def id_enc_def id_public_def
        default_planet_def root_alice_def root_bob_def endpoint_enc a ZT_DEFAULT_WORLD_def)
qed

section \<open>The constructor\<close>

lemma length_default_world: "length ZT_DEFAULT_WORLD = 634"
  by (simp add: ZT_DEFAULT_WORLD_def)

lemma default_planet_parse:
  assumes "env_ok e"
  shows "world_parse (take 634 (te_mem e)) ZT_DEFAULT_WORLD = Inr default_planet"
proof -
  let ?b = "\<lparr>b_data = ZT_DEFAULT_WORLD, b_len = 634\<rparr>"
  have m: "length (take 634 (te_mem e)) = 634" using assms by (simp add: env_ok_def)
  have "has ?b 0 (world_enc default_planet)"
    by (simp add: has_def b_content_def default_planet_enc length_default_world)
  moreover have "buf_ok ?b" by (simp add: buf_ok_def b_cap_def length_default_world)
  ultimately have "world_deserialize ?b 0 = Inr (default_planet, of_nat (length (world_enc default_planet)))"
    by (rule world_deserialize_enc [OF default_planet_ok, rotated])
  then show ?thesis
    using world_parse_buf(1) [of ZT_DEFAULT_WORLD "take 634 (te_mem e)"] m by (simp add: length_default_world)
qed

lemma topo_null_consistent: "topo_consistent e (topo_null key0 sig0)"
  by (simp add: topo_consistent_def topo_null_def world_new_def all_roots_def is_root_def)

text \<open>The state after the stored planet was tried: still none, or a planet.\<close>

lemma stored_planet:
  assumes e: "env_ok e" and w: "world_shape w"
  shows "\<exists>t ev ok. addWorld e w False (topo_null key0 sig0) = Inr (ok, t, ev) \<and> topo_consistent e t \<and>
    wo_type (tp_planet t) \<in> {TYPE_NULL, TYPE_PLANET}"
proof -
  let ?t = "topo_null key0 sig0"
  from addWorld_law [OF e w topo_null_consistent, of False key0 sig0] obtain ok t ev where
    t: "addWorld e w False ?t = Inr (ok, t, ev)" "topo_consistent e t" "if ok then world_added e w False ?t t else t = ?t"
    by blast
  have "wo_type (tp_planet ?t) = TYPE_NULL" by (simp add: topo_null_def world_new_def)
  with t(3) have "wo_type (tp_planet t) \<in> {TYPE_NULL, TYPE_PLANET}" by (cases ok) (auto simp: world_added_def)
  with t show ?thesis by blast
qed

lemma topo_new_law:
  assumes e: "env_ok e" and stored: "length stored \<le> ZT_WORLD_MAX_SERIALIZED_LENGTH"
  shows "\<exists>t ev. topo_new e key0 sig0 stored = Inr (t, ev) \<and> topo_consistent e t \<and>
    wo_type (tp_planet t) = TYPE_PLANET \<and> wo_id (tp_planet t) \<noteq> 0 \<and>
    (stored = [] \<longrightarrow> tp_planet t = default_planet) \<and> (stored = [] \<longrightarrow> tp_moons t = [])"
proof -
  let ?t = "topo_null key0 sig0"
  let ?first = "if stored = [] then Inr (?t, []) else case world_parse (te_mem e) stored of
      Inl UndefinedBehaviour \<Rightarrow> Inl UndefinedBehaviour | Inl _ \<Rightarrow> Inr (?t, [])
    | Inr w \<Rightarrow> res_bind (addWorld e w False ?t) (\<lambda>(_, t, ev). Inr (t, ev))"
  have null: "wo_type (tp_planet ?t) = TYPE_NULL" by (simp add: topo_null_def world_new_def)
  have "res_all world_shape (world_parse (te_mem e) stored)"
    using e stored by (intro world_parse_safe) (simp_all add: env_ok_def)
  then have "\<exists>t ev. ?first = Inr (t, ev) \<and> topo_consistent e t \<and> wo_type (tp_planet t) \<in> {TYPE_NULL, TYPE_PLANET} \<and> (stored = [] \<longrightarrow> t = ?t)"
    using topo_null_consistent [of e key0 sig0] null stored_planet [OF e, of _ key0 sig0]
    by (cases "world_parse (te_mem e) stored") (auto split: zt_error.splits, fastforce)
  then obtain t1 ev1 where t1: "?first = Inr (t1, ev1)" "topo_consistent e t1" "wo_type (tp_planet t1) \<in> {TYPE_NULL, TYPE_PLANET}"
    "stored = [] \<longrightarrow> t1 = ?t"
    by blast
  have d: "world_shape default_planet" "wo_type default_planet = TYPE_PLANET" "wo_id default_planet \<noteq> 0"
    using default_planet_ok by (simp_all add: world_ok_def, simp_all add: default_planet_def)
  from addWorld_planet [OF e d(1,2) t1(2), of False] obtain t2 ev2 ok where
    t2: "addWorld e default_planet False t1 = Inr (ok, t2, ev2)" "topo_consistent e t2"
    "tp_planet t2 = (if world_follows (te_crypto e) (tp_planet t1) default_planet then default_planet else tp_planet t1)"
    "tp_moons t2 = tp_moons t1"
    by blast
  have "topo_new e key0 sig0 stored = Inr (t2, ev1 @ ev2)"
    using t1(1) t2(1) default_planet_parse [OF e] by (simp add: topo_new_def Let_def)
  moreover have "stored = [] \<longrightarrow> tp_planet t2 = default_planet" using t1(4) t2(3) null by (simp add: world_follows_def)
  moreover have "stored = [] \<longrightarrow> tp_moons t2 = []" using t1(4) t2(4) by (simp add: topo_null_def)
  moreover have "wo_type (tp_planet t2) = TYPE_PLANET \<and> wo_id (tp_planet t2) \<noteq> 0"
    using t2(3) t1(3) d by (auto simp: world_follows_def split: if_splits)
  ultimately show ?thesis using t2(2) by blast
qed

text \<open>
  C6. The planet is authentic.  The constructor always succeeds, whatever bytes the node has stored, and
  gives a planet, the one compiled into the program if none is stored.  From then on no sequence of
  operations fails, and the planet after it descends from the first one by a chain of updates, each of
  the same id, newer than the one before and signed with the key that the one before names: an older
  or an unsigned planet is never accepted.
\<close>

theorem planet_updates_authentic:
  assumes "env_ok e" "length stored \<le> ZT_WORLD_MAX_SERIALIZED_LENGTH" "\<forall>op \<in> set ops. op_ok op"
  shows "\<exists>t ev t'. topo_new e key0 sig0 stored = Inr (t, ev) \<and> wo_type (tp_planet t) = TYPE_PLANET \<and>
    (stored = [] \<longrightarrow> tp_planet t = default_planet) \<and> topo_run e ops t = Inr t' \<and>
    world_chain (te_crypto e) (tp_planet t) (tp_planet t') \<and> wo_id (tp_planet t') = wo_id (tp_planet t) \<and>
    wo_ts (tp_planet t) \<le> wo_ts (tp_planet t')"
proof -
  from topo_new_law [OF assms(1,2), of key0 sig0] obtain t ev where
    t: "topo_new e key0 sig0 stored = Inr (t, ev)" "topo_consistent e t" "wo_type (tp_planet t) = TYPE_PLANET" "wo_id (tp_planet t) \<noteq> 0"
    "stored = [] \<longrightarrow> tp_planet t = default_planet"
    by blast
  have "wo_type (tp_planet t) \<noteq> TYPE_NULL" using t(3) by simp
  from topo_run_law [OF assms(1) t(4) this assms(3) t(2) chain_refl] obtain t' where
    "topo_run e ops t = Inr t'" "world_chain (te_crypto e) (tp_planet t) (tp_planet t')"
    by blast
  with t world_chain_facts [OF this(2)] show ?thesis by blast
qed

definition world_crypto :: crypto where
  "world_crypto = \<lparr>cr_sign = (\<lambda>_ pub _. replicate 96 (pub ! 0)), cr_verify = (\<lambda>pub _ sig. sig = replicate 96 (pub ! 0)),
     cr_agree = (\<lambda>_ _ n. replicate n 0), cr_memhash = (\<lambda>_. replicate 64 0)\<rparr>"

definition sample_topo_env :: topo_env where
  "sample_topo_env = \<lparr>te_self = \<lparr>id_address = Address 5, id_publicKey = replicate 64 1, id_privateKey = Some (replicate 64 2)\<rparr>,
     te_crypto = world_crypto, te_mem = replicate 8480 0\<rparr>"

definition sample_ops :: "topo_op list" where
  "sample_ops = [AddWorld (default_planet\<lparr>wo_ts := 0x164d371f059, wo_signature := replicate 96 0xb8\<rparr>) False,
     AddMoon [1, 2, 3] 7 (Address 9), RemoveMoon 7]"

lemma topo_samples_ok: "env_ok sample_topo_env" "\<forall>op \<in> set sample_ops. op_ok op"
  using default_planet_ok by (simp_all add: env_ok_def sample_topo_env_def id_hasPrivate_def sample_ops_def world_ok_def world_shape_def)

theorem planet_updates_authentic_witness:
  "\<exists>t ev t'. topo_new sample_topo_env [] [] [] = Inr (t, ev) \<and> tp_planet t = default_planet \<and>
    topo_run sample_topo_env sample_ops t = Inr t' \<and> world_chain world_crypto default_planet (tp_planet t')"
proof -
  have c: "te_crypto sample_topo_env = world_crypto" by (simp add: sample_topo_env_def)
  from planet_updates_authentic [OF topo_samples_ok(1) _ topo_samples_ok(2), of "[]" "[]" "[]"] c show ?thesis by auto
qed

text \<open>
  C39. The upstreams are those of the current worlds.  After the constructor and any sequence of
  operations, the memoized list holds exactly the addresses of the planet's and the moons' roots other
  than the node itself, sorted and without repetition, each with a peer; the node counts as upstream
  exactly if it is one of the roots; an upstream has the role planet exactly if a root of the planet
  has its address, the role moon exactly if it is a root of a moon and no root of the planet, and a
  leaf is exactly an address that is not in the list; and an endpoint is prohibited exactly for an
  upstream none of whose entries allows it.
\<close>

theorem upstreams_consistent:
  assumes "env_ok e" "length stored \<le> ZT_WORLD_MAX_SERIALIZED_LENGTH" "\<forall>op \<in> set ops. op_ok op"
  shows "\<exists>t ev t'. topo_new e key0 sig0 stored = Inr (t, ev) \<and> topo_run e ops t = Inr t' \<and>
    sorted (tp_upstreamAddresses t') \<and> distinct (tp_upstreamAddresses t') \<and>
    set (tp_upstreamAddresses t') = others e (all_roots t') \<and>
    (\<forall>a \<in> others e (all_roots t'). getPeerNoCache a t' \<noteq> None) \<and>
    tp_amUpstream t' = (\<exists>r \<in> set (all_roots t'). id_eq (ro_identity r) (te_self e)) \<and>
    (\<forall>a. topo_role a t' = ROLE_PLANET \<longleftrightarrow>
      a \<in> others e (all_roots t') \<and> (\<exists>r \<in> set (wo_roots (tp_planet t')). id_address (ro_identity r) = a)) \<and>
    (\<forall>a. topo_role a t' = ROLE_MOON \<longleftrightarrow>
      a \<in> others e (concat (map wo_roots (tp_moons t'))) \<and>
      \<not> (\<exists>r \<in> set (wo_roots (tp_planet t')). id_address (ro_identity r) = a)) \<and>
    (\<forall>a. topo_role a t' = ROLE_LEAF \<longleftrightarrow> a \<notin> others e (all_roots t')) \<and>
    (\<forall>a ip. isProhibitedEndpoint a ip t' \<longleftrightarrow>
      a \<in> others e (all_roots t') \<and> \<not> (\<exists>r \<in> set (all_roots t'). endpoint_allowed a ip r))"
proof -
  from topo_new_law [OF assms(1,2), of key0 sig0] obtain t ev where
    t: "topo_new e key0 sig0 stored = Inr (t, ev)" "topo_consistent e t" "wo_type (tp_planet t) \<noteq> TYPE_NULL" "wo_id (tp_planet t) \<noteq> 0"
    by auto
  from topo_run_law [OF assms(1) t(4,3) assms(3) t(2) chain_refl] obtain t' where
    t': "topo_run e ops t = Inr t'" "topo_consistent e t'"
    by blast
  have ups: "set (tp_upstreamAddresses t') = others e (all_roots t')" using t'(2) by (simp add: topo_consistent_def)
  note roles = topo_roles [OF ups]
  have "isProhibitedEndpoint a ip t' \<longleftrightarrow>
      a \<in> others e (all_roots t') \<and> \<not> (\<exists>r \<in> set (all_roots t'). endpoint_allowed a ip r)" for a ip
    by (simp add: isProhibitedEndpoint_iff ups)
  with roles show ?thesis
    using t(1) t' ups by (intro exI [of _ t] exI [of _ ev] exI [of _ t']) (simp add: topo_consistent_def is_root_def getPeerNoCache_def)
qed

definition sample_moon :: world where
  "sample_moon = sample_world\<lparr>wo_roots := [\<lparr>ro_identity = \<lparr>id_address = Address 6, id_publicKey = replicate 64 3,
     id_privateKey = None\<rparr>, ro_stableEndpoints = []\<rparr>]\<rparr>"

lemma sample_moon_ok: "op_ok (AddWorld sample_moon True)" "world_shape sample_moon" "wo_type sample_moon = TYPE_MOON"
  by (simp_all add: sample_moon_def sample_world_def world_shape_def root_shape_def id_ok_def addr_ok_def)

theorem upstreams_consistent_witness:
  "\<exists>t ev t'. topo_new sample_topo_env [] [] [] = Inr (t, ev) \<and>
    topo_run sample_topo_env [AddWorld sample_moon True] t = Inr t' \<and>
    tp_planet t' = default_planet \<and> tp_moons t' = [sample_moon] \<and>
    set (tp_upstreamAddresses t') = {Address 0x9d219039f3, Address 0x8841408a2e, Address 6} \<and>
    topo_role (Address 0x9d219039f3) t' = ROLE_PLANET \<and> topo_role (Address 6) t' = ROLE_MOON \<and>
    topo_role (Address 5) t' = ROLE_LEAF"
proof -
  let ?e = sample_topo_env and ?ops = "[AddWorld sample_moon True]"
  have ops: "\<forall>op \<in> set ?ops. op_ok op" using sample_moon_ok(1) by simp
  from upstreams_consistent [OF topo_samples_ok(1) _ ops, of "[]" "[]" "[]"] obtain t ev t' where
    t: "topo_new ?e [] [] [] = Inr (t, ev)" "topo_run ?e ?ops t = Inr t'"
    and ups: "set (tp_upstreamAddresses t') = others ?e (all_roots t')"
    and planet: "\<forall>a. topo_role a t' = ROLE_PLANET \<longleftrightarrow>
      a \<in> others ?e (all_roots t') \<and> (\<exists>r \<in> set (wo_roots (tp_planet t')). id_address (ro_identity r) = a)"
    and moon: "\<forall>a. topo_role a t' = ROLE_MOON \<longleftrightarrow>
      a \<in> others ?e (concat (map wo_roots (tp_moons t'))) \<and>
      \<not> (\<exists>r \<in> set (wo_roots (tp_planet t')). id_address (ro_identity r) = a)"
    and leaf: "\<forall>a. topo_role a t' = ROLE_LEAF \<longleftrightarrow> a \<notin> others ?e (all_roots t')"
    by auto
  have t0: "tp_planet t = default_planet" "tp_moons t = []"
    using topo_new_law [OF topo_samples_ok(1), of "[]" "[]" "[]"] t(1) by auto
  obtain t1 where t1: "world_accepted ?e sample_moon (t\<lparr>tp_moons := [sample_moon]\<rparr>) =
      Inr (True, t1, [StatePut (wo_type sample_moon) (wo_id sample_moon) (world_enc sample_moon)])"
    "tp_planet t1 = default_planet" "tp_moons t1 = [sample_moon]"
    using world_accepted_law [OF topo_samples_ok(1) sample_moon_ok(2), of "t\<lparr>tp_moons := [sample_moon]\<rparr>"] t0
    by (auto simp: topo_same_def)
  have "t' = t1" using t(2) t0 t1(1) sample_moon_ok(3) by (simp add: addWorld_def)
  with t1 have worlds: "tp_planet t' = default_planet" "tp_moons t' = [sample_moon]" by simp_all
  have addrs: "id_address (ro_identity root_alice) = Address 0x9d219039f3" "id_address (ro_identity root_bob) = Address 0x8841408a2e"
    by (simp_all add: root_alice_def root_bob_def)
  then have roots: "others ?e (wo_roots default_planet) = {Address 0x9d219039f3, Address 0x8841408a2e}"
    "others ?e (wo_roots sample_moon) = {Address 6}"
    and of_planet: "(\<exists>r \<in> set (wo_roots default_planet). id_address (ro_identity r) = a) \<longleftrightarrow>
      a = Address 0x9d219039f3 \<or> a = Address 0x8841408a2e" for a
    by (auto simp: default_planet_def sample_moon_def id_eq_def sample_topo_env_def)
  then have all: "others ?e (all_roots t') = {Address 0x9d219039f3, Address 0x8841408a2e, Address 6}"
    by (auto simp: all_roots_def worlds)
  have "topo_role (Address 0x9d219039f3) t' = ROLE_PLANET"
    using planet by (simp only: all worlds of_planet) simp
  moreover have "topo_role (Address 6) t' = ROLE_MOON"
    using moon by (simp only: worlds of_planet) (simp add: roots(2))
  moreover have "topo_role (Address 5) t' = ROLE_LEAF"
    using leaf by (simp only: all) simp
  ultimately show ?thesis using t worlds ups all by auto
qed

end
