(* ===== verification/Spec2Isabelle.thy ===== *)
theory Spec2Isabelle
  imports Ring_Buffer Inet_Laws Zt_Dictionary Zt_Hashtable Membership_Laws
    Filter_Semantics Salsa_Sse Reassembly Default_Planet
begin

text \<open>
  Verification development for \<^verbatim>\<open>libzt\<close>: the ZeroTier virtual network engine
  (\<^verbatim>\<open>src/libzt/ext/ZeroTierOne/node\<close>, written \<^verbatim>\<open>node/\<close> below) and the socket library around it
  (\<^verbatim>\<open>src/libzt/src\<close>).

  \<^bold>\<open>The program.\<close>  A node has an identity (a 40-bit address with its keys) and joins virtual
  Ethernet networks.  A network's controller issues a configuration and signed credentials:
  certificates of membership, tags, capabilities, certificates of ownership and revocations.  Members
  exchange these, keep what they know of each other in a membership object, and pass every frame
  through the rule engine, which consults the configuration's rules, the frame and both sides'
  credentials.  Frames and control messages travel in packets that are encrypted and authenticated
  with a key shared by the two nodes, and that are cut into fragments when they exceed the path's
  MTU.  Everything that crosses the wire is written to and parsed from a bounded byte buffer.
  A node finds others through root servers, listed in a signed planet and in moons.
  \<^verbatim>\<open>libzt\<close> puts a user-space TCP/IP stack and a socket API on top.

  \<^bold>\<open>Conventions.\<close>  Machine integers are words and wrap where the code's do; \<open>int64_t\<close> is a 64-bit word
  read with \<open>sint\<close>, and a signed overflow is an error value.  Fallible code returns \<open>'a res\<close>: \<open>Inl\<close> of
  the exception the code throws, or of \<open>UndefinedBehaviour\<close> for what the language leaves undefined
  (access outside an array, over-wide shifts).  A C array is a list of its full length, uninitialised
  memory is an argument, and a function that changes its object returns the changed record.  The
  platform is LP64, little endian.  Where the preprocessor selects a branch by the processor, Poly1305
  is the x86-64 branch and Salsa20 is modelled in both branches, the portable one and the SSE2 one that
  x86-64 takes; the theories above them use the portable one, which gives the same bytes.

  \<^bold>\<open>Theories and sources.\<close>

    \<^item> \<open>Zt_Prelude\<close>: words, errors, result monad, arrays, byte orders; the shared lemmas and
      collections.  \<open>Zt_Utils\<close>: \<^verbatim>\<open>node/Utils.hpp\<close>, \<^verbatim>\<open>Utils.cpp\<close>.
    \<^item> \<open>Ring_Buffer\<close>: \<^verbatim>\<open>src/RingBuffer.cpp\<close>.  The contract \<open>bounded_fifo\<close> and its interpretation on the
      code: any run of writes and reads is that of a bounded queue.
    \<^item> \<open>Zt_Buffer\<close>: \<^verbatim>\<open>node/Buffer.hpp\<close>, with the vocabulary of the wire formats (\<open>appends\<close>, \<open>has\<close>, locale
      \<open>wire_format\<close>); no sequence of operations leaves the array.  \<open>Zt_Wire\<close>: readers and writers shared
      by the formats.
    \<^item> \<open>Zt_Address\<close>: \<^verbatim>\<open>node/Address.hpp\<close>, \<^verbatim>\<open>MAC.hpp\<close>.  \<open>Inet_Address\<close>, \<open>Inet_Laws\<close>: \<^verbatim>\<open>node/InetAddress.cpp\<close>; text and
      wire round trips, the order, netmasks and containment.
    \<^item> \<open>Zt_Dictionary\<close>: \<^verbatim>\<open>node/Dictionary.hpp\<close>; what \<open>add\<close> stored, \<open>get\<close> returns.
    \<^item> \<open>Zt_Hashtable\<close>: \<^verbatim>\<open>node/Hashtable.hpp\<close>; the contracts \<open>kv_store\<close> and \<open>map_impl\<close>, and the refinement of a
      finite map by the buckets, growth and failed allocations included.
    \<^item> \<open>Zt_Identity\<close>: \<^verbatim>\<open>node/Identity.cpp\<close>.  \<open>Zt_Com\<close>: \<^verbatim>\<open>node/CertificateOfMembership.cpp\<close>.  \<open>Zt_Credentials\<close>,
      \<open>Zt_Credential_Laws\<close>: \<^verbatim>\<open>Tag\<close>, \<^verbatim>\<open>CertificateOfOwnership\<close>, \<^verbatim>\<open>Revocation\<close>, through the locale
      \<open>signed_credential\<close>.  \<open>Zt_Rules\<close>, \<open>Zt_Rule_Laws\<close>, \<open>Zt_Capability\<close>: the rule union, its wire format and
      \<^verbatim>\<open>node/Capability.cpp\<close>, with the chain of custody.
    \<^item> \<open>Network_Config\<close>: \<^verbatim>\<open>node/NetworkConfig.hpp\<close>.  \<open>Zt_Membership\<close>, \<open>Membership_Laws\<close>: \<^verbatim>\<open>node/Membership.cpp\<close>;
      the states reachable by accepted credentials (locale \<open>credential_store\<close>), authenticity, permanence
      of revocations, cleaning.
    \<^item> \<open>Zt_Filter\<close>: \<open>_doZtFilter\<close> of \<^verbatim>\<open>node/Network.cpp\<close>.  \<open>Filter_Laws\<close>: the walk over IPv6 headers and the
      conditions under which every match is defined.  \<open>Filter_Semantics\<close>: clauses and the verdict the
      loop computes.  The binary search for the node's own tags is the library's; on tags sorted by id it
      finds the tag of an id (\<open>local_tag_sorted\<close>).
    \<^item> \<open>Zt_Salsa\<close>: the portable branch of \<^verbatim>\<open>node/Salsa20.cpp\<close>.  \<open>Salsa_Sse\<close>: its SSE2 branch, a refinement of the
      portable one on a reordered state.  \<open>Zt_Poly1305\<close>, \<open>Poly1305_Laws\<close>: \<^verbatim>\<open>node/Poly1305.cpp\<close>.  Cipher and
      authenticator equal the published definitions, stated over words and over natural numbers.
    \<^item> \<open>Zt_Packet\<close>, \<open>Packet_Laws\<close>: \<^verbatim>\<open>node/Packet.hpp\<close>, \<^verbatim>\<open>Packet.cpp\<close>; what \<open>armor\<close> and \<open>dearmor\<close> compute and
      that they are inverse across builds and hops.
    \<^item> \<open>Zt_Switch\<close>: \<^verbatim>\<open>node/Switch.cpp\<close>; sending over a path and receiving a datagram.  \<open>Switch_Laws\<close>: which
      datagrams a packet is sent as.  \<open>Reassembly\<close>: the invariant of the receive queue, and that a packet
      sent in fragments is delivered once and opens to what was sent.
    \<^item> \<open>Zt_World\<close>: \<^verbatim>\<open>node/World.hpp\<close>; its wire format, composed from those of identities and addresses, and
      which updates a world authorises.  \<open>Zt_Topology\<close>: \<^verbatim>\<open>node/Topology.cpp\<close>; planet, moons, upstreams, the
      table of peers and the configuration of paths.  \<open>Topology_Laws\<close>: the state machine of its operations.
      \<open>Default_Planet\<close>: the compiled-in planet, the constructor, and that the planet only changes along
      signed updates and the upstreams follow it.

  \<^bold>\<open>Bounds and fuel.\<close>  Loops are structural or have a termination proof with a measure, except one: the
  loop of \<open>Membership::_cleanCredImpl\<close>, which erases from the table it iterates over, has a step bound
  (\<open>clean_loop\<close>, \<open>None\<close> if it has not ended).  The bound is one more than the entries of the table;
  \<open>cleanCredImpl_law\<close> and the property of \<open>mem_clean\<close> show that the loop ends within it.  Capacities are the code's template arguments; lemmas about buffers only ask that they fit
  in 31 bits, those about packets fix \<open>ZT_PROTO_MAX_PACKET_LENGTH\<close>.

  \<^bold>\<open>Assumed.\<close>  Signatures are a parameter \<open>crypto\<close> with the law that a signature made with a secret key
  verifies under its public key; the assembly key stream routine computes Salsa20/12 (\<open>fast_ok\<close>); LZ4 and
  the random number source are arguments.

  \<^bold>\<open>Not modelled.\<close>  Curve25519, Ed25519 and SHA-512 arithmetic; the blocked loops of \<open>memxor\<close> and the 32-bit build
  of Poly1305; the LZ4 codec; the saving of peers to the node's storage; the verb handlers, peers, paths and multicast, which are timers and
  socket I/O around shared objects, and the operations of the switch that go through them (choice of a
  path, \<open>requestWhois\<close>, \<open>doTimerTasks\<close>, \<open>onLocalEthernet\<close>); the controller, the service, the operating system layer and the
  socket wrappers, which are I/O; lwIP and the other third-party libraries; the Android application.
  Locks and threads are not modelled: each operation is one step.
\<close>

end
